(* ===== verification/Prelude.thy ===== *)
theory Prelude
  imports Main "HOL-Library.AList" "HOL-Library.Multiset" "HOL-Library.Word"
begin

text \<open>
  Shared vocabulary of the development: Python exceptions as values, the result type that
  every fallible operation returns, and dictionaries with insertion order.

  A Python function that may raise is a HOL function into \<open>'a res\<close>: \<open>Inl e\<close> is the
  exception \<open>e\<close>, \<open>Inr x\<close> the normal return. Sequencing is \<open>rbind\<close>, which skips the
  rest of the body after an exception exactly as Python does.
\<close>

section \<open>Exceptions and results\<close>

datatype py_error =
    AssertionError
  | AttributeError
  | IndexError
  | KeyError
  | ValueError
  | ZeroDivisionError
  | StructError
  | UnicodeError
  | TypeError
  | OSError
  | OverflowError
  | RuntimeError
  | CircuitOpen
  | Diverges

text \<open>\<open>CircuitOpen\<close> is \<^verbatim>\<open>CircuitOpenError\<close> of \<^verbatim>\<open>circuit_breaker.py\<close> when it leaves a script uncaught.
  \<open>Diverges\<close> is not an exception: it marks an argument on which the modelled loop of the source never ends.\<close>

type_synonym 'a res = "py_error + 'a"

primrec rbind :: "'e + 'a \<Rightarrow> ('a \<Rightarrow> 'e + 'b) \<Rightarrow> 'e + 'b" where
  "rbind (Inl e) f = Inl e"
| "rbind (Inr x) f = f x"

named_theorems res_simps \<open>rewrite rules that run result-valued code\<close>

lemma rbind_eq_Inr [res_simps]: "rbind m f = Inr y \<longleftrightarrow> (\<exists>x. m = Inr x \<and> f x = Inr y)"
  by (cases m) auto

lemma rbind_eq_Inl [res_simps]:
  "rbind m f = Inl e \<longleftrightarrow> m = Inl e \<or> (\<exists>x. m = Inr x \<and> f x = Inl e)"
  by (cases m) auto

lemma rbind_assoc: "rbind (rbind m f) g = rbind m (\<lambda>x. rbind (f x) g)"
  by (cases m) auto

lemma rbind_Inr_right [simp]: "rbind m Inr = m"
  by (cases m) auto

lemma rbind_cong [fundef_cong]:
  "m = m' \<Longrightarrow> (\<And>x. m' = Inr x \<Longrightarrow> f x = f' x) \<Longrightarrow> rbind m f = rbind m' f'"
  by (cases m') auto

text \<open>\<open>assert c\<close> of the source.\<close>

definition py_assert :: "bool \<Rightarrow> unit res" where
  "py_assert c = (if c then Inr () else Inl AssertionError)"

lemma py_assert_eq [res_simps]:
  "py_assert c = Inr u \<longleftrightarrow> c" "py_assert c = Inl e \<longleftrightarrow> \<not> c \<and> e = AssertionError"
  by (auto simp: py_assert_def)

section \<open>Dictionaries\<close>

text \<open>
  A Python dict is an association list with distinct keys in insertion order: assigning to a
  present key keeps its place, a new key goes to the end (\<open>AList.update\<close>), \<open>del\<close> removes
  the binding (\<open>AList.delete\<close>), \<open>d.get(k)\<close> is \<open>map_of d k\<close> and \<open>len(d)\<close> is the length.
\<close>

type_synonym ('k, 'v) dict = "('k \<times> 'v) list"

abbreviation dict_wf :: "('k, 'v) dict \<Rightarrow> bool" where
  "dict_wf d \<equiv> distinct (map fst d)"

abbreviation dict_keys :: "('k, 'v) dict \<Rightarrow> 'k list" where
  "dict_keys d \<equiv> map fst d"

definition dict_get :: "('k, 'v) dict \<Rightarrow> 'k \<Rightarrow> 'v \<Rightarrow> 'v" where
  "dict_get d k dflt = (case map_of d k of None \<Rightarrow> dflt | Some v \<Rightarrow> v)"

text \<open>\<open>d[k]\<close> as an expression and \<open>del d[k]\<close>: both raise \<open>KeyError\<close> on a missing key.\<close>

definition dict_lookup :: "('k, 'v) dict \<Rightarrow> 'k \<Rightarrow> 'v res" where
  "dict_lookup d k = (case map_of d k of None \<Rightarrow> Inl KeyError | Some v \<Rightarrow> Inr v)"

definition dict_del :: "('k, 'v) dict \<Rightarrow> 'k \<Rightarrow> ('k, 'v) dict res" where
  "dict_del d k = (case map_of d k of None \<Rightarrow> Inl KeyError | Some _ \<Rightarrow> Inr (AList.delete k d))"

lemma dict_get_update [simp]:
  "dict_get (AList.update k v d) k' dflt = (if k' = k then v else dict_get d k' dflt)"
  by (auto simp: dict_get_def update_conv')

lemma dict_lookup_update [simp]:
  "dict_lookup (AList.update k v d) k' = (if k' = k then Inr v else dict_lookup d k')"
  by (auto simp: dict_lookup_def update_conv')

lemma delete_eq_filter: "AList.delete k d = filter (\<lambda>p. fst p \<noteq> k) d"
  by (induction d) auto

lemma dict_wf_delete [simp]: "dict_wf d \<Longrightarrow> dict_wf (AList.delete k d)"
  by (rule distinct_delete)

lemma keys_delete: "dict_keys (AList.delete k d) = filter (\<lambda>x. x \<noteq> k) (dict_keys d)"
  by (induction d) (auto simp: delete_eq_filter)

lemma length_delete_mem:
  "dict_wf d \<Longrightarrow> k \<in> set (dict_keys d) \<Longrightarrow> Suc (length (AList.delete k d)) = length d"
proof (induction d)
  case (Cons p d)
  show ?case
  proof (cases "fst p = k")
    case True
    with Cons.prems(1) have "k \<notin> set (dict_keys d)" by auto
    then have "AList.delete k d = d"
      by (simp add: delete_eq_filter filter_id_conv) force
    with True show ?thesis by (simp add: delete_eq_filter)
  next
    case False
    with Cons show ?thesis by (simp add: delete_eq_filter)
  qed
qed simp

lemma delete_notin [simp]: "k \<notin> set (dict_keys d) \<Longrightarrow> AList.delete k d = d"
  by (simp add: delete_eq_filter filter_id_conv) force

lemma update_notin: "k \<notin> set (dict_keys d) \<Longrightarrow> AList.update k v d = d @ [(k, v)]"
  by (induction d) auto

lemma map_of_eq_None_keys: "map_of d k = None \<longleftrightarrow> k \<notin> set (dict_keys d)"
  by (simp add: map_of_eq_None_iff)

section \<open>Keeping the most recent distinct entries\<close>

text \<open>
  Moving an entry to the front and cutting at \<open>n\<close> commute with cutting first, as long as the
  entry to move is inside the cut or is new: the heart of every bounded recency structure.
\<close>

lemma take_delete_take:
  "dict_wf d \<Longrightarrow> take m (AList.delete k (take (Suc m) d)) = take m (AList.delete k d)"
proof (induction d arbitrary: m)
  case (Cons p d)
  show ?case
  proof (cases "fst p = k")
    case True
    with Cons.prems have "k \<notin> set (dict_keys d)" by auto
    moreover from this have "k \<notin> set (dict_keys (take m d))"
      by (auto dest: in_set_takeD)
    ultimately show ?thesis
      using True delete_notin [of k d] delete_notin [of k "take m d"]
      by (simp add: delete_eq_filter)
  next
    case False
    with Cons show ?thesis by (cases m) (simp_all add: delete_eq_filter)
  qed
qed simp

lemma take_front_delete:
  assumes "0 < n" "dict_wf d"
  shows "take n ((k, v) # AList.delete k (take n d)) = take n ((k, v) # AList.delete k d)"
proof -
  obtain m where "n = Suc m" using assms(1) by (cases n) auto
  with assms(2) take_delete_take [of d m k] show ?thesis by simp
qed

section \<open>Step relations\<close>

text \<open>
  What the concurrent components share: an invariant kept by every step of any thread holds in all reachable states;
  with a measure that every step lowers, runs are finite and end in a state where nothing can move.
\<close>

lemma count_list_replicate: "count_list (replicate n x) y = (if x = y then n else 0)"
  by (induction n) auto

lemma sum_update_less:
  "i < length xs \<Longrightarrow> f y < f (xs ! i) \<Longrightarrow> sum_list (map f (xs[i := y])) < (sum_list (map f xs) :: nat)"
proof (induction xs arbitrary: i)
  case (Cons x xs)
  then show ?case by (cases i) auto
qed simp

locale step_invariant =
  fixes step :: "'s \<Rightarrow> 's \<Rightarrow> bool" and inv :: "'s \<Rightarrow> bool"
  assumes preserved: "step s s' \<Longrightarrow> inv s \<Longrightarrow> inv s'"
begin

lemma reach_inv: "step\<^sup>*\<^sup>* s s' \<Longrightarrow> inv s \<Longrightarrow> inv s'"
  by (induction rule: rtranclp_induct) (auto intro: preserved)

end

locale step_progress = step_invariant +
  fixes work :: "'s \<Rightarrow> nat"
  assumes less_work: "step s s' \<Longrightarrow> inv s \<Longrightarrow> work s' < work s"
begin

lemma terminates: "inv s0 \<Longrightarrow> wfp (\<lambda>s' s. step\<^sup>*\<^sup>* s0 s \<and> step s s')"
  by (rule wfp_if_convertible_to_nat [of _ work]) (use reach_inv less_work in blast)

lemma reaches_end:
  assumes "inv s0"
  shows "\<exists>s. step\<^sup>*\<^sup>* s0 s \<and> inv s \<and> (\<nexists>s'. step s s')"
proof -
  have "s0 \<in> {s. step\<^sup>*\<^sup>* s0 s}" by simp
  from terminates [OF assms, unfolded wfp_eq_minimal, rule_format, OF this] obtain s where s: "step\<^sup>*\<^sup>* s0 s"
    "\<And>s'. step\<^sup>*\<^sup>* s0 s \<and> step s s' \<Longrightarrow> \<not> step\<^sup>*\<^sup>* s0 s'" by auto
  then have "\<nexists>s'. step s s'" by (auto intro: rtranclp.rtrancl_into_rtrancl)
  with s(1) reach_inv [OF s(1) assms] show ?thesis by blast
qed

end

end
