(* ===== verification/Lru_Cache.thy ===== *)
theory Lru_Cache
  imports Prelude Complex_Main
begin

text \<open>
  \<^verbatim>\<open>operating_system/examples/lru_cache.py\<close>: a dictionary of nodes and a doubly linked list with
  two sentinels. The nodes live in an explicit store, because the correctness of
  \<^verbatim>\<open>_remove\<close> and \<^verbatim>\<open>_push_front\<close> is a matter of which pointer is written when. Dereferencing
  \<open>None\<close> is the exception Python raises. The invariant \<open>lru_ok\<close> says that the store
  holds a well-formed chain that agrees with the dictionary; the interface \<open>recency_cache\<close>
  states what a client may rely on, and the last section derives the recency theorem from it.
\<close>

section \<open>Nodes and the pointer store\<close>

type_synonym addr = nat

text \<open>Python's \<open>None\<close> in \<^verbatim>\<open>key\<close>, \<^verbatim>\<open>value\<close>, \<^verbatim>\<open>prev\<close> and \<^verbatim>\<open>next\<close> is the constructor \<open>None\<close>.\<close>

record ('k, 'v) lnode =
  key :: "'k option"
  val :: "'v option"
  prev :: "addr option"
  nxt :: "addr option"

type_synonym ('k, 'v) store = "addr \<rightharpoonup> ('k, 'v) lnode"

definition new_node :: "'k option \<Rightarrow> 'v option \<Rightarrow> ('k, 'v) lnode" where
  "new_node k v = \<lparr>key = k, val = v, prev = None, nxt = None\<rparr>"

definition deref :: "('k, 'v) store \<Rightarrow> addr option \<Rightarrow> ('k, 'v) lnode res" where
  "deref h p = (case Option.bind p h of None \<Rightarrow> Inl AttributeError | Some n \<Rightarrow> Inr n)"

definition set_next :: "('k, 'v) store \<Rightarrow> addr option \<Rightarrow> addr option \<Rightarrow> ('k, 'v) store res" where
  "set_next h p q = rbind (deref h p) (\<lambda>n. Inr (h(the p \<mapsto> n\<lparr>nxt := q\<rparr>)))"

definition set_prev :: "('k, 'v) store \<Rightarrow> addr option \<Rightarrow> addr option \<Rightarrow> ('k, 'v) store res" where
  "set_prev h p q = rbind (deref h p) (\<lambda>n. Inr (h(the p \<mapsto> n\<lparr>prev := q\<rparr>)))"

definition set_val :: "('k, 'v) store \<Rightarrow> addr option \<Rightarrow> 'v option \<Rightarrow> ('k, 'v) store res" where
  "set_val h p v = rbind (deref h p) (\<lambda>n. Inr (h(the p \<mapsto> n\<lparr>val := v\<rparr>)))"

section \<open>The cache\<close>

record ('k, 'v) lru =
  capacity :: int
  nodes :: "('k, addr) dict"
  store :: "('k, 'v) store"
  brk :: addr
  head :: addr
  tail :: addr
  hits :: nat
  misses :: nat
  evictions :: nat

text \<open>
  \<open>brk\<close> is the next unused address: \<^verbatim>\<open>_Node(...)\<close> allocates there. The lock is not part of the
  state: every public operation holds it for its whole body, so operations are atomic and the
  runs of any set of threads are the sequences of operations of the last section.
\<close>

definition lru_init :: "int \<Rightarrow> ('k, 'v) lru res" where
  "lru_init cap = rbind (py_assert (cap > 0)) (\<lambda>_.
     rbind (set_next [0 \<mapsto> new_node None None, 1 \<mapsto> new_node None None] (Some 0) (Some 1)) (\<lambda>h1.
     rbind (set_prev h1 (Some 1) (Some 0)) (\<lambda>h2.
     Inr \<lparr>capacity = cap, nodes = [], store = h2, brk = 2, head = 0, tail = 1,
           hits = 0, misses = 0, evictions = 0\<rparr>)))"

definition lru_remove :: "('k, 'v) store \<Rightarrow> addr \<Rightarrow> ('k, 'v) store res" where
  "lru_remove h a =
     rbind (deref h (Some a)) (\<lambda>n.
     rbind (set_next h (prev n) (nxt n)) (\<lambda>h1.
     rbind (deref h1 (Some a)) (\<lambda>n1.
     set_prev h1 (nxt n1) (prev n1))))"

definition lru_push_front :: "('k, 'v) store \<Rightarrow> addr \<Rightarrow> addr \<Rightarrow> ('k, 'v) store res" where
  "lru_push_front h hp a =
     rbind (set_prev h (Some a) (Some hp)) (\<lambda>h1.
     rbind (deref h1 (Some hp)) (\<lambda>n1.
     rbind (set_next h1 (Some a) (nxt n1)) (\<lambda>h2.
     rbind (deref h2 (Some hp)) (\<lambda>n2.
     rbind (set_prev h2 (nxt n2) (Some a)) (\<lambda>h3.
     set_next h3 (Some hp) (Some a))))))"

definition lru_get :: "('k, 'v) lru \<Rightarrow> 'k \<Rightarrow> 'v option \<Rightarrow> ('v option \<times> ('k, 'v) lru) res" where
  "lru_get c k dflt =
     (case map_of (nodes c) k of
        None \<Rightarrow> Inr (dflt, c\<lparr>misses := misses c + 1\<rparr>)
      | Some a \<Rightarrow>
          let c = c\<lparr>hits := hits c + 1\<rparr> in
          rbind (lru_remove (store c) a) (\<lambda>h1.
          rbind (lru_push_front h1 (head c) a) (\<lambda>h2.
          rbind (deref h2 (Some a)) (\<lambda>n.
          Inr (val n, c\<lparr>store := h2\<rparr>)))))"

definition lru_evict :: "('k, 'v) lru \<Rightarrow> ('k, 'v) lru res" where
  "lru_evict c =
     rbind (deref (store c) (Some (tail c))) (\<lambda>t.
     rbind (deref (store c) (prev t)) (\<lambda>n.
     rbind (lru_remove (store c) (the (prev t))) (\<lambda>h.
     (case key n of
        None \<Rightarrow> Inl KeyError
      | Some k \<Rightarrow> rbind (dict_del (nodes c) k) (\<lambda>m.
          Inr (c\<lparr>store := h, nodes := m, evictions := evictions c + 1\<rparr>))))))"

definition lru_put :: "('k, 'v) lru \<Rightarrow> 'k \<Rightarrow> 'v option \<Rightarrow> ('k, 'v) lru res" where
  "lru_put c k v =
     (case map_of (nodes c) k of
        Some a \<Rightarrow>
          rbind (set_val (store c) (Some a) v) (\<lambda>h0.
          rbind (lru_remove h0 a) (\<lambda>h1.
          rbind (lru_push_front h1 (head c) a) (\<lambda>h2.
          Inr (c\<lparr>store := h2\<rparr>))))
      | None \<Rightarrow>
          let a = brk c;
              c = c\<lparr>store := (store c)(a \<mapsto> new_node (Some k) v), brk := a + 1,
                    nodes := AList.update k a (nodes c)\<rparr> in
          rbind (lru_push_front (store c) (head c) a) (\<lambda>h.
          let c = c\<lparr>store := h\<rparr> in
          if int (length (nodes c)) > capacity c then lru_evict c else Inr c))"

definition lru_len :: "('k, 'v) lru \<Rightarrow> nat" where
  "lru_len c = length (nodes c)"

definition hit_ratio :: "('k, 'v) lru \<Rightarrow> rat" where
  "hit_ratio c = (let total = hits c + misses c in
     if total \<noteq> 0 then rat_of_nat (hits c) / rat_of_nat total else 0)"

text \<open>
  The walk of \<^verbatim>\<open>demo_thread_safety\<close>: follow \<^verbatim>\<open>next\<close> from the head until the tail sentinel,
  here collecting the nodes it counts. The loop could run for ever on a corrupted list, so the
  walk has fuel and \<open>None\<close> is a run that did not end; \<open>brk\<close>, the number of nodes ever
  allocated, is enough on every valid cache.
\<close>

fun lru_walk :: "nat \<Rightarrow> ('k, 'v) store \<Rightarrow> addr \<Rightarrow> addr option \<Rightarrow> addr list res option" where
  "lru_walk 0 h t p = None"
| "lru_walk (Suc fuel) h t p =
     (if p = Some t then Some (Inr [])
      else case deref h p of
        Inl e \<Rightarrow> Some (Inl e)
      | Inr n \<Rightarrow> map_option (\<lambda>r. rbind r (\<lambda>as. Inr (the p # as))) (lru_walk fuel h t (nxt n)))"

definition lru_addrs :: "('k, 'v) lru \<Rightarrow> addr list res option" where
  "lru_addrs c =
     (case deref (store c) (Some (head c)) of
        Inl e \<Rightarrow> Some (Inl e)
      | Inr n \<Rightarrow> lru_walk (brk c) (store c) (tail c) (nxt n))"

section \<open>Views of the store\<close>

definition nx :: "('k, 'v) store \<Rightarrow> addr \<Rightarrow> addr option" where
  "nx h a = Option.bind (h a) nxt"

definition pv :: "('k, 'v) store \<Rightarrow> addr \<Rightarrow> addr option" where
  "pv h a = Option.bind (h a) prev"

definition ky :: "('k, 'v) store \<Rightarrow> addr \<Rightarrow> 'k option" where
  "ky h a = Option.bind (h a) key"

definition vl :: "('k, 'v) store \<Rightarrow> addr \<Rightarrow> 'v option" where
  "vl h a = Option.bind (h a) val"

lemmas view_defs = nx_def pv_def ky_def vl_def

lemma set_next_ok:
  assumes "p \<in> dom h"
  shows "\<exists>h'. set_next h (Some p) q = Inr h' \<and> nx h' = (nx h)(p := q) \<and> pv h' = pv h \<and>
    ky h' = ky h \<and> vl h' = vl h \<and> dom h' = dom h"
proof -
  obtain n where "h p = Some n" using assms by auto
  then show ?thesis
    by (intro exI [of _ "h(p \<mapsto> n\<lparr>nxt := q\<rparr>)"])
      (auto simp: set_next_def deref_def view_defs fun_eq_iff)
qed

lemma set_prev_ok:
  assumes "p \<in> dom h"
  shows "\<exists>h'. set_prev h (Some p) q = Inr h' \<and> nx h' = nx h \<and> pv h' = (pv h)(p := q) \<and>
    ky h' = ky h \<and> vl h' = vl h \<and> dom h' = dom h"
proof -
  obtain n where "h p = Some n" using assms by auto
  then show ?thesis
    by (intro exI [of _ "h(p \<mapsto> n\<lparr>prev := q\<rparr>)"])
      (auto simp: set_prev_def deref_def view_defs fun_eq_iff)
qed

lemma set_val_ok:
  assumes "p \<in> dom h"
  shows "\<exists>h'. set_val h (Some p) v = Inr h' \<and> nx h' = nx h \<and> pv h' = pv h \<and>
    ky h' = ky h \<and> vl h' = (vl h)(p := v) \<and> dom h' = dom h"
proof -
  obtain n where "h p = Some n" using assms by auto
  then show ?thesis
    by (intro exI [of _ "h(p \<mapsto> n\<lparr>val := v\<rparr>)"])
      (auto simp: set_val_def deref_def view_defs fun_eq_iff)
qed

lemma deref_ok:
  assumes "a \<in> dom h"
  shows "\<exists>n. deref h (Some a) = Inr n \<and> nxt n = nx h a \<and> prev n = pv h a \<and> key n = ky h a \<and> val n = vl h a"
  using assms by (auto simp: deref_def view_defs)

lemma lru_remove_ok:
  assumes "a \<in> dom h" "pv h a = Some p" "nx h a = Some n" "p \<in> dom h" "n \<in> dom h" "a \<noteq> p"
  shows "\<exists>h'. lru_remove h a = Inr h' \<and> nx h' = (nx h)(p := Some n) \<and> pv h' = (pv h)(n := Some p) \<and>
    ky h' = ky h \<and> vl h' = vl h \<and> dom h' = dom h"
proof -
  obtain na where na: "deref h (Some a) = Inr na" "nxt na = Some n" "prev na = Some p"
    using deref_ok [OF assms(1)] assms(2,3) by auto
  obtain h1 where h1: "set_next h (Some p) (Some n) = Inr h1" "nx h1 = (nx h)(p := Some n)"
    "pv h1 = pv h" "ky h1 = ky h" "vl h1 = vl h" "dom h1 = dom h"
    using set_next_ok [OF assms(4), of "Some n"] by auto
  obtain n1 where n1: "deref h1 (Some a) = Inr n1" "nxt n1 = Some n" "prev n1 = Some p"
    using deref_ok [of a h1] assms h1 by auto
  obtain h2 where h2: "set_prev h1 (Some n) (Some p) = Inr h2" "nx h2 = nx h1"
    "pv h2 = (pv h1)(n := Some p)" "ky h2 = ky h1" "vl h2 = vl h1" "dom h2 = dom h1"
    using set_prev_ok [of n h1 "Some p"] assms(5) h1(6) by auto
  show ?thesis
    using na h1 n1 h2 by (simp add: lru_remove_def)
qed

lemma lru_push_front_ok:
  assumes "a \<in> dom h" "hp \<in> dom h" "n \<in> dom h" "nx h hp = Some n" "a \<noteq> hp"
  shows "\<exists>h'. lru_push_front h hp a = Inr h' \<and> nx h' = (nx h)(a := Some n, hp := Some a) \<and>
    pv h' = (pv h)(a := Some hp, n := Some a) \<and> ky h' = ky h \<and> vl h' = vl h \<and> dom h' = dom h"
proof -
  obtain h1 where h1: "set_prev h (Some a) (Some hp) = Inr h1" "nx h1 = nx h"
    "pv h1 = (pv h)(a := Some hp)" "ky h1 = ky h" "vl h1 = vl h" "dom h1 = dom h"
    using set_prev_ok [OF assms(1), of "Some hp"] by auto
  obtain n1 where n1: "deref h1 (Some hp) = Inr n1" "nxt n1 = Some n"
    using deref_ok [of hp h1] assms h1 by auto
  obtain h2 where h2: "set_next h1 (Some a) (Some n) = Inr h2" "nx h2 = (nx h1)(a := Some n)"
    "pv h2 = pv h1" "ky h2 = ky h1" "vl h2 = vl h1" "dom h2 = dom h1"
    using set_next_ok [of a h1 "Some n"] assms(1) h1(6) by auto
  obtain n2 where n2: "deref h2 (Some hp) = Inr n2" "nxt n2 = Some n"
    using deref_ok [of hp h2] assms h1 h2 by auto
  obtain h3 where h3: "set_prev h2 (Some n) (Some a) = Inr h3" "nx h3 = nx h2"
    "pv h3 = (pv h2)(n := Some a)" "ky h3 = ky h2" "vl h3 = vl h2" "dom h3 = dom h2"
    using set_prev_ok [of n h2 "Some a"] assms(3) h1(6) h2(6) by auto
  obtain h4 where h4: "set_next h3 (Some hp) (Some a) = Inr h4" "nx h4 = (nx h3)(hp := Some a)"
    "pv h4 = pv h3" "ky h4 = ky h3" "vl h4 = vl h3" "dom h4 = dom h3"
    using set_next_ok [of hp h3 "Some a"] assms(2) h1(6) h2(6) h3(6) by auto
  show ?thesis
    using h1 n1 h2 n2 h3 h4 by (simp add: lru_push_front_def)
qed

section \<open>Chains\<close>

definition chain :: "(addr \<Rightarrow> addr option) \<Rightarrow> (addr \<Rightarrow> addr option) \<Rightarrow> addr list \<Rightarrow> bool" where
  "chain f g xs = successively (\<lambda>a b. f a = Some b \<and> g b = Some a) xs"

lemma chain_simps [simp]:
  "chain f g []"
  "chain f g [a]"
  "chain f g (a # b # xs) \<longleftrightarrow> f a = Some b \<and> g b = Some a \<and> chain f g (b # xs)"
  by (simp_all add: chain_def)

lemma chain_append:
  "chain f g (xs @ a # ys) \<longleftrightarrow> chain f g (xs @ [a]) \<and> chain f g (a # ys)"
  by (auto simp: chain_def successively_append_iff)

lemma chain_upd_next: "p \<notin> set (butlast xs) \<Longrightarrow> chain (f(p := q)) g xs = chain f g xs"
  by (induction xs rule: induct_list012) auto

lemma chain_upd_prev: "p \<notin> set (tl xs) \<Longrightarrow> chain f (g(p := q)) xs = chain f g xs"
  by (induction xs rule: induct_list012) auto

lemma chain_drop_node:
  assumes "chain f g (us @ p # a # n # vs)" "distinct (us @ p # a # n # vs)"
  shows "chain (f(p := Some n)) (g(n := Some p)) (us @ p # n # vs)"
proof -
  have "chain f g (us @ [p])" "chain f g (n # vs)"
    using assms(1) by (auto simp: chain_append [of f g us p "a # n # vs"])
  moreover have "chain (f(p := Some n)) (g(n := Some p)) (us @ [p])"
    if "chain f g (us @ [p])"
  proof -
    have "n \<notin> set (tl (us @ [p]))" "p \<notin> set (butlast (us @ [p]))"
      using assms(2) by (auto dest: list.set_sel(2) [rotated])
    with that show ?thesis by (simp add: chain_upd_next chain_upd_prev)
  qed
  moreover have "chain (f(p := Some n)) (g(n := Some p)) (n # vs)" if "chain f g (n # vs)"
  proof -
    have "n \<notin> set (tl (n # vs))" "p \<notin> set (butlast (n # vs))"
      using assms(2) by (auto dest: in_set_butlastD)
    with that show ?thesis by (simp add: chain_upd_next chain_upd_prev)
  qed
  ultimately show ?thesis
    by (auto simp: chain_append [of _ _ us p "n # vs"])
qed

lemma chain_insert_front:
  assumes "chain f g (hp # n # vs)" "distinct (hp # n # vs)" "a \<notin> set (hp # n # vs)"
  shows "chain (f(a := Some n, hp := Some a)) (g(a := Some hp, n := Some a)) (hp # a # n # vs)"
proof -
  have "chain (f(a := Some n, hp := Some a)) (g(a := Some hp, n := Some a)) (n # vs)"
  proof -
    have "a \<notin> set (butlast (n # vs))" "hp \<notin> set (butlast (n # vs))"
      "a \<notin> set (tl (n # vs))" "n \<notin> set (tl (n # vs))"
      using assms by (auto dest: in_set_butlastD)
    with assms(1) show ?thesis
      by (simp add: chain_upd_next chain_upd_prev del: butlast.simps)
  qed
  with assms show ?thesis by auto
qed

section \<open>The invariant\<close>

definition lru_ok :: "('k, 'v) lru \<Rightarrow> addr list \<Rightarrow> bool" where
  "lru_ok c as \<longleftrightarrow>
     chain (nx (store c)) (pv (store c)) (head c # as @ [tail c]) \<and>
     distinct (head c # as @ [tail c]) \<and>
     set (head c # as @ [tail c]) \<subseteq> dom (store c) \<and>
     dom (store c) \<subseteq> {..<brk c} \<and>
     dict_wf (nodes c) \<and>
     (\<forall>k a. map_of (nodes c) k = Some a \<longleftrightarrow> a \<in> set as \<and> ky (store c) a = Some k) \<and>
     (\<forall>a\<in>set as. ky (store c) a \<noteq> None) \<and>
     length (nodes c) = length as \<and>
     int (length as) \<le> capacity c \<and> 0 < capacity c"

definition entries_at :: "('k, 'v) store \<Rightarrow> addr list \<Rightarrow> ('k \<times> 'v option) list" where
  "entries_at h as = map (\<lambda>a. (the (ky h a), vl h a)) as"

lemma lru_okD:
  assumes "lru_ok c as"
  shows "chain (nx (store c)) (pv (store c)) (head c # as @ [tail c])"
    "distinct (head c # as @ [tail c])"
    "set (head c # as @ [tail c]) \<subseteq> dom (store c)"
    "dom (store c) \<subseteq> {..<brk c}"
    "dict_wf (nodes c)"
    "\<And>k a. map_of (nodes c) k = Some a \<longleftrightarrow> a \<in> set as \<and> ky (store c) a = Some k"
    "\<And>a. a \<in> set as \<Longrightarrow> ky (store c) a \<noteq> None"
    "length (nodes c) = length as"
    "int (length as) \<le> capacity c" "0 < capacity c"
  using assms by (auto simp: lru_ok_def)

lemma lru_init_ok:
  "0 < cap \<Longrightarrow> \<exists>c. lru_init cap = Inr c \<and> lru_ok c [] \<and> capacity c = cap \<and>
     hits c = 0 \<and> misses c = 0 \<and> evictions c = 0"
  by (auto simp: lru_init_def py_assert_def set_next_def set_prev_def deref_def new_node_def
      lru_ok_def view_defs)

lemma lru_init_error: "cap \<le> 0 \<Longrightarrow> lru_init cap = Inl AssertionError"
  by (simp add: lru_init_def py_assert_def)

text \<open>
  Removing a node and pushing it to the front, the \<^emph>\<open>touch\<close> that \<^verbatim>\<open>get\<close> and \<^verbatim>\<open>put\<close> share.
\<close>

lemma chain_neighbours:
  assumes "chain f g (hp # xs @ a # ys @ [t])"
  shows "\<exists>us p n vs. hp # xs = us @ [p] \<and> ys @ [t] = n # vs \<and> g a = Some p \<and> f a = Some n"
proof -
  obtain us p where up: "hp # xs = us @ [p]" by (metis list.discI rev_exhaust)
  obtain n vs where nv: "ys @ [t] = n # vs" by (metis append_is_Nil_conv list.exhaust not_Cons_self2)
  from assms have "chain f g (us @ p # a # n # vs)"
    using up nv by (metis append.assoc append_Cons append_Nil)
  then have "g a = Some p \<and> f a = Some n"
    by (auto simp: chain_append [of f g us p "a # n # vs"])
  with up nv show ?thesis by blast
qed

lemma unlink_ok:
  assumes ch: "chain (nx h) (pv h) (hp # xs @ a # ys @ [t])"
    and dist: "distinct (hp # xs @ a # ys @ [t])"
    and dom: "set (hp # xs @ a # ys @ [t]) \<subseteq> dom h"
  shows "\<exists>h'. lru_remove h a = Inr h' \<and> chain (nx h') (pv h') (hp # xs @ ys @ [t]) \<and>
    ky h' = ky h \<and> vl h' = vl h \<and> dom h' = dom h"
proof -
  obtain us p n vs where *: "hp # xs = us @ [p]" "ys @ [t] = n # vs" "pv h a = Some p" "nx h a = Some n"
    using chain_neighbours [OF ch] by blast
  have eq: "hp # xs @ a # ys @ [t] = us @ p # a # n # vs" "hp # xs @ ys @ [t] = us @ p # n # vs"
    using * by (metis append.assoc append_Cons append_Nil)+
  have "p \<in> dom h" "n \<in> dom h" "a \<in> dom h" "a \<noteq> p"
    using dom dist unfolding eq by auto
  then obtain h' where h': "lru_remove h a = Inr h'" "nx h' = (nx h)(p := Some n)"
    "pv h' = (pv h)(n := Some p)" "ky h' = ky h" "vl h' = vl h" "dom h' = dom h"
    using lru_remove_ok [of a h p n] * by auto
  moreover have "chain (nx h') (pv h') (us @ p # n # vs)"
    using chain_drop_node [of "nx h" "pv h" us p a n vs] ch dist h'(2,3) unfolding eq by simp
  ultimately show ?thesis unfolding eq by auto
qed

lemma link_front_ok:
  assumes ch: "chain (nx h) (pv h) (hp # xs @ [t])"
    and dist: "distinct (hp # a # xs @ [t])"
    and dom: "set (hp # a # xs @ [t]) \<subseteq> dom h"
  shows "\<exists>h'. lru_push_front h hp a = Inr h' \<and> chain (nx h') (pv h') (hp # a # xs @ [t]) \<and>
    ky h' = ky h \<and> vl h' = vl h \<and> dom h' = dom h"
proof -
  obtain n vs where nv: "xs @ [t] = n # vs" by (metis append_is_Nil_conv list.exhaust not_Cons_self2)
  have "nx h hp = Some n" "n \<in> dom h" "a \<noteq> hp" "a \<in> dom h" "hp \<in> dom h"
    using ch dom dist unfolding nv by auto
  then obtain h' where h': "lru_push_front h hp a = Inr h'"
    "nx h' = (nx h)(a := Some n, hp := Some a)" "pv h' = (pv h)(a := Some hp, n := Some a)"
    "ky h' = ky h" "vl h' = vl h" "dom h' = dom h"
    using lru_push_front_ok [of a h hp n] by auto
  moreover have "chain (nx h') (pv h') (hp # a # n # vs)"
    using chain_insert_front [of "nx h" "pv h" hp n vs a] ch dist h'(2,3) unfolding nv by auto
  ultimately show ?thesis unfolding nv by auto
qed

lemma touch_ok:
  assumes ch: "chain (nx h) (pv h) (hp # xs @ a # ys @ [t])"
    and dist: "distinct (hp # xs @ a # ys @ [t])"
    and dom: "set (hp # xs @ a # ys @ [t]) \<subseteq> dom h"
  shows "\<exists>h1 h2. lru_remove h a = Inr h1 \<and> lru_push_front h1 hp a = Inr h2 \<and>
    chain (nx h2) (pv h2) (hp # a # (xs @ ys) @ [t]) \<and> ky h2 = ky h \<and> vl h2 = vl h \<and> dom h2 = dom h"
proof -
  obtain h1 where h1: "lru_remove h a = Inr h1" "chain (nx h1) (pv h1) (hp # (xs @ ys) @ [t])"
    "ky h1 = ky h" "vl h1 = vl h" "dom h1 = dom h"
    using unlink_ok [OF assms] by auto
  have "distinct (hp # a # (xs @ ys) @ [t])" "set (hp # a # (xs @ ys) @ [t]) \<subseteq> dom h1"
    using dist dom h1(5) by auto
  from link_front_ok [OF h1(2) this] h1 show ?thesis by auto
qed

text \<open>The abstraction: what the linked list holds, most recently used first.\<close>

definition lru_entries :: "('k, 'v) lru \<Rightarrow> ('k \<times> 'v option) list" where
  "lru_entries c = (case lru_addrs c of Some (Inr as) \<Rightarrow> entries_at (store c) as | _ \<Rightarrow> [])"

lemma lru_walk_chain:
  assumes "chain (nx h) g (p # as @ [t])" "t \<notin> set as" "set as \<subseteq> dom h" "length as < fuel"
  shows "lru_walk fuel h t (nx h p) = Some (Inr as)"
  using assms
proof (induction as arbitrary: p fuel)
  case Nil
  then show ?case by (cases fuel) auto
next
  case (Cons a as)
  then obtain f where f: "fuel = Suc f" by (cases fuel) auto
  obtain n where n: "deref h (Some a) = Inr n" "nxt n = nx h a"
    using deref_ok [of a h] Cons.prems(3) by auto
  have "lru_walk f h t (nx h a) = Some (Inr as)"
    using Cons.prems f by (intro Cons.IH) auto
  with Cons.prems n show ?case by (simp add: f)
qed

lemma lru_addrs_ok:
  assumes "lru_ok c as"
  shows "lru_addrs c = Some (Inr as)"
proof -
  note ok = lru_okD [OF assms]
  obtain n where n: "deref (store c) (Some (head c)) = Inr n" "nxt n = nx (store c) (head c)"
    using deref_ok [of "head c" "store c"] ok(3) by auto
  have "length as < brk c"
  proof -
    have "card (set (head c # as @ [tail c])) \<le> card {..<brk c}"
      using ok(3,4) by (intro card_mono) auto
    then show ?thesis using ok(2) by (simp add: distinct_card)
  qed
  then show ?thesis
    using lru_walk_chain [OF ok(1)] ok(2,3) n by (simp add: lru_addrs_def)
qed

lemma lru_entries_ok: "lru_ok c as \<Longrightarrow> lru_entries c = entries_at (store c) as"
  by (simp add: lru_entries_def lru_addrs_ok)

lemma key_inj:
  assumes "lru_ok c as" "a \<in> set as" "b \<in> set as" "ky (store c) a = ky (store c) b"
  shows "a = b"
proof -
  obtain k where "ky (store c) a = Some k" using lru_okD(7) [OF assms(1,2)] by auto
  then have "map_of (nodes c) k = Some a" "map_of (nodes c) k = Some b"
    using lru_okD(6) [OF assms(1)] assms(2-4) by auto
  then show ?thesis by simp
qed

lemma entries_distinct:
  assumes "lru_ok c as" shows "dict_wf (entries_at (store c) as)"
proof -
  have "inj_on (\<lambda>a. the (ky (store c) a)) (set as)"
    by (rule inj_onI) (metis key_inj [OF assms] lru_okD(7) [OF assms] option.exhaust_sel)
  then show ?thesis
    using lru_okD(2) [OF assms] by (simp add: entries_at_def distinct_map o_def)
qed

lemma map_of_entries:
  assumes "lru_ok c as"
  shows "map_of (entries_at (store c) as) k = map_option (vl (store c)) (map_of (nodes c) k)"
proof (cases "map_of (nodes c) k")
  case None
  have "k \<noteq> the (ky (store c) a)" if "a \<in> set as" for a
    using None lru_okD(6) [OF assms, of k a] lru_okD(7) [OF assms that] that by auto
  then have "k \<notin> fst ` set (entries_at (store c) as)"
    by (force simp: entries_at_def)
  then have "map_of (entries_at (store c) as) k = None"
    by (simp add: map_of_eq_None_iff)
  then show ?thesis using None by simp
next
  case (Some a)
  then have "a \<in> set as" "ky (store c) a = Some k" using lru_okD(6) [OF assms] by auto
  then have "(k, vl (store c) a) \<in> set (entries_at (store c) as)"
    by (force simp: entries_at_def)
  with Some show ?thesis by (simp add: entries_distinct [OF assms])
qed

lemma entries_move:
  assumes "lru_ok c (xs @ a # ys)" "ky (store c) a = Some k"
  shows "AList.delete k (entries_at (store c) (xs @ a # ys)) = entries_at (store c) (xs @ ys)"
proof -
  have "the (ky (store c) b) \<noteq> k" if "b \<in> set (xs @ ys)" for b
  proof
    assume "the (ky (store c) b) = k"
    then have "ky (store c) b = ky (store c) a"
      using lru_okD(7) [OF assms(1), of b] that assms(2) by auto
    then have "a = b" using key_inj [OF assms(1), of a b] that by auto
    with lru_okD(2) [OF assms(1)] that show False by auto
  qed
  then show ?thesis using assms(2)
    by (auto simp: delete_eq_filter entries_at_def filter_map o_def filter_id_conv)
qed

section \<open>Every operation keeps the invariant\<close>

lemma lru_get_miss:
  assumes "lru_ok c as" "map_of (nodes c) k = None"
  shows "lru_get c k d = Inr (d, c\<lparr>misses := misses c + 1\<rparr>)"
    and "lru_ok (c\<lparr>misses := misses c + 1\<rparr>) as"
  using assms by (auto simp: lru_get_def lru_ok_def)

lemma lru_get_hit:
  assumes "lru_ok c as" "map_of (nodes c) k = Some a"
  shows "\<exists>xs ys h. as = xs @ a # ys \<and> ky (store c) a = Some k \<and>
    lru_get c k d = Inr (vl (store c) a, c\<lparr>hits := hits c + 1, store := h\<rparr>) \<and>
    ky h = ky (store c) \<and> vl h = vl (store c) \<and>
    lru_ok (c\<lparr>hits := hits c + 1, store := h\<rparr>) (a # xs @ ys)"
proof -
  note ok = lru_okD [OF assms(1)]
  have a: "a \<in> set as" "ky (store c) a = Some k" using ok(6) assms(2) by auto
  then obtain xs ys where as: "as = xs @ a # ys" by (meson split_list)
  obtain h1 h2 where h: "lru_remove (store c) a = Inr h1" "lru_push_front h1 (head c) a = Inr h2"
    "chain (nx h2) (pv h2) (head c # a # (xs @ ys) @ [tail c])"
    "ky h2 = ky (store c)" "vl h2 = vl (store c)" "dom h2 = dom (store c)"
    using touch_ok [of "store c" "head c" xs a ys "tail c"] ok(1-3) as by auto
  obtain n where n: "deref h2 (Some a) = Inr n" "val n = vl (store c) a"
    using deref_ok [of a h2] h(5,6) ok(3) a by auto
  have "lru_ok (c\<lparr>hits := hits c + 1, store := h2\<rparr>) (a # xs @ ys)"
    using ok h as by (auto simp: lru_ok_def)
  with a as h n assms(2) show ?thesis
    by (intro exI [of _ xs] exI [of _ ys] exI [of _ h2]) (simp add: lru_get_def Let_def)
qed

lemma lru_put_present:
  assumes "lru_ok c as" "map_of (nodes c) k = Some a"
  shows "\<exists>xs ys h. as = xs @ a # ys \<and> ky (store c) a = Some k \<and>
    lru_put c k v = Inr (c\<lparr>store := h\<rparr>) \<and> ky h = ky (store c) \<and> vl h = (vl (store c))(a := v) \<and>
    lru_ok (c\<lparr>store := h\<rparr>) (a # xs @ ys)"
proof -
  note ok = lru_okD [OF assms(1)]
  have a: "a \<in> set as" "ky (store c) a = Some k" using ok(6) assms(2) by auto
  then obtain xs ys where as: "as = xs @ a # ys" by (meson split_list)
  obtain h0 where h0: "set_val (store c) (Some a) v = Inr h0" "nx h0 = nx (store c)"
    "pv h0 = pv (store c)" "ky h0 = ky (store c)" "vl h0 = (vl (store c))(a := v)"
    "dom h0 = dom (store c)"
    using set_val_ok [of a "store c" v] ok(3) a by auto
  obtain h1 h2 where h: "lru_remove h0 a = Inr h1" "lru_push_front h1 (head c) a = Inr h2"
    "chain (nx h2) (pv h2) (head c # a # (xs @ ys) @ [tail c])"
    "ky h2 = ky h0" "vl h2 = vl h0" "dom h2 = dom h0"
    using touch_ok [of h0 "head c" xs a ys "tail c"] ok(1-3) as h0 by auto
  have "lru_ok (c\<lparr>store := h2\<rparr>) (a # xs @ ys)"
    using ok h h0 as by (auto simp: lru_ok_def)
  with a as h h0 assms(2) show ?thesis
    by (intro exI [of _ xs] exI [of _ ys] exI [of _ h2]) (simp add: lru_put_def)
qed

text \<open>Inserting a new key, before the capacity check.\<close>

definition lru_over :: "('k, 'v) lru \<Rightarrow> addr list \<Rightarrow> bool" where
  "lru_over c as \<longleftrightarrow> lru_ok (c\<lparr>capacity := max (capacity c) (int (length as))\<rparr>) as \<and>
     int (length as) \<le> capacity c + 1 \<and> 0 < capacity c"

lemma lru_insert_ok:
  fixes v :: "'v option" and c :: "('k, 'v) lru"
  assumes "lru_ok c as" "map_of (nodes c) k = None"
  defines "c1 \<equiv> c\<lparr>store := (store c)(brk c \<mapsto> new_node (Some k) v), brk := brk c + 1,
                    nodes := AList.update k (brk c) (nodes c)\<rparr>"
  shows "\<exists>h. lru_push_front (store c1) (head c1) (brk c) = Inr h \<and>
    ky h = (ky (store c))(brk c := Some k) \<and> vl h = (vl (store c))(brk c := v) \<and>
    lru_over (c1\<lparr>store := h\<rparr>) (brk c # as)"
proof -
  note ok = lru_okD [OF assms(1)]
  let ?b = "brk c" and ?h = "store c1"
  have fresh: "?b \<notin> dom (store c)" using ok(4) by auto
  then have notin: "?b \<notin> set (head c # as @ [tail c])" using ok(3) by blast
  have views: "nx ?h = (nx (store c))(?b := None)" "pv ?h = (pv (store c))(?b := None)"
    "ky ?h = (ky (store c))(?b := Some k)" "vl ?h = (vl (store c))(?b := v)"
    "dom ?h = insert ?b (dom (store c))"
    by (auto simp: c1_def view_defs new_node_def fun_eq_iff)
  have "chain (nx ?h) (pv ?h) (head c # as @ [tail c])"
    using ok(1) notin unfolding views
    by (subst chain_upd_next, force dest: in_set_butlastD) (subst chain_upd_prev, auto)
  moreover have "distinct (head c # ?b # as @ [tail c])" using ok(2) notin by auto
  moreover have "set (head c # ?b # as @ [tail c]) \<subseteq> dom ?h" using ok(3) by (auto simp: views)
  ultimately obtain h where h: "lru_push_front ?h (head c) ?b = Inr h"
    "chain (nx h) (pv h) (head c # ?b # as @ [tail c])" "ky h = ky ?h" "vl h = vl ?h" "dom h = dom ?h"
    using link_front_ok by blast
  have keys: "k \<notin> set (dict_keys (nodes c))" using assms(2) by (simp add: map_of_eq_None_keys)
  have mem: "map_of (AList.update k ?b (nodes c)) k' = Some a \<longleftrightarrow>
      a \<in> set (?b # as) \<and> ky h a = Some k'" for k' a
    using ok(6) [of k' a] ok(6) [of k a] assms(2) notin by (auto simp: update_conv' h views)
  let ?c2 = "c1\<lparr>store := h, capacity := max (capacity c) (int (length (?b # as)))\<rparr>"
  have "lru_ok ?c2 (?b # as)"
    unfolding lru_ok_def
  proof (intro conjI allI ballI)
    show "ky (store ?c2) a \<noteq> None"
      if "a \<in> set (?b # as)" for a
      using ok(7) [of a] that by (auto simp: h views)
    show "(map_of (nodes ?c2) k' = Some a) =
      (a \<in> set (?b # as) \<and> ky (store ?c2) a = Some k')"
      for k' a
      using mem [of k' a] by (simp add: c1_def)
  qed (use ok(2-5,8,10) h(2,5) notin keys views(5) in
        \<open>auto simp: c1_def update_notin\<close>)
  then have "lru_over (c1\<lparr>store := h\<rparr>) (?b # as)"
    using ok(9,10) by (simp add: lru_over_def c1_def)
  with h views show ?thesis by (auto simp: c1_def)
qed

lemma lru_evict_ok:
  assumes "lru_over c (as @ [a])" "capacity c < int (length (nodes c))"
  shows "\<exists>h m. lru_evict c = Inr (c\<lparr>store := h, nodes := m, evictions := evictions c + 1\<rparr>) \<and>
    ky h = ky (store c) \<and> vl h = vl (store c) \<and>
    lru_ok (c\<lparr>store := h, nodes := m, evictions := evictions c + 1\<rparr>) as"
proof -
  let ?c = "c\<lparr>capacity := max (capacity c) (int (length (as @ [a])))\<rparr>"
  have over: "lru_ok ?c (as @ [a])" using assms(1) by (simp add: lru_over_def)
  note ok = lru_okD [OF over, simplified]
  obtain k where k: "ky (store c) a = Some k" using ok(7) [of a] by auto
  have "pv (store c) (tail c) = Some a"
    using ok(1) chain_append [of "nx (store c)" "pv (store c)" "head c # as" a "[tail c]"] by auto
  then obtain t where t: "deref (store c) (Some (tail c)) = Inr t" "prev t = Some a"
    using deref_ok [of "tail c" "store c"] ok(3) by auto
  obtain n where n: "deref (store c) (Some a) = Inr n" "key n = Some k"
    using deref_ok [of a "store c"] ok(3) k by auto
  obtain h where h: "lru_remove (store c) a = Inr h" "chain (nx h) (pv h) (head c # as @ [tail c])"
    "ky h = ky (store c)" "vl h = vl (store c)" "dom h = dom (store c)"
    using unlink_ok [of "store c" "head c" as a "[]" "tail c"] ok(1-3) by auto
  have nk: "map_of (nodes c) k = Some a" using ok(6) k by auto
  let ?m = "AList.delete k (nodes c)"
  let ?c' = "c\<lparr>store := h, nodes := ?m, evictions := evictions c + 1\<rparr>"
  have "k \<in> set (dict_keys (nodes c))" using nk by (force dest: map_of_SomeD)
  then have len: "length ?m = length as"
    using length_delete_mem [OF ok(5)] ok(8) by auto
  have mem: "map_of ?m k' = Some b \<longleftrightarrow> b \<in> set as \<and> ky h b = Some k'" for k' b
    using ok(6) [of k' b] ok(6) [of k b] ok(2) nk k h(3) key_inj [OF over, of a b]
    by (auto simp: delete_conv')
  have "lru_ok ?c' as"
    unfolding lru_ok_def
    using ok h mem len assms(1) by (auto simp: lru_over_def)
  with t n h nk show ?thesis
    by (intro exI [of _ h] exI [of _ ?m]) (simp add: lru_evict_def dict_del_def)
qed

section \<open>The interface a client relies on\<close>

locale recency_cache =
  fixes get :: "'s \<Rightarrow> 'k \<Rightarrow> 'v \<Rightarrow> ('v \<times> 's) res"
    and put :: "'s \<Rightarrow> 'k \<Rightarrow> 'v \<Rightarrow> 's res"
    and entries :: "'s \<Rightarrow> ('k \<times> 'v) list"
    and cap :: "'s \<Rightarrow> nat"
    and ok :: "'s \<Rightarrow> bool"
  assumes get_hit: "ok s \<Longrightarrow> map_of (entries s) k = Some v \<Longrightarrow>
      \<exists>s'. get s k d = Inr (v, s') \<and> ok s' \<and> cap s' = cap s \<and>
        entries s' = (k, v) # AList.delete k (entries s)"
    and get_miss: "ok s \<Longrightarrow> map_of (entries s) k = None \<Longrightarrow>
      \<exists>s'. get s k d = Inr (d, s') \<and> ok s' \<and> cap s' = cap s \<and> entries s' = entries s"
    and put_entries: "ok s \<Longrightarrow>
      \<exists>s'. put s k v = Inr s' \<and> ok s' \<and> cap s' = cap s \<and>
        entries s' = take (cap s) ((k, v) # AList.delete k (entries s))"
    and bounded: "ok s \<Longrightarrow> 0 < cap s \<and> length (entries s) \<le> cap s \<and> dict_wf (entries s)"

text \<open>Sequences of calls, and the recency order they define on an unbounded list.\<close>

datatype ('k, 'v) cache_op = OpGet 'k 'v | OpPut 'k 'v

fun run_ops :: "('s \<Rightarrow> 'k \<Rightarrow> 'v \<Rightarrow> ('v \<times> 's) res) \<Rightarrow> ('s \<Rightarrow> 'k \<Rightarrow> 'v \<Rightarrow> 's res) \<Rightarrow>
    's \<Rightarrow> ('k, 'v) cache_op list \<Rightarrow> 's res" where
  "run_ops g p s [] = Inr s"
| "run_ops g p s (OpGet k d # ops) = rbind (g s k d) (\<lambda>r. run_ops g p (snd r) ops)"
| "run_ops g p s (OpPut k v # ops) = rbind (p s k v) (\<lambda>s'. run_ops g p s' ops)"

fun recency :: "nat \<Rightarrow> ('k, 'v) cache_op list \<Rightarrow> ('k \<times> 'v) list" where
  "recency n [] = []"
| "recency n (OpPut k v # older) = (k, v) # AList.delete k (recency n older)"
| "recency n (OpGet k d # older) =
     (case map_of (take n (recency n older)) k of
        None \<Rightarrow> recency n older
      | Some v \<Rightarrow> (k, v) # AList.delete k (recency n older))"

text \<open>
  \<open>recency n h\<close>, for a history \<open>h\<close> with the newest call first, is every key ever put, most
  recently touched first, with its latest value. A \<open>get\<close> touches its key only when the key is
  among the \<open>n\<close> most recent ones: a miss changes nothing.
\<close>

lemma run_ops_append:
  "run_ops g p s (xs @ ys) = rbind (run_ops g p s xs) (\<lambda>s'. run_ops g p s' ys)"
proof (induction xs arbitrary: s)
  case (Cons op xs)
  then show ?case by (cases op) (auto simp: rbind_assoc)
qed simp

lemma recency_wf: "dict_wf (recency n ops)"
  by (induction n ops rule: recency.induct) (auto simp: keys_delete split: option.splits)

context recency_cache begin

lemma run_entries:
  assumes "ok s" "entries s = []"
  shows "\<exists>s'. run_ops get put s ops = Inr s' \<and> ok s' \<and> cap s' = cap s \<and>
    entries s' = take (cap s) (recency (cap s) (rev ops))"
proof (induction ops rule: rev_induct)
  case Nil
  with assms show ?case by simp
next
  case (snoc op ops)
  let ?r = "recency (cap s) (rev ops)"
  obtain s1 where s1: "run_ops get put s ops = Inr s1" "ok s1" "cap s1 = cap s"
    "entries s1 = take (cap s) ?r"
    using snoc by blast
  have pos: "0 < cap s" using bounded [OF assms(1)] by simp
  note front = take_front_delete [OF pos recency_wf [of "cap s" "rev ops"]]
  show ?case
  proof (cases op)
    case (OpPut k v)
    with put_entries [OF s1(2), of k v] s1 front [of k v] show ?thesis
      by (auto simp: run_ops_append)
  next
    case (OpGet k d)
    show ?thesis
    proof (cases "map_of (entries s1) k")
      case None
      with get_miss [OF s1(2) None, of d] s1 OpGet show ?thesis
        by (auto simp: run_ops_append)
    next
      case (Some v)
      then obtain s2 where s2: "get s1 k d = Inr (v, s2)" "ok s2" "cap s2 = cap s"
        "entries s2 = (k, v) # AList.delete k (entries s1)"
        using get_hit [OF s1(2) Some, of d] s1(3) by auto
      then have "length (entries s2) \<le> cap s" using bounded [of s2] by auto
      then have "entries s2 = take (cap s) ((k, v) # AList.delete k ?r)"
        using s2(4) s1(4) front [of k v] by (metis take_all)
      with s1 s2 Some OpGet show ?thesis by (auto simp: run_ops_append)
    qed
  qed
qed

lemma get_after_run:
  assumes "ok s" "entries s = []" "run_ops get put s ops = Inr s1"
  shows "\<exists>s2. get s1 k d = Inr (dict_get (take (cap s) (recency (cap s) (rev ops))) k d, s2) \<and> ok s2"
proof -
  have s1: "ok s1" "entries s1 = take (cap s) (recency (cap s) (rev ops))"
    using run_entries [OF assms(1,2), of ops] assms(3) by auto
  show ?thesis
    using get_hit [OF s1(1), of k _ d] get_miss [OF s1(1), of k d]
    unfolding dict_get_def s1(2) [symmetric] by (cases "map_of (entries s1) k") auto
qed

end

section \<open>The cache implements the interface\<close>

definition lru_valid :: "('k, 'v) lru \<Rightarrow> bool" where
  "lru_valid c \<longleftrightarrow> (\<exists>as. lru_ok c as)"

definition lru_cap :: "('k, 'v) lru \<Rightarrow> nat" where
  "lru_cap c = nat (capacity c)"

lemma length_entries_at [simp]: "length (entries_at h as) = length as"
  by (simp add: entries_at_def)

lemma lru_put_new:
  assumes "lru_ok c as" "map_of (nodes c) k = None"
  shows "\<exists>c'. lru_put c k v = Inr c' \<and> lru_valid c' \<and> capacity c' = capacity c \<and>
    hits c' = hits c \<and> misses c' = misses c \<and>
    length (nodes c') + evictions c' = length (nodes c) + evictions c + 1 \<and>
    lru_entries c' = take (lru_cap c) ((k, v) # lru_entries c)"
proof -
  note ok = lru_okD [OF assms(1)]
  let ?b = "brk c"
  let ?c1 = "c\<lparr>store := (store c)(?b \<mapsto> new_node (Some k) v), brk := ?b + 1,
               nodes := AList.update k ?b (nodes c)\<rparr>"
  obtain h where h: "lru_push_front (store ?c1) (head ?c1) ?b = Inr h"
    "ky h = (ky (store c))(?b := Some k)" "vl h = (vl (store c))(?b := v)"
    "lru_over (?c1\<lparr>store := h\<rparr>) (?b # as)"
    using lru_insert_ok [OF assms, of v] by blast
  have fresh: "?b \<notin> set as" using ok(3,4) by auto
  then have full: "entries_at h (?b # as) = (k, v) # entries_at (store c) as"
    by (auto simp: entries_at_def h)
  have len: "length (AList.update k ?b (nodes c)) = Suc (length as)"
    using assms(2) ok(8) by (simp add: update_notin map_of_eq_None_keys)
  have lent: "lru_entries c = entries_at (store c) as" by (rule lru_entries_ok [OF assms(1)])
  show ?thesis
  proof (cases "int (Suc (length as)) > capacity c")
    case False
    then have "max (capacity c) (int (Suc (length as))) = capacity c" by simp
    then have ok': "lru_ok (?c1\<lparr>store := h\<rparr>) (?b # as)"
      using h(4) by (simp add: lru_over_def)
    have "lru_put c k v = Inr (?c1\<lparr>store := h\<rparr>)"
      using assms(2) h(1) len False by (simp add: lru_put_def Let_def)
    moreover have "lru_entries (?c1\<lparr>store := h\<rparr>) = (k, v) # lru_entries c"
      using full lru_entries_ok [OF ok'] by (simp add: lent)
    moreover have "length ((k, v) # lru_entries c) \<le> lru_cap c"
      using False by (simp add: lent lru_cap_def)
    ultimately show ?thesis using ok' len ok(8) by (auto simp: lru_valid_def)
  next
    case True
    let ?c2 = "?c1\<lparr>store := h\<rparr>"
    obtain bs x where bs: "?b # as = bs @ [x]" by (metis list.discI rev_exhaust)
    obtain h' m where ev: "lru_evict ?c2 = Inr (?c2\<lparr>store := h', nodes := m, evictions := evictions c + 1\<rparr>)"
      "ky h' = ky h" "vl h' = vl h"
      "lru_ok (?c2\<lparr>store := h', nodes := m, evictions := evictions c + 1\<rparr>) bs"
      using lru_evict_ok [of ?c2 bs x] h(4) True len bs by auto
    have lb: "length bs = length as" using arg_cong [OF bs, of length] by simp
    have "entries_at h' bs = take (length as) (entries_at h (?b # as))"
      unfolding bs using lb by (simp add: entries_at_def ev)
    moreover have "length as = lru_cap c"
      using True ok(9) by (simp add: lru_cap_def)
    ultimately have "lru_entries (?c2\<lparr>store := h', nodes := m, evictions := evictions c + 1\<rparr>)
        = take (lru_cap c) ((k, v) # lru_entries c)"
      using lru_entries_ok [OF ev(4)] full lent by simp
    moreover have "lru_put c k v = Inr (?c2\<lparr>store := h', nodes := m, evictions := evictions c + 1\<rparr>)"
      using assms(2) h(1) len True ev(1) by (simp add: lru_put_def Let_def)
    ultimately show ?thesis
      using ev(4) lru_okD(8) [OF ev(4)] lb len ok(8) by (auto simp: lru_valid_def)
  qed
qed

lemma lru_put_old:
  assumes "lru_ok c as" "map_of (nodes c) k = Some a"
  shows "\<exists>c'. lru_put c k v = Inr c' \<and> lru_valid c' \<and> capacity c' = capacity c \<and>
    hits c' = hits c \<and> misses c' = misses c \<and> nodes c' = nodes c \<and> evictions c' = evictions c \<and>
    lru_entries c' = (k, v) # AList.delete k (lru_entries c)"
proof -
  obtain xs ys h where as: "as = xs @ a # ys" and k: "ky (store c) a = Some k"
    and p: "lru_put c k v = Inr (c\<lparr>store := h\<rparr>)" "ky h = ky (store c)" "vl h = (vl (store c))(a := v)"
    and ok': "lru_ok (c\<lparr>store := h\<rparr>) (a # xs @ ys)"
    using lru_put_present [OF assms] by blast
  have "a \<notin> set (xs @ ys)" using lru_okD(2) [OF assms(1)] as by auto
  then have "entries_at h (a # xs @ ys) = (k, v) # entries_at (store c) (xs @ ys)"
    using p k by (auto simp: entries_at_def)
  with entries_move [of c xs a ys k] assms(1) as k have
    "lru_entries (c\<lparr>store := h\<rparr>) = (k, v) # AList.delete k (lru_entries c)"
    by (simp add: lru_entries_ok [OF ok'] lru_entries_ok [OF assms(1)])
  with p(1) ok' show ?thesis by (auto simp: lru_valid_def)
qed

lemma lru_valid_bounded:
  assumes "lru_valid c"
  shows "0 < lru_cap c" "length (lru_entries c) = length (nodes c)"
    "length (lru_entries c) \<le> lru_cap c" "dict_wf (lru_entries c)"
    "map_of (lru_entries c) k = None \<longleftrightarrow> map_of (nodes c) k = None"
proof -
  obtain as where as: "lru_ok c as" using assms by (auto simp: lru_valid_def)
  note ok = lru_okD [OF as] and ent = lru_entries_ok [OF as]
  show "0 < lru_cap c" using ok(10) by (simp add: lru_cap_def)
  show "length (lru_entries c) = length (nodes c)" using ok(8) by (simp add: ent)
  show "length (lru_entries c) \<le> lru_cap c" using ok(9,10) by (simp add: ent lru_cap_def)
  show "dict_wf (lru_entries c)" unfolding ent by (rule entries_distinct [OF as])
  show "map_of (lru_entries c) k = None \<longleftrightarrow> map_of (nodes c) k = None"
    unfolding ent map_of_entries [OF as] by simp
qed

lemma lru_put_entries:
  assumes "lru_valid c"
  shows "\<exists>c'. lru_put c k v = Inr c' \<and> lru_valid c' \<and> capacity c' = capacity c \<and>
    lru_entries c' = take (lru_cap c) ((k, v) # AList.delete k (lru_entries c))"
proof -
  obtain as where as: "lru_ok c as" using assms by (auto simp: lru_valid_def)
  note b = lru_valid_bounded [OF assms]
  show ?thesis
  proof (cases "map_of (nodes c) k")
    case None
    then have "AList.delete k (lru_entries c) = lru_entries c"
      using b(5) [of k] by (simp add: map_of_eq_None_keys)
    with lru_put_new [OF as None, of v] show ?thesis by auto
  next
    case (Some a)
    then have "k \<in> set (dict_keys (lru_entries c))"
      using b(5) [of k] map_of_eq_None_keys [of "lru_entries c" k] by auto
    then have "Suc (length (AList.delete k (lru_entries c))) = length (lru_entries c)"
      by (rule length_delete_mem [OF b(4)])
    then have "take (lru_cap c) ((k, v) # AList.delete k (lru_entries c))
        = (k, v) # AList.delete k (lru_entries c)"
      using b(3) by simp
    with lru_put_old [OF as Some, of v] show ?thesis by auto
  qed
qed

lemma lru_get_present:
  assumes "lru_valid c" "map_of (lru_entries c) k = Some v"
  shows "\<exists>c'. lru_get c k d = Inr (v, c') \<and> lru_valid c' \<and> capacity c' = capacity c \<and>
    lru_entries c' = (k, v) # AList.delete k (lru_entries c) \<and>
    hits c' = hits c + 1 \<and> misses c' = misses c \<and> evictions c' = evictions c \<and> nodes c' = nodes c"
proof -
  obtain as where as: "lru_ok c as" using assms by (auto simp: lru_valid_def)
  obtain a where a: "map_of (nodes c) k = Some a" "vl (store c) a = v"
    using assms(2) lru_entries_ok [OF as] map_of_entries [OF as] by auto
  obtain xs ys h where g: "as = xs @ a # ys" "ky (store c) a = Some k"
    "lru_get c k d = Inr (v, c\<lparr>hits := hits c + 1, store := h\<rparr>)"
    "ky h = ky (store c)" "vl h = vl (store c)"
    and ok': "lru_ok (c\<lparr>hits := hits c + 1, store := h\<rparr>) (a # xs @ ys)"
    using lru_get_hit [OF as a(1), of d] a(2) by blast
  have "entries_at h (a # xs @ ys) = (k, v) # entries_at (store c) (xs @ ys)"
    using g a(2) by (auto simp: entries_at_def)
  with entries_move [of c xs a ys k] as g have
    "lru_entries (c\<lparr>hits := hits c + 1, store := h\<rparr>) = (k, v) # AList.delete k (lru_entries c)"
    using lru_entries_ok [OF ok'] lru_entries_ok [OF as] by simp
  with g ok' show ?thesis by (auto simp: lru_valid_def)
qed

lemma lru_get_absent:
  assumes "lru_valid c" "map_of (lru_entries c) k = None"
  shows "lru_get c k d = Inr (d, c\<lparr>misses := misses c + 1\<rparr>)"
    "lru_valid (c\<lparr>misses := misses c + 1\<rparr>)"
    "lru_entries (c\<lparr>misses := misses c + 1\<rparr>) = lru_entries c"
proof -
  obtain as where as: "lru_ok c as" using assms by (auto simp: lru_valid_def)
  have "map_of (nodes c) k = None" using assms(2) lru_valid_bounded(5) [OF assms(1), of k] by simp
  note m = lru_get_miss [OF as this]
  show "lru_get c k d = Inr (d, c\<lparr>misses := misses c + 1\<rparr>)" by (rule m(1))
  show "lru_valid (c\<lparr>misses := misses c + 1\<rparr>)" unfolding lru_valid_def using m(2) by blast
  show "lru_entries (c\<lparr>misses := misses c + 1\<rparr>) = lru_entries c"
    using lru_entries_ok [OF m(2)] lru_entries_ok [OF as] by simp
qed

interpretation lruc: recency_cache lru_get lru_put lru_entries lru_cap lru_valid
proof unfold_locales
  fix c :: "('a, 'b) lru" and k v d
  assume c: "lru_valid c"
  show "\<exists>c'. lru_get c k d = Inr (v, c') \<and> lru_valid c' \<and> lru_cap c' = lru_cap c \<and>
      lru_entries c' = (k, v) # AList.delete k (lru_entries c)"
    if "map_of (lru_entries c) k = Some v"
    using lru_get_present [OF c that, of d] by (auto simp: lru_cap_def)
  show "\<exists>c'. lru_get c k d = Inr (d, c') \<and> lru_valid c' \<and> lru_cap c' = lru_cap c \<and>
      lru_entries c' = lru_entries c"
    if "map_of (lru_entries c) k = None"
    using lru_get_absent [OF c that] by (auto simp: lru_cap_def)
  show "\<exists>c'. lru_put c k v = Inr c' \<and> lru_valid c' \<and> lru_cap c' = lru_cap c \<and>
      lru_entries c' = take (lru_cap c) ((k, v) # AList.delete k (lru_entries c))"
    using lru_put_entries [OF c, of k v] by (auto simp: lru_cap_def)
  show "0 < lru_cap c \<and> length (lru_entries c) \<le> lru_cap c \<and> dict_wf (lru_entries c)"
    using lru_valid_bounded [OF c] by blast
qed

section \<open>Theorems\<close>

text \<open>A program that creates a cache and makes any sequence of calls.\<close>

definition lru_run :: "int \<Rightarrow> ('k, 'v option) cache_op list \<Rightarrow> ('k, 'v) lru res" where
  "lru_run cap ops = rbind (lru_init cap) (\<lambda>c. run_ops lru_get lru_put c ops)"

lemma lru_init_valid:
  assumes "0 < cap"
  obtains c :: "('k, 'v) lru" where "lru_init cap = Inr c" "lru_valid c" "lru_entries c = []" "lru_cap c = nat cap"
    "hits c = 0" "misses c = 0" "evictions c = 0" "nodes c = []"
proof -
  obtain c :: "('k, 'v) lru" where c: "lru_init cap = Inr c" "lru_ok c []" "capacity c = cap"
    "hits c = 0" "misses c = 0" "evictions c = 0"
    using lru_init_ok [OF assms] by blast
  show ?thesis
    using that [of c] c lru_entries_ok [OF c(2)] lru_okD(8) [OF c(2)]
    by (auto simp: lru_valid_def lru_cap_def entries_at_def)
qed

text \<open>
  C1. LRU semantics of the linked-list cache: for a positive capacity, every sequence of \<^verbatim>\<open>get\<close>
  and \<^verbatim>\<open>put\<close> calls runs without an exception, the walk along the \<^verbatim>\<open>next\<close> pointers ends at the
  tail sentinel after \<^verbatim>\<open>len(c)\<close> nodes, and it meets exactly the \<open>capacity\<close> most recently touched distinct keys, in
  recency order, each with the value last put under it.
\<close>

theorem lru_recency:
  fixes ops :: "('k, 'v option) cache_op list"
  assumes "0 < cap"
  shows "\<exists>c as. lru_run cap ops = Inr c \<and> lru_addrs c = Some (Inr as) \<and>
    length as = lru_len c \<and>
    map (\<lambda>a. (ky (store c) a, vl (store c) a)) as =
      map (\<lambda>(k, v). (Some k, v)) (take (nat cap) (recency (nat cap) (rev ops)))"
proof -
  obtain c0 :: "('k, 'v) lru" where c0: "lru_init cap = Inr c0" "lru_valid c0" "lru_entries c0 = []" "lru_cap c0 = nat cap"
    using lru_init_valid [OF assms] by metis
  obtain c where c: "run_ops lru_get lru_put c0 ops = Inr c" "lru_valid c"
    "lru_entries c = take (nat cap) (recency (nat cap) (rev ops))"
    using lruc.run_entries [OF c0(2,3), of ops] c0(4) by auto
  obtain as where as: "lru_ok c as" using c(2) by (auto simp: lru_valid_def)
  have "map (\<lambda>a. (ky (store c) a, vl (store c) a)) as = map (\<lambda>(k, v). (Some k, v)) (entries_at (store c) as)"
    using lru_okD(7) [OF as] by (auto simp: entries_at_def)
  then show ?thesis
    using c0(1) c as lru_okD(8) [OF as]
    by (auto simp: lru_run_def lru_addrs_ok lru_entries_ok lru_len_def)
qed

theorem lru_recency_witness:
  "(0::int) < 2 \<and> (\<exists>c as. lru_run 2 [OpPut ''a'' (Some (1::int)), OpPut ''b'' (Some 2), OpGet ''a'' None, OpPut ''c'' (Some 3)] = Inr c \<and>
     lru_addrs c = Some (Inr as) \<and> length as = lru_len c \<and>
     map (\<lambda>a. (ky (store c) a, vl (store c) a)) as = [(Some ''c'', Some 3), (Some ''a'', Some 1)])"
  using lru_recency [of 2 "[OpPut ''a'' (Some (1::int)), OpPut ''b'' (Some 2), OpGet ''a'' None, OpPut ''c'' (Some 3)]"]
  by simp

text \<open>
  C17. What \<^verbatim>\<open>get\<close> returns: after any sequence of calls, \<^verbatim>\<open>get(k, default)\<close> does not raise and
  returns the value last put under \<open>k\<close> if \<open>k\<close> is among the \<open>capacity\<close> most recently touched
  keys, and the default otherwise.
\<close>

theorem lru_get_result:
  fixes ops :: "('k, 'v option) cache_op list"
  assumes "0 < cap" "lru_run cap ops = Inr c"
  shows "\<exists>c'. lru_get c k d = Inr (dict_get (take (nat cap) (recency (nat cap) (rev ops))) k d, c')"
proof -
  obtain c0 :: "('k, 'v) lru" where c0: "lru_init cap = Inr c0" "lru_valid c0" "lru_entries c0 = []" "lru_cap c0 = nat cap"
    using lru_init_valid [OF assms(1)] by metis
  then show ?thesis
    using lruc.get_after_run [OF c0(2,3), of ops c k d] assms(2) by (auto simp: lru_run_def)
qed

lemma lru_run_total:
  fixes ops :: "('k, 'v option) cache_op list"
  assumes "0 < cap" obtains c where "lru_run cap ops = Inr c"
  using lruc.run_entries lru_init_valid [OF assms] that by (metis lru_run_def rbind.simps(2))

theorem lru_get_result_witness:
  "\<exists>c :: (string, int) lru. lru_run 2 [OpPut ''a'' (Some 1), OpPut ''b'' (Some 2), OpGet ''a'' None, OpPut ''c'' (Some 3)] = Inr c \<and>
     (\<exists>c'. lru_get c ''b'' None = Inr (None, c')) \<and> (\<exists>c'. lru_get c ''a'' None = Inr (Some 1, c'))"
proof -
  let ?ops = "[OpPut ''a'' (Some (1::int)), OpPut ''b'' (Some 2), OpGet ''a'' None, OpPut ''c'' (Some 3)]"
  have pos: "(0::int) < 2" by simp
  obtain c where c: "lru_run 2 ?ops = Inr c" using lru_run_total [OF pos] .
  show ?thesis
    using c lru_get_result [OF pos c, of "''b''" None] lru_get_result [OF pos c, of "''a''" None]
    by (simp add: dict_get_def)
qed

definition count_gets :: "('k, 'v) cache_op list \<Rightarrow> nat" where
  "count_gets ops = length (filter (\<lambda>op. case op of OpGet _ _ \<Rightarrow> True | OpPut _ _ \<Rightarrow> False) ops)"

lemma lru_step_stats:
  assumes "lru_valid c" "run_ops lru_get lru_put c [op] = Inr c'"
  shows "lru_valid c' \<and> capacity c' = capacity c \<and>
    hits c' + misses c' = hits c + misses c + count_gets [op] \<and>
    lru_len c' + evictions c' \<ge> lru_len c + evictions c \<and>
    lru_len c' + evictions c' \<le> lru_len c + evictions c + (1 - count_gets [op])"
proof (cases op)
  case (OpGet k d)
  show ?thesis
  proof (cases "map_of (lru_entries c) k")
    case None
    with lru_get_absent [OF assms(1) None] assms(2) OpGet show ?thesis
      by (auto simp: count_gets_def lru_len_def)
  next
    case (Some v)
    with lru_get_present [OF assms(1) Some, of d] assms(2) OpGet show ?thesis
      by (auto simp: count_gets_def lru_len_def)
  qed
next
  case (OpPut k v)
  obtain as where as: "lru_ok c as" using assms(1) by (auto simp: lru_valid_def)
  show ?thesis
  proof (cases "map_of (nodes c) k")
    case None
    with lru_put_new [OF as None, of v] assms(2) OpPut show ?thesis
      by (auto simp: count_gets_def lru_len_def)
  next
    case (Some a)
    with lru_put_old [OF as Some, of v] assms(2) OpPut show ?thesis
      by (auto simp: count_gets_def lru_len_def)
  qed
qed

lemma count_gets_append [simp]: "count_gets (xs @ ys) = count_gets xs + count_gets ys"
  by (simp add: count_gets_def)

lemma count_gets_single: "count_gets [op] \<le> 1"
  by (simp add: count_gets_def)

lemma lru_run_stats:
  fixes ops :: "('k, 'v option) cache_op list"
  assumes "0 < cap" "lru_run cap ops = Inr c"
  shows "lru_valid c \<and> capacity c = cap \<and> hits c + misses c = count_gets ops \<and> lru_len c + evictions c + count_gets ops \<le> length ops"
proof -
  obtain c0 :: "('k, 'v) lru" where c0: "lru_init cap = Inr c0" "lru_valid c0" "lru_entries c0 = []" "lru_cap c0 = nat cap"
    "hits c0 = 0" "misses c0 = 0" "evictions c0 = 0" "nodes c0 = []"
    using lru_init_valid [OF assms(1)] by metis
  have cap0: "capacity c0 = cap" using c0(4) assms(1) by (simp add: lru_cap_def eq_nat_nat_iff)
  have "lru_valid c \<and> capacity c = cap \<and> hits c + misses c = count_gets ops \<and>
      lru_len c + evictions c + count_gets ops \<le> length ops"
    if "run_ops lru_get lru_put c0 ops = Inr c" for c
    using that
  proof (induction ops arbitrary: c rule: rev_induct)
    case Nil
    with c0 cap0 show ?case by (simp add: count_gets_def lru_len_def)
  next
    case (snoc op ops)
    then obtain c1 where c1: "run_ops lru_get lru_put c0 ops = Inr c1" "run_ops lru_get lru_put c1 [op] = Inr c"
      by (auto simp: run_ops_append res_simps)
    from snoc.IH [OF c1(1)] lru_step_stats [OF _ c1(2)] count_gets_single [of op] show ?case
      by auto
  qed
  then show ?thesis using assms(2) c0(1) by (auto simp: lru_run_def)
qed

text \<open>
  Observability counters: after any sequence of calls \<^verbatim>\<open>hits + misses\<close> is the number of
  \<^verbatim>\<open>get\<close> calls, the size is at most the capacity, size plus evictions is at most the number of
  \<^verbatim>\<open>put\<close> calls, and the hit ratio lies between 0 and 1.
\<close>

theorem lru_stats:
  fixes ops :: "('k, 'v option) cache_op list"
  assumes "0 < cap" "lru_run cap ops = Inr c"
  shows "hits c + misses c = count_gets ops \<and> int (lru_len c) \<le> cap \<and>
    lru_len c + evictions c + count_gets ops \<le> length ops \<and> 0 \<le> hit_ratio c \<and> hit_ratio c \<le> 1"
proof -
  note c = lru_run_stats [OF assms]
  have "int (lru_len c) \<le> cap"
    using lru_valid_bounded [of c] c assms(1) by (simp add: lru_len_def lru_cap_def)
  moreover have "0 \<le> hit_ratio c \<and> hit_ratio c \<le> 1"
    by (auto simp: hit_ratio_def Let_def divide_simps)
  ultimately show ?thesis using c by blast
qed

theorem lru_stats_witness:
  "\<exists>c :: (string, int) lru. lru_run 1 [OpPut ''a'' (Some 1), OpPut ''b'' (Some 2), OpGet ''a'' None] = Inr c \<and>
     hits c + misses c = 1 \<and> lru_len c + evictions c \<le> 2 \<and> hit_ratio c \<le> 1"
proof -
  have pos: "(0::int) < 1" by simp
  obtain c where c: "lru_run 1 [OpPut ''a'' (Some (1::int)), OpPut ''b'' (Some 2), OpGet ''a'' None] = Inr c"
    using lru_run_total [OF pos] .
  show ?thesis using c lru_stats [OF pos c] by (simp add: count_gets_def)
qed

section \<open>The demo of the module\<close>

text \<open>\<^verbatim>\<open>demo_basic\<close>, with its assertions; printing is left out.\<close>

definition demo_basic :: "(string, int) lru res" where
  "demo_basic =
     rbind (lru_init 2) (\<lambda>c.
     rbind (lru_put c ''a'' (Some 1)) (\<lambda>c.
     rbind (lru_put c ''b'' (Some 2)) (\<lambda>c.
     rbind (lru_get c ''a'' None) (\<lambda>(r, c).
     rbind (py_assert (r = Some 1)) (\<lambda>_.
     rbind (lru_put c ''c'' (Some 3)) (\<lambda>c.
     rbind (lru_get c ''b'' None) (\<lambda>(r, c).
     rbind (py_assert (r = None)) (\<lambda>_.
     rbind (lru_get c ''a'' None) (\<lambda>(r, c).
     rbind (py_assert (r = Some 1)) (\<lambda>_.
     rbind (lru_get c ''c'' None) (\<lambda>(r, c).
     rbind (py_assert (r = Some 3)) (\<lambda>_.
     rbind (py_assert (evictions c = 1)) (\<lambda>_.
     rbind (py_assert (lru_len c = 2)) (\<lambda>_. Inr c))))))))))))))"

lemma demo_basic_passes: "\<exists>c. demo_basic = Inr c \<and> hits c = 3 \<and> misses c = 1"
  by (simp add: demo_basic_def lru_init_def lru_put_def lru_get_def lru_remove_def lru_push_front_def
      lru_evict_def lru_len_def py_assert_def set_next_def set_prev_def deref_def new_node_def
      dict_del_def Let_def)

end
