(* ===== verification/Py_Str.thy ===== *)
theory Py_Str
  imports Prelude
begin

text \<open>
  The part of Python's \<^verbatim>\<open>str\<close>, \<^verbatim>\<open>bytes\<close> and \<^verbatim>\<open>int\<close> that the sources use: \<^verbatim>\<open>split\<close> on a
  separator, \<^verbatim>\<open>join\<close>, \<^verbatim>\<open>partition\<close>, \<^verbatim>\<open>strip\<close>, \<^verbatim>\<open>int(s, base)\<close> and \<^verbatim>\<open>str(n)\<close>, with
  the round trips between them. A text is a list of characters with code points below 256.
\<close>

section \<open>Splitting and joining\<close>

fun split_on :: "'a \<Rightarrow> 'a list \<Rightarrow> 'a list list" where
  "split_on c [] = [[]]"
| "split_on c (x # xs) =
     (if x = c then [] # split_on c xs
      else case split_on c xs of [] \<Rightarrow> [[x]] | w # ws \<Rightarrow> (x # w) # ws)"

fun join_with :: "'a list \<Rightarrow> 'a list list \<Rightarrow> 'a list" where
  "join_with sep [] = []"
| "join_with sep [w] = w"
| "join_with sep (w # ws) = w @ sep @ join_with sep ws"

lemma split_on_nonempty [simp]: "split_on c xs \<noteq> []"
  by (induction xs) (auto split: list.splits)

lemma split_on_append_sep:
  "c \<notin> set w \<Longrightarrow> split_on c (w @ c # xs) = w # split_on c xs"
  by (induction w) auto

lemma split_on_no_sep: "c \<notin> set w \<Longrightarrow> split_on c w = [w]"
  by (induction w) auto

lemma split_on_join:
  "ws \<noteq> [] \<Longrightarrow> (\<And>w. w \<in> set ws \<Longrightarrow> c \<notin> set w) \<Longrightarrow> split_on c (join_with [c] ws) = ws"
  by (induction ws rule: induct_list012) (auto simp: split_on_no_sep split_on_append_sep)

lemma join_split: "join_with [c] (split_on c xs) = xs"
proof (induction xs)
  case (Cons x xs)
  obtain w ws where "split_on c xs = w # ws" by (meson neq_Nil_conv split_on_nonempty)
  with Cons show ?case by (cases ws) auto
qed simp

lemma split_on_no_sep_mem: "w \<in> set (split_on c xs) \<Longrightarrow> c \<notin> set w"
  by (induction xs arbitrary: w) (auto split: list.splits if_splits)

section \<open>Stripping\<close>

text \<open>The characters below 256 for which \<^verbatim>\<open>str.isspace\<close> holds.\<close>

definition is_space :: "char \<Rightarrow> bool" where
  "is_space c \<longleftrightarrow> (let n = of_char c :: nat in (9 \<le> n \<and> n \<le> 13) \<or> (28 \<le> n \<and> n \<le> 32) \<or> n = 133 \<or> n = 160)"

text \<open>The same test on integers, which evaluates faster.\<close>

lemma is_space_int [code]:
  "is_space c \<longleftrightarrow> (let n = of_char c :: int in (9 \<le> n \<and> n \<le> 13) \<or> (28 \<le> n \<and> n \<le> 32) \<or> n = 133 \<or> n = 160)"
proof -
  have "(of_char c :: int) = int (of_char c)" by (simp only: of_nat_of_char)
  then show ?thesis unfolding is_space_def Let_def by (simp only:) linarith
qed

definition strip_by :: "('a \<Rightarrow> bool) \<Rightarrow> 'a list \<Rightarrow> 'a list" where
  "strip_by P s = rev (dropWhile P (rev (dropWhile P s)))"

abbreviation strip :: "string \<Rightarrow> string" where
  "strip s \<equiv> strip_by is_space s"

lemma dropWhile_hd: "xs = [] \<or> \<not> P (hd xs) \<Longrightarrow> dropWhile P xs = xs"
  by (cases xs) auto

lemma strip_by_id:
  "s = [] \<or> (\<not> P (hd s) \<and> \<not> P (last s)) \<Longrightarrow> strip_by P s = s"
  by (cases "s = []") (auto simp: strip_by_def dropWhile_hd hd_rev)

section \<open>Integers as text\<close>

definition digit_val :: "char \<Rightarrow> int option" where
  "digit_val c = (let n = of_char c :: int in
     if 48 \<le> n \<and> n \<le> 57 then Some (n - 48)
     else if 97 \<le> n \<and> n \<le> 122 then Some (n - 87)
     else if 65 \<le> n \<and> n \<le> 90 then Some (n - 55)
     else None)"

text \<open>
  The digits of a literal: \<open>us\<close> says that an underscore may not come next and that the literal
  may not end here (at the start and after an underscore).
\<close>

fun read_digits :: "int \<Rightarrow> int \<Rightarrow> bool \<Rightarrow> string \<Rightarrow> int option" where
  "read_digits b acc us [] = (if us then None else Some acc)"
| "read_digits b acc us (c # cs) =
     (if c = CHR ''_'' then (if us then None else read_digits b acc True cs)
      else case digit_val c of
        None \<Rightarrow> None
      | Some d \<Rightarrow> if d < b then read_digits b (acc * b + d) False cs else None)"

text \<open>\<^verbatim>\<open>0x\<close> and \<^verbatim>\<open>0X\<close> are accepted in base 16, with an optional underscore after them.\<close>

definition drop_base_prefix :: "int \<Rightarrow> string \<Rightarrow> string" where
  "drop_base_prefix b s =
     (if b = 16 then
        case s of c # x # rest \<Rightarrow>
            if c = CHR ''0'' \<and> (x = CHR ''x'' \<or> x = CHR ''X'')
            then (case rest of [] \<Rightarrow> [] | u # rest' \<Rightarrow> if u = CHR ''_'' then rest' else rest)
            else s
        | _ \<Rightarrow> s
      else s)"

definition read_unsigned :: "int \<Rightarrow> string \<Rightarrow> int res" where
  "read_unsigned b s =
     (case read_digits b 0 True (drop_base_prefix b s) of None \<Rightarrow> Inl ValueError | Some n \<Rightarrow> Inr n)"

definition py_int :: "int \<Rightarrow> string \<Rightarrow> int res" where
  "py_int b s =
     (case strip s of
        [] \<Rightarrow> Inl ValueError
      | c # cs \<Rightarrow>
          if c = CHR ''+'' then read_unsigned b cs
          else if c = CHR ''-'' then rbind (read_unsigned b cs) (\<lambda>n. Inr (- n))
          else read_unsigned b (c # cs))"

definition digit_char :: "nat \<Rightarrow> char" where
  "digit_char d = char_of (48 + d)"

fun str_nat :: "nat \<Rightarrow> string" where
  "str_nat n = (if n < 10 then [digit_char n] else str_nat (n div 10) @ [digit_char (n mod 10)])"

declare str_nat.simps [simp del]

definition py_str :: "int \<Rightarrow> string" where
  "py_str n = (if n < 0 then CHR ''-'' # str_nat (nat (- n)) else str_nat (nat n))"

lemma of_char_digit: "d < 10 \<Longrightarrow> (of_char (digit_char d) :: int) = 48 + int d"
proof -
  assume "d < 10"
  then have "(of_char (digit_char d) :: nat) = 48 + d" by (simp add: digit_char_def)
  then have "int (of_char (digit_char d)) = 48 + int d" by simp
  then show ?thesis by (simp only: of_nat_of_char)
qed

lemma digit_val_digit_char [simp]: "d < 10 \<Longrightarrow> digit_val (digit_char d) = Some (int d)"
  by (simp add: digit_val_def of_char_digit Let_def)

lemma digit_char_facts:
  assumes "d < 10"
  shows "digit_char d \<noteq> CHR ''_''" "digit_char d \<noteq> CHR ''.''" "digit_char d \<noteq> CHR ''/''"
    "digit_char d \<noteq> CHR ''-''" "digit_char d \<noteq> CHR ''+''" "digit_char d \<noteq> CHR ''\<newline>''"
    "digit_char d \<noteq> CHR ''#''" "\<not> is_space (digit_char d)"
proof -
  have n: "(of_char (digit_char d) :: nat) = 48 + d" using assms by (simp add: digit_char_def)
  show "digit_char d \<noteq> CHR ''_''" "digit_char d \<noteq> CHR ''.''" "digit_char d \<noteq> CHR ''/''"
    "digit_char d \<noteq> CHR ''-''" "digit_char d \<noteq> CHR ''+''" "digit_char d \<noteq> CHR ''\<newline>''"
    "digit_char d \<noteq> CHR ''#''"
    by (rule notI, use n assms in simp)+
  show "\<not> is_space (digit_char d)" using n assms by (simp add: is_space_def Let_def)
qed

lemma str_nat_nonempty [simp]: "str_nat n \<noteq> []"
  by (subst str_nat.simps) simp

lemma str_nat_digits: "c \<in> set (str_nat n) \<Longrightarrow> \<exists>d<10. c = digit_char d"
proof (induction n rule: str_nat.induct)
  case (1 n)
  then show ?case
    by (cases "n < 10") (auto simp: str_nat.simps [of n] intro: exI [of _ "n mod 10"])
qed

lemma read_digits_str_nat:
  "read_digits 10 0 us (str_nat n @ rest) = read_digits 10 (int n) False rest"
proof (induction n arbitrary: rest us rule: str_nat.induct)
  case (1 n)
  show ?case
  proof (cases "n < 10")
    case True
    then show ?thesis by (simp add: str_nat.simps [of n] digit_char_facts)
  next
    case False
    have "read_digits 10 0 us (str_nat n @ rest) =
        read_digits 10 0 us (str_nat (n div 10) @ digit_char (n mod 10) # rest)"
      using False by (simp add: str_nat.simps [of n])
    also have "\<dots> = read_digits 10 (int (n div 10)) False (digit_char (n mod 10) # rest)"
      using 1 [OF False] by blast
    also have "\<dots> = read_digits 10 (int n) False rest"
      by (simp add: digit_char_facts flip: of_nat_mod of_nat_div)
        (metis div_mult_mod_eq of_nat_add of_nat_mult of_nat_numeral)
    finally show ?thesis .
  qed
qed

lemma read_unsigned_str_nat: "read_unsigned 10 (str_nat n) = Inr (int n)"
  using read_digits_str_nat [of True n "[]"] by (simp add: read_unsigned_def drop_base_prefix_def)

lemma str_nat_chars:
  assumes "c \<in> set (str_nat n)"
  shows "c \<noteq> CHR ''_''" "c \<noteq> CHR ''.''" "c \<noteq> CHR ''/''" "c \<noteq> CHR ''-''" "c \<noteq> CHR ''+''"
    "c \<noteq> CHR ''\<newline>''" "c \<noteq> CHR ''#''" "\<not> is_space c"
proof -
  obtain d where d: "d < 10" "c = digit_char d" using str_nat_digits [OF assms] by blast
  show "c \<noteq> CHR ''_''" "c \<noteq> CHR ''.''" "c \<noteq> CHR ''/''" "c \<noteq> CHR ''-''" "c \<noteq> CHR ''+''"
    "c \<noteq> CHR ''\<newline>''" "c \<noteq> CHR ''#''" "\<not> is_space c"
    unfolding d(2) by (fact digit_char_facts [OF d(1)])+
qed

lemma minus_no_space: "\<not> is_space CHR ''-''"
  by (simp add: is_space_def Let_def)

lemma strip_py_str: "strip (py_str n) = py_str n"
proof (rule strip_by_id)
  have "\<not> is_space (hd (str_nat m))" "\<not> is_space (last (str_nat m))" for m
    by (rule str_nat_chars(8) [of "hd (str_nat m)" m], simp)
      (rule str_nat_chars(8) [of "last (str_nat m)" m], simp)
  then show "py_str n = [] \<or> (\<not> is_space (hd (py_str n)) \<and> \<not> is_space (last (py_str n)))"
    by (auto simp: py_str_def minus_no_space)
qed

text \<open>\<^verbatim>\<open>int(str(n)) == n\<close>.\<close>

lemma py_int_py_str [simp]: "py_int 10 (py_str n) = Inr n"
proof (cases "n < 0")
  case True
  then show ?thesis
    using strip_py_str [of n] by (simp add: py_int_def py_str_def read_unsigned_str_nat)
next
  case False
  obtain c cs where c: "str_nat (nat n) = c # cs" by (meson neq_Nil_conv str_nat_nonempty)
  then have "c \<noteq> CHR ''+''" "c \<noteq> CHR ''-''" using str_nat_chars [of c "nat n"] by auto
  with False c show ?thesis
    using strip_py_str [of n] read_unsigned_str_nat [of "nat n"] by (simp add: py_int_def py_str_def)
qed

lemma py_str_no_sep: "CHR ''.'' \<notin> set (py_str n)" "CHR ''/'' \<notin> set (py_str n)"
    "CHR ''\<newline>'' \<notin> set (py_str n)" "CHR ''#'' \<notin> set (py_str n)"
proof -
  have "CHR ''.'' \<notin> set (str_nat m)" "CHR ''/'' \<notin> set (str_nat m)"
    "CHR ''\<newline>'' \<notin> set (str_nat m)" "CHR ''#'' \<notin> set (str_nat m)" for m
    using str_nat_chars(2,3,6,7) [of _ m] by blast+
  then show "CHR ''.'' \<notin> set (py_str n)" "CHR ''/'' \<notin> set (py_str n)"
    "CHR ''\<newline>'' \<notin> set (py_str n)" "CHR ''#'' \<notin> set (py_str n)"
    by (simp_all add: py_str_def)
qed

section \<open>Lists of fallible results\<close>

fun rmap :: "('a \<Rightarrow> 'e + 'b) \<Rightarrow> 'a list \<Rightarrow> 'e + 'b list" where
  "rmap f [] = Inr []"
| "rmap f (x # xs) = rbind (f x) (\<lambda>y. rbind (rmap f xs) (\<lambda>ys. Inr (y # ys)))"

lemma rmap_Inr: "(\<And>x. x \<in> set xs \<Longrightarrow> f x = Inr (g x)) \<Longrightarrow> rmap f xs = Inr (map g xs)"
  by (induction xs) auto

lemma rmap_length: "rmap f xs = Inr ys \<Longrightarrow> length ys = length xs"
  by (induction xs arbitrary: ys) (auto simp: res_simps)

end
