(* ===== verification/Subnet.thy ===== *)
theory Subnet
  imports Py_Str
begin

unbundle bit_operations_syntax

text \<open>
  \<^verbatim>\<open>comp_networking/examples/subnet_calculator.py\<close>: IPv4 text and integers, CIDR blocks, equal
  splitting, VLSM allocation and the longest-prefix-match routing table. Python's unbounded
  integers are \<open>int\<close> with the bitwise operations of the source. A block is built from its
  text, as in the source, so the text round trip is part of every operation below.
\<close>

section \<open>Addresses and masks\<close>

definition ip_to_int :: "string \<Rightarrow> int res" where
  "ip_to_int ip =
     rbind (rmap (py_int 10) (split_on CHR ''.'' ip)) (\<lambda>ps.
       case ps of
         [a, b, c, d] \<Rightarrow> Inr (((push_bit 24 a OR push_bit 16 b) OR push_bit 8 c) OR d)
       | _ \<Rightarrow> Inl ValueError)"

definition int_to_ip :: "int \<Rightarrow> string" where
  "int_to_ip n =
     py_str (drop_bit 24 n AND 0xFF) @ ''.'' @ py_str (drop_bit 16 n AND 0xFF) @ ''.'' @
     py_str (drop_bit 8 n AND 0xFF) @ ''.'' @ py_str (n AND 0xFF)"

text \<open>A shift by a negative count raises \<open>ValueError\<close>.\<close>

definition py_shl :: "int \<Rightarrow> int \<Rightarrow> int res" where
  "py_shl x k = (if k < 0 then Inl ValueError else Inr (push_bit (nat k) x))"

definition mask_from_prefix :: "int \<Rightarrow> int res" where
  "mask_from_prefix p =
     (if p = 0 then Inr 0 else rbind (py_shl 0xFFFFFFFF (32 - p)) (\<lambda>m. Inr (m AND 0xFFFFFFFF)))"

section \<open>Blocks\<close>

record subnet =
  sn_prefix :: int
  sn_mask :: int
  network_int :: int
  broadcast_int :: int

definition mk_subnet :: "string \<Rightarrow> subnet res" where
  "mk_subnet cidr =
     (case split_on CHR ''/'' cidr of
        [net_str, prefix_str] \<Rightarrow>
          rbind (py_int 10 prefix_str) (\<lambda>p.
          rbind (mask_from_prefix p) (\<lambda>m.
          rbind (ip_to_int net_str) (\<lambda>ip.
          let net = ip AND m in
          Inr \<lparr>sn_prefix = p, sn_mask = m, network_int = net,
               broadcast_int = net OR (NOT m AND 0xFFFFFFFF)\<rparr>)))
      | _ \<Rightarrow> Inl ValueError)"

definition sn_network :: "subnet \<Rightarrow> string" where
  "sn_network s = int_to_ip (network_int s)"

definition sn_broadcast :: "subnet \<Rightarrow> string" where
  "sn_broadcast s = int_to_ip (broadcast_int s)"

definition total_addresses :: "subnet \<Rightarrow> int" where
  "total_addresses s = broadcast_int s - network_int s + 1"

definition usable_hosts :: "subnet \<Rightarrow> int" where
  "usable_hosts s = (if sn_prefix s \<ge> 31 then total_addresses s else total_addresses s - 2)"

definition first_host :: "subnet \<Rightarrow> string" where
  "first_host s = (if sn_prefix s \<ge> 31 then sn_network s else int_to_ip (network_int s + 1))"

definition last_host :: "subnet \<Rightarrow> string" where
  "last_host s = (if sn_prefix s \<ge> 31 then sn_broadcast s else int_to_ip (broadcast_int s - 1))"

definition cidr_str :: "int \<Rightarrow> int \<Rightarrow> string" where
  "cidr_str addr p = int_to_ip addr @ ''/'' @ py_str p"

text \<open>The loop of \<^verbatim>\<open>split\<close>: \<open>step\<close> is at least 1, so the distance to the broadcast address shrinks.\<close>

function split_loop :: "int \<Rightarrow> int \<Rightarrow> int \<Rightarrow> int \<Rightarrow> subnet list res" where
  "split_loop new_prefix step bcast addr =
     (if addr \<le> bcast \<and> 0 < step then
        rbind (mk_subnet (cidr_str addr new_prefix)) (\<lambda>c.
        rbind (split_loop new_prefix step bcast (addr + step)) (\<lambda>cs. Inr (c # cs)))
      else Inr [])"
  by pat_completeness auto
termination
  by (relation "measure (\<lambda>(p, step, b, a). nat (b + 1 - a))") auto

declare split_loop.simps [simp del]

definition sn_split :: "subnet \<Rightarrow> int \<Rightarrow> subnet list res" where
  "sn_split s new_prefix =
     rbind (py_assert (new_prefix > sn_prefix s)) (\<lambda>_.
     rbind (py_shl 1 (32 - new_prefix)) (\<lambda>step.
     split_loop new_prefix step (broadcast_int s) (network_int s)))"

section \<open>VLSM allocation\<close>

text \<open>The \<^verbatim>\<open>while prefix > 0\<close> loop, from prefix 32 down; at 0 it stops without a test.\<close>

fun fit_prefix :: "int \<Rightarrow> int \<Rightarrow> nat \<Rightarrow> int res" where
  "fit_prefix cursor hosts 0 = Inr 0"
| "fit_prefix cursor hosts (Suc p) =
     rbind (mk_subnet (cidr_str cursor (int (Suc p)))) (\<lambda>test.
       if usable_hosts test \<ge> hosts then Inr (int (Suc p)) else fit_prefix cursor hosts p)"

fun vlsm_loop :: "subnet \<Rightarrow> (string \<times> int) list \<Rightarrow> int \<Rightarrow> (string \<times> subnet) list res" where
  "vlsm_loop parent [] cursor = Inr []"
| "vlsm_loop parent ((name, hosts) # reqs) cursor =
     rbind (fit_prefix cursor hosts 32) (\<lambda>p.
     rbind (mk_subnet (cidr_str cursor p)) (\<lambda>sub.
     rbind (py_assert (broadcast_int sub \<le> broadcast_int parent)) (\<lambda>_.
     rbind (vlsm_loop parent reqs (broadcast_int sub + 1)) (\<lambda>out. Inr ((name, sub) # out)))))"

text \<open>\<^verbatim>\<open>sorted(..., reverse=True)\<close> is stable, hence a stable sort by the negated key.\<close>

definition vlsm_allocate :: "string \<Rightarrow> (string \<times> int) list \<Rightarrow> (string \<times> subnet) list res" where
  "vlsm_allocate block reqs =
     rbind (mk_subnet block) (\<lambda>parent.
     vlsm_loop parent (sort_key (\<lambda>r. - snd r) reqs) (network_int parent))"

section \<open>Routing table\<close>

record route =
  r_net :: int
  r_mask :: int
  r_prefix :: int
  r_hop :: string

definition rt_add :: "route list \<Rightarrow> string \<Rightarrow> string \<Rightarrow> route list res" where
  "rt_add routes cidr hop =
     rbind (mk_subnet cidr) (\<lambda>s.
     Inr (routes @ [\<lparr>r_net = network_int s, r_mask = sn_mask s, r_prefix = sn_prefix s, r_hop = hop\<rparr>]))"

fun lpm_scan :: "int \<Rightarrow> route list \<Rightarrow> string option \<Rightarrow> int \<Rightarrow> string option" where
  "lpm_scan addr [] best best_prefix = best"
| "lpm_scan addr (r # rs) best best_prefix =
     (if (addr AND r_mask r) = r_net r \<and> r_prefix r > best_prefix
      then lpm_scan addr rs (Some (r_hop r)) (r_prefix r)
      else lpm_scan addr rs best best_prefix)"

definition rt_lookup :: "route list \<Rightarrow> string \<Rightarrow> string option res" where
  "rt_lookup routes ip = rbind (ip_to_int ip) (\<lambda>addr. Inr (lpm_scan addr routes None (- 1)))"

section \<open>The checks of the script\<close>

text \<open>
  The asserts of the main block. What \<^verbatim>\<open>ipaddress.ip_network("192.168.1.0/24")\<close> reports is a
  parameter of the first group.
\<close>

definition demo_cidr :: "string \<Rightarrow> string \<Rightarrow> int \<Rightarrow> unit res" where
  "demo_cidr ref_network ref_broadcast ref_num =
     rbind (mk_subnet ''192.168.1.0/24'') (\<lambda>s.
     rbind (py_assert (sn_network s = ref_network)) (\<lambda>_.
     rbind (py_assert (sn_broadcast s = ref_broadcast)) (\<lambda>_.
     rbind (py_assert (usable_hosts s = ref_num - 2)) (\<lambda>_.
     rbind (mk_subnet ''10.0.0.0/31'') (\<lambda>p2p.
     py_assert (usable_hosts p2p = 2))))))"

definition demo_split :: "unit res" where
  "demo_split =
     rbind (mk_subnet ''10.0.0.0/22'') (\<lambda>s.
     rbind (sn_split s 24) (\<lambda>children.
     rbind (py_assert (length children = 4)) (\<lambda>_.
     py_assert (map sn_network children = [''10.0.0.0'', ''10.0.1.0'', ''10.0.2.0'', ''10.0.3.0'']))))"

fun no_overlap :: "subnet list \<Rightarrow> bool" where
  "no_overlap [] = True"
| "no_overlap (a # bs) \<longleftrightarrow>
     list_all (\<lambda>b. network_int b > broadcast_int a \<or> network_int a > broadcast_int b) bs \<and> no_overlap bs"

definition demo_vlsm :: "unit res" where
  "demo_vlsm =
     rbind (vlsm_allocate ''172.16.0.0/24''
       [(''sales (100 hosts)'', 100), (''eng   (50 hosts)'', 50), (''ops   (25 hosts)'', 25), (''p2p   (2 hosts)'', 2)])
     (\<lambda>plan. py_assert (no_overlap (map snd plan)))"

definition demo_routing :: "unit res" where
  "demo_routing =
     rbind (rt_add [] ''0.0.0.0/0'' ''default-gw'') (\<lambda>rt.
     rbind (rt_add rt ''10.0.0.0/8'' ''core-router'') (\<lambda>rt.
     rbind (rt_add rt ''10.1.0.0/16'' ''regional-router'') (\<lambda>rt.
     rbind (rt_add rt ''10.1.2.0/24'' ''site-router'') (\<lambda>rt.
     rbind (rmap (\<lambda>(ip, expected). rbind (rt_lookup rt ip) (\<lambda>hop. py_assert (hop = Some expected)))
        [(''10.1.2.55'', ''site-router''), (''10.1.9.9'', ''regional-router''),
         (''10.9.9.9'', ''core-router''), (''8.8.8.8'', ''default-gw'')]) (\<lambda>_. Inr ())))))"

definition subnet_main :: "string \<Rightarrow> string \<Rightarrow> int \<Rightarrow> unit res" where
  "subnet_main ref_network ref_broadcast ref_num =
     rbind (demo_cidr ref_network ref_broadcast ref_num) (\<lambda>_.
     rbind demo_split (\<lambda>_. rbind demo_vlsm (\<lambda>_. demo_routing)))"

section \<open>Bits and arithmetic\<close>

lemma all_ones32: "(0xFFFFFFFF :: int) = mask 32"
  by (simp add: mask_eq_exp_minus_1)

lemma all_ones8: "(0xFF :: int) = mask 8"
  by (simp add: mask_eq_exp_minus_1)

lemma bit_small: "0 \<le> a \<Longrightarrow> a < 2 ^ n \<Longrightarrow> bit (a :: int) i \<Longrightarrow> i < n"
  by (metis bit_take_bit_iff take_bit_int_eq_self_iff)

lemma mask_from_prefix_bits:
  assumes "0 \<le> p" "p \<le> 32"
  shows "\<exists>m. mask_from_prefix p = Inr m \<and> (\<forall>n. bit m n \<longleftrightarrow> nat (32 - p) \<le> n \<and> n < 32)"
  using assms
  by (auto simp: mask_from_prefix_def py_shl_def all_ones32 bit_push_bit_iff bit_mask_iff
      bit_and_iff not_le)

text \<open>The block of size \<open>2 ^ (32 - p)\<close> that holds the address \<open>a\<close>, in arithmetic.\<close>

definition bsize :: "int \<Rightarrow> int" where
  "bsize p = 2 ^ nat (32 - p)"

definition block :: "int \<Rightarrow> int \<Rightarrow> subnet" where
  "block a p = \<lparr>sn_prefix = p, sn_mask = 2 ^ 32 - bsize p, network_int = a - a mod bsize p,
                broadcast_int = a - a mod bsize p + bsize p - 1\<rparr>"

lemma bsize_pos [simp]: "0 < bsize p" and bsize_nonneg [simp]: "0 \<le> bsize p"
  and bsize_nonzero [simp]: "bsize p \<noteq> 0"
  by (simp_all add: bsize_def)

lemma and_high_mask:
  fixes a m :: int
  assumes "\<And>n. bit m n \<longleftrightarrow> k \<le> n \<and> n < 32" "0 \<le> a" "a < 2 ^ 32"
  shows "a AND m = a - a mod 2 ^ k"
proof -
  have "a AND m = push_bit k (drop_bit k a)"
    by (rule bit_eqI) (use assms bit_small [of a 32] in
        \<open>auto simp: bit_and_iff bit_push_bit_iff bit_drop_bit_eq\<close>)
  also have "\<dots> = a - a mod 2 ^ k"
    by (simp add: push_bit_eq_mult drop_bit_eq_div minus_mod_eq_div_mult)
  finally show ?thesis .
qed

lemma not_mask_low:
  assumes "\<And>n. bit m n \<longleftrightarrow> k \<le> n \<and> n < 32" "k \<le> 32"
  shows "NOT m AND 0xFFFFFFFF = (2 ^ k - 1 :: int)"
proof -
  have "NOT m AND 0xFFFFFFFF = mask k"
    unfolding all_ones32
  proof (rule bit_eqI)
    show "bit (NOT m AND mask 32) n = bit (mask k :: int) n" for n
      unfolding bit_and_iff bit_not_int_iff bit_mask_iff assms(1) using assms(2) by auto
  qed
  then show ?thesis by (simp add: mask_eq_exp_minus_1)
qed

lemma or_low:
  assumes "(2 ^ k :: int) dvd net"
  shows "net OR (2 ^ k - 1) = net + (2 ^ k - 1)"
proof -
  have "net AND mask k = 0"
    using assms by (simp only: take_bit_eq_0_iff take_bit_eq_mask [symmetric])
  then show ?thesis
    using disjunctive_add_eq_or [of net "mask k"] by (simp add: mask_eq_exp_minus_1)
qed

lemma mask_value:
  assumes "\<And>n. bit m n \<longleftrightarrow> k \<le> n \<and> n < 32" "k \<le> 32"
  shows "m = (2 ^ 32 - 2 ^ k :: int)"
proof -
  have "m = push_bit k (mask (32 - k))"
  proof (rule bit_eqI)
    show "bit m n = bit (push_bit k (mask (32 - k)) :: int) n" for n
      unfolding bit_push_bit_iff bit_mask_iff assms(1) using assms(2) by auto
  qed
  also have "\<dots> = 2 ^ 32 - 2 ^ k"
    using assms(2)
    by (simp add: push_bit_eq_mult mask_eq_exp_minus_1 left_diff_distrib power_add [symmetric])
  finally show ?thesis .
qed

section \<open>Text round trips\<close>

lemma int_to_ip_join:
  "int_to_ip n = join_with ''.'' [py_str (drop_bit 24 n AND 0xFF), py_str (drop_bit 16 n AND 0xFF),
     py_str (drop_bit 8 n AND 0xFF), py_str (n AND 0xFF)]"
  by (simp add: int_to_ip_def)

lemma split_int_to_ip:
  "split_on CHR ''.'' (int_to_ip n) = [py_str (drop_bit 24 n AND 0xFF), py_str (drop_bit 16 n AND 0xFF),
     py_str (drop_bit 8 n AND 0xFF), py_str (n AND 0xFF)]"
  unfolding int_to_ip_join by (rule split_on_join) (auto simp: py_str_no_sep)

lemma octets_recombine:
  "((push_bit 24 (drop_bit 24 n AND 0xFF) OR push_bit 16 (drop_bit 16 n AND 0xFF)) OR
     push_bit 8 (drop_bit 8 n AND 0xFF)) OR (n AND 0xFF) = (take_bit 32 n :: int)"
  unfolding all_ones8
proof (rule bit_eqI)
  fix i :: nat
  have *: "i < 32 \<longleftrightarrow> (24 \<le> i \<and> i - 24 < 8) \<or> (16 \<le> i \<and> i - 16 < 8) \<or> (8 \<le> i \<and> i - 8 < 8) \<or> i < 8"
    by arith
  show "bit (((push_bit 24 (drop_bit 24 n AND mask 8) OR push_bit 16 (drop_bit 16 n AND mask 8)) OR
     push_bit 8 (drop_bit 8 n AND mask 8)) OR (n AND mask 8)) i = bit (take_bit 32 n) i"
    unfolding bit_or_iff bit_and_iff bit_push_bit_iff bit_drop_bit_eq o_apply bit_mask_iff bit_take_bit_iff *
    by (auto simp: possible_bit_def)
qed

lemma ip_to_int_int_to_ip [simp]: "ip_to_int (int_to_ip n) = Inr (n mod 2 ^ 32)"
proof -
  have "rmap (py_int 10) [py_str a, py_str b, py_str c, py_str d] = Inr [a, b, c, d]" for a b c d
    by simp
  then show ?thesis
    by (simp only: ip_to_int_def split_int_to_ip rbind.simps list.case octets_recombine take_bit_eq_mod)
qed

lemma int_to_ip_no_slash: "CHR ''/'' \<notin> set (int_to_ip n)"
  by (simp add: int_to_ip_def py_str_no_sep)

lemma split_cidr_str: "split_on CHR ''/'' (cidr_str a p) = [int_to_ip a, py_str p]"
  using split_on_append_sep [OF int_to_ip_no_slash] split_on_no_sep [OF py_str_no_sep(2)]
  by (simp add: cidr_str_def)

lemma mk_subnet_parts:
  assumes "split_on CHR ''/'' cidr = [ip, ps]" "py_int 10 ps = Inr p" "ip_to_int ip = Inr a"
    and "0 \<le> p" "p \<le> 32" "0 \<le> a" "a < 2 ^ 32"
  shows "mk_subnet cidr = Inr (block a p)"
proof -
  let ?k = "nat (32 - p)"
  obtain m where m: "mask_from_prefix p = Inr m" "\<And>n. bit m n \<longleftrightarrow> ?k \<le> n \<and> n < 32"
    using mask_from_prefix_bits [OF assms(4,5)] by blast
  have k: "?k \<le> 32" using assms(4) by simp
  have net: "a AND m = a - a mod 2 ^ ?k" by (rule and_high_mask [OF m(2) assms(6,7)])
  have "(2 ^ ?k :: int) dvd a - a mod 2 ^ ?k" by (simp add: dvd_minus_mod)
  from or_low [OF this] have "(a AND m) OR (NOT m AND 0xFFFFFFFF) = a - a mod 2 ^ ?k + (2 ^ ?k - 1)"
    unfolding not_mask_low [OF m(2) k] net .
  then show ?thesis
    using assms(1-3) m(1) net mask_value [OF m(2) k]
    by (simp add: mk_subnet_def block_def bsize_def Let_def)
qed

lemma mk_subnet_cidr:
  assumes "0 \<le> p" "p \<le> 32"
  shows "mk_subnet (cidr_str a p) = Inr (block (a mod 2 ^ 32) p)"
  using assms by (intro mk_subnet_parts [OF split_cidr_str]) simp_all

section \<open>Blocks in arithmetic\<close>

lemma block_sel [simp]:
  "sn_prefix (block a p) = p"
  "network_int (block a p) = a - a mod bsize p"
  "broadcast_int (block a p) = a - a mod bsize p + bsize p - 1"
  "sn_mask (block a p) = 2 ^ 32 - bsize p"
  "total_addresses (block a p) = bsize p"
  by (simp_all add: block_def total_addresses_def)

lemma bsize_dvd: "p \<le> q \<Longrightarrow> bsize q dvd bsize p"
  by (simp add: bsize_def le_imp_power_dvd)

lemma bsize_dvd_2_32: "0 \<le> p \<Longrightarrow> bsize p dvd 2 ^ 32"
  unfolding bsize_def by (rule le_imp_power_dvd) simp

lemma bsize_mono: "p \<le> q \<Longrightarrow> bsize q \<le> bsize p"
  by (rule zdvd_imp_le [OF bsize_dvd]) simp_all

lemma block_aligned: "bsize p dvd a \<Longrightarrow> network_int (block a p) = a \<and> broadcast_int (block a p) = a + bsize p - 1"
  by simp

lemma in_block_iff:
  fixes a x :: int
  shows "a - a mod bsize p \<le> x \<and> x \<le> a - a mod bsize p + bsize p - 1 \<longleftrightarrow> x - x mod bsize p = a - a mod bsize p"
proof -
  let ?n = "bsize p"
  have n: "0 < ?n" by simp
  have e: "a - a mod ?n = (a div ?n) * ?n" "x - x mod ?n = (x div ?n) * ?n"
    by (simp_all add: minus_mod_eq_div_mult)
  have "(a div ?n) * ?n \<le> x \<and> x \<le> (a div ?n) * ?n + ?n - 1 \<longleftrightarrow> x div ?n = a div ?n"
  proof
    assume *: "(a div ?n) * ?n \<le> x \<and> x \<le> (a div ?n) * ?n + ?n - 1"
    then have "x div ?n = ((a div ?n) * ?n + (x - (a div ?n) * ?n)) div ?n" by simp
    also have "\<dots> = a div ?n"
      using * n by (subst div_mult_self3) (auto simp: div_pos_pos_trivial)
    finally show "x div ?n = a div ?n" .
  next
    assume "x div ?n = a div ?n"
    then have "(a div ?n) * ?n + x mod ?n = x" by (metis div_mult_mod_eq)
    then show "(a div ?n) * ?n \<le> x \<and> x \<le> (a div ?n) * ?n + ?n - 1"
      using pos_mod_bound [OF n, of x] pos_mod_sign [OF n, of x] by (intro conjI; linarith)
  qed
  moreover have "x div ?n = a div ?n \<longleftrightarrow> (x div ?n) * ?n = (a div ?n) * ?n" using n by simp
  ultimately show ?thesis unfolding e by blast
qed

lemma block_in_range:
  assumes "0 \<le> a" "a < 2 ^ 32" "0 \<le> p"
  shows "0 \<le> network_int (block a p)" "broadcast_int (block a p) < 2 ^ 32"
proof -
  have d: "bsize p dvd 2 ^ 32" by (rule bsize_dvd_2_32 [OF assms(3)])
  show "0 \<le> network_int (block a p)"
    using zmod_le_nonneg_dividend [OF assms(1), of "bsize p"] by simp
  have "bsize p dvd 2 ^ 32 - (a - a mod bsize p)"
    using d by (simp add: dvd_diff dvd_minus_mod)
  moreover have "0 < 2 ^ 32 - (a - a mod bsize p)"
    using assms(2) pos_mod_sign [OF bsize_pos, of a p] by linarith
  ultimately have "bsize p \<le> 2 ^ 32 - (a - a mod bsize p)" by (rule zdvd_imp_le)
  then show "broadcast_int (block a p) < 2 ^ 32" by simp
qed

lemma and_block_mask:
  assumes "0 \<le> x" "x < 2 ^ 32" "0 \<le> p" "p \<le> 32"
  shows "x AND (2 ^ 32 - bsize p) = x - x mod bsize p"
proof -
  obtain m where m: "mask_from_prefix p = Inr m" "\<And>n. bit m n \<longleftrightarrow> nat (32 - p) \<le> n \<and> n < 32"
    using mask_from_prefix_bits [OF assms(3,4)] by blast
  have "nat (32 - p) \<le> 32" using assms(3) by simp
  from mask_value [OF m(2) this] and_high_mask [OF m(2) assms(1,2)] show ?thesis
    by (simp add: bsize_def)
qed

section \<open>Splitting\<close>

lemma split_loop_blocks:
  assumes "0 \<le> addr" "bsize p dvd addr" "addr + int n * bsize p \<le> 2 ^ 32" "0 \<le> p" "p \<le> 32"
  shows "split_loop p (bsize p) (addr + int n * bsize p - 1) addr =
    Inr (map (\<lambda>i. block (addr + int i * bsize p) p) [0..<n])"
  using assms
proof (induction n arbitrary: addr)
  case 0
  then show ?case by (simp add: split_loop.simps)
next
  case (Suc n)
  have eq: "addr + int (Suc n) * bsize p = (addr + bsize p) + int n * bsize p"
    by (simp add: algebra_simps)
  have "0 \<le> int n * bsize p" by simp
  then have lt: "addr < 2 ^ 32" "addr \<le> addr + int (Suc n) * bsize p - 1"
    using Suc.prems(3) bsize_pos [of p] unfolding eq by linarith+
  have "split_loop p (bsize p) ((addr + bsize p) + int n * bsize p - 1) (addr + bsize p) =
      Inr (map (\<lambda>i. block ((addr + bsize p) + int i * bsize p) p) [0..<n])"
    using Suc.prems eq by (intro Suc.IH) (auto intro: add_nonneg_nonneg less_imp_le)
  moreover have "mk_subnet (cidr_str addr p) = Inr (block addr p)"
    using mk_subnet_cidr [OF Suc.prems(4,5), of addr] lt(1) Suc.prems(1) by simp
  moreover have "[0..<Suc n] = 0 # map Suc [0..<n]"
    by (simp add: map_Suc_upt upt_conv_Cons del: upt_Suc)
  ultimately show ?case
    using lt(2) by (subst split_loop.simps) (simp add: eq algebra_simps o_def del: upt_Suc)
qed

lemma sn_split_blocks:
  assumes "0 \<le> a" "a < 2 ^ 32" "0 \<le> p" "p < q" "q \<le> 32"
  shows "sn_split (block a p) q =
    Inr (map (\<lambda>i. block (network_int (block a p) + int i * bsize q) q) [0..<2 ^ nat (q - p)])"
proof -
  let ?net = "network_int (block a p)"
  have size: "bsize p = int (2 ^ nat (q - p)) * bsize q"
    using assms by (simp add: bsize_def nat_diff_distrib flip: power_add)
  have "bsize q dvd ?net"
    using bsize_dvd [of p q] assms(4) by (simp add: dvd_minus_mod dvd_trans [of "bsize q" "bsize p"])
  moreover have "?net + bsize p \<le> 2 ^ 32" "0 \<le> ?net"
    using block_in_range [OF assms(1-3)] by simp_all
  ultimately have "split_loop q (bsize q) (?net + int (2 ^ nat (q - p)) * bsize q - 1) ?net =
      Inr (map (\<lambda>i. block (?net + int i * bsize q) q) [0..<2 ^ nat (q - p)])"
    using assms size by (intro split_loop_blocks) auto
  moreover have "py_shl 1 (32 - q) = Inr (bsize q)"
    using assms(5) by (simp add: py_shl_def bsize_def push_bit_eq_mult)
  ultimately show ?thesis
    using assms(4) size by (simp add: sn_split_def py_assert_def)
qed

section \<open>VLSM: which block a request gets\<close>

definition usable :: "int \<Rightarrow> int" where
  "usable p = (if p \<ge> 31 then bsize p else bsize p - 2)"

fun best_prefix :: "int \<Rightarrow> nat \<Rightarrow> int" where
  "best_prefix hosts 0 = 0"
| "best_prefix hosts (Suc p) = (if usable (int (Suc p)) \<ge> hosts then int (Suc p) else best_prefix hosts p)"

lemma usable_hosts_block [simp]: "usable_hosts (block a p) = usable p"
  by (simp add: usable_hosts_def usable_def)

lemma fit_prefix_best: "n \<le> 32 \<Longrightarrow> fit_prefix cursor hosts n = Inr (best_prefix hosts n)"
  by (induction n) (simp_all add: mk_subnet_cidr)

lemma best_prefix_range: "0 \<le> best_prefix hosts n \<and> best_prefix hosts n \<le> int n"
  by (induction n) auto

lemma best_prefix_fits: "best_prefix hosts n \<noteq> 0 \<Longrightarrow> hosts \<le> usable (best_prefix hosts n)"
  by (induction n) (auto split: if_splits)

lemma best_prefix_longest: "best_prefix hosts n < q \<Longrightarrow> q \<le> int n \<Longrightarrow> usable q < hosts"
proof (induction n)
  case (Suc n)
  then show ?case by (cases "q = int (Suc n)") (auto split: if_splits)
qed simp

lemma best_prefix_ge:
  assumes "hosts \<le> usable p" "p \<le> int n"
  shows "p \<le> best_prefix hosts n"
  using best_prefix_longest [of hosts n p] assms by force

lemma best_prefix_antimono:
  assumes "h \<le> h'" shows "best_prefix h' n \<le> best_prefix h n"
proof (cases "best_prefix h' n = 0")
  case True
  with best_prefix_range [of h n] show ?thesis by simp
next
  case False
  with best_prefix_fits [OF False] best_prefix_range [of h' n] assms show ?thesis
    by (intro best_prefix_ge) auto
qed

abbreviation request_prefix :: "int \<Rightarrow> int" where
  "request_prefix hosts \<equiv> best_prefix hosts 32"

definition request_size :: "string \<times> int \<Rightarrow> int" where
  "request_size r = bsize (request_prefix (snd r))"

fun layout :: "int \<Rightarrow> (string \<times> int) list \<Rightarrow> (string \<times> subnet) list" where
  "layout cursor [] = []"
| "layout cursor (r # reqs) =
     (fst r, block cursor (request_prefix (snd r))) # layout (cursor + request_size r) reqs"

lemma request_size_pos: "0 < request_size r"
  by (simp add: request_size_def)

lemma sum_request_size_nonneg: "0 \<le> (\<Sum>r\<leftarrow>reqs. request_size r)"
  by (induction reqs) (auto intro: add_nonneg_nonneg less_imp_le request_size_pos)

lemma vlsm_loop_layout:
  assumes "0 \<le> cursor" "cursor \<le> broadcast_int parent + 1" "broadcast_int parent \<le> 2 ^ 32 - 1"
    and "sorted_wrt (\<lambda>r r'. snd r \<ge> snd r') reqs"
    and "\<And>r. r \<in> set reqs \<Longrightarrow> request_size r dvd cursor"
  shows "if cursor + (\<Sum>r\<leftarrow>reqs. request_size r) \<le> broadcast_int parent + 1
     then vlsm_loop parent reqs cursor = Inr (layout cursor reqs)
     else broadcast_int parent \<noteq> 2 ^ 32 - 1 \<longrightarrow> vlsm_loop parent reqs cursor = Inl AssertionError"
  using assms
proof (induction reqs arbitrary: cursor)
  case Nil
  then show ?case by simp
next
  case (Cons r reqs)
  obtain name hosts where r: "r = (name, hosts)" by (cases r)
  let ?p = "request_prefix hosts" and ?c' = "cursor + request_size r"
  have p: "0 \<le> ?p" "?p \<le> 32" using best_prefix_range [of hosts 32] by auto
  have sub: "mk_subnet (cidr_str cursor ?p) = Inr (block cursor ?p)" if "cursor < 2 ^ 32"
    using mk_subnet_cidr [OF p, of cursor] Cons.prems(1) that by simp
  have bc: "broadcast_int (block cursor ?p) + 1 = ?c'"
    using Cons.prems(5) [of r] by (simp add: r request_size_def)
  note pos = request_size_pos [of r] sum_request_size_nonneg [of reqs]
  show ?case
  proof (cases "?c' \<le> broadcast_int parent + 1")
    case False
    have "vlsm_loop parent (r # reqs) cursor = Inl AssertionError" if "broadcast_int parent \<noteq> 2 ^ 32 - 1"
      using False pos bc sub Cons.prems(2,3) that by (simp add: r fit_prefix_best py_assert_def del: block_sel)
    with False pos show ?thesis by simp
  next
    case True
    have low: "cursor < 2 ^ 32" using True pos Cons.prems(3) by linarith
    have "request_size r' dvd ?c'" if "r' \<in> set reqs" for r'
    proof -
      have "snd r' \<le> snd r" using Cons.prems(4) that by simp
      then have "request_size r' dvd request_size r"
        unfolding request_size_def by (intro bsize_dvd best_prefix_antimono)
      moreover have "request_size r' dvd cursor" using Cons.prems(5) that by simp
      ultimately show ?thesis by simp
    qed
    then have "if ?c' + (\<Sum>r\<leftarrow>reqs. request_size r) \<le> broadcast_int parent + 1
        then vlsm_loop parent reqs ?c' = Inr (layout ?c' reqs)
        else broadcast_int parent \<noteq> 2 ^ 32 - 1 \<longrightarrow> vlsm_loop parent reqs ?c' = Inl AssertionError"
      using Cons.prems True pos by (intro Cons.IH) auto
    moreover have "broadcast_int (block cursor ?p) \<le> broadcast_int parent" using True bc by linarith
    ultimately show ?thesis
      using sub [OF low] bc by (auto simp: r fit_prefix_best py_assert_def add.assoc simp del: block_sel split: if_splits)
  qed
qed

lemma layout_placed:
  assumes "\<And>r. r \<in> set reqs \<Longrightarrow> request_size r dvd cursor"
    and "sorted_wrt (\<lambda>r r'. snd r \<ge> snd r') reqs"
  shows "list_all2 (\<lambda>q x. fst x = fst q \<and> sn_prefix (snd x) = request_prefix (snd q) \<and>
           cursor \<le> network_int (snd x) \<and>
           broadcast_int (snd x) < cursor + (\<Sum>r\<leftarrow>reqs. request_size r) \<and>
           usable_hosts (snd x) = usable (request_prefix (snd q)) \<and>
           total_addresses (snd x) dvd network_int (snd x)) reqs (layout cursor reqs)
    \<and> sorted_wrt (\<lambda>x y. broadcast_int (snd x) < network_int (snd y)) (layout cursor reqs)"
  using assms
proof (induction reqs arbitrary: cursor)
  case (Cons r reqs)
  let ?c' = "cursor + request_size r"
  have "request_size r' dvd ?c'" if "r' \<in> set reqs" for r'
  proof -
    have "request_size r' dvd request_size r"
      unfolding request_size_def using Cons.prems(2) that by (intro bsize_dvd best_prefix_antimono) simp
    then show ?thesis using Cons.prems(1) that by simp
  qed
  then have IH: "list_all2 (\<lambda>q x. fst x = fst q \<and> sn_prefix (snd x) = request_prefix (snd q) \<and>
           ?c' \<le> network_int (snd x) \<and>
           broadcast_int (snd x) < ?c' + (\<Sum>r\<leftarrow>reqs. request_size r) \<and>
           usable_hosts (snd x) = usable (request_prefix (snd q)) \<and>
           total_addresses (snd x) dvd network_int (snd x)) reqs (layout ?c' reqs)"
    "sorted_wrt (\<lambda>x y. broadcast_int (snd x) < network_int (snd y)) (layout ?c' reqs)"
    using Cons.IH [of ?c'] Cons.prems(2) by auto
  have b: "broadcast_int (block cursor (request_prefix (snd r))) = ?c' - 1"
    "network_int (block cursor (request_prefix (snd r))) = cursor"
    using Cons.prems(1) [of r] by (simp_all add: request_size_def)
  have al: "total_addresses (block cursor (request_prefix (snd r))) dvd cursor"
    using Cons.prems(1) [of r] by (simp add: request_size_def)
  have "?c' \<le> network_int (snd x)" if "x \<in> set (layout ?c' reqs)" for x
    using IH(1) that by (auto simp: list_all2_conv_all_nth in_set_conv_nth)
  moreover have "list_all2 (\<lambda>q x. fst x = fst q \<and> sn_prefix (snd x) = request_prefix (snd q) \<and>
           cursor \<le> network_int (snd x) \<and>
           broadcast_int (snd x) < cursor + (\<Sum>r\<leftarrow>(r # reqs). request_size r) \<and>
           usable_hosts (snd x) = usable (request_prefix (snd q)) \<and>
           total_addresses (snd x) dvd network_int (snd x)) reqs (layout ?c' reqs)"
    by (rule list_all2_mono [OF IH(1)]) (use request_size_pos [of r] in auto)
  ultimately show ?case
    using IH(2) b al request_size_pos [of r] sum_request_size_nonneg [of reqs]
    by (force simp del: block_sel(2,3))
qed simp

section \<open>Longest-prefix match\<close>

text \<open>
  What the scan of the routing table relies on: a match test and a length per route. The scan
  keeps the first of the longest matching routes.
\<close>

locale longest_match =
  fixes matches :: "'r \<Rightarrow> 'a \<Rightarrow> bool"
    and len :: "'r \<Rightarrow> int"
    and hop :: "'r \<Rightarrow> 'h"
    and scan :: "'a \<Rightarrow> 'r list \<Rightarrow> 'h option \<Rightarrow> int \<Rightarrow> 'h option"
  assumes scan_Nil: "scan x [] best bp = best"
    and scan_Cons: "scan x (r # rs) best bp =
      (if matches r x \<and> len r > bp then scan x rs (Some (hop r)) (len r) else scan x rs best bp)"
begin

lemma scan_longest:
  "(scan x rs best bp = best \<and> (\<forall>q\<in>set rs. matches q x \<longrightarrow> len q \<le> bp)) \<or>
   (\<exists>ys r zs. rs = ys @ r # zs \<and> scan x rs best bp = Some (hop r) \<and> matches r x \<and> bp < len r \<and>
      (\<forall>q\<in>set ys. matches q x \<longrightarrow> len q < len r) \<and> (\<forall>q\<in>set zs. matches q x \<longrightarrow> len q \<le> len r))"
proof (induction rs arbitrary: best bp)
  case Nil
  then show ?case by (simp add: scan_Nil)
next
  case (Cons q rs)
  show ?case
  proof (cases "matches q x \<and> len q > bp")
    case False
    then have eq: "scan x (q # rs) best bp = scan x rs best bp" by (auto simp: scan_Cons)
    from Cons.IH [of best bp] show ?thesis
    proof (elim disjE exE conjE)
      fix ys r zs
      assume "rs = ys @ r # zs" "scan x rs best bp = Some (hop r)" "matches r x" "bp < len r"
        "\<forall>q\<in>set ys. matches q x \<longrightarrow> len q < len r" "\<forall>q\<in>set zs. matches q x \<longrightarrow> len q \<le> len r"
      with False eq show ?thesis
        by (intro disjI2 exI [of _ "q # ys"] exI [of _ r] exI [of _ zs]) auto
    qed (use False eq in auto)
  next
    case True
    then have eq: "scan x (q # rs) best bp = scan x rs (Some (hop q)) (len q)" by (simp add: scan_Cons)
    from Cons.IH [of "Some (hop q)" "len q"] show ?thesis
    proof (elim disjE exE conjE)
      assume "scan x rs (Some (hop q)) (len q) = Some (hop q)"
        "\<forall>q'\<in>set rs. matches q' x \<longrightarrow> len q' \<le> len q"
      with True eq show ?thesis
        by (intro disjI2 exI [of _ "[]"] exI [of _ q] exI [of _ rs]) auto
    next
      fix ys r zs
      assume "rs = ys @ r # zs" "scan x rs (Some (hop q)) (len q) = Some (hop r)" "matches r x"
        "len q < len r" "\<forall>q\<in>set ys. matches q x \<longrightarrow> len q < len r"
        "\<forall>q\<in>set zs. matches q x \<longrightarrow> len q \<le> len r"
      with True eq show ?thesis
        by (intro disjI2 exI [of _ "q # ys"] exI [of _ r] exI [of _ zs]) auto
    qed
  qed
qed

end

definition route_matches :: "route \<Rightarrow> int \<Rightarrow> bool" where
  "route_matches r addr \<longleftrightarrow> (addr AND r_mask r) = r_net r"

interpretation lpm: longest_match route_matches r_prefix r_hop lpm_scan
  by unfold_locales (simp_all add: route_matches_def)

text \<open>A table filled by a sequence of \<^verbatim>\<open>add\<close> calls.\<close>

fun rt_build :: "route list \<Rightarrow> (string \<times> string) list \<Rightarrow> route list res" where
  "rt_build routes [] = Inr routes"
| "rt_build routes ((cidr, hop) # es) = rbind (rt_add routes cidr hop) (\<lambda>rs. rt_build rs es)"

definition block_route :: "int \<times> int \<times> string \<Rightarrow> route" where
  "block_route e = (case e of (a, p, hop) \<Rightarrow>
     \<lparr>r_net = network_int (block a p), r_mask = sn_mask (block a p), r_prefix = p, r_hop = hop\<rparr>)"

definition in_block :: "int \<Rightarrow> int \<times> int \<times> string \<Rightarrow> bool" where
  "in_block x e = (case e of (a, p, hop) \<Rightarrow>
     network_int (block a p) \<le> x \<and> x \<le> broadcast_int (block a p))"

definition valid_entry :: "int \<times> int \<times> string \<Rightarrow> bool" where
  "valid_entry e = (case e of (a, p, hop) \<Rightarrow> 0 \<le> a \<and> a < 2 ^ 32 \<and> 0 \<le> p \<and> p \<le> 32)"

lemma rt_build_blocks:
  "list_all valid_entry es \<Longrightarrow>
   rt_build rs (map (\<lambda>(a, p, hop). (cidr_str a p, hop)) es) = Inr (rs @ map block_route es)"
  by (induction es arbitrary: rs)
    (auto simp: rt_add_def mk_subnet_cidr valid_entry_def block_route_def)

lemma route_matches_block:
  assumes "valid_entry e" "0 \<le> x" "x < 2 ^ 32"
  shows "route_matches (block_route e) x \<longleftrightarrow> in_block x e"
proof -
  obtain a p hop where e: "e = (a, p, hop)" by (cases e)
  with assms and_block_mask [of x p] in_block_iff [of a p x] show ?thesis
    by (auto simp: route_matches_def block_route_def in_block_def valid_entry_def)
qed

section \<open>Theorems\<close>

text \<open>
  IPv4 text and integers: \<^verbatim>\<open>ip_to_int(int_to_ip(n))\<close> never raises and gives back \<open>n\<close>
  reduced modulo \<open>2 ^ 32\<close>; in particular it is the identity on 32-bit addresses.
\<close>

theorem ip_round_trip:
  "ip_to_int (int_to_ip n) = Inr (n mod 2 ^ 32) \<and>
   (ip_to_int (int_to_ip n) = Inr n \<longleftrightarrow> n \<in> {0..<2 ^ 32})"
  by (auto simp: zmod_trivial_iff)

text \<open>
  CIDR arithmetic: for every address \<open>a\<close> below \<open>2 ^ 32\<close> and every prefix length from 0 to 32,
  \<^verbatim>\<open>Subnet("a/p")\<close> is built without an exception; it has \<open>2 ^ (32 - p)\<close> addresses, starts at a
  multiple of that size, contains \<open>a\<close>, and for every 32-bit address \<open>x\<close> the mask test
  \<^verbatim>\<open>x & mask == network\<close> holds exactly when \<open>x\<close> lies between network and broadcast address.
\<close>

theorem subnet_arithmetic:
  assumes "0 \<le> a" "a < 2 ^ 32" "0 \<le> p" "p \<le> 32" "0 \<le> x" "x < 2 ^ 32"
  shows "\<exists>s. mk_subnet (cidr_str a p) = Inr s \<and> sn_prefix s = p \<and>
    total_addresses s = 2 ^ nat (32 - p) \<and> 2 ^ nat (32 - p) dvd network_int s \<and>
    network_int s \<le> a \<and> a \<le> broadcast_int s \<and> 0 \<le> network_int s \<and> broadcast_int s < 2 ^ 32 \<and>
    usable_hosts s = (if p \<ge> 31 then 2 ^ nat (32 - p) else 2 ^ nat (32 - p) - 2) \<and>
    ((x AND sn_mask s) = network_int s \<longleftrightarrow> network_int s \<le> x \<and> x \<le> broadcast_int s)"
proof -
  let ?s = "block a p"
  have "mk_subnet (cidr_str a p) = Inr ?s" using mk_subnet_cidr [OF assms(3,4), of a] assms(1,2) by simp
  moreover have "(x AND sn_mask ?s) = network_int ?s \<longleftrightarrow> network_int ?s \<le> x \<and> x \<le> broadcast_int ?s"
    using and_block_mask [OF assms(5,6,3,4)] in_block_iff [of a p x] by simp
  moreover have "network_int ?s \<le> a \<and> a \<le> broadcast_int ?s"
    using in_block_iff [of a p a] by simp
  moreover have "bsize p dvd network_int ?s" by (simp add: dvd_minus_mod)
  moreover note block_in_range [OF assms(1-3)]
  ultimately show ?thesis
    by (intro exI [of _ ?s]) (simp add: usable_def flip: bsize_def)
qed

theorem subnet_arithmetic_witness:
  "\<exists>s. mk_subnet (cidr_str 3232235783 24) = Inr s \<and> total_addresses s = 256 \<and> usable_hosts s = 254 \<and>
     (3232235783 AND sn_mask s) = network_int s"
  using subnet_arithmetic [of 3232235783 24 3232235783] by auto

text \<open>Consecutive intervals of length \<open>z\<close> cover each point of their union once.\<close>

lemma unique_tile:
  fixes x base z :: int
  assumes "0 < z" "base \<le> x" "x \<le> base + int n * z - 1"
  shows "\<exists>!i. i < n \<and> base + int i * z \<le> x \<and> x \<le> base + int (i + 1) * z - 1"
proof (rule ex1I [of _ "nat ((x - base) div z)"])
  let ?d = "(x - base) div z"
  have d: "0 \<le> ?d" using assms(1,2) by (simp add: pos_imp_zdiv_nonneg_iff)
  have "0 \<le> (x - base) mod z" "(x - base) mod z < z" using assms(1) by simp_all
  then have m: "?d * z \<le> x - base" "x - base < (?d + 1) * z"
    using div_mult_mod_eq [of "x - base" z] unfolding distrib_right by linarith+
  have "?d * z < int n * z" using m(1) assms(3) by linarith
  then have "?d < int n" using assms(1) by (simp add: mult_less_cancel_right)
  with d m show "nat ?d < n \<and> base + int (nat ?d) * z \<le> x \<and> x \<le> base + int (nat ?d + 1) * z - 1"
    by (simp add: nat_less_iff add.commute)
next
  fix i
  assume "i < n \<and> base + int i * z \<le> x \<and> x \<le> base + int (i + 1) * z - 1"
  then have "int i * z \<le> x - base" "x - base < (int i + 1) * z" by (auto simp: add.commute)
  then have "(x - base) div z = int i"
    by (intro int_div_pos_eq [of _ _ _ "x - base - int i * z"]) (auto simp: algebra_simps)
  then show "i = nat ((x - base) div z)" by simp
qed

text \<open>
  C19. Equal splitting: \<^verbatim>\<open>Subnet("a/p").split(q)\<close> with \<open>p < q \<le> 32\<close> returns \<open>2 ^ (q - p)\<close>
  blocks of prefix \<open>q\<close>, contiguous and in order, and every address of the parent lies in
  exactly one of them.
\<close>

theorem split_partition:
  assumes "0 \<le> a" "a < 2 ^ 32" "0 \<le> p" "p < q" "q \<le> 32" "mk_subnet (cidr_str a p) = Inr s"
  shows "\<exists>cs. sn_split s q = Inr cs \<and> length cs = 2 ^ nat (q - p) \<and>
    (\<forall>i < length cs. sn_prefix (cs ! i) = q \<and>
       network_int (cs ! i) = network_int s + int i * 2 ^ nat (32 - q) \<and>
       broadcast_int (cs ! i) = network_int s + int (i + 1) * 2 ^ nat (32 - q) - 1) \<and>
    (\<forall>x. network_int s \<le> x \<and> x \<le> broadcast_int s \<longrightarrow>
       (\<exists>!i. i < length cs \<and> network_int (cs ! i) \<le> x \<and> x \<le> broadcast_int (cs ! i)))"
proof -
  have s: "s = block a p"
    using mk_subnet_cidr [of p a] assms by simp
  let ?net = "network_int s" and ?n = "2 ^ nat (q - p) :: nat" and ?z = "bsize q"
  let ?cs = "map (\<lambda>i. block (?net + int i * ?z) q) [0..<?n]"
  have split: "sn_split s q = Inr ?cs"
    unfolding s by (rule sn_split_blocks [OF assms(1-5)])
  have "?z dvd ?net"
    unfolding s using bsize_dvd [of p q] assms(4)
    by (simp add: dvd_minus_mod dvd_trans [of "bsize q" "bsize p"])
  then have "?z dvd ?net + int i * ?z" for i by simp
  then have net: "network_int (?cs ! i) = ?net + int i * ?z"
    "broadcast_int (?cs ! i) = ?net + int (i + 1) * ?z - 1" if "i < ?n" for i
    using block_aligned [of q "?net + int i * ?z"] that by (auto simp: algebra_simps)
  have size: "broadcast_int s = ?net + int ?n * ?z - 1"
    unfolding s using assms by (simp add: bsize_def nat_diff_distrib flip: power_add)
  have uniq: "\<exists>!i. i < ?n \<and> ?net + int i * ?z \<le> x \<and> x \<le> ?net + int (i + 1) * ?z - 1"
    if "?net \<le> x" "x \<le> broadcast_int s" for x
    by (rule unique_tile) (use that size in simp_all)
  have "\<exists>!i. i < length ?cs \<and> network_int (?cs ! i) \<le> x \<and> x \<le> broadcast_int (?cs ! i)"
    if "?net \<le> x \<and> x \<le> broadcast_int s" for x
  proof -
    have "(i < length ?cs \<and> network_int (?cs ! i) \<le> x \<and> x \<le> broadcast_int (?cs ! i)) =
        (i < ?n \<and> ?net + int i * ?z \<le> x \<and> x \<le> ?net + int (i + 1) * ?z - 1)" for i
      using net [of i] by (cases "i < ?n") (simp_all only: length_map length_upt, simp_all)
    then show ?thesis using uniq [of x] that by simp
  qed
  moreover have "sn_prefix (?cs ! i) = q" if "i < ?n" for i using that by simp
  ultimately show ?thesis
    unfolding bsize_def [symmetric] using split net by (intro exI [of _ ?cs]) simp
qed

theorem split_partition_witness:
  "\<exists>s cs. mk_subnet (cidr_str 167772160 22) = Inr s \<and> sn_split s 24 = Inr cs \<and> length cs = 4 \<and>
     network_int (cs ! 3) = network_int s + 768"
proof -
  have s: "mk_subnet (cidr_str 167772160 22) = Inr (block 167772160 22)"
    using mk_subnet_cidr [of 22 167772160] by simp
  show ?thesis
    using split_partition [OF _ _ _ _ _ s, of 24] s by fastforce
qed

text \<open>
  C18. VLSM allocation, where no single request needs more than the parent: when the right-sized blocks fit into the parent,
  \<^verbatim>\<open>vlsm_allocate\<close> succeeds: the requests are served largest first, each gets a block with enough usable hosts, whose prefix is the
  longest one that suffices, aligned to its size, inside the parent, each after the end of the one before: no two overlap. When they
  do not fit and the parent does not end at \<^verbatim>\<open>255.255.255.255\<close> it raises \<open>AssertionError\<close>.
\<close>

theorem vlsm_correct:
  assumes "0 \<le> a" "a < 2 ^ 32" "0 \<le> p" "p \<le> 32" "mk_subnet (cidr_str a p) = Inr parent"
    and "list_all (\<lambda>r. snd r \<le> usable_hosts parent) reqs"
  defines "sreqs \<equiv> sort_key (\<lambda>r. - snd r) reqs"
  shows "if (\<Sum>r\<leftarrow>reqs. request_size r) \<le> total_addresses parent
    then \<exists>out. vlsm_allocate (cidr_str a p) reqs = Inr out \<and>
      list_all2 (\<lambda>r x. fst x = fst r \<and> snd r \<le> usable_hosts (snd x) \<and>
        (\<forall>q. sn_prefix (snd x) < q \<and> q \<le> 32 \<longrightarrow> usable q < snd r) \<and>
        total_addresses (snd x) dvd network_int (snd x) \<and>
        network_int parent \<le> network_int (snd x) \<and> broadcast_int (snd x) \<le> broadcast_int parent) sreqs out \<and>
      sorted_wrt (\<lambda>x y. broadcast_int (snd x) < network_int (snd y)) out
    else broadcast_int parent \<noteq> 2 ^ 32 - 1 \<longrightarrow> vlsm_allocate (cidr_str a p) reqs = Inl AssertionError"
proof -
  have par: "parent = block a p"
    using mk_subnet_cidr [OF assms(3,4), of a] assms(1,2,5) by simp
  let ?net = "network_int parent"
  have bc: "broadcast_int parent = ?net + bsize p - 1" by (simp add: par)
  have range: "0 \<le> ?net" "broadcast_int parent \<le> 2 ^ 32 - 1"
    using block_in_range [OF assms(1-3)] by (auto simp: par)
  have sorted: "sorted_wrt (\<lambda>r r'. snd r \<ge> snd r') sreqs"
    using sorted_sort_key [of "\<lambda>r. - snd r" reqs] by (simp add: sreqs_def sorted_wrt_map)
  have fits: "p \<le> request_prefix (snd r)" if "r \<in> set sreqs" for r
    using assms(4,6) that by (intro best_prefix_ge) (auto simp: sreqs_def list_all_iff par)
  have sizes: "request_size r dvd ?net" if "r \<in> set sreqs" for r
    using bsize_dvd [OF fits [OF that]]
    by (auto simp: request_size_def par dvd_minus_mod intro: dvd_trans [of _ "bsize p"])
  have enough: "snd r \<le> usable (request_prefix (snd r))" if "r \<in> set sreqs" for r
  proof (cases "request_prefix (snd r) = 0")
    case True
    with fits [OF that] assms(3) have "p = 0" by simp
    with True assms(6) that show ?thesis by (auto simp: sreqs_def list_all_iff par)
  qed (rule best_prefix_fits)
  have sum: "(\<Sum>r\<leftarrow>sreqs. request_size r) = (\<Sum>r\<leftarrow>reqs. request_size r)"
    unfolding sreqs_def by (simp flip: sum_mset_sum_list)
  have alloc: "if ?net + (\<Sum>r\<leftarrow>reqs. request_size r) \<le> broadcast_int parent + 1
      then vlsm_allocate (cidr_str a p) reqs = Inr (layout ?net sreqs)
      else broadcast_int parent \<noteq> 2 ^ 32 - 1 \<longrightarrow> vlsm_allocate (cidr_str a p) reqs = Inl AssertionError"
  proof -
    have "vlsm_allocate (cidr_str a p) reqs = vlsm_loop parent sreqs ?net" using assms(5) by (simp add: vlsm_allocate_def sreqs_def)
    moreover have "?net \<le> broadcast_int parent + 1" using bc bsize_pos [of p] by simp
    ultimately show ?thesis using vlsm_loop_layout [OF range(1) _ range(2) sorted sizes] unfolding sum by simp
  qed
  have placed: "list_all2 (\<lambda>r x. fst x = fst r \<and> snd r \<le> usable_hosts (snd x) \<and>
        (\<forall>q. sn_prefix (snd x) < q \<and> q \<le> 32 \<longrightarrow> usable q < snd r) \<and>
        total_addresses (snd x) dvd network_int (snd x) \<and>
        network_int parent \<le> network_int (snd x) \<and> broadcast_int (snd x) \<le> broadcast_int parent)
        sreqs (layout ?net sreqs)"
    if "(\<Sum>r\<leftarrow>reqs. request_size r) \<le> bsize p"
    by (rule list.rel_mono_strong [OF layout_placed [OF sizes sorted, THEN conjunct1]])
      (use that enough bc sum best_prefix_longest [of _ 32] in auto)
  show ?thesis
    using alloc placed layout_placed [OF sizes sorted, THEN conjunct2] bc
    by (auto simp: par)
qed

theorem vlsm_correct_witness:
  "\<exists>parent out. mk_subnet (cidr_str 2886729728 24) = Inr parent \<and>
     vlsm_allocate (cidr_str 2886729728 24) [(''ops'', 25), (''sales'', 100)] = Inr out \<and>
     map fst out = [''sales'', ''ops''] \<and>
     sorted_wrt (\<lambda>x y. broadcast_int (snd x) < network_int (snd y)) out"
proof -
  let ?reqs = "[(''ops'', 25), (''sales'', 100)] :: (string \<times> int) list"
  have par: "mk_subnet (cidr_str 2886729728 24) = Inr (block 2886729728 24)"
    using mk_subnet_cidr [of 24 2886729728] by simp
  have size: "(\<Sum>r\<leftarrow>?reqs. request_size r) = 160" by code_simp
  have sorted: "sort_key (\<lambda>r. - snd r) ?reqs = [(''sales'', 100), (''ops'', 25)]" by simp
  have "list_all (\<lambda>r. snd r \<le> usable_hosts (block 2886729728 24)) ?reqs"
    by (simp add: usable_def bsize_def)
  with vlsm_correct [OF _ _ _ _ par, of ?reqs] size show ?thesis
    unfolding sorted by (auto simp: par bsize_def list_all2_Cons1)
qed

text \<open>
  C11. Longest-prefix match: in a routing table filled by \<^verbatim>\<open>add\<close> calls with valid CIDR texts,
  \<^verbatim>\<open>lookup(ip)\<close> does not raise; it returns \<open>None\<close> exactly when no added block contains the
  address, and otherwise the next hop of the first added entry among those with the longest
  prefix of all entries whose block contains the address.
\<close>

theorem lpm_lookup:
  assumes "list_all valid_entry es" "0 \<le> x" "x < 2 ^ 32"
  shows "\<exists>rt. rt_build [] (map (\<lambda>(a, p, hop). (cidr_str a p, hop)) es) = Inr rt \<and>
    (if list_ex (in_block x) es
     then \<exists>ys a p hop zs. es = ys @ (a, p, hop) # zs \<and> in_block x (a, p, hop) \<and>
       rt_lookup rt (int_to_ip x) = Inr (Some hop) \<and>
       list_all (\<lambda>e. in_block x e \<longrightarrow> fst (snd e) < p) ys \<and>
       list_all (\<lambda>e. in_block x e \<longrightarrow> fst (snd e) \<le> p) zs
     else rt_lookup rt (int_to_ip x) = Inr None)"
proof -
  let ?rt = "map block_route es"
  have valid: "valid_entry e" if "e \<in> set es" for e using assms(1) that by (simp add: list_all_iff)
  have m: "route_matches (block_route e) x \<longleftrightarrow> in_block x e" if "e \<in> set es" for e
    by (rule route_matches_block [OF valid [OF that] assms(2,3)])
  have pfx: "r_prefix (block_route e) = fst (snd e)" "r_hop (block_route e) = snd (snd e)" for e
    by (auto simp: block_route_def split: prod.splits)
  have look: "rt_lookup ?rt (int_to_ip x) = Inr (lpm_scan x ?rt None (- 1))"
    using assms(2,3) by (simp add: rt_lookup_def)
  consider (none) "lpm_scan x ?rt None (- 1) = None" "\<forall>q\<in>set ?rt. route_matches q x \<longrightarrow> r_prefix q \<le> - 1"
    | (hit) ys r zs where "?rt = ys @ r # zs" "lpm_scan x ?rt None (- 1) = Some (r_hop r)" "route_matches r x"
      "\<forall>q\<in>set ys. route_matches q x \<longrightarrow> r_prefix q < r_prefix r"
      "\<forall>q\<in>set zs. route_matches q x \<longrightarrow> r_prefix q \<le> r_prefix r"
    using lpm.scan_longest [of x ?rt None "- 1"] by (elim disjE exE conjE) metis+
  then have "if list_ex (in_block x) es
     then \<exists>ys a p hop zs. es = ys @ (a, p, hop) # zs \<and> in_block x (a, p, hop) \<and>
       rt_lookup ?rt (int_to_ip x) = Inr (Some hop) \<and>
       list_all (\<lambda>e. in_block x e \<longrightarrow> fst (snd e) < p) ys \<and>
       list_all (\<lambda>e. in_block x e \<longrightarrow> fst (snd e) \<le> p) zs
     else rt_lookup ?rt (int_to_ip x) = Inr None"
  proof cases
    case none
    then have "\<not> in_block x e" if "e \<in> set es" for e
      using m [OF that] valid [OF that] that pfx(1) [of e]
      by (fastforce simp: valid_entry_def split: prod.splits)
    then show ?thesis using none look by (auto simp: list_ex_iff)
  next
    case hit
    obtain ys' e zs' where e: "es = ys' @ e # zs'" "ys = map block_route ys'" "r = block_route e"
      "zs = map block_route zs'"
      using hit(1) by (auto simp: map_eq_append_conv map_eq_Cons_conv)
    obtain a p hop where eh: "e = (a, p, hop)" by (cases e)
    have "in_block x (a, p, hop)" using m [of e] hit(3) e eh by auto
    moreover have "list_all (\<lambda>e. in_block x e \<longrightarrow> fst (snd e) < p) ys'"
      "list_all (\<lambda>e. in_block x e \<longrightarrow> fst (snd e) \<le> p) zs'"
      using hit(4,5) m e eh pfx by (auto simp: list_all_iff)
    moreover have "rt_lookup ?rt (int_to_ip x) = Inr (Some hop)" using look hit(2) pfx e eh by simp
    ultimately show ?thesis using e(1) eh by (auto simp: list_ex_iff)
  qed
  then show ?thesis using rt_build_blocks [OF assms(1), of "[]"] by auto
qed

theorem lpm_lookup_witness:
  "\<exists>rt. rt_build [] [(cidr_str 0 0, ''default-gw''), (cidr_str 167772160 8, ''core-router''),
       (cidr_str 167837696 16, ''regional-router'')] = Inr rt \<and>
     rt_lookup rt (int_to_ip 167839999) = Inr (Some ''regional-router'')"
proof -
  let ?es = "[(0, 0, ''default-gw''), (167772160, 8, ''core-router''), (167837696, 16, ''regional-router'')]
    :: (int \<times> int \<times> string) list"
  have "list_all valid_entry ?es" by (simp add: valid_entry_def)
  moreover have in3: "in_block 167839999 (0, 0, ''default-gw'')" "in_block 167839999 (167772160, 8, ''core-router'')"
    "in_block 167839999 (167837696, 16, ''regional-router'')"
    by (simp_all add: in_block_def bsize_def)
  ultimately show ?thesis
    using lpm_lookup [of ?es 167839999] by (auto simp: Cons_eq_append_conv)
qed

text \<open>
  A request larger than the parent block escapes the space check of \<^verbatim>\<open>vlsm_allocate\<close>: asked for
  300 hosts in \<^verbatim>\<open>10.0.1.0/24\<close> it returns the block \<^verbatim>\<open>10.0.0.0/23\<close>, which starts before the parent.
  And a full parent that ends at \<^verbatim>\<open>255.255.255.255\<close> makes the cursor wrap around: the second
  request in \<^verbatim>\<open>255.255.255.0/24\<close> is placed at \<^verbatim>\<open>0.0.0.0\<close>.
\<close>

theorem vlsm_escapes_parent:
  "(\<exists>sub. vlsm_allocate (cidr_str (256 * 655361) 24) [(''site'', 300)] = Inr [(''site'', sub)] \<and>
      network_int sub < 256 * 655361) \<and>
   (\<exists>s1 s2. vlsm_allocate (cidr_str (2 ^ 32 - 256) 24) [(''one'', 254), (''two'', 100)] = Inr [(''one'', s1), (''two'', s2)] \<and>
      network_int s2 = 0)"
proof -
  have p: "request_prefix 300 = 23" "request_prefix 254 = 24" "request_prefix 100 = 25"
    by code_simp+
  have f: "fit_prefix c h 32 = Inr (request_prefix h)" for c h by (simp add: fit_prefix_best)
  have b: "mk_subnet (cidr_str c 23) = Inr (block (c mod 2 ^ 32) 23)"
    "mk_subnet (cidr_str c 24) = Inr (block (c mod 2 ^ 32) 24)"
    "mk_subnet (cidr_str c 25) = Inr (block (c mod 2 ^ 32) 25)" for c
    by (simp_all only: mk_subnet_cidr)
  show ?thesis
    by (simp add: vlsm_allocate_def b f p bsize_def py_assert_def)
qed

section \<open>The script runs through\<close>

lemma demo_cidr_passes: "demo_cidr ''192.168.1.0'' ''192.168.1.255'' 256 = Inr ()"
  by code_simp

lemma demo_split_passes: "demo_split = Inr ()"
  by code_simp

lemma demo_vlsm_passes: "demo_vlsm = Inr ()"
  by code_simp

lemma demo_routing_passes: "demo_routing = Inr ()"
  by code_simp

lemma subnet_main_passes: "subnet_main ''192.168.1.0'' ''192.168.1.255'' 256 = Inr ()"
  by (simp add: subnet_main_def demo_cidr_passes demo_split_passes demo_vlsm_passes demo_routing_passes)

end
