(* ===== verification/Py_Bytes.thy ===== *)
theory Py_Bytes
  imports Py_Str
begin

text \<open>
  Bytes: \<^verbatim>\<open>bytes\<close> is a list of 8-bit words. Big-endian integers (\<^verbatim>\<open>int.from_bytes\<close>,
  \<^verbatim>\<open>int.to_bytes\<close>, \<^verbatim>\<open>struct\<close> with the formats \<^verbatim>\<open>!H\<close> and \<^verbatim>\<open>!I\<close>), indexing that raises and
  slicing that never does, and text as a list of Unicode code points with the ASCII codec.
\<close>

type_synonym byte = "8 word"
type_synonym bytes = "byte list"

section \<open>Indexing and slicing\<close>

text \<open>\<^verbatim>\<open>m[i]\<close> for a nonnegative index.\<close>

definition byte_at :: "'a list \<Rightarrow> nat \<Rightarrow> 'a res" where
  "byte_at m i = (if i < length m then Inr (m ! i) else Inl IndexError)"

text \<open>\<^verbatim>\<open>m[i:i+n]\<close>: cut off at the end of the sequence, never an exception.\<close>

definition slice :: "'a list \<Rightarrow> nat \<Rightarrow> nat \<Rightarrow> 'a list" where
  "slice m i n = take n (drop i m)"

lemma byte_at_append [simp]: "byte_at (pre @ b # post) (length pre) = Inr b"
  by (simp add: byte_at_def)

lemma slice_append [simp]: "slice (pre @ xs @ post) (length pre) (length xs) = xs"
  by (simp add: slice_def)

lemma slice_append': "i = length pre \<Longrightarrow> n = length xs \<Longrightarrow> slice (pre @ xs @ post) i n = xs"
  by simp

section \<open>Big-endian integers\<close>

fun to_be :: "nat \<Rightarrow> int \<Rightarrow> bytes" where
  "to_be 0 x = []"
| "to_be (Suc n) x = to_be n (x div 256) @ [word_of_int x]"

definition from_be :: "bytes \<Rightarrow> int" where
  "from_be bs = foldl (\<lambda>acc b. acc * 256 + uint b) 0 bs"

lemma length_to_be [simp]: "length (to_be n x) = n"
  by (induction n arbitrary: x) auto

lemma from_be_snoc [simp]: "from_be (bs @ [b]) = from_be bs * 256 + uint b"
  by (simp add: from_be_def)

lemma from_be_Nil [simp]: "from_be [] = 0"
  by (simp add: from_be_def)

lemma from_be_to_be: "from_be (to_be n x) = x mod 256 ^ n"
proof (induction n arbitrary: x)
  case (Suc n)
  have "uint (word_of_int x :: byte) = x mod 256" by (simp add: uint_word_of_int)
  then have "from_be (to_be (Suc n) x) = (x div 256) mod 256 ^ n * 256 + x mod 256"
    by (simp add: Suc)
  also have "\<dots> = x mod 256 ^ Suc n"
    by (simp add: zmod_zmult2_eq mult.commute)
  finally show ?case .
qed simp

lemma from_be_bounds: "0 \<le> from_be bs \<and> from_be bs < 256 ^ length bs"
proof (induction bs rule: rev_induct)
  case (snoc b bs)
  have "uint b < 256" using uint_lt2p [of b] by simp
  with snoc show ?case by simp
qed simp

lemma to_be_from_be: "to_be (length bs) (from_be bs) = bs"
proof (induction bs rule: rev_induct)
  case (snoc b bs)
  have "uint b < 256" using uint_lt2p [of b] by simp
  then have "(from_be bs * 256 + uint b) div 256 = from_be bs" by simp
  moreover have "word_of_int (from_be bs * 256 + uint b) = b"
  proof -
    have z: "(256 :: byte) = 0" by simp
    show ?thesis by (simp only: of_int_add of_int_mult of_int_numeral z mult_zero_right add_0 word_of_int_uint)
  qed
  ultimately show ?case using snoc by simp
qed simp

definition pack_H :: "int \<Rightarrow> bytes res" where
  "pack_H x = (if 0 \<le> x \<and> x < 2 ^ 16 then Inr (to_be 2 x) else Inl StructError)"

definition pack_I :: "int \<Rightarrow> bytes res" where
  "pack_I x = (if 0 \<le> x \<and> x < 2 ^ 32 then Inr (to_be 4 x) else Inl StructError)"

section \<open>Text as code points\<close>

type_synonym ustr = "nat list"

definition ascii_encode :: "ustr \<Rightarrow> bytes res" where
  "ascii_encode s = (if \<forall>c\<in>set s. c < 128 then Inr (map of_nat s) else Inl UnicodeError)"

text \<open>\<^verbatim>\<open>decode("ascii", "replace")\<close>: a byte from 128 on becomes U+FFFD.\<close>

definition ascii_decode :: "bytes \<Rightarrow> ustr" where
  "ascii_decode bs = map (\<lambda>b. if unat b < 128 then unat b else 0xFFFD) bs"

definition ustr_of :: "string \<Rightarrow> ustr" where
  "ustr_of s = map of_char s"

lemma ascii_round_trip: "ascii_encode s = Inr bs \<Longrightarrow> ascii_decode bs = s \<and> length bs = length s"
proof -
  have "unat (of_nat c :: byte) = c" if "c < 128" for c :: nat
    using that by (simp add: unat_of_nat)
  then show "ascii_encode s = Inr bs \<Longrightarrow> ?thesis"
    by (auto simp: ascii_encode_def ascii_decode_def o_def map_idI split: if_splits)
qed

section \<open>UTF-8\<close>

definition utf8_char :: "nat \<Rightarrow> nat list" where
  "utf8_char c =
     (if c < 0x80 then [c]
      else if c < 0x800 then [0xC0 + c div 64, 0x80 + c mod 64]
      else if c < 0x10000 then [0xE0 + c div 4096, 0x80 + c div 64 mod 64, 0x80 + c mod 64]
      else [0xF0 + c div 262144, 0x80 + c div 4096 mod 64, 0x80 + c div 64 mod 64, 0x80 + c mod 64])"

text \<open>A code point that \<^verbatim>\<open>encode("utf-8")\<close> accepts: anything but a surrogate.\<close>

abbreviation scalar :: "nat \<Rightarrow> bool" where
  "scalar c \<equiv> c < 0x110000 \<and> \<not> (0xD800 \<le> c \<and> c < 0xE000)"

definition utf8_encode :: "ustr \<Rightarrow> bytes res" where
  "utf8_encode s = (if list_all scalar s then Inr (map of_nat (concat (map utf8_char s))) else Inl UnicodeError)"

lemma utf8_char_bytes: "scalar c \<Longrightarrow> b \<in> set (utf8_char c) \<Longrightarrow> b < 256"
proof -
  assume "scalar c" "b \<in> set (utf8_char c)"
  moreover have "c div 4096 < 16" if "c < 0x10000" using that by (simp add: div_less_iff_less_mult)
  moreover have "c div 64 < 32" if "c < 0x800" using that by (simp add: div_less_iff_less_mult)
  moreover have "c div 262144 < 5" if "c < 0x110000" using that by (simp add: div_less_iff_less_mult)
  moreover have "m mod 64 < 64" for m :: nat by simp
  ultimately show ?thesis by (auto simp: utf8_char_def split: if_splits)
qed

lemma div_mod_64: "(c :: nat) div 64 = d div 64 \<Longrightarrow> c mod 64 = d mod 64 \<Longrightarrow> c = d"
  by (metis div_mult_mod_eq)

lemma div_4096: "(c :: nat) div 4096 = c div 64 div 64" "(c :: nat) div 262144 = c div 64 div 64 div 64"
  by (simp_all flip: div_mult2_eq)

lemma utf8_char_prefix:
  assumes "scalar c" "scalar d" "utf8_char c @ xs = utf8_char d @ ys"
  shows "c = d \<and> xs = ys"
proof -
  have b: "c div 64 < 32" if "c < 0x800" for c :: nat using that by (simp add: div_less_iff_less_mult)
  have b': "c div 64 div 64 < 16" if "c < 0x10000" for c :: nat
    using that by (simp add: div_less_iff_less_mult flip: div_mult2_eq)
  note bounds = b [of c] b [of d] b' [of c] b' [of d]
  from assms(3) show ?thesis
    unfolding utf8_char_def div_4096 using bounds
    by (auto split: if_splits intro: div_mod_64)
qed

lemma utf8_concat_inj:
  "list_all scalar s \<Longrightarrow> list_all scalar t \<Longrightarrow> concat (map utf8_char s) = concat (map utf8_char t) \<Longrightarrow> s = t"
proof (induction s arbitrary: t)
  case Nil
  then show ?case by (cases t) (auto simp: utf8_char_def split: if_splits)
next
  case (Cons c s)
  show ?case
  proof (cases t)
    case Nil
    with Cons.prems show ?thesis by (auto simp: utf8_char_def split: if_splits)
  next
    case (Cons d u)
    have "utf8_char c @ concat (map utf8_char s) = utf8_char d @ concat (map utf8_char u)" "scalar c" "scalar d"
      using Cons.prems Cons by simp_all
    from utf8_char_prefix [OF this(2,3,1)] Cons.IH [of u] Cons.prems Cons show ?thesis by simp
  qed
qed

lemma of_nat_byte_inj: "a < 256 \<Longrightarrow> b < 256 \<Longrightarrow> (of_nat a :: byte) = of_nat b \<Longrightarrow> a = b"
  by (drule arg_cong [where f = unat]) (simp add: unat_of_nat)

lemma utf8_encode_inj:
  assumes "utf8_encode s = Inr bs" "utf8_encode t = Inr bs"
  shows "s = t"
proof -
  from assms have ok: "list_all scalar s" "list_all scalar t"
    and eq: "map (of_nat :: nat \<Rightarrow> byte) (concat (map utf8_char s)) = map of_nat (concat (map utf8_char t))"
    by (auto simp: utf8_encode_def split: if_splits)
  have "b < 256" if "b \<in> set (concat (map utf8_char s)) \<union> set (concat (map utf8_char t))" for b
    using that ok utf8_char_bytes by (auto simp: list_all_iff)
  then have "inj_on (of_nat :: nat \<Rightarrow> byte) (set (concat (map utf8_char s)) \<union> set (concat (map utf8_char t)))"
    by (auto intro!: inj_onI of_nat_byte_inj)
  from map_inj_on [OF eq this] ok show ?thesis by (rule utf8_concat_inj [rotated 2])
qed

text \<open>A reader of UTF-8 (RFC 3629): the first byte tells how many follow; only the shortest form of a code point is accepted.\<close>

definition utf8_head :: "nat \<Rightarrow> (nat \<times> nat) option" where
  "utf8_head a = (if a < 0x80 then Some (0, a) else if a < 0xC0 then None else if a < 0xE0 then Some (1, a - 0xC0)
     else if a < 0xF0 then Some (2, a - 0xE0) else if a < 0xF8 then Some (3, a - 0xF0) else None)"

fun utf8_read :: "nat list \<Rightarrow> ustr option" where
  "utf8_read [] = Some []"
| "utf8_read (a # bs) =
     (case utf8_head a of None \<Rightarrow> None
      | Some (n, v) \<Rightarrow> let c = foldl (\<lambda>v b. v * 64 + (b - 0x80)) v (take n bs) in
          if scalar c \<and> a # take n bs = utf8_char c then map_option (Cons c) (utf8_read (drop n bs)) else None)"

definition utf8_decode :: "bytes \<Rightarrow> ustr option" where
  "utf8_decode bs = utf8_read (map unat bs)"

lemma utf8_read_char:
  assumes "scalar c"
  shows "utf8_read (utf8_char c @ rest) = map_option (Cons c) (utf8_read rest)"
proof -
  have b: "c div 64 < 32" if "c < 0x800" using that by (simp add: div_less_iff_less_mult)
  have b': "c div 4096 < 16" if "c < 0x10000" using that by (simp add: div_less_iff_less_mult)
  have b'': "c div 262144 < 5" using assms by (simp add: div_less_iff_less_mult)
  have two: "c div 64 * 64 + c mod 64 = c" by (rule div_mult_mod_eq)
  have three: "(c div 4096 * 64 + c div 64 mod 64) * 64 + c mod 64 = c"
    unfolding div_4096 by (simp add: div_mult_mod_eq)
  have four: "((c div 262144 * 64 + c div 4096 mod 64) * 64 + c div 64 mod 64) * 64 + c mod 64 = c"
    unfolding div_4096 by (simp add: div_mult_mod_eq)
  consider "c < 0x80" | "0x80 \<le> c" "c < 0x800" | "0x800 \<le> c" "c < 0x10000" | "0x10000 \<le> c" by linarith
  then show ?thesis
  proof cases
    case 1
    then show ?thesis using assms by (simp add: utf8_char_def utf8_head_def)
  next
    case 2
    then have "utf8_char c = [0xC0 + c div 64, 0x80 + c mod 64]" by (simp add: utf8_char_def)
    moreover have "c div 64 < 32" using b 2 by simp
    ultimately show ?thesis using two assms by (simp add: utf8_head_def)
  next
    case 3
    then have "utf8_char c = [0xE0 + c div 4096, 0x80 + c div 64 mod 64, 0x80 + c mod 64]" by (simp add: utf8_char_def)
    moreover have "c div 4096 < 16" using b' 3 by simp
    ultimately show ?thesis using three assms by (simp add: utf8_head_def)
  next
    case 4
    then have "utf8_char c = [0xF0 + c div 262144, 0x80 + c div 4096 mod 64, 0x80 + c div 64 mod 64, 0x80 + c mod 64]" by (simp add: utf8_char_def)
    with b'' four assms show ?thesis by (simp add: utf8_head_def)
  qed
qed

lemma utf8_round_trip:
  assumes "utf8_encode s = Inr bs"
  shows "utf8_decode bs = Some s" and "length bs \<le> 4 * length s"
proof -
  have ok: "list_all scalar s" and bs: "bs = map of_nat (concat (map utf8_char s))" using assms by (auto simp: utf8_encode_def split: if_splits)
  have "map unat bs = concat (map utf8_char s)"
    using ok utf8_char_bytes unfolding bs by (fastforce simp: list_all_iff unat_of_nat intro!: map_idI)
  moreover have "utf8_read (concat (map utf8_char s)) = Some s" using ok by (induction s) (simp_all add: utf8_read_char del: utf8_read.simps(2))
  ultimately show "utf8_decode bs = Some s" by (simp add: utf8_decode_def)
  have "length (utf8_char c) \<le> 4" for c by (simp add: utf8_char_def)
  then have "length (concat (map utf8_char t)) \<le> 4 * length t" for t by (induction t) (simp_all add: add_mono)
  then show "length bs \<le> 4 * length s" by (simp add: bs)
qed

lemma utf8_ascii: "\<forall>c \<in> set s. c < 128 \<Longrightarrow> utf8_encode s = Inr (map of_nat s)"
proof -
  assume a: "\<forall>c \<in> set s. c < 128"
  then have "concat (map utf8_char s) = s" by (induction s) (auto simp: utf8_char_def)
  with a show ?thesis by (auto simp: utf8_encode_def list_all_iff)
qed

lemma ustr_of_py_str: "c \<in> set (ustr_of (py_str n)) \<Longrightarrow> c < 128 \<and> c \<noteq> 10"
proof -
  have digits: "\<exists>d<10. c = 48 + d" if "c \<in> of_char ` set (str_nat m)" for c m :: nat
  proof -
    from that obtain x where "x \<in> set (str_nat m)" "c = of_char x" by blast
    with str_nat_digits [of x m] show ?thesis by (auto simp: digit_char_def)
  qed
  assume "c \<in> set (ustr_of (py_str n))"
  then show ?thesis using digits [of c] by (fastforce simp: ustr_of_def py_str_def split: if_splits)
qed

lemma ustr_of_inj: "ustr_of s = ustr_of t \<Longrightarrow> s = t"
  by (metis inj_map_eq_map inj_of_char ustr_of_def)

lemma py_str_inj: "py_str m = py_str n \<Longrightarrow> m = n"
  by (metis py_int_py_str sum.inject(2))

end
