(* ===== verification/Dns.thy ===== *)
theory Dns
  imports Py_Bytes
begin

unbundle bit_operations_syntax

text \<open>
  \<^verbatim>\<open>comp_networking/examples/dns_query.py\<close>: the RFC 1035 wire format. \<^verbatim>\<open>encode_qname\<close> and
  \<^verbatim>\<open>build_query\<close> write a query, \<^verbatim>\<open>read_name\<close> follows compression pointers under a guard of 128
  rounds, \<^verbatim>\<open>parse_response\<close> reads header, questions and answers, \<^verbatim>\<open>query\<close> checks the
  transaction id. Names are lists of code points; \<^verbatim>\<open>message[i]\<close> raises \<open>IndexError\<close> out of range.
\<close>

section \<open>Building a query\<close>

definition TYPE_A :: int where "TYPE_A = 1"
definition CLASS_IN :: int where "CLASS_IN = 1"

fun encode_labels :: "ustr list \<Rightarrow> bytes res" where
  "encode_labels [] = Inr []"
| "encode_labels (label # ls) =
     (if label = [] then encode_labels ls
      else rbind (ascii_encode label) (\<lambda>enc.
           if length enc > 255 then Inl ValueError
           else rbind (encode_labels ls) (\<lambda>rest. Inr (of_nat (length enc) # enc @ rest))))"

definition encode_qname :: "ustr \<Rightarrow> bytes res" where
  "encode_qname name = rbind (encode_labels (split_on 46 name)) (\<lambda>out. Inr (out @ [0]))"

text \<open>\<open>txn_id\<close> is the caller's id or the one \<^verbatim>\<open>random.randint\<close> drew.\<close>

definition build_query :: "ustr \<Rightarrow> int \<Rightarrow> int \<Rightarrow> (int \<times> bytes) res" where
  "build_query name qtype txn_id =
     rbind (rmap pack_H [txn_id, 0x0100, 1, 0, 0, 0]) (\<lambda>header.
     rbind (encode_qname name) (\<lambda>qname.
     rbind (rmap pack_H [qtype, CLASS_IN]) (\<lambda>fixed.
     Inr (txn_id, concat header @ qname @ concat fixed))))"

section \<open>Reading names\<close>

text \<open>
  One turn of the \<^verbatim>\<open>while True\<close> loop per call: \<open>guard\<close> counts the turns and stops the loop
  after 128 of them, which is also the termination argument.
\<close>

function read_name_loop :: "bytes \<Rightarrow> nat \<Rightarrow> ustr list \<Rightarrow> bool \<Rightarrow> nat \<Rightarrow> nat \<Rightarrow> (ustr \<times> nat) res" where
  "read_name_loop msg offset labels jumped after_pointer guard =
     (if guard + 1 > 128 then Inl ValueError
      else rbind (byte_at msg offset) (\<lambda>len.
        if len AND 0xC0 = 0xC0 then
          rbind (byte_at msg (offset + 1)) (\<lambda>lo.
            read_name_loop msg (push_bit 8 (unat (len AND 0x3F)) OR unat lo) labels True
              (if \<not> jumped then offset + 2 else after_pointer) (guard + 1))
        else if len = 0 then
          Inr (join_with [46] labels, if \<not> jumped then offset + 1 else after_pointer)
        else
          read_name_loop msg (offset + 1 + unat len)
            (labels @ [ascii_decode (slice msg (offset + 1) (unat len))]) jumped after_pointer (guard + 1)))"
  by pat_completeness auto
termination
  by (relation "measure (\<lambda>(msg, offset, labels, jumped, ap, guard). 128 - guard)") auto

declare read_name_loop.simps [simp del]

definition read_name :: "bytes \<Rightarrow> nat \<Rightarrow> (ustr \<times> nat) res" where
  "read_name msg offset = read_name_loop msg offset [] False offset 0"

section \<open>Parsing a response\<close>

record answer =
  a_name :: ustr
  a_type :: int
  a_class :: int
  a_ttl :: int
  a_value :: "string option"

record response =
  resp_id :: int
  resp_rcode :: int
  resp_qdcount :: int
  resp_ancount :: int
  resp_answers :: "answer list"

definition unpack_header :: "bytes \<Rightarrow> (int \<times> int \<times> int \<times> int \<times> int \<times> int) res" where
  "unpack_header bs =
     (if length bs = 12
      then Inr (from_be (slice bs 0 2), from_be (slice bs 2 2), from_be (slice bs 4 2),
                from_be (slice bs 6 2), from_be (slice bs 8 2), from_be (slice bs 10 2))
      else Inl StructError)"

definition unpack_rr :: "bytes \<Rightarrow> (int \<times> int \<times> int \<times> int) res" where
  "unpack_rr bs =
     (if length bs = 10
      then Inr (from_be (slice bs 0 2), from_be (slice bs 2 2), from_be (slice bs 4 4), from_be (slice bs 8 2))
      else Inl StructError)"

fun skip_questions :: "bytes \<Rightarrow> nat \<Rightarrow> nat \<Rightarrow> nat res" where
  "skip_questions msg 0 offset = Inr offset"
| "skip_questions msg (Suc n) offset =
     rbind (read_name msg offset) (\<lambda>(_, off). skip_questions msg n (off + 4))"

definition dotted_quad :: "bytes \<Rightarrow> string" where
  "dotted_quad rdata = join_with ''.'' (map (\<lambda>b. py_str (uint b)) rdata)"

fun read_answers :: "bytes \<Rightarrow> nat \<Rightarrow> nat \<Rightarrow> answer list res" where
  "read_answers msg 0 offset = Inr []"
| "read_answers msg (Suc n) offset =
     rbind (read_name msg offset) (\<lambda>(name, off).
     rbind (unpack_rr (slice msg off 10)) (\<lambda>(rtype, rclass, ttl, rdlength).
     let rdata = slice msg (off + 10) (nat rdlength);
         value = (if rtype = TYPE_A \<and> rdlength = 4 then Some (dotted_quad rdata) else None) in
     rbind (read_answers msg n (off + 10 + nat rdlength)) (\<lambda>as.
     Inr (\<lparr>a_name = name, a_type = rtype, a_class = rclass, a_ttl = ttl, a_value = value\<rparr> # as))))"

definition parse_response :: "bytes \<Rightarrow> response res" where
  "parse_response msg =
     rbind (unpack_header (slice msg 0 12)) (\<lambda>(txn_id, flags, qd, an, ns, ar).
     rbind (skip_questions msg (nat qd) 12) (\<lambda>offset.
     rbind (read_answers msg (nat an) offset) (\<lambda>answers.
     Inr \<lparr>resp_id = txn_id, resp_rcode = flags AND 0x000F, resp_qdcount = qd, resp_ancount = an,
          resp_answers = answers\<rparr>)))"

text \<open>
  \<^verbatim>\<open>query\<close>: the UDP exchange is the parameter \<open>exchange\<close>, the datagram that comes back for the
  packet sent or the exception the socket raised.
\<close>

definition query :: "(bytes \<Rightarrow> bytes res) \<Rightarrow> ustr \<Rightarrow> int \<Rightarrow> response res" where
  "query exchange name txn_id =
     rbind (build_query name TYPE_A txn_id) (\<lambda>(tid, packet).
     rbind (exchange packet) (\<lambda>datagram.
     let data = take 4096 datagram in
     rbind (parse_response data) (\<lambda>result.
     rbind (py_assert (resp_id result = tid)) (\<lambda>_. Inr result))))"


text \<open>\<^verbatim>\<open>_self_test_offline\<close>: the first failing assert, or \<^verbatim>\<open>True\<close>.\<close>

definition self_test_offline :: "bool res" where
  "self_test_offline =
     rbind (encode_qname (ustr_of ''www.example.com'')) (\<lambda>q1.
     rbind (py_assert (q1 = [3,119,119,119,7,101,120,97,109,112,108,101,3,99,111,109,0])) (\<lambda>_.
     rbind (encode_qname (ustr_of ''a.bc'')) (\<lambda>q2.
     rbind (py_assert (q2 = [1,97,2,98,99,0])) (\<lambda>_.
     rbind (rmap pack_H [0x1234, 0x8180, 0, 0, 0, 0]) (\<lambda>header.
     rbind (pack_H (0xC000 OR 12)) (\<lambda>ptr.
     let base = concat header @ [7,101,120,97,109,112,108,101,3,99,111,109,0];
         message = base @ [3,119,119,119] @ ptr in
     rbind (read_name message (length base)) (\<lambda>(name, _).
     rbind (py_assert (name = ustr_of ''www.example.com'')) (\<lambda>_. Inr True))))))))"

section \<open>What a name in a message denotes\<close>

text \<open>
  The reading of names as a relation, RFC 1035 section 4.1.4 as the code reads it (it takes length bytes from 64 to 191, which the RFC
  reserves, as lengths, and follows pointers in both directions): \<open>name_at msg off ls n aft\<close> says that the bytes at
  \<open>off\<close> denote the labels \<open>ls\<close>, reached by reading \<open>n\<close> length bytes, and that \<open>aft\<close> is the
  position after the name in the stream (after the first pointer, if there is one).
\<close>

abbreviation is_pointer :: "byte \<Rightarrow> bool" where
  "is_pointer len \<equiv> len AND 0xC0 = 0xC0"

abbreviation target :: "byte \<Rightarrow> byte \<Rightarrow> nat" where
  "target len lo \<equiv> push_bit 8 (unat (len AND 0x3F)) OR unat lo"

inductive name_at :: "bytes \<Rightarrow> nat \<Rightarrow> ustr list \<Rightarrow> nat \<Rightarrow> nat \<Rightarrow> bool" for msg :: bytes where
  root: "off < length msg \<Longrightarrow> msg ! off = 0 \<Longrightarrow> name_at msg off [] 1 (off + 1)"
| label: "off < length msg \<Longrightarrow> msg ! off \<noteq> 0 \<Longrightarrow> \<not> is_pointer (msg ! off) \<Longrightarrow>
     name_at msg (off + 1 + unat (msg ! off)) ls n aft \<Longrightarrow>
     name_at msg off (ascii_decode (slice msg (off + 1) (unat (msg ! off))) # ls) (Suc n) aft"
| pointer: "off + 1 < length msg \<Longrightarrow> is_pointer (msg ! off) \<Longrightarrow>
     name_at msg (target (msg ! off) (msg ! (off + 1))) ls n aft \<Longrightarrow>
     name_at msg off ls (Suc n) (off + 2)"

lemma read_name_loop_complete:
  "name_at msg off ls n aft \<Longrightarrow> guard + n \<le> 128 \<Longrightarrow>
   read_name_loop msg off acc jumped ap guard = Inr (join_with [46] (acc @ ls), if jumped then ap else aft)"
proof (induction arbitrary: acc jumped ap guard rule: name_at.induct)
  case (root off)
  then show ?case by (subst read_name_loop.simps) (simp add: byte_at_def)
next
  case (label off ls n aft)
  from label.IH [of "guard + 1" "acc @ [ascii_decode (slice msg (off + 1) (unat (msg ! off)))]" jumped ap]
  show ?case using label.hyps label.prems
    by (subst read_name_loop.simps) (simp add: byte_at_def)
next
  case (pointer off ls n aft)
  from pointer.IH [of "guard + 1" acc True "if jumped then ap else off + 2"]
  show ?case using pointer.hyps pointer.prems
    by (subst read_name_loop.simps) (cases jumped; simp add: byte_at_def)
qed

lemma read_name_loop_sound:
  "read_name_loop msg off acc jumped ap guard = Inr (s, aft') \<Longrightarrow>
   \<exists>ls n aft. name_at msg off ls n aft \<and> guard + n \<le> 128 \<and> s = join_with [46] (acc @ ls) \<and>
     aft' = (if jumped then ap else aft)"
proof (induction msg off acc jumped ap guard rule: read_name_loop.induct)
  case (1 msg off acc jumped ap guard)
  note run = "1.prems" [unfolded read_name_loop.simps [of msg off acc jumped ap guard]]
  from run have g: "\<not> guard + 1 > 128" by (auto split: if_splits)
  from run g obtain len where len: "byte_at msg off = Inr len" by (auto simp: res_simps)
  then have off: "off < length msg" "len = msg ! off" by (auto simp: byte_at_def split: if_splits)
  consider "is_pointer len" | "len = 0" | "\<not> is_pointer len" "len \<noteq> 0" by blast
  then show ?case
  proof cases
    case 1
    with run g len obtain lo where lo: "byte_at msg (off + 1) = Inr lo" by (auto simp: res_simps)
    then have off1: "off + 1 < length msg" "lo = msg ! (off + 1)" by (auto simp: byte_at_def split: if_splits)
    from "1.IH"(1) [OF g len 1 lo] run g len 1 lo obtain ls n aft where
      na: "name_at msg (target len lo) ls n aft" and res: "guard + 1 + n \<le> 128" "s = join_with [46] (acc @ ls)"
      "aft' = (if \<not> jumped then off + 2 else ap)" by auto
    from name_at.pointer [of off msg ls n aft] na off1 1 off have "name_at msg off ls (Suc n) (off + 2)" by simp
    with res show ?thesis by (intro exI conjI) auto
  next
    case 2
    with run g len off show ?thesis
      by (intro exI [of _ "[]"] exI [of _ "1::nat"] exI [of _ "off + 1"]) (auto intro: name_at.root [of off msg, simplified])
  next
    case 3
    let ?l = "ascii_decode (slice msg (off + 1) (unat len))"
    from "1.IH"(2) [OF g len 3] run g len 3 obtain ls n aft where
      na: "name_at msg (off + 1 + unat len) ls n aft" and res: "guard + 1 + n \<le> 128"
      "s = join_with [46] ((acc @ [?l]) @ ls)" "aft' = (if jumped then ap else aft)" by auto
    from name_at.label [of off msg ls n aft] na off 3 have "name_at msg off (?l # ls) (Suc n) aft" by simp
    with res show ?thesis by (intro exI conjI) auto
  qed
qed

lemma read_name_loop_errors:
  "read_name_loop msg off acc jumped ap guard = Inl e \<Longrightarrow> e = IndexError \<or> e = ValueError"
proof (induction msg off acc jumped ap guard rule: read_name_loop.induct)
  case (1 msg off acc jumped ap guard)
  then show ?case
    using "1.prems" [unfolded read_name_loop.simps [of msg off acc jumped ap guard]]
    by (auto simp: res_simps byte_at_def split: if_splits)
qed

text \<open>
  C13. \<^verbatim>\<open>read_name\<close> implements the relation exactly: it returns a name and a stream position
  if and only if the bytes at the offset denote that name within the limit of 128 length bytes
  (zero byte included), whatever chain of compression pointers leads there; in every other case,
  truncated messages and pointer loops included, it stops with \<open>IndexError\<close> or \<open>ValueError\<close>.
\<close>

theorem read_name_denotes:
  "(\<forall>s aft. read_name msg off = Inr (s, aft) \<longleftrightarrow>
      (\<exists>ls n. name_at msg off ls n aft \<and> n \<le> 128 \<and> s = join_with [46] ls)) \<and>
   (read_name msg off \<in> {Inl IndexError, Inl ValueError} \<longleftrightarrow>
      (\<nexists>ls n aft. name_at msg off ls n aft \<and> n \<le> 128))"
proof -
  have ok: "read_name msg off = Inr (s, aft) \<longleftrightarrow>
      (\<exists>ls n. name_at msg off ls n aft \<and> n \<le> 128 \<and> s = join_with [46] ls)" for s aft
    unfolding read_name_def
    using read_name_loop_complete [of msg off _ _ _ 0 "[]" False off]
      read_name_loop_sound [of msg off "[]" False off 0] by fastforce
  show ?thesis
    using ok read_name_loop_errors [of msg off "[]" False off 0]
    by (cases "read_name msg off") (fastforce simp: read_name_def)+
qed

section \<open>Names written by \<open>encode_qname\<close>\<close>

abbreviation labels_of :: "ustr \<Rightarrow> ustr list" where
  "labels_of name \<equiv> filter (\<lambda>l. l \<noteq> []) (split_on 46 name)"

abbreviation short_labels :: "ustr \<Rightarrow> bool" where
  "short_labels name \<equiv> \<forall>l \<in> set (split_on 46 name). length l < 192"

lemma pointer_byte_ge: "is_pointer len \<Longrightarrow> 192 \<le> unat len"
proof -
  assume "is_pointer len"
  then have "(0xC0 :: byte) \<le> len" using word_and_le2 [of len "0xC0"] by (simp add: word_and_le1)
  then show ?thesis by (simp add: word_le_nat_alt)
qed

lemma unat_of_nat_byte: "n < 256 \<Longrightarrow> unat (of_nat n :: byte) = n"
  by (simp add: unat_of_nat)

lemma encode_labels_name_at:
  "encode_labels ls = Inr bs \<Longrightarrow> \<forall>l \<in> set ls. length l < 192 \<Longrightarrow>
   name_at (pre @ bs @ post) (length pre + length bs) rest n aft \<Longrightarrow>
   name_at (pre @ bs @ post) (length pre) (filter (\<lambda>l. l \<noteq> []) ls @ rest)
     (length (filter (\<lambda>l. l \<noteq> []) ls) + n) aft"
proof (induction ls arbitrary: bs pre)
  case (Cons l ls)
  show ?case
  proof (cases "l = []")
    case False
    from False Cons.prems(1) obtain enc rest_bs where
      enc: "ascii_encode l = Inr enc" and rb: "encode_labels ls = Inr rest_bs"
      and bs: "bs = of_nat (length enc) # enc @ rest_bs"
      by (auto simp: res_simps split: if_splits)
    from ascii_round_trip [OF enc] have dec: "ascii_decode enc = l" "length enc = length l" by auto
    let ?len = "of_nat (length enc) :: byte"
    let ?msg = "pre @ bs @ post"
    have len: "unat ?len = length enc" using Cons.prems(2) dec by (simp add: unat_of_nat_byte)
    have np: "\<not> is_pointer ?len" using pointer_byte_ge [of ?len] len dec Cons.prems(2) by auto
    have nz: "?len \<noteq> 0" using len dec False by auto
    have "name_at ((pre @ ?len # enc) @ rest_bs @ post) (length (pre @ ?len # enc))
        (filter (\<lambda>l. l \<noteq> []) ls @ rest) (length (filter (\<lambda>l. l \<noteq> []) ls) + n) aft"
      using Cons.prems(2,3) by (intro Cons.IH [OF rb]) (simp_all add: bs ac_simps)
    then have "name_at ?msg (length pre + 1 + unat (?msg ! length pre))
        (filter (\<lambda>l. l \<noteq> []) ls @ rest) (length (filter (\<lambda>l. l \<noteq> []) ls) + n) aft"
      by (simp add: bs len)
    then have "name_at ?msg (length pre)
        (ascii_decode (slice ?msg (length pre + 1) (unat (?msg ! length pre))) # filter (\<lambda>l. l \<noteq> []) ls @ rest)
        (Suc (length (filter (\<lambda>l. l \<noteq> []) ls) + n)) aft"
      by (intro name_at.label) (use nz np in \<open>simp_all add: bs\<close>)
    moreover have "slice ?msg (length pre + 1) (unat (?msg ! length pre)) = enc"
      by (simp add: bs len slice_def)
    ultimately show ?thesis using False dec by simp
  qed (use Cons in auto)
qed simp

lemma encode_qname_name_at:
  assumes "encode_qname name = Inr bs" "short_labels name"
  shows "name_at (pre @ bs @ post) (length pre) (labels_of name) (length (labels_of name) + 1)
           (length pre + length bs)"
proof -
  from assms(1) obtain out where out: "encode_labels (split_on 46 name) = Inr out" "bs = out @ [0]"
    by (auto simp: encode_qname_def res_simps)
  have "name_at (pre @ out @ 0 # post) (length pre + length out) [] 1 (length pre + length out + 1)"
    by (intro name_at.root) (simp_all add: nth_append)
  from encode_labels_name_at [OF out(1) assms(2) this] show ?thesis by (simp add: out(2))
qed

lemma read_name_of_name_at:
  "name_at msg off ls n aft \<Longrightarrow> n \<le> 128 \<Longrightarrow> read_name msg off = Inr (join_with [46] ls, aft)"
  using read_name_loop_complete [of msg off ls n aft 0 "[]" False off] by (simp add: read_name_def)

text \<open>
  C20. Round trip: a name of at most 127 labels, each shorter than 192 bytes, that
  \<^verbatim>\<open>encode_qname\<close> encodes is read back by \<^verbatim>\<open>read_name\<close> from anywhere inside a message, up to
  the empty labels that the encoder drops, and the returned position is the byte after its
  terminating zero.
\<close>

theorem qname_round_trip:
  assumes "encode_qname name = Inr bs" "short_labels name" "length (labels_of name) \<le> 127"
  shows "read_name (pre @ bs @ post) (length pre) =
         Inr (join_with [46] (labels_of name), length pre + length bs)"
  using read_name_of_name_at [OF encode_qname_name_at [OF assms(1,2), of pre post]] assms(3) by simp

theorem qname_round_trip_witness:
  "encode_qname (ustr_of ''www.a.'') = Inr [3,119,119,119,1,97,0] \<and>
   read_name ([9,9] @ [3,119,119,119,1,97,0] @ [7]) 2 = Inr (ustr_of ''www.a'', 9)"
proof -
  have e: "encode_qname (ustr_of ''www.a.'') = Inr [3,119,119,119,1,97,0]" by code_simp
  have l: "labels_of (ustr_of ''www.a.'') = [ustr_of ''www'', ustr_of ''a'']" by code_simp
  have "read_name ([9,9] @ [3,119,119,119,1,97,0] @ [7]) (length [9,9 :: byte]) =
        Inr (join_with [46] (labels_of (ustr_of ''www.a.'')), length [9,9 :: byte] + length [3,119,119,119,1,97,0 :: byte])"
    by (rule qname_round_trip [OF e]) (simp_all add: ustr_of_def)
  with e l show ?thesis by (simp add: ustr_of_def numeral_2_eq_2 eval_nat_numeral)
qed

section \<open>Parsing a reply\<close>

text \<open>
  A reply as RFC 1035 lays it out: the header, the echoed question, the answers and whatever follows in the other sections
  (\<open>ns\<close> and \<open>ar\<close> count those). A resource record has any type, class and data; its owner is the usual pointer \<open>0xC00C\<close> to the
  question at offset 12 (\<open>None\<close>) or a name written out.
\<close>

record rr =
  rr_owner :: "ustr option"
  rr_type :: int
  rr_class :: int
  rr_ttl :: int
  rr_data :: bytes

definition owner_bytes :: "ustr option \<Rightarrow> bytes" where
  "owner_bytes own = (case own of None \<Rightarrow> [0xC0, 0x0C] | Some name \<Rightarrow> (case encode_qname name of Inr bs \<Rightarrow> bs | Inl _ \<Rightarrow> []))"

definition rr_fixed :: "rr \<Rightarrow> bytes" where
  "rr_fixed r = to_be 2 (rr_type r) @ to_be 2 (rr_class r) @ to_be 4 (rr_ttl r) @ to_be 2 (int (length (rr_data r)))"

definition rr_bytes :: "rr \<Rightarrow> bytes" where
  "rr_bytes r = owner_bytes (rr_owner r) @ rr_fixed r @ rr_data r"

definition header_bytes :: "int \<Rightarrow> int \<Rightarrow> int \<Rightarrow> int \<Rightarrow> int \<Rightarrow> int \<Rightarrow> bytes" where
  "header_bytes tid flags qd an ns ar = to_be 2 tid @ to_be 2 flags @ to_be 2 qd @ to_be 2 an @ to_be 2 ns @ to_be 2 ar"

definition dns_reply :: "int \<Rightarrow> int \<Rightarrow> bytes \<Rightarrow> rr list \<Rightarrow> int \<Rightarrow> int \<Rightarrow> bytes \<Rightarrow> bytes" where
  "dns_reply tid flags qname rs ns ar extra =
     header_bytes tid flags 1 (int (length rs)) ns ar @ qname @ to_be 2 TYPE_A @ to_be 2 CLASS_IN @ concat (map rr_bytes rs) @ extra"

text \<open>What \<^verbatim>\<open>parse_response\<close> should make of a record: only an A record of four bytes has a value.\<close>

definition rr_answer :: "ustr \<Rightarrow> rr \<Rightarrow> answer" where
  "rr_answer name r = \<lparr>a_name = join_with [46] (labels_of (case rr_owner r of None \<Rightarrow> name | Some n \<Rightarrow> n)), a_type = rr_type r,
     a_class = rr_class r, a_ttl = rr_ttl r,
     a_value = (if rr_type r = TYPE_A \<and> length (rr_data r) = 4 then Some (dotted_quad (rr_data r)) else None)\<rparr>"

abbreviation u16 :: "int \<Rightarrow> bool" where
  "u16 x \<equiv> 0 \<le> x \<and> x < 2 ^ 16"

definition ok_rr :: "rr \<Rightarrow> bool" where
  "ok_rr r \<longleftrightarrow> u16 (rr_type r) \<and> u16 (rr_class r) \<and> 0 \<le> rr_ttl r \<and> rr_ttl r < 2 ^ 32 \<and> length (rr_data r) < 2 ^ 16 \<and>
     (case rr_owner r of None \<Rightarrow> True
      | Some n \<Rightarrow> (\<exists>bs. encode_qname n = Inr bs) \<and> short_labels n \<and> length (labels_of n) \<le> 127)"

lemma from_be_to_be_2: "u16 x \<Longrightarrow> from_be (to_be 2 x) = x"
  by (simp add: from_be_to_be)

lemma length_header [simp]: "length (header_bytes tid flags qd an ns ar) = 12"
  by (simp add: header_bytes_def)

lemma slice_skip: "length pre \<le> i \<Longrightarrow> slice (pre @ xs) i n = slice xs (i - length pre) n"
  by (simp add: slice_def)

lemma slice_here: "length xs = n \<Longrightarrow> slice (xs @ post) 0 n = xs"
  by (simp add: slice_def)

lemma unpack_header_bytes:
  assumes "u16 tid" "u16 flags" "u16 qd" "u16 an" "u16 ns" "u16 ar"
  shows "unpack_header (slice (header_bytes tid flags qd an ns ar @ rest) 0 12) = Inr (tid, flags, qd, an, ns, ar)"
proof -
  have "slice (header_bytes tid flags qd an ns ar @ rest) 0 12 = header_bytes tid flags qd an ns ar"
    by (rule slice_here) simp
  with assms show ?thesis
    by (simp add: unpack_header_def) (simp add: header_bytes_def slice_def from_be_to_be_2)
qed

lemma unpack_rr_fixed:
  assumes "ok_rr r"
  shows "unpack_rr (rr_fixed r) = Inr (rr_type r, rr_class r, rr_ttl r, int (length (rr_data r)))"
  using assms by (simp add: ok_rr_def rr_fixed_def unpack_rr_def slice_def from_be_to_be)

lemma rr_fixed_length [simp]: "length (rr_fixed r) = 10"
  by (simp add: rr_fixed_def)

lemma target_question: "target 0xC0 0x0C = 12"
  by simp

lemma read_owner:
  assumes "\<And>post. name_at (pre @ post) 12 (labels_of name) n aft" "n < 128" "ok_rr r"
  shows "read_name (pre @ owner_bytes (rr_owner r) @ post) (length pre) =
    Inr (join_with [46] (labels_of (case rr_owner r of None \<Rightarrow> name | Some n \<Rightarrow> n)), length pre + length (owner_bytes (rr_owner r)))"
proof (cases "rr_owner r")
  case None
  let ?msg = "pre @ owner_bytes None @ post"
  have at: "?msg ! length pre = 0xC0" "?msg ! (length pre + 1) = 0x0C" by (simp_all add: owner_bytes_def nth_append)
  have "name_at ?msg (length pre) (labels_of name) (Suc n) (length pre + 2)"
    by (rule name_at.pointer [where aft = aft])
       (use assms(1) [of "owner_bytes None @ post"] at in \<open>simp_all add: owner_bytes_def\<close>)
  from read_name_of_name_at [OF this] assms(2) None show ?thesis by (simp add: owner_bytes_def)
next
  case (Some m)
  then obtain bs where m: "encode_qname m = Inr bs" "short_labels m" "length (labels_of m) \<le> 127"
    using assms(3) by (auto simp: ok_rr_def)
  from read_name_of_name_at [OF encode_qname_name_at [OF m(1,2), of pre post]] m(3)
  show ?thesis by (simp add: Some owner_bytes_def m(1))
qed

lemma read_answers_records:
  assumes "\<And>post. name_at (pre @ post) 12 (labels_of name) n aft" "n < 128" "\<forall>r \<in> set rs. ok_rr r"
  shows "read_answers (pre @ concat (map rr_bytes rs) @ extra) (length rs) (length pre) = Inr (map (rr_answer name) rs)"
  using assms
proof (induction rs arbitrary: pre)
  case (Cons r rs)
  have ok: "ok_rr r" using Cons.prems(3) by simp
  let ?own = "owner_bytes (rr_owner r)" and ?off = "length pre + length (owner_bytes (rr_owner r))"
  define tail where "tail = concat (map rr_bytes rs) @ extra"
  define msg where "msg = pre @ ?own @ rr_fixed r @ rr_data r @ tail"
  have rn: "read_name msg (length pre) =
      Inr (join_with [46] (labels_of (case rr_owner r of None \<Rightarrow> name | Some n \<Rightarrow> n)), ?off)"
    unfolding msg_def by (rule read_owner [OF Cons.prems(1,2) ok])
  have rf: "slice msg ?off 10 = rr_fixed r" by (simp add: slice_def msg_def)
  have rd: "slice msg (?off + 10) (length (rr_data r)) = rr_data r" by (simp add: slice_def msg_def)
  have whole: "(pre @ rr_bytes r) @ concat (map rr_bytes rs) @ extra = msg" "length (pre @ rr_bytes r) = ?off + 10 + length (rr_data r)"
    by (simp_all add: msg_def tail_def rr_bytes_def)
  have "read_answers ((pre @ rr_bytes r) @ concat (map rr_bytes rs) @ extra) (length rs) (length (pre @ rr_bytes r)) =
      Inr (map (rr_answer name) rs)"
    by (rule Cons.IH) (use Cons.prems in auto)
  then have rest: "read_answers msg (length rs) (?off + 10 + length (rr_data r)) = Inr (map (rr_answer name) rs)"
    by (simp only: whole)
  have "read_answers msg (Suc (length rs)) (length pre) = Inr (rr_answer name r # map (rr_answer name) rs)"
    using rd by (auto simp: rn rf rest unpack_rr_fixed [OF ok] Let_def rr_answer_def)
  then show ?case using whole(1) by simp
qed simp

lemma parse_dns_reply:
  assumes "encode_qname name = Inr qname" "short_labels name" "length (labels_of name) \<le> 126"
    and "u16 tid" "u16 flags" "length rs < 2 ^ 16" "u16 ns" "u16 ar" "\<forall>r \<in> set rs. ok_rr r"
  shows "parse_response (dns_reply tid flags qname rs ns ar extra) =
     Inr \<lparr>resp_id = tid, resp_rcode = flags AND 15, resp_qdcount = 1, resp_ancount = int (length rs),
          resp_answers = map (rr_answer name) rs\<rparr>"
proof -
  let ?h = "header_bytes tid flags 1 (int (length rs)) ns ar"
  let ?q = "to_be 2 TYPE_A @ to_be 2 CLASS_IN"
  have na: "name_at (?h @ qname @ post) 12 (labels_of name) (length (labels_of name) + 1) (12 + length qname)" for post
    using encode_qname_name_at [OF assms(1,2), of ?h post] by simp
  have rn: "read_name (dns_reply tid flags qname rs ns ar extra) 12 = Inr (join_with [46] (labels_of name), 12 + length qname)"
    unfolding dns_reply_def by (rule read_name_of_name_at [OF na]) (use assms(3) in simp)
  have hdr: "unpack_header (slice (dns_reply tid flags qname rs ns ar extra) 0 12) = Inr (tid, flags, 1, int (length rs), ns, ar)"
    unfolding dns_reply_def by (rule unpack_header_bytes) (use assms in simp_all)
  have "read_answers ((?h @ qname @ ?q) @ concat (map rr_bytes rs) @ extra) (length rs) (length (?h @ qname @ ?q)) =
     Inr (map (rr_answer name) rs)"
    by (rule read_answers_records [where n = "length (labels_of name) + 1" and aft = "12 + length qname"])
       (use na [of "?q @ _"] assms in simp_all)
  then have ra: "read_answers (dns_reply tid flags qname rs ns ar extra) (length rs) (12 + length qname + 4) = Inr (map (rr_answer name) rs)"
    by (simp add: dns_reply_def add.commute add.left_commute)
  show ?thesis unfolding parse_response_def
    using hdr rn ra by simp
qed

lemma query_run:
  assumes "build_query name TYPE_A tid = Inr (tid, packet)"
  shows "query exchange name tid =
     rbind (exchange packet) (\<lambda>datagram. rbind (parse_response (take 4096 datagram)) (\<lambda>result.
       if resp_id result = tid then Inr result else Inl AssertionError))"
  using assms by (cases "exchange packet") (auto simp: query_def py_assert_def rbind_assoc Let_def intro!: rbind_cong)

lemma build_query_Inr:
  assumes "encode_qname name = Inr qname" "u16 tid"
  shows "build_query name TYPE_A tid =
     Inr (tid, header_bytes tid 0x0100 1 0 0 0 @ qname @ to_be 2 TYPE_A @ to_be 2 CLASS_IN)"
  using assms by (simp add: build_query_def pack_H_def header_bytes_def TYPE_A_def CLASS_IN_def)




section \<open>The self test and the limits of the encoder\<close>

lemma self_test_offline_passes: "self_test_offline = Inr True"
  by code_simp

text \<open>
  \<^verbatim>\<open>encode_qname\<close> accepts labels that the reader cannot read back: it only refuses 256 bytes
  and more, while RFC 1035 allows 63 and from 192 on the length byte is itself a compression
  pointer. A single label of 192 bytes is encoded without an error and \<^verbatim>\<open>read_name\<close> then jumps
  into the middle of it and runs off the message.
\<close>

theorem long_label_encoded_unreadable:
  "\<exists>bs. encode_qname (replicate 192 97) = Inr bs \<and> read_name bs 0 = Inl IndexError"
proof -
  have e: "encode_qname (replicate 192 97) = Inr (192 # replicate 192 97 @ [0])"
    by (simp add: encode_qname_def split_on_no_sep ascii_encode_def)
  have "read_name (192 # replicate 192 97 @ [0]) 0 = Inl IndexError" by code_simp
  with e show ?thesis by blast
qed


section \<open>The main block\<close>

text \<open>
  The live part of the script: the checks of the answers (\<^verbatim>\<open>a_records[0]["value"].split\<close> fails on \<^verbatim>\<open>None\<close>), and the two errors
  that count as an unreachable network; every other exception ends the script.
\<close>

fun all_octets :: "string list \<Rightarrow> bool res" where
  "all_octets [] = Inr True"
| "all_octets (o1 # os) = rbind (py_int 10 o1) (\<lambda>n. if 0 \<le> n \<and> n \<le> 255 then all_octets os else Inr False)"

definition live_checks :: "response \<Rightarrow> unit res" where
  "live_checks result =
     (let a_records = filter (\<lambda>a. a_type a = TYPE_A) (resp_answers result) in
      rbind (py_assert (a_records \<noteq> [])) (\<lambda>_.
      case a_value (hd a_records) of
        None \<Rightarrow> Inl AttributeError
      | Some v \<Rightarrow> let octets = split_on CHR ''.'' v in
          rbind (if length octets = 4 then all_octets octets else Inr False) (\<lambda>ok. py_assert ok)))"

datatype dns_outcome = Live_Validated | Live_Skipped

definition dns_main :: "(bytes \<Rightarrow> bytes res) \<Rightarrow> int \<Rightarrow> dns_outcome res" where
  "dns_main exchange txn_id =
     rbind self_test_offline (\<lambda>ok. rbind (py_assert ok) (\<lambda>_.
     case rbind (query exchange (ustr_of ''example.com'') txn_id) live_checks of
       Inl e \<Rightarrow> if e = OSError then Inr Live_Skipped else Inl e
     | Inr _ \<Rightarrow> Inr Live_Validated))"

lemma all_octets_bytes: "all_octets (map (\<lambda>b. py_str (uint b)) (bs :: bytes)) = Inr True"
proof (induction bs)
  case (Cons b bs)
  have "0 \<le> uint b \<and> uint b \<le> 255" using uint_bounded [of b] by simp
  then show ?case using Cons by simp
qed simp

lemma split_dotted_quad: "bs \<noteq> [] \<Longrightarrow> split_on CHR ''.'' (dotted_quad bs) = map (\<lambda>b. py_str (uint b)) bs"
  unfolding dotted_quad_def by (rule split_on_join) (auto simp: py_str_def dest: str_nat_chars(2))

text \<open>
  The script validates every reply in 4096 bytes whose first A record has four bytes, under its transaction id, and skips the live part
  when the socket fails.
\<close>

lemma dns_main_live:
  assumes "exchange (header_bytes tid 0x0100 1 0 0 0 @ [7,101,120,97,109,112,108,101,3,99,111,109,0] @ to_be 2 TYPE_A @ to_be 2 CLASS_IN) =
      Inr (dns_reply tid flags [7,101,120,97,109,112,108,101,3,99,111,109,0] rs ns ar extra)"
    and "u16 tid" "u16 flags" "length rs < 2 ^ 16" "u16 ns" "u16 ar" "\<forall>r \<in> set rs. ok_rr r"
    and "length (dns_reply tid flags [7,101,120,97,109,112,108,101,3,99,111,109,0] rs ns ar extra) \<le> 4096"
    and "filter (\<lambda>r. rr_type r = TYPE_A) rs = r # rs'" "length (rr_data r) = 4"
  shows "dns_main exchange tid = Inr Live_Validated"
proof -
  let ?name = "ustr_of ''example.com''" and ?q = "[7,101,120,97,109,112,108,101,3,99,111,109,0] :: bytes"
  have q: "encode_qname ?name = Inr ?q" "short_labels ?name" "length (labels_of ?name) \<le> 126" by code_simp+
  have "query exchange ?name tid = Inr \<lparr>resp_id = tid, resp_rcode = flags AND 15, resp_qdcount = 1,
      resp_ancount = int (length rs), resp_answers = map (rr_answer ?name) rs\<rparr>"
    using query_run [OF build_query_Inr [OF q(1) assms(2)]] parse_dns_reply [OF q assms(2-7)] assms(1,8) by simp
  moreover have "r \<in> set (filter (\<lambda>r. rr_type r = TYPE_A) rs)" unfolding assms(9) by simp
  then have v: "a_value (rr_answer ?name r) = Some (dotted_quad (rr_data r))" using assms(10) by (simp add: rr_answer_def)
  have "(\<lambda>a. a_type a = TYPE_A) \<circ> rr_answer ?name = (\<lambda>r. rr_type r = TYPE_A)" by (auto simp: rr_answer_def)
  then have f: "filter (\<lambda>a. a_type a = TYPE_A) (map (rr_answer ?name) rs) = rr_answer ?name r # map (rr_answer ?name) rs'"
    using assms(9) by (simp only: filter_map list.map)
  have "rr_data r \<noteq> []" using assms(10) by auto
  then have chk: "live_checks \<lparr>resp_id = tid, resp_rcode = flags AND 15, resp_qdcount = 1,
      resp_ancount = int (length rs), resp_answers = map (rr_answer ?name) rs\<rparr> = Inr ()"
    unfolding live_checks_def response.select_convs f Let_def list.sel v
    using assms(10) by (simp add: split_dotted_quad all_octets_bytes py_assert_def)
  with calculation show ?thesis by (simp add: dns_main_def self_test_offline_passes py_assert_def)
qed

lemma dns_main_offline: "(\<And>packet. exchange packet = Inl OSError) \<Longrightarrow> u16 tid \<Longrightarrow> dns_main exchange tid = Inr Live_Skipped"
proof -
  assume e: "\<And>packet. exchange packet = Inl OSError" and t: "u16 tid"
  have "encode_qname (ustr_of ''example.com'') = Inr [7,101,120,97,109,112,108,101,3,99,111,109,0]" by code_simp
  from query_run [OF build_query_Inr [OF this t]] e have "query exchange (ustr_of ''example.com'') tid = Inl OSError" by simp
  then show ?thesis by (simp add: dns_main_def self_test_offline_passes py_assert_def)
qed

text \<open>An A record of another length has no value, and the script ends in an \<^verbatim>\<open>AttributeError\<close>.\<close>

lemma live_checks_no_value: "live_checks \<lparr>resp_id = i, resp_rcode = c, resp_qdcount = q, resp_ancount = 1,
    resp_answers = [\<lparr>a_name = nm, a_type = TYPE_A, a_class = cl, a_ttl = t, a_value = None\<rparr>]\<rparr> = Inl AttributeError"
  by (simp add: live_checks_def py_assert_def)

end
