(* ===== verification/Consistent_Hash.thy ===== *)
theory Consistent_Hash
  imports Complex_Main Py_Bytes
begin

text \<open>
  \<^verbatim>\<open>comp_networking/examples/consistent_hash.py\<close>: the ring of virtual nodes. The state is the
  dict \<^verbatim>\<open>_ring\<close> from positions to nodes, the sorted list \<^verbatim>\<open>_sorted_keys\<close> that \<^verbatim>\<open>bisect\<close>
  searches, and the set of nodes. MD5 is the parameter \<open>md5\<close>: every theorem holds for any hash
  function, and those that need it name the absence of collisions between virtual nodes.
\<close>

section \<open>Binary search\<close>

text \<open>\<^verbatim>\<open>bisect.bisect_left\<close> and \<^verbatim>\<open>bisect_right\<close> on the slice from \<open>lo\<close> to \<open>hi\<close>.\<close>

function bisect_right_loop :: "int list \<Rightarrow> int \<Rightarrow> nat \<Rightarrow> nat \<Rightarrow> nat" where
  "bisect_right_loop a x lo hi =
     (if lo < hi then
        let mid = (lo + hi) div 2 in
        if x < a ! mid then bisect_right_loop a x lo mid else bisect_right_loop a x (mid + 1) hi
      else lo)"
  by pat_completeness auto
termination
  by (relation "measure (\<lambda>(a, x, lo, hi). hi - lo)") auto

function bisect_left_loop :: "int list \<Rightarrow> int \<Rightarrow> nat \<Rightarrow> nat \<Rightarrow> nat" where
  "bisect_left_loop a x lo hi =
     (if lo < hi then
        let mid = (lo + hi) div 2 in
        if a ! mid < x then bisect_left_loop a x (mid + 1) hi else bisect_left_loop a x lo mid
      else lo)"
  by pat_completeness auto
termination
  by (relation "measure (\<lambda>(a, x, lo, hi). hi - lo)") auto

declare bisect_right_loop.simps [simp del] bisect_left_loop.simps [simp del]

definition bisect_right :: "int list \<Rightarrow> int \<Rightarrow> nat" where
  "bisect_right a x = bisect_right_loop a x 0 (length a)"

definition bisect_left :: "int list \<Rightarrow> int \<Rightarrow> nat" where
  "bisect_left a x = bisect_left_loop a x 0 (length a)"

definition insort_right :: "int list \<Rightarrow> int \<Rightarrow> int list" where
  "insort_right a x = (let i = bisect_right a x in take i a @ x # drop i a)"

definition list_pop :: "int list \<Rightarrow> nat \<Rightarrow> int list" where
  "list_pop a i = take i a @ drop (Suc i) a"

section \<open>The ring\<close>

record ring =
  vnodes :: nat
  rg_ring :: "(int, string) dict"
  rg_sorted :: "int list"
  rg_nodes :: "string set"

text \<open>\<^verbatim>\<open>value.encode("utf-8")\<close> for code points below 256.\<close>

definition utf8 :: "string \<Rightarrow> bytes" where
  "utf8 s = concat (map (\<lambda>c. let n = of_char c :: nat in
     if n < 128 then [of_nat n] else [of_nat (192 + n div 64), of_nat (128 + n mod 64)]) s)"

definition ring_hash :: "(bytes \<Rightarrow> bytes) \<Rightarrow> string \<Rightarrow> int" where
  "ring_hash md5 v = from_be (slice (md5 (utf8 v)) 0 4)"

definition vlabel :: "string \<Rightarrow> nat \<Rightarrow> string" where
  "vlabel node i = node @ ''#'' @ py_str (int i)"

definition add_vnode :: "(bytes \<Rightarrow> bytes) \<Rightarrow> string \<Rightarrow> nat \<Rightarrow> ring \<Rightarrow> ring" where
  "add_vnode md5 node i r =
     (let pos = ring_hash md5 (vlabel node i) in
      r\<lparr>rg_ring := AList.update pos node (rg_ring r), rg_sorted := insort_right (rg_sorted r) pos\<rparr>)"

definition add_node :: "(bytes \<Rightarrow> bytes) \<Rightarrow> string \<Rightarrow> ring \<Rightarrow> ring" where
  "add_node md5 node r =
     (if node \<in> rg_nodes r then r
      else fold (add_vnode md5 node) [0..<vnodes r] (r\<lparr>rg_nodes := insert node (rg_nodes r)\<rparr>))"

definition remove_vnode :: "(bytes \<Rightarrow> bytes) \<Rightarrow> string \<Rightarrow> nat \<Rightarrow> ring \<Rightarrow> ring" where
  "remove_vnode md5 node i r =
     (let pos = ring_hash md5 (vlabel node i) in
      if map_of (rg_ring r) pos = Some node then
        let idx = bisect_left (rg_sorted r) pos in
        r\<lparr>rg_ring := AList.delete pos (rg_ring r),
          rg_sorted := (if idx < length (rg_sorted r) \<and> rg_sorted r ! idx = pos
                        then list_pop (rg_sorted r) idx else rg_sorted r)\<rparr>
      else r)"

definition remove_node :: "(bytes \<Rightarrow> bytes) \<Rightarrow> string \<Rightarrow> ring \<Rightarrow> ring" where
  "remove_node md5 node r =
     (if node \<notin> rg_nodes r then r
      else fold (remove_vnode md5 node) [0..<vnodes r] (r\<lparr>rg_nodes := rg_nodes r - {node}\<rparr>))"

definition get_node :: "(bytes \<Rightarrow> bytes) \<Rightarrow> ring \<Rightarrow> string \<Rightarrow> string option res" where
  "get_node md5 r key =
     (if rg_sorted r = [] then Inr None
      else let pos = ring_hash md5 key;
               idx = bisect_right (rg_sorted r) pos;
               idx = (if idx = length (rg_sorted r) then 0 else idx) in
           rbind (dict_lookup (rg_ring r) (rg_sorted r ! idx)) (\<lambda>n. Inr (Some n)))"

definition ring_init :: "(bytes \<Rightarrow> bytes) \<Rightarrow> string list \<Rightarrow> nat \<Rightarrow> ring" where
  "ring_init md5 nodes v =
     fold (add_node md5) nodes \<lparr>vnodes = v, rg_ring = [], rg_sorted = [], rg_nodes = {}\<rparr>"

section \<open>The measurements of the script\<close>

text \<open>\<^verbatim>\<open>Counter(...)\<close>: counts in order of first occurrence.\<close>

definition counter :: "'a list \<Rightarrow> ('a, int) dict" where
  "counter xs = fold (\<lambda>x d. AList.update x (dict_get d x 0 + 1) d) xs []"

definition distribution :: "(bytes \<Rightarrow> bytes) \<Rightarrow> ring \<Rightarrow> string list \<Rightarrow> (string option, int) dict res" where
  "distribution md5 r keys = rbind (rmap (get_node md5 r) keys) (\<lambda>owners. Inr (counter owners))"

text \<open>
  The two remapping measurements: keys moved and keys moved to the new node when a node is
  added; keys moved, keys the removed node owned, and untouched keys of the others when one is
  removed.
\<close>

definition measure_add :: "(bytes \<Rightarrow> bytes) \<Rightarrow> ring \<Rightarrow> string list \<Rightarrow> string \<Rightarrow> (ring \<times> nat \<times> nat) res" where
  "measure_add md5 r keys node =
     rbind (rmap (get_node md5 r) keys) (\<lambda>before.
     let r' = add_node md5 node r in
     rbind (rmap (get_node md5 r') keys) (\<lambda>after.
     Inr (r', length (filter (\<lambda>(b, a). b \<noteq> a) (zip before after)),
          length (filter (\<lambda>(b, a). b \<noteq> a \<and> a = Some node) (zip before after)))))"

definition measure_remove :: "(bytes \<Rightarrow> bytes) \<Rightarrow> ring \<Rightarrow> string list \<Rightarrow> string \<Rightarrow> (ring \<times> nat \<times> nat \<times> nat) res" where
  "measure_remove md5 r keys node =
     rbind (rmap (get_node md5 r) keys) (\<lambda>before.
     let r' = remove_node md5 node r in
     rbind (rmap (get_node md5 r') keys) (\<lambda>after.
     Inr (r', length (filter (\<lambda>(b, a). b \<noteq> a) (zip before after)),
          length (filter (\<lambda>b. b = Some node) before),
          length (filter (\<lambda>(b, a). b \<noteq> Some node \<and> b = a) (zip before after)))))"

section \<open>Binary search is correct on sorted lists\<close>

lemma bisect_right_loop_spec:
  "sorted a \<Longrightarrow> lo \<le> hi \<Longrightarrow> hi \<le> length a \<Longrightarrow>
   \<forall>j<lo. a ! j \<le> x \<Longrightarrow> \<forall>j. hi \<le> j \<and> j < length a \<longrightarrow> x < a ! j \<Longrightarrow>
   (let i = bisect_right_loop a x lo hi in
    i \<le> length a \<and> (\<forall>j<i. a ! j \<le> x) \<and> (\<forall>j. i \<le> j \<and> j < length a \<longrightarrow> x < a ! j))"
proof (induction a x lo hi rule: bisect_right_loop.induct)
  case (1 a x lo hi)
  let ?mid = "(lo + hi) div 2"
  show ?case
  proof (cases "lo < hi")
    case True
    show ?thesis
    proof (cases "x < a ! ?mid")
      case gt: True
      have "\<forall>j. ?mid \<le> j \<and> j < length a \<longrightarrow> x < a ! j"
        using gt "1.prems"(1) sorted_nth_mono by (metis order_less_le_trans)
      with 1 gt True show ?thesis by (subst bisect_right_loop.simps) (simp add: Let_def)
    next
      case le: False
      have "?mid < length a" using True "1.prems"(3) by linarith
      then have "a ! j \<le> x" if "j < ?mid + 1" for j
        using le that sorted_nth_mono [OF "1.prems"(1), of j ?mid] by linarith
      with 1 le True show ?thesis by (subst bisect_right_loop.simps) (simp add: Let_def)
    qed
  next
    case False
    with 1 show ?thesis by (subst bisect_right_loop.simps) (simp add: Let_def)
  qed
qed

lemma bisect_left_loop_spec:
  "sorted a \<Longrightarrow> lo \<le> hi \<Longrightarrow> hi \<le> length a \<Longrightarrow>
   \<forall>j<lo. a ! j < x \<Longrightarrow> \<forall>j. hi \<le> j \<and> j < length a \<longrightarrow> x \<le> a ! j \<Longrightarrow>
   (let i = bisect_left_loop a x lo hi in
    i \<le> length a \<and> (\<forall>j<i. a ! j < x) \<and> (\<forall>j. i \<le> j \<and> j < length a \<longrightarrow> x \<le> a ! j))"
proof (induction a x lo hi rule: bisect_left_loop.induct)
  case (1 a x lo hi)
  let ?mid = "(lo + hi) div 2"
  show ?case
  proof (cases "lo < hi")
    case True
    show ?thesis
    proof (cases "a ! ?mid < x")
      case lt: True
      have "?mid < length a" using True "1.prems"(3) by linarith
      then have "a ! j < x" if "j < ?mid + 1" for j
        using lt that sorted_nth_mono [OF "1.prems"(1), of j ?mid] by linarith
      with 1 lt True show ?thesis by (subst bisect_left_loop.simps) (simp add: Let_def)
    next
      case ge: False
      have "\<forall>j. ?mid \<le> j \<and> j < length a \<longrightarrow> x \<le> a ! j"
        using ge "1.prems"(1) sorted_nth_mono by (metis not_less order_trans)
      with 1 ge True show ?thesis by (subst bisect_left_loop.simps) (simp add: Let_def)
    qed
  next
    case False
    with 1 show ?thesis by (subst bisect_left_loop.simps) (simp add: Let_def)
  qed
qed

lemma bisect_right_spec:
  assumes "sorted a"
  shows "bisect_right a x \<le> length a" "j < bisect_right a x \<Longrightarrow> a ! j \<le> x"
    "bisect_right a x \<le> j \<Longrightarrow> j < length a \<Longrightarrow> x < a ! j"
  using bisect_right_loop_spec [OF assms, of 0 "length a" x] by (auto simp: bisect_right_def Let_def)

lemma bisect_left_spec:
  assumes "sorted a"
  shows "bisect_left a x \<le> length a" "j < bisect_left a x \<Longrightarrow> a ! j < x"
    "bisect_left a x \<le> j \<Longrightarrow> j < length a \<Longrightarrow> x \<le> a ! j"
  using bisect_left_loop_spec [OF assms, of 0 "length a" x] by (auto simp: bisect_left_def Let_def)

lemma insort_right_spec:
  assumes "sorted a"
  shows "sorted (insort_right a x)" "mset (insort_right a x) = add_mset x (mset a)"
proof -
  let ?i = "bisect_right a x"
  have lo: "y \<le> x" if "y \<in> set (take ?i a)" for y
    using that bisect_right_spec(2) [OF assms, of _ x] by (auto simp: in_set_conv_nth)
  have hi: "x < y" if "y \<in> set (drop ?i a)" for y
    using that bisect_right_spec(3) [OF assms, of x] by (auto simp: in_set_conv_nth)
  have "sorted (take ?i a @ drop ?i a)" using assms by simp
  then show "sorted (insort_right a x)"
    using lo hi by (fastforce simp: insort_right_def Let_def sorted_append simp del: append_take_drop_id)
  have "mset a = mset (take ?i a) + mset (drop ?i a)" by (metis append_take_drop_id mset_append)
  then show "mset (insort_right a x) = add_mset x (mset a)"
    by (simp add: insort_right_def Let_def)
qed

lemma bisect_left_found:
  assumes "sorted a" "x \<in> set a"
  shows "bisect_left a x < length a" "a ! bisect_left a x = x"
proof -
  obtain j where j: "j < length a" "a ! j = x" using assms(2) by (auto simp: in_set_conv_nth)
  with bisect_left_spec(2) [OF assms(1), of j x] have le: "bisect_left a x \<le> j" by (meson not_less_iff_gr_or_eq not_le)
  with j show lt: "bisect_left a x < length a" by simp
  from le j sorted_nth_mono [OF assms(1) le j(1)] bisect_left_spec(3) [OF assms(1) order_refl lt]
  show "a ! bisect_left a x = x" by simp
qed

lemma list_pop_spec:
  assumes "sorted a" "i < length a"
  shows "sorted (list_pop a i)" "mset a = add_mset (a ! i) (mset (list_pop a i))"
proof -
  have a: "a = take i a @ a ! i # drop (Suc i) a" using assms(2) by (rule id_take_nth_drop)
  with assms(1) have "sorted (take i a @ a ! i # drop (Suc i) a)" by simp
  then show "sorted (list_pop a i)" by (auto simp: list_pop_def sorted_append)
  show "mset a = add_mset (a ! i) (mset (list_pop a i))"
    by (subst a) (simp add: list_pop_def)
qed

section \<open>The ring as a relation between positions and nodes\<close>

text \<open>
  \<open>rep R r\<close>: the dict is the relation \<open>R\<close> and the sorted list holds its positions, each once.
\<close>

definition rep :: "(int \<Rightarrow> string \<Rightarrow> bool) \<Rightarrow> ring \<Rightarrow> bool" where
  "rep R r \<longleftrightarrow> sorted (rg_sorted r) \<and> distinct (rg_sorted r) \<and>
     (\<forall>p. p \<in> set (rg_sorted r) \<longleftrightarrow> (\<exists>n. R p n)) \<and> (\<forall>p n. map_of (rg_ring r) p = Some n \<longleftrightarrow> R p n)"

lemma add_vnode_fields [simp]:
  "vnodes (add_vnode md5 node i r) = vnodes r" "rg_nodes (add_vnode md5 node i r) = rg_nodes r"
  by (simp_all add: add_vnode_def Let_def)

lemma remove_vnode_fields [simp]:
  "vnodes (remove_vnode md5 node i r) = vnodes r" "rg_nodes (remove_vnode md5 node i r) = rg_nodes r"
  by (simp_all add: remove_vnode_def Let_def)

lemma fold_vnode_fields [simp]:
  "vnodes (fold (add_vnode md5 node) is r) = vnodes r" "rg_nodes (fold (add_vnode md5 node) is r) = rg_nodes r"
  "vnodes (fold (remove_vnode md5 node) is r) = vnodes r" "rg_nodes (fold (remove_vnode md5 node) is r) = rg_nodes r"
  by (induction "is" arbitrary: r) auto

lemma rep_functional: "rep R r \<Longrightarrow> R p n \<Longrightarrow> R p m \<Longrightarrow> n = m"
  unfolding rep_def by (metis option.inject)

lemma rep_cong: "rep R r \<Longrightarrow> (\<And>p n. R p n \<longleftrightarrow> R' p n) \<Longrightarrow> rep R' r"
  by (simp add: rep_def)

lemma add_vnode_rep:
  assumes "rep R r" "\<forall>n. \<not> R (ring_hash md5 (vlabel node i)) n"
  shows "rep (\<lambda>p n. R p n \<or> n = node \<and> p = ring_hash md5 (vlabel node i)) (add_vnode md5 node i r)"
proof -
  let ?pos = "ring_hash md5 (vlabel node i)"
  have s: "sorted (rg_sorted r)" and d: "distinct (rg_sorted r)" and n: "?pos \<notin> set (rg_sorted r)"
    using assms by (auto simp: rep_def)
  note ins = insort_right_spec [OF s, of ?pos]
  have "set (insort_right (rg_sorted r) ?pos) = insert ?pos (set (rg_sorted r))"
    using arg_cong [OF ins(2), of set_mset] by simp
  moreover have "distinct (insort_right (rg_sorted r) ?pos)"
    using mset_eq_imp_distinct_iff [of "insort_right (rg_sorted r) ?pos" "?pos # rg_sorted r"] ins(2) d n by simp
  ultimately show ?thesis
    using assms ins(1) by (auto simp: rep_def add_vnode_def Let_def update_conv')
qed

lemma remove_vnode_rep:
  assumes "rep R r" "R (ring_hash md5 (vlabel node i)) node"
  shows "rep (\<lambda>p n. R p n \<and> p \<noteq> ring_hash md5 (vlabel node i)) (remove_vnode md5 node i r)"
proof -
  let ?pos = "ring_hash md5 (vlabel node i)" and ?a = "rg_sorted r"
  let ?i = "bisect_left ?a ?pos"
  have s: "sorted ?a" and d: "distinct ?a" and m: "?pos \<in> set ?a" and at: "map_of (rg_ring r) ?pos = Some node"
    using assms by (auto simp: rep_def)
  note i = bisect_left_found [OF s m]
  note pop = list_pop_spec [OF s i(1)]
  have "distinct (?pos # list_pop ?a ?i)"
    using mset_eq_imp_distinct_iff [of "?pos # list_pop ?a ?i" ?a] pop(2) d i(2) by simp
  moreover have "set ?a = insert ?pos (set (list_pop ?a ?i))"
    using arg_cong [OF pop(2), of set_mset] i(2) by simp
  ultimately show ?thesis
    using assms pop(1) i at by (auto simp: rep_def remove_vnode_def Let_def delete_conv')
qed

lemma add_vnodes_rep:
  assumes "rep R r" "distinct (map (\<lambda>i. ring_hash md5 (vlabel node i)) is)"
    "\<forall>i \<in> set is. \<forall>n. \<not> R (ring_hash md5 (vlabel node i)) n"
  shows "rep (\<lambda>p n. R p n \<or> n = node \<and> p \<in> (\<lambda>i. ring_hash md5 (vlabel node i)) ` set is)
           (fold (add_vnode md5 node) is r)"
  using assms
proof (induction "is" arbitrary: R r)
  case (Cons i "is")
  let ?R = "\<lambda>p n. R p n \<or> n = node \<and> p = ring_hash md5 (vlabel node i)"
  have "rep ?R (add_vnode md5 node i r)" using Cons.prems by (intro add_vnode_rep) auto
  from Cons.IH [OF this] Cons.prems
  have "rep (\<lambda>p n. ?R p n \<or> n = node \<and> p \<in> (\<lambda>i. ring_hash md5 (vlabel node i)) ` set is)
      (fold (add_vnode md5 node) is (add_vnode md5 node i r))" by (force simp: image_iff)
  then show ?case by (simp, rule rep_cong) auto
qed simp

lemma remove_vnodes_rep:
  assumes "rep R r" "distinct (map (\<lambda>i. ring_hash md5 (vlabel node i)) is)"
    "\<forall>i \<in> set is. R (ring_hash md5 (vlabel node i)) node"
  shows "rep (\<lambda>p n. R p n \<and> p \<notin> (\<lambda>i. ring_hash md5 (vlabel node i)) ` set is)
           (fold (remove_vnode md5 node) is r)"
  using assms
proof (induction "is" arbitrary: R r)
  case (Cons i "is")
  let ?R = "\<lambda>p n. R p n \<and> p \<noteq> ring_hash md5 (vlabel node i)"
  have "rep ?R (remove_vnode md5 node i r)" using Cons.prems by (intro remove_vnode_rep) auto
  from Cons.IH [OF this] Cons.prems
  have "rep (\<lambda>p n. ?R p n \<and> p \<notin> (\<lambda>i. ring_hash md5 (vlabel node i)) ` set is)
      (fold (remove_vnode md5 node) is (remove_vnode md5 node i r))" by (force simp: image_iff)
  then show ?case by simp
qed simp

section \<open>Placement services\<close>

text \<open>
  The point clockwise from \<open>h\<close> among the points \<open>P\<close>: the least one above \<open>h\<close>, or the least one
  of all when there is none above.
\<close>

definition clockwise :: "int set \<Rightarrow> int \<Rightarrow> int" where
  "clockwise P h = (if \<exists>p\<in>P. h < p then Min {p \<in> P. h < p} else Min P)"

lemma clockwise_in: "finite P \<Longrightarrow> P \<noteq> {} \<Longrightarrow> clockwise P h \<in> P"
  using Min_in [of P] Min_in [of "{p \<in> P. h < p}"] by (auto simp: clockwise_def)

lemma clockwise_subset:
  assumes "finite P" "Q \<subseteq> P" "clockwise P h \<in> Q"
  shows "clockwise Q h = clockwise P h"
proof (cases "\<exists>p\<in>P. h < p")
  case True
  then have c: "clockwise P h = Min {p \<in> P. h < p}" by (simp add: clockwise_def)
  have fin: "finite {p \<in> P. h < p}" using assms(1) by simp
  from Min_in [OF fin] True c have gt: "h < clockwise P h" by auto
  moreover have "Min {p \<in> Q. h < p} = clockwise P h"
    using assms c gt fin by (intro Min_eqI) (auto intro: finite_subset)
  ultimately show ?thesis using assms(3) by (auto simp: clockwise_def [of Q])
next
  case False
  then have c: "clockwise P h = Min P" by (simp add: clockwise_def)
  have "Min Q = clockwise P h"
    using assms c by (intro Min_eqI) (auto intro: finite_subset)
  moreover have "\<not> (\<exists>p\<in>Q. h < p)" using False assms(2) by auto
  ultimately show ?thesis by (simp add: clockwise_def [of Q])
qed

text \<open>
  What a ring promises to its clients: adding and removing change the set of live nodes, and a
  lookup finds the live node that owns the point clockwise from the key. The points of different
  nodes are disjoint.
\<close>

locale placement =
  fixes inv :: "'s \<Rightarrow> bool"
    and live :: "'s \<Rightarrow> 'n set"
    and add :: "'n \<Rightarrow> 's \<Rightarrow> 's"
    and remove :: "'n \<Rightarrow> 's \<Rightarrow> 's"
    and lookup :: "'s \<Rightarrow> 'k \<Rightarrow> 'n option res"
    and pts :: "'n \<Rightarrow> int set"
    and hash :: "'k \<Rightarrow> int"
    and univ :: "'n set"
  assumes add_ok: "inv s \<Longrightarrow> n \<in> univ \<Longrightarrow> inv (add n s) \<and> live (add n s) = insert n (live s)"
    and remove_ok: "inv s \<Longrightarrow> n \<in> univ \<Longrightarrow> inv (remove n s) \<and> live (remove n s) = live s - {n}"
    and lookup_none: "inv s \<Longrightarrow> \<Union> (pts ` live s) = {} \<Longrightarrow> lookup s k = Inr None"
    and lookup_some: "inv s \<Longrightarrow> \<Union> (pts ` live s) \<noteq> {} \<Longrightarrow>
        \<exists>n \<in> live s. lookup s k = Inr (Some n) \<and> clockwise (\<Union> (pts ` live s)) (hash k) \<in> pts n"
    and live_univ: "inv s \<Longrightarrow> live s \<subseteq> univ"
    and pts_disjoint: "n \<in> univ \<Longrightarrow> m \<in> univ \<Longrightarrow> p \<in> pts n \<Longrightarrow> p \<in> pts m \<Longrightarrow> n = m"
    and pts_finite: "inv s \<Longrightarrow> finite (\<Union> (pts ` live s))"
begin

lemma lookup_total: "inv s \<Longrightarrow> \<exists>r. lookup s k = Inr r"
  using lookup_none lookup_some by (cases "\<Union> (pts ` live s) = {}") blast+

lemma lookup_live: "inv s \<Longrightarrow> lookup s k = Inr (Some n) \<Longrightarrow> n \<in> live s"
  using lookup_none [of s k] lookup_some [of s k] by (cases "\<Union> (pts ` live s) = {}") auto

lemma lookup_owner:
  "inv s \<Longrightarrow> n \<in> live s \<Longrightarrow> clockwise (\<Union> (pts ` live s)) (hash k) \<in> pts n \<Longrightarrow> lookup s k = Inr (Some n)"
  using lookup_some [of s k] live_univ [of s] pts_disjoint by blast

lemma lookup_SomeD:
  "inv s \<Longrightarrow> lookup s k = Inr (Some n) \<Longrightarrow> clockwise (\<Union> (pts ` live s)) (hash k) \<in> pts n"
  using lookup_none [of s k] lookup_some [of s k] by (cases "\<Union> (pts ` live s) = {}") auto

lemma lookup_stable:
  assumes "inv s" "inv t" "live t \<subseteq> live s" "lookup s k = Inr (Some n)" "n \<in> live t"
  shows "lookup t k = Inr (Some n)"
proof -
  let ?P = "\<Union> (pts ` live s)" and ?Q = "\<Union> (pts ` live t)"
  have c: "clockwise ?P (hash k) \<in> pts n" using assms(1,4) by (rule lookup_SomeD)
  with assms(5) have "clockwise ?P (hash k) \<in> ?Q" by blast
  then have "clockwise ?Q (hash k) = clockwise ?P (hash k)"
    using assms(1,3) by (intro clockwise_subset pts_finite) auto
  with c assms(2,5) show ?thesis by (intro lookup_owner) simp_all
qed

lemma history_free: "inv s \<Longrightarrow> inv t \<Longrightarrow> live s = live t \<Longrightarrow> lookup s k = lookup t k"
  using lookup_total [of s k] lookup_total [of t k] lookup_stable [of s t k] lookup_stable [of t s k]
    lookup_live [of s k] lookup_live [of t k]
  by (metis not_Some_eq order_refl)

lemma add_moves_to_new:
  assumes "inv s" "n \<in> univ" "lookup (add n s) k \<noteq> lookup s k"
  shows "lookup (add n s) k = Inr (Some n)"
proof (rule ccontr)
  assume other: "lookup (add n s) k \<noteq> Inr (Some n)"
  note a = add_ok [OF assms(1,2)]
  show False
  proof (cases "lookup (add n s) k = Inr None")
    case True
    then have "\<Union> (pts ` live (add n s)) = {}" using a lookup_some [of "add n s" k] by fastforce
    then have "\<Union> (pts ` live s) = {}" using a by simp
    with assms(1,3) True lookup_none show False by simp
  next
    case False
    then obtain m where m: "lookup (add n s) k = Inr (Some m)" using lookup_total [of "add n s" k] a by auto
    with other have "m \<noteq> n" by auto
    with lookup_live m a have "m \<in> live s" by fastforce
    with m a assms(1) have "lookup s k = Inr (Some m)"
      by (intro lookup_stable [of "add n s" s]) auto
    with m assms(3) show False by simp
  qed
qed

lemma remove_keeps_others:
  assumes "inv s" "n \<in> univ" "lookup s k \<noteq> Inr (Some n)"
  shows "lookup (remove n s) k = lookup s k"
proof (cases "lookup s k = Inr None")
  case True
  then have "\<Union> (pts ` live s) = {}" using assms(1) lookup_some [of s k] by fastforce
  with True remove_ok [OF assms(1,2)] lookup_none [of "remove n s"] show ?thesis by auto
next
  case False
  then obtain m where m: "lookup s k = Inr (Some m)" using lookup_total [OF assms(1), of k] by auto
  with lookup_live assms have "m \<in> live s - {n}" by auto
  with m remove_ok [OF assms(1,2)] assms(1) show ?thesis
    using lookup_stable [of s "remove n s" k m] by auto
qed

lemma remove_moves_owned:
  assumes "inv s" "n \<in> univ"
  shows "lookup (remove n s) k \<noteq> Inr (Some n)"
  using remove_ok [OF assms] lookup_live [of "remove n s" k n] by auto

end

section \<open>The ring is a placement service\<close>

definition pts :: "(bytes \<Rightarrow> bytes) \<Rightarrow> nat \<Rightarrow> string \<Rightarrow> int set" where
  "pts md5 v n = (\<lambda>i. ring_hash md5 (vlabel n i)) ` {..<v}"

definition no_collisions :: "(bytes \<Rightarrow> bytes) \<Rightarrow> nat \<Rightarrow> string set \<Rightarrow> bool" where
  "no_collisions md5 v N \<longleftrightarrow> inj_on (\<lambda>(n, i). ring_hash md5 (vlabel n i)) (N \<times> {..<v})"

definition ring_inv :: "(bytes \<Rightarrow> bytes) \<Rightarrow> nat \<Rightarrow> string set \<Rightarrow> ring \<Rightarrow> bool" where
  "ring_inv md5 v N r \<longleftrightarrow> no_collisions md5 v N \<and> vnodes r = v \<and> rg_nodes r \<subseteq> N \<and> finite (rg_nodes r) \<and>
     rep (\<lambda>p n. n \<in> rg_nodes r \<and> p \<in> pts md5 v n) r"

lemma no_collisions_distinct:
  assumes "no_collisions md5 v N" "n \<in> N"
  shows "distinct (map (\<lambda>i. ring_hash md5 (vlabel n i)) [0..<v])"
proof -
  have "i = j" if "i < v" "j < v" "ring_hash md5 (vlabel n i) = ring_hash md5 (vlabel n j)" for i j
    using inj_onD [OF assms(1) [unfolded no_collisions_def], of "(n, i)" "(n, j)"] assms(2) that by simp
  then show ?thesis by (auto simp: distinct_map inj_on_def)
qed

lemma pts_disjoint:
  assumes "no_collisions md5 v N" "n \<in> N" "m \<in> N" "p \<in> pts md5 v n" "p \<in> pts md5 v m"
  shows "n = m"
proof -
  from assms(4,5) obtain i j where "i < v" "j < v" "p = ring_hash md5 (vlabel n i)" "p = ring_hash md5 (vlabel m j)"
    by (auto simp: pts_def)
  then show ?thesis
    using inj_onD [OF assms(1) [unfolded no_collisions_def], of "(n, i)" "(m, j)"] assms(2,3) by simp
qed

lemma nth_clockwise:
  assumes "sorted a" "a \<noteq> []"
  shows "a ! (if bisect_right a h = length a then 0 else bisect_right a h) = clockwise (set a) h"
proof (cases "bisect_right a h = length a")
  case True
  then have "\<not> (\<exists>p\<in>set a. h < p)"
    using bisect_right_spec(2) [OF assms(1), of _ h] by (auto simp: in_set_conv_nth not_less)
  moreover have "Min (set a) = a ! 0"
    using assms by (intro Min_eqI) (auto simp: in_set_conv_nth sorted_nth_mono)
  ultimately show ?thesis using True by (simp add: clockwise_def)
next
  case False
  let ?i = "bisect_right a h"
  have i: "?i < length a" using False bisect_right_spec(1) [OF assms(1), of h] by simp
  have gt: "h < a ! ?i" by (rule bisect_right_spec(3) [OF assms(1) order_refl i])
  have "a ! ?i \<le> p" if "p \<in> set a" "h < p" for p
  proof -
    from that obtain j where j: "j < length a" "a ! j = p" by (auto simp: in_set_conv_nth)
    with that have "?i \<le> j" using bisect_right_spec(2) [OF assms(1), of j h] by (meson not_le)
    with j show ?thesis using sorted_nth_mono [OF assms(1), of ?i j] by simp
  qed
  then have "Min {p \<in> set a. h < p} = a ! ?i"
    using i gt by (intro Min_eqI) auto
  with i gt False show ?thesis by (auto simp: clockwise_def)
qed

lemma get_node_rep:
  assumes "rep R r"
  shows "(\<forall>p n. \<not> R p n) \<and> get_node md5 r k = Inr None \<or>
    (\<exists>n. R (clockwise {p. \<exists>n. R p n} (ring_hash md5 k)) n \<and> get_node md5 r k = Inr (Some n))"
proof (cases "rg_sorted r = []")
  case True
  with assms show ?thesis by (auto simp: rep_def get_node_def)
next
  case False
  let ?c = "clockwise (set (rg_sorted r)) (ring_hash md5 k)"
  have S: "set (rg_sorted r) = {p. \<exists>n. R p n}" using assms by (auto simp: rep_def)
  have "?c \<in> set (rg_sorted r)" using False by (intro clockwise_in) auto
  then obtain n where n: "R ?c n" using S by auto
  have sorted: "sorted (rg_sorted r)" using assms by (simp add: rep_def)
  from n have "map_of (rg_ring r) ?c = Some n" using assms by (meson rep_def)
  then have "dict_lookup (rg_ring r) ?c = Inr n" by (simp add: dict_lookup_def)
  then have "get_node md5 r k = Inr (Some n)"
    using False nth_clockwise [OF sorted False, of "ring_hash md5 k"]
    by (simp add: get_node_def Let_def split del: if_split)
  with n show ?thesis by (auto simp: S)
qed

lemma add_node_inv:
  assumes "ring_inv md5 v N r" "n \<in> N"
  shows "ring_inv md5 v N (add_node md5 n r)" "rg_nodes (add_node md5 n r) = insert n (rg_nodes r)"
proof -
  show N: "rg_nodes (add_node md5 n r) = insert n (rg_nodes r)" by (auto simp: add_node_def)
  show "ring_inv md5 v N (add_node md5 n r)"
  proof (cases "n \<in> rg_nodes r")
    case False
    let ?r = "r\<lparr>rg_nodes := insert n (rg_nodes r)\<rparr>"
    let ?R = "\<lambda>p m. m \<in> rg_nodes r \<and> p \<in> pts md5 v m"
    have free: "\<not> ?R (ring_hash md5 (vlabel n i)) m" if "i < v" for i m
      using pts_disjoint [of md5 v N n m "ring_hash md5 (vlabel n i)"] that assms False
      by (auto simp: ring_inv_def pts_def)
    have "rep ?R ?r" using assms(1) by (simp add: ring_inv_def rep_def)
    from add_vnodes_rep [OF this no_collisions_distinct [of md5 v N n]] free assms
    have "rep (\<lambda>p m. ?R p m \<or> m = n \<and> p \<in> (\<lambda>i. ring_hash md5 (vlabel n i)) ` set [0..<v]) (add_node md5 n r)"
      using False by (auto simp: ring_inv_def add_node_def)
    then have "rep (\<lambda>p m. m \<in> insert n (rg_nodes r) \<and> p \<in> pts md5 v m) (add_node md5 n r)"
      by (rule rep_cong) (use False in \<open>auto simp: pts_def\<close>)
    with assms N show ?thesis by (auto simp: ring_inv_def add_node_def)
  qed (use assms in \<open>simp add: add_node_def\<close>)
qed

lemma remove_node_inv:
  assumes "ring_inv md5 v N r" "n \<in> N"
  shows "ring_inv md5 v N (remove_node md5 n r)" "rg_nodes (remove_node md5 n r) = rg_nodes r - {n}"
proof -
  show N: "rg_nodes (remove_node md5 n r) = rg_nodes r - {n}" by (auto simp: remove_node_def)
  show "ring_inv md5 v N (remove_node md5 n r)"
  proof (cases "n \<in> rg_nodes r")
    case True
    let ?r = "r\<lparr>rg_nodes := rg_nodes r - {n}\<rparr>"
    let ?R = "\<lambda>p m. m \<in> rg_nodes r \<and> p \<in> pts md5 v m"
    have "rep ?R ?r" using assms(1) by (simp add: ring_inv_def rep_def)
    from remove_vnodes_rep [OF this no_collisions_distinct [of md5 v N n]] assms
    have "rep (\<lambda>p m. ?R p m \<and> p \<notin> (\<lambda>i. ring_hash md5 (vlabel n i)) ` set [0..<v]) (remove_node md5 n r)"
      using True by (auto simp: ring_inv_def remove_node_def pts_def)
    moreover have "p \<notin> pts md5 v n" if "?R p m" "m \<noteq> n" for p m
      using pts_disjoint [of md5 v N n m p] that assms by (auto simp: ring_inv_def)
    ultimately have "rep (\<lambda>p m. m \<in> rg_nodes r - {n} \<and> p \<in> pts md5 v m) (remove_node md5 n r)"
      by (elim rep_cong) (auto simp: pts_def lessThan_atLeast0)
    with assms N True show ?thesis by (auto simp: ring_inv_def remove_node_def)
  qed (use assms in \<open>simp add: remove_node_def\<close>)
qed

interpretation ringp: placement "ring_inv md5 v N" rg_nodes "add_node md5" "remove_node md5" "get_node md5"
  "pts md5 v" "ring_hash md5" "{n \<in> N. no_collisions md5 v N}" for md5 v N
proof unfold_locales
  fix s n p m k
  show "ring_inv md5 v N s \<Longrightarrow> n \<in> {n \<in> N. no_collisions md5 v N} \<Longrightarrow>
      ring_inv md5 v N (add_node md5 n s) \<and> rg_nodes (add_node md5 n s) = insert n (rg_nodes s)"
    using add_node_inv by simp
  show "ring_inv md5 v N s \<Longrightarrow> n \<in> {n \<in> N. no_collisions md5 v N} \<Longrightarrow>
      ring_inv md5 v N (remove_node md5 n s) \<and> rg_nodes (remove_node md5 n s) = rg_nodes s - {n}"
    using remove_node_inv by simp
  show "ring_inv md5 v N s \<Longrightarrow> rg_nodes s \<subseteq> {n \<in> N. no_collisions md5 v N}"
    by (auto simp: ring_inv_def)
  show "n \<in> {n \<in> N. no_collisions md5 v N} \<Longrightarrow> m \<in> {n \<in> N. no_collisions md5 v N} \<Longrightarrow>
      p \<in> pts md5 v n \<Longrightarrow> p \<in> pts md5 v m \<Longrightarrow> n = m"
    using pts_disjoint by blast
  show "ring_inv md5 v N s \<Longrightarrow> finite (\<Union> (pts md5 v ` rg_nodes s))"
    by (auto simp: ring_inv_def pts_def)
  assume inv: "ring_inv md5 v N s"
  let ?R = "\<lambda>p n. n \<in> rg_nodes s \<and> p \<in> pts md5 v n"
  have U: "{p. \<exists>n. ?R p n} = \<Union> (pts md5 v ` rg_nodes s)" by auto
  note g = get_node_rep [of ?R s md5 k]
  show "\<Union> (pts md5 v ` rg_nodes s) = {} \<Longrightarrow> get_node md5 s k = Inr None"
    using g inv by (auto simp: ring_inv_def)
  show "\<Union> (pts md5 v ` rg_nodes s) \<noteq> {} \<Longrightarrow>
      \<exists>n\<in>rg_nodes s. get_node md5 s k = Inr (Some n) \<and>
        clockwise (\<Union> (pts md5 v ` rg_nodes s)) (ring_hash md5 k) \<in> pts md5 v n"
    using g inv unfolding U by (auto simp: ring_inv_def)
qed

section \<open>Histories\<close>

datatype ring_op = AddNode string | RemoveNode string

fun ring_step :: "(bytes \<Rightarrow> bytes) \<Rightarrow> ring_op \<Rightarrow> ring \<Rightarrow> ring" where
  "ring_step md5 (AddNode n) r = add_node md5 n r"
| "ring_step md5 (RemoveNode n) r = remove_node md5 n r"

fun live_step :: "ring_op \<Rightarrow> string set \<Rightarrow> string set" where
  "live_step (AddNode n) L = insert n L"
| "live_step (RemoveNode n) L = L - {n}"

fun op_node :: "ring_op \<Rightarrow> string" where
  "op_node (AddNode n) = n"
| "op_node (RemoveNode n) = n"

abbreviation ring_run :: "(bytes \<Rightarrow> bytes) \<Rightarrow> string list \<Rightarrow> nat \<Rightarrow> ring_op list \<Rightarrow> ring" where
  "ring_run md5 nodes v ops \<equiv> fold (ring_step md5) ops (ring_init md5 nodes v)"

abbreviation live_run :: "string list \<Rightarrow> ring_op list \<Rightarrow> string set" where
  "live_run nodes ops \<equiv> fold live_step ops (set nodes)"

lemma fold_add_inv:
  "ring_inv md5 v N r \<Longrightarrow> set ns \<subseteq> N \<Longrightarrow>
   ring_inv md5 v N (fold (add_node md5) ns r) \<and> rg_nodes (fold (add_node md5) ns r) = rg_nodes r \<union> set ns"
  by (induction ns arbitrary: r) (auto simp: add_node_inv)

lemma ring_init_inv:
  assumes "no_collisions md5 v N" "set nodes \<subseteq> N"
  shows "ring_inv md5 v N (ring_init md5 nodes v)" "rg_nodes (ring_init md5 nodes v) = set nodes"
proof -
  have "ring_inv md5 v N \<lparr>vnodes = v, rg_ring = [], rg_sorted = [], rg_nodes = {}\<rparr>"
    using assms by (simp add: ring_inv_def rep_def)
  from fold_add_inv [OF this assms(2)]
  show "ring_inv md5 v N (ring_init md5 nodes v)" "rg_nodes (ring_init md5 nodes v) = set nodes"
    by (simp_all add: ring_init_def)
qed

lemma ring_steps_inv:
  "ring_inv md5 v N r \<Longrightarrow> op_node ` set ops \<subseteq> N \<Longrightarrow>
   ring_inv md5 v N (fold (ring_step md5) ops r) \<and>
   rg_nodes (fold (ring_step md5) ops r) = fold live_step ops (rg_nodes r)"
proof (induction ops arbitrary: r)
  case (Cons x ops)
  then show ?case by (cases x) (auto simp: add_node_inv remove_node_inv)
qed simp

lemma ring_run_inv:
  assumes "no_collisions md5 v (set nodes \<union> op_node ` set ops)"
  shows "ring_inv md5 v (set nodes \<union> op_node ` set ops) (ring_run md5 nodes v ops)"
    "rg_nodes (ring_run md5 nodes v ops) = live_run nodes ops"
  using ring_steps_inv [OF ring_init_inv(1) [OF assms], of nodes ops] ring_init_inv(2) [OF assms, of nodes]
  by auto

text \<open>
  The position the source's comment asks for: the first one at or after \<open>h\<close>, wrapping around. It differs from the strict
  successor only for a key that hashes exactly onto a virtual node.
\<close>

definition first_at :: "int set \<Rightarrow> int \<Rightarrow> int" where
  "first_at P h = (if \<exists>p\<in>P. h \<le> p then Min {p \<in> P. h \<le> p} else Min P)"

lemma first_at_clockwise: "h \<notin> P \<Longrightarrow> first_at P h = clockwise P h"
proof -
  assume "h \<notin> P"
  then have "h \<le> p \<longleftrightarrow> h < p" if "p \<in> P" for p using that by (metis order.order_iff_strict)
  then have "{p \<in> P. h \<le> p} = {p \<in> P. h < p}" "(\<exists>p\<in>P. h \<le> p) \<longleftrightarrow> (\<exists>p\<in>P. h < p)" by auto
  then show ?thesis by (simp add: first_at_def clockwise_def)
qed

text \<open>
  C12. Whatever sequence of \<^verbatim>\<open>add_node\<close> and \<^verbatim>\<open>remove_node\<close> calls built the ring, if no two virtual nodes of the nodes used share a
  position, \<^verbatim>\<open>get_node\<close> never raises and depends only on the live nodes: it returns \<^verbatim>\<open>None\<close> exactly when there is no virtual node,
  and for every key that does not hash exactly onto a virtual node the live node that owns the first position at or after the key's,
  wrapping around at the end.
\<close>

theorem ring_lookup:
  assumes "no_collisions md5 v (set nodes \<union> op_node ` set ops)"
  shows "let r = ring_run md5 nodes v ops; L = live_run nodes ops; P = \<Union> (pts md5 v ` L) in
    rg_nodes r = L \<and>
    (if P = {} then get_node md5 r key = Inr None
     else (\<exists>n \<in> L. get_node md5 r key = Inr (Some n)) \<and>
       (ring_hash md5 key \<notin> P \<longrightarrow>
         (\<exists>n \<in> L. get_node md5 r key = Inr (Some n) \<and> first_at P (ring_hash md5 key) \<in> pts md5 v n)))"
proof -
  let ?r = "ring_run md5 nodes v ops" and ?L = "live_run nodes ops"
  let ?P = "\<Union> (pts md5 v ` ?L)"
  have L: "rg_nodes ?r = ?L" by (rule ring_run_inv(2) [OF assms])
  have none: "?P = {} \<Longrightarrow> get_node md5 ?r key = Inr None"
    using ringp.lookup_none [OF ring_run_inv(1) [OF assms], of key] L by simp
  have some: "?P \<noteq> {} \<Longrightarrow> \<exists>n \<in> ?L. get_node md5 ?r key = Inr (Some n) \<and> clockwise ?P (ring_hash md5 key) \<in> pts md5 v n"
    using ringp.lookup_some [OF ring_run_inv(1) [OF assms], of key] unfolding L by blast
  show ?thesis
  proof (cases "?P = {}")
    case True
    with L none show ?thesis by (simp only: Let_def simp_thms if_True)
  next
    case False
    from some [OF False] first_at_clockwise [of "ring_hash md5 key" ?P] False L show ?thesis
      unfolding Let_def if_not_P [OF False] by metis
  qed
qed

definition md5_last :: "bytes \<Rightarrow> bytes" where
  "md5_last bs = [0, 0, bs ! 0, last bs]"

theorem ring_lookup_witness:
  "get_node md5_last (ring_run md5_last [''a'', ''b''] 2 [RemoveNode ''a'', AddNode ''c'']) ''bz'' = Inr (Some ''c'')"
proof -
  have nc: "no_collisions md5_last 2 (set [''a'', ''b''] \<union> op_node ` set [RemoveNode ''a'', AddNode ''c''])"
    unfolding no_collisions_def by code_simp
  have P: "first_at (\<Union> (pts md5_last 2 ` live_run [''a'', ''b''] [RemoveNode ''a'', AddNode ''c''])) (ring_hash md5_last ''bz'') =
      ring_hash md5_last (vlabel ''c'' 0)"
    unfolding first_at_def by code_simp
  have off: "ring_hash md5_last ''bz'' \<notin> \<Union> (pts md5_last 2 ` live_run [''a'', ''b''] [RemoveNode ''a'', AddNode ''c''])" by code_simp
  have L: "live_run [''a'', ''b''] [RemoveNode ''a'', AddNode ''c''] = {''b'', ''c''}" by auto
  have b: "ring_hash md5_last (vlabel ''c'' 0) \<notin> pts md5_last 2 ''b''" by code_simp
  have "pts md5_last 2 ''b'' \<noteq> {}" by (simp add: pts_def lessThan_empty_iff)
  then have ne: "\<Union> (pts md5_last 2 ` live_run [''a'', ''b''] [RemoveNode ''a'', AddNode ''c'']) \<noteq> {}"
    unfolding L by blast
  note own = conjunct2 [OF ring_lookup [OF nc, of "''bz''", unfolded Let_def L]]
  then have "\<exists>n\<in>{''b'', ''c''}. get_node md5_last (ring_run md5_last [''a'', ''b''] 2 [RemoveNode ''a'', AddNode ''c'']) ''bz'' =
      Inr (Some n) \<and> ring_hash md5_last (vlabel ''c'' 0) \<in> pts md5_last 2 n"
    unfolding if_not_P [OF ne [unfolded L]] P [unfolded L] using off [unfolded L] by blast
  then obtain n where "n \<in> {''b'', ''c''}" "ring_hash md5_last (vlabel ''c'' 0) \<in> pts md5_last 2 n"
    "get_node md5_last (ring_run md5_last [''a'', ''b''] 2 [RemoveNode ''a'', AddNode ''c'']) ''bz'' = Inr (Some n)"
    by (elim bexE conjE)
  moreover from this(1,2) b have "n = ''c''" by (metis insertE singletonD)
  ultimately show ?thesis by (simp only:)
qed

text \<open>
  C22. Minimal remapping: in a ring built by any history of nodes whose virtual nodes, with those of \<open>n\<close>, all have different positions,
  adding \<open>n\<close> moves a key only to \<open>n\<close>, removing \<open>n\<close> moves only the keys it owned, and adding \<open>n\<close>, where it is not in the ring, and
  removing it again leaves every lookup as it was.
\<close>

theorem ring_minimal_remapping:
  assumes "no_collisions md5 v (insert n (set nodes \<union> op_node ` set ops))" "r = ring_run md5 nodes v ops"
  shows "(get_node md5 (add_node md5 n r) key = get_node md5 r key \<or>
      get_node md5 (add_node md5 n r) key = Inr (Some n)) \<and>
    (if get_node md5 r key = Inr (Some n) then get_node md5 (remove_node md5 n r) key \<noteq> Inr (Some n)
     else get_node md5 (remove_node md5 n r) key = get_node md5 r key) \<and>
    (n \<notin> rg_nodes r \<longrightarrow> get_node md5 (remove_node md5 n (add_node md5 n r)) key = get_node md5 r key)"
proof -
  let ?N = "insert n (set nodes \<union> op_node ` set ops)"
  have inv: "ring_inv md5 v ?N r"
    using ring_steps_inv [OF ring_init_inv(1) [OF assms(1)], of nodes ops] assms(2) by auto
  have n: "n \<in> {n \<in> ?N. no_collisions md5 v ?N}" using assms(1) by simp
  note a = ringp.add_ok [OF inv n]
  note ra = ringp.remove_ok [OF conjunct1 [OF a] n]
  have "n \<notin> rg_nodes r \<Longrightarrow> get_node md5 (remove_node md5 n (add_node md5 n r)) key = get_node md5 r key"
    by (rule ringp.history_free [OF conjunct1 [OF ra] inv]) (use a ra in simp)
  moreover note ringp.add_moves_to_new [OF inv n, of key] ringp.remove_keeps_others [OF inv n, of key]
    ringp.remove_moves_owned [OF inv n, of key]
  ultimately show ?thesis unfolding if_bool_eq_conj by blast
qed

theorem ring_minimal_remapping_witness:
  "let r = ring_run md5_last [''a'', ''b''] 2 [] in
   get_node md5_last (add_node md5_last ''c'' r) ''bz'' = Inr (Some ''c'') \<and>
   get_node md5_last (remove_node md5_last ''c'' (add_node md5_last ''c'' r)) ''bz'' = get_node md5_last r ''bz''"
proof -
  let ?r = "ring_run md5_last [''a'', ''b''] 2 []"
  have nc: "no_collisions md5_last 2 (insert ''c'' (set [''a'', ''b''] \<union> op_node ` set []))"
    unfolding no_collisions_def by code_simp
  have "get_node md5_last (add_node md5_last ''c'' ?r) ''bz'' = Inr (Some ''c'')"
    "''c'' \<notin> rg_nodes ?r" by code_simp+
  with ring_minimal_remapping [OF nc refl, of "''bz''"] show ?thesis unfolding Let_def by blast
qed

lemma rmap_total: "(\<And>x. \<exists>y. f x = Inr y) \<Longrightarrow> rmap f xs = Inr (map (\<lambda>x. case f x of Inr y \<Rightarrow> y) xs)"
proof (induction xs)
  case (Cons x xs)
  obtain y where "f x = Inr y" using Cons.prems by blast
  with Cons show ?case by simp
qed simp

lemma filter_zip_map: "filter P (zip (map f xs) (map g xs)) = map (\<lambda>x. (f x, g x)) (filter (\<lambda>x. P (f x, g x)) xs)"
  by (induction xs) auto

text \<open>
  The two remapping measurements of the script come out as it asserts, for every set of keys
  and every ring: all moved keys go to the added node; the keys moved by a removal are exactly
  those the removed node owned, and all the others stay untouched.
\<close>

theorem ring_measurements:
  assumes "no_collisions md5 v (insert n (set nodes \<union> op_node ` set ops))" "r = ring_run md5 nodes v ops"
  shows "(\<exists>moved. measure_add md5 r keys n = Inr (add_node md5 n r, moved, moved)) \<and>
    (\<exists>owned \<le> length keys. measure_remove md5 r keys n = Inr (remove_node md5 n r, owned, owned, length keys - owned))"
proof -
  let ?N = "insert n (set nodes \<union> op_node ` set ops)"
  have inv: "ring_inv md5 v ?N r"
    using ring_steps_inv [OF ring_init_inv(1) [OF assms(1)], of nodes ops] assms(2) by auto
  have n: "n \<in> {n \<in> ?N. no_collisions md5 v ?N}" using assms(1) by simp
  let ?g = "\<lambda>r k. case get_node md5 r k of Inr y \<Rightarrow> y"
  let ?a = "add_node md5 n r" and ?d = "remove_node md5 n r"
  have tot: "get_node md5 r k = Inr (?g r k)" "get_node md5 ?a k = Inr (?g ?a k)" "get_node md5 ?d k = Inr (?g ?d k)" for k
    using ringp.lookup_total inv ringp.add_ok [OF inv n] ringp.remove_ok [OF inv n]
    by (metis old.sum.simps(6))+
  have add: "?g r k \<noteq> ?g ?a k \<and> ?g ?a k = Some n \<longleftrightarrow> ?g r k \<noteq> ?g ?a k" for k
  proof -
    obtain x y where e: "get_node md5 r k = Inr x" "get_node md5 ?a k = Inr y" using tot by blast
    show ?thesis using ringp.add_moves_to_new [OF inv n, of k] by (auto simp: e)
  qed
  have keep: "?g r k \<noteq> ?g ?d k \<longleftrightarrow> ?g r k = Some n" for k
  proof -
    obtain x y where e: "get_node md5 r k = Inr x" "get_node md5 ?d k = Inr y" using tot by blast
    show ?thesis
      using ringp.remove_keeps_others [OF inv n, of k] ringp.remove_moves_owned [OF inv n, of k] by (auto simp: e)
  qed
  have keep': "?g r k \<noteq> Some n \<and> ?g r k = ?g ?d k \<longleftrightarrow> \<not> ?g r k = Some n" for k
    using keep by blast
  have ra: "rmap (get_node md5 r) keys = Inr (map (?g r) keys)" "rmap (get_node md5 ?a) keys = Inr (map (?g ?a) keys)"
    "rmap (get_node md5 ?d) keys = Inr (map (?g ?d) keys)"
    using tot by (intro rmap_total; blast)+
  have "measure_add md5 r keys n = Inr (?a, length (filter (\<lambda>k. ?g r k \<noteq> ?g ?a k) keys),
      length (filter (\<lambda>k. ?g r k \<noteq> ?g ?a k) keys))"
    unfolding measure_add_def ra Let_def rbind.simps filter_zip_map length_map prod.case add ..
  moreover have "measure_remove md5 r keys n = Inr (?d, length (filter (\<lambda>k. ?g r k = Some n) keys),
      length (filter (\<lambda>k. ?g r k = Some n) keys), length (filter (\<lambda>k. \<not> ?g r k = Some n) keys))"
    unfolding measure_remove_def ra Let_def rbind.simps filter_zip_map filter_map o_def length_map prod.case keep keep' ..
  moreover have "length (filter (\<lambda>k. \<not> ?g r k = Some n) keys) = length keys - length (filter (\<lambda>k. ?g r k = Some n) keys)"
    using sum_length_filter_compl [of "\<lambda>k. ?g r k = Some n" keys] by linarith
  ultimately show ?thesis using length_filter_le [of "\<lambda>k. ?g r k = Some n" keys] by (intro conjI exI) simp_all
qed

theorem ring_measurements_witness:
  "\<exists>moved. measure_add md5_last (ring_run md5_last [''a'', ''b''] 2 []) [''x'', ''bz''] ''c'' =
     Inr (add_node md5_last ''c'' (ring_run md5_last [''a'', ''b''] 2 []), moved, moved)"
proof -
  have nc: "no_collisions md5_last 2 (insert ''c'' (set [''a'', ''b''] \<union> op_node ` set []))"
    unfolding no_collisions_def by code_simp
  show ?thesis by (rule conjunct1 [OF ring_measurements [OF nc refl]])
qed

section \<open>Collisions and exact hits\<close>

text \<open>
  Two virtual nodes at the same position break the ring on removal: the position stays twice in
  \<^verbatim>\<open>_sorted_keys\<close> and once in \<^verbatim>\<open>_ring\<close>, removing the later node deletes the dict entry and only one
  of the two list entries, and the next \<^verbatim>\<open>get_node\<close> raises \<open>KeyError\<close> although a node is live.
\<close>

theorem ring_collision_keyerror:
  "let md5 = (\<lambda>_. [0, 0, 0, 0]); r = remove_node md5 ''b'' (ring_init md5 [''a'', ''b''] 1) in
   rg_nodes r = {''a''} \<and> get_node md5 r ''key'' = Inl KeyError"
  by code_simp

text \<open>
  The lookup is strict: a key that hashes exactly onto a virtual node belongs to the next one.
\<close>

lemma ring_exact_hit_skips:
  "let md5 = (\<lambda>bs. if last bs = 48 \<and> hd bs = 98 then [0, 0, 0, 2] else [0, 0, 0, 1]);
       r = ring_init md5 [''a'', ''b''] 1 in
   ring_hash md5 ''key'' = ring_hash md5 (vlabel ''a'' 0) \<and> get_node md5 r ''key'' = Inr (Some ''b'')"
  by code_simp

section \<open>Load distribution\<close>

lemma counter_sum:
  "sum_list (map snd (fold (\<lambda>x d. AList.update x (dict_get d x 0 + 1) d) xs d)) = sum_list (map snd d) + int (length xs)"
proof (induction xs arbitrary: d)
  case (Cons x xs)
  have "sum_list (map snd (AList.update x (dict_get d x 0 + 1) d)) = sum_list (map snd d) + 1"
    by (induction d) (auto simp: dict_get_def)
  with Cons show ?case by simp
qed simp

lemma distribution_total:
  "distribution md5 r keys = Inr c \<Longrightarrow> sum_list (map snd c) = int (length keys)"
  by (auto simp: distribution_def counter_def res_simps counter_sum dest: rmap_length)


section \<open>The main block\<close>

text \<open>\<^verbatim>\<open>dist[n]\<close> of a \<^verbatim>\<open>Counter\<close> is 0 for a missing key; without nodes or keys the shares divide by zero.\<close>

fun load_checks :: "(string option, int) dict \<Rightarrow> rat \<Rightarrow> string list \<Rightarrow> unit res" where
  "load_checks shares ideal [] = Inr ()"
| "load_checks shares ideal (n # ns) =
     rbind (py_assert (\<bar>of_int (dict_get shares (Some n) 0) - ideal\<bar> / ideal < 15/100)) (\<lambda>_. load_checks shares ideal ns)"

definition ring_main :: "(bytes \<Rightarrow> bytes) \<Rightarrow> string list \<Rightarrow> nat \<Rightarrow> string list \<Rightarrow> string \<Rightarrow> string \<Rightarrow> unit res" where
  "ring_main md5 nodes v keys new old =
     (let r = ring_init md5 nodes v in
      rbind (distribution md5 r keys) (\<lambda>shares.
      rbind (if nodes = [] \<or> keys = [] then Inl ZeroDivisionError else Inr ()) (\<lambda>_.
      rbind (load_checks shares (of_nat (length keys) / of_nat (length nodes)) nodes) (\<lambda>_.
      rbind (measure_add md5 r keys new) (\<lambda>(r, moved, moved_to_new).
      rbind (py_assert (100 * of_nat moved / of_nat (length keys) < (30 :: rat))) (\<lambda>_.
      rbind (py_assert (moved_to_new = moved)) (\<lambda>_.
      rbind (measure_remove md5 r keys old) (\<lambda>(r, moved, removed_owned, untouched).
      rbind (py_assert (moved = removed_owned)) (\<lambda>_.
      py_assert (untouched = length keys - removed_owned))))))))))"

definition demo_nodes :: "string list" where
  "demo_nodes = [''cache-a'', ''cache-b'', ''cache-c'', ''cache-d'']"

definition demo_keys :: "string list" where
  "demo_keys = map (\<lambda>i. ''user:'' @ str_nat i) [0..<50000]"

definition ring_demo :: "(bytes \<Rightarrow> bytes) \<Rightarrow> unit res" where
  "ring_demo md5 = ring_main md5 demo_nodes 200 demo_keys ''cache-e'' ''cache-c''"


lemma load_checks_iff:
  "load_checks shares ideal ns =
     (if \<forall>n \<in> set ns. \<bar>of_int (dict_get shares (Some n) 0) - ideal\<bar> / ideal < 15/100 then Inr () else Inl AssertionError)"
  by (induction ns) (auto simp: py_assert_def)

text \<open>
  Whatever the hash function, only its quality can fail the script: without collisions the remapping assertions hold, so the main
  block ends in an \<^verbatim>\<open>AssertionError\<close> only if some node's share is off by 15 percent or more, or 30 percent or more of the keys move.
\<close>

lemma ring_main_outcome:
  assumes nc: "no_collisions md5 v (insert old (insert new (set nodes)))" and ne: "nodes \<noteq> []" "keys \<noteq> []"
  shows "\<exists>shares moved r. distribution md5 (ring_init md5 nodes v) keys = Inr shares \<and>
    measure_add md5 (ring_init md5 nodes v) keys new = Inr (r, moved, moved) \<and>
    ring_main md5 nodes v keys new old =
      (if (\<forall>n \<in> set nodes. \<bar>of_int (dict_get shares (Some n) 0) - of_nat (length keys) / of_nat (length nodes)\<bar> /
             (of_nat (length keys) / of_nat (length nodes)) < (15/100 :: rat)) \<and> 100 * of_nat moved / of_nat (length keys) < (30 :: rat)
       then Inr () else Inl AssertionError)"
proof -
  let ?r = "ring_init md5 nodes v"
  have nc1: "no_collisions md5 v (insert new (set nodes \<union> op_node ` set []))"
    using nc unfolding no_collisions_def by (rule inj_on_subset) auto
  obtain moved where add: "measure_add md5 ?r keys new = Inr (add_node md5 new ?r, moved, moved)"
    using ring_measurements [OF nc1, of ?r] by auto
  have r1: "add_node md5 new ?r = ring_run md5 nodes v [AddNode new]" by simp
  have nc2: "no_collisions md5 v (insert old (set nodes \<union> op_node ` set [AddNode new]))"
    using nc by (simp add: insert_commute)
  obtain owned where rem: "measure_remove md5 (add_node md5 new ?r) keys old =
      Inr (remove_node md5 old (add_node md5 new ?r), owned, owned, length keys - owned)"
    using ring_measurements [OF nc2 r1] by auto
  obtain shares where shares: "distribution md5 ?r keys = Inr shares"
    using add by (auto simp: measure_add_def distribution_def res_simps)
  show ?thesis
  proof (intro exI conjI)
    show "distribution md5 ?r keys = Inr shares" by (rule shares)
    show "measure_add md5 ?r keys new = Inr (add_node md5 new ?r, moved, moved)" by (rule add)
  qed (use ne in \<open>auto simp: ring_main_def shares add rem load_checks_iff py_assert_def Let_def\<close>)
qed

end
