(* ===== verification/Rate_Limiter.thy ===== *)
theory Rate_Limiter
  imports Complex_Main Prelude
begin

text \<open>
  The limiters of \<^verbatim>\<open>operating_system/examples/rate_limiter.py\<close> (\<^verbatim>\<open>TokenBucket\<close>,
  \<^verbatim>\<open>SlidingWindowLog\<close>) and the \<^verbatim>\<open>TokenBucket\<close> of
  \<^verbatim>\<open>comp_networking/examples/token_bucket_ratelimiter.py\<close>.

  A Python float is a rational number and every float operation is the exact one followed by
  the rounding \<open>rnd\<close>, a parameter: the theorems say which of its properties they use. In
  \<^verbatim>\<open>rate_limiter.py\<close> each \<^verbatim>\<open>allow\<close> runs under one lock and reads the clock inside it, so what any number of threads do is
  a sequence of calls with nondecreasing times. The \<^verbatim>\<open>TokenBucket\<close> of \<^verbatim>\<open>token_bucket_ratelimiter.py\<close> has no lock and its script no
  threads: what is shown of it is about calls that do not overlap.
\<close>

section \<open>Token buckets\<close>

record bucket =
  tb_rate :: rat
  tb_capacity :: rat
  tb_tokens :: rat
  tb_last :: rat

definition bucket_init :: "rat \<Rightarrow> rat \<Rightarrow> rat \<Rightarrow> bucket" where
  "bucket_init rate capacity now = \<lparr>tb_rate = rate, tb_capacity = capacity, tb_tokens = capacity, tb_last = now\<rparr>"

text \<open>The bucket of \<^verbatim>\<open>rate_limiter.py\<close>: the refill always advances \<^verbatim>\<open>_last\<close>.\<close>

definition os_refill :: "(rat \<Rightarrow> rat) \<Rightarrow> rat \<Rightarrow> bucket \<Rightarrow> bucket" where
  "os_refill rnd now b =
     (let elapsed = rnd (now - tb_last b) in
      b\<lparr>tb_last := now, tb_tokens := min (tb_capacity b) (rnd (tb_tokens b + rnd (elapsed * tb_rate b)))\<rparr>)"

definition take_tokens :: "(rat \<Rightarrow> rat) \<Rightarrow> rat \<Rightarrow> bucket \<Rightarrow> bool \<times> bucket" where
  "take_tokens rnd cost b =
     (if tb_tokens b \<ge> cost then (True, b\<lparr>tb_tokens := rnd (tb_tokens b - cost)\<rparr>) else (False, b))"

definition os_allow :: "(rat \<Rightarrow> rat) \<Rightarrow> rat \<Rightarrow> rat \<Rightarrow> bucket \<Rightarrow> bool \<times> bucket" where
  "os_allow rnd now cost b = take_tokens rnd cost (os_refill rnd now b)"

text \<open>The bucket of \<^verbatim>\<open>token_bucket_ratelimiter.py\<close>, for one call at a time: nothing happens unless time has passed.\<close>

definition edge_init :: "rat \<Rightarrow> rat \<Rightarrow> rat \<Rightarrow> bucket" where
  "edge_init rate_per_sec capacity now =
     \<lparr>tb_rate = rate_per_sec, tb_capacity = capacity, tb_tokens = capacity, tb_last = now\<rparr>"

definition edge_refill :: "(rat \<Rightarrow> rat) \<Rightarrow> rat \<Rightarrow> bucket \<Rightarrow> bucket" where
  "edge_refill rnd now b =
     (let elapsed = rnd (now - tb_last b) in
      if elapsed > 0
      then b\<lparr>tb_tokens := min (tb_capacity b) (rnd (tb_tokens b + rnd (elapsed * tb_rate b))), tb_last := now\<rparr>
      else b)"

definition edge_allow :: "(rat \<Rightarrow> rat) \<Rightarrow> rat \<Rightarrow> rat \<Rightarrow> bucket \<Rightarrow> bool \<times> bucket" where
  "edge_allow rnd now cost b = take_tokens rnd cost (edge_refill rnd now b)"

section \<open>The sliding window log\<close>

record window_log =
  sw_limit :: int
  sw_window :: rat
  sw_events :: "rat list"

definition window_init :: "int \<Rightarrow> rat \<Rightarrow> window_log" where
  "window_init limit window = \<lparr>sw_limit = limit, sw_window = window, sw_events = []\<rparr>"

definition window_allow :: "(rat \<Rightarrow> rat) \<Rightarrow> rat \<Rightarrow> window_log \<Rightarrow> bool \<times> window_log" where
  "window_allow rnd now w =
     (let cutoff = rnd (now - sw_window w);
          events = dropWhile (\<lambda>e. e \<le> cutoff) (sw_events w) in
      if int (length events) < sw_limit w
      then (True, w\<lparr>sw_events := events @ [now]\<rparr>)
      else (False, w\<lparr>sw_events := events\<rparr>))"

section \<open>Sequences of calls\<close>

text \<open>A call is its clock reading and its cost; the run returns the decisions.\<close>

fun run_calls :: "(rat \<Rightarrow> 'c \<Rightarrow> 's \<Rightarrow> bool \<times> 's) \<Rightarrow> (rat \<times> 'c) list \<Rightarrow> 's \<Rightarrow> bool list \<times> 's" where
  "run_calls step [] s = ([], s)"
| "run_calls step ((now, cost) # cs) s =
     (let (g, s') = step now cost s; (gs, s'') = run_calls step cs s' in (g # gs, s''))"

text \<open>
  The scripts' demonstrations, on the clock readings \<open>ts\<close>, \<open>us\<close> that their calls see: every
  assert of \<^verbatim>\<open>demo_token_bucket\<close>, \<^verbatim>\<open>demo_sliding_window\<close> and \<^verbatim>\<open>demo_thread_safety\<close>.
\<close>

definition count_true :: "bool list \<Rightarrow> int" where
  "count_true gs = int (length (filter id gs))"

definition demo_token_bucket :: "(rat \<Rightarrow> rat) \<Rightarrow> rat \<Rightarrow> rat list \<Rightarrow> rat list \<Rightarrow> unit res" where
  "demo_token_bucket rnd t0 ts us =
     (let (gs, tb) = run_calls (os_allow rnd) (map (\<lambda>t. (t, 1)) ts) (bucket_init 10 10 t0) in
      rbind (py_assert (count_true gs = 10)) (\<lambda>_.
      let (hs, tb) = run_calls (os_allow rnd) (map (\<lambda>t. (t, 1)) us) tb in
      py_assert (3 \<le> count_true hs \<and> count_true hs \<le> 7)))"

definition demo_sliding_window :: "(rat \<Rightarrow> rat) \<Rightarrow> rat list \<Rightarrow> rat list \<Rightarrow> unit res" where
  "demo_sliding_window rnd ts us =
     (let (gs, sw) = run_calls (\<lambda>t u. window_allow rnd t) (map (\<lambda>t. (t, ())) ts) (window_init 5 (1 / 2)) in
      rbind (py_assert (count_true gs = 5)) (\<lambda>_.
      let (hs, sw) = run_calls (\<lambda>t u. window_allow rnd t) (map (\<lambda>t. (t, ())) us) sw in
      py_assert (count_true hs = 5)))"

definition demo_thread_safety :: "(rat \<Rightarrow> rat) \<Rightarrow> rat \<Rightarrow> rat list \<Rightarrow> unit res" where
  "demo_thread_safety rnd t0 ts =
     (let (gs, tb) = run_calls (os_allow rnd) (map (\<lambda>t. (t, 1)) ts) (bucket_init 0 100 t0) in
      py_assert (count_true gs = 100))"

text \<open>
  The two bursts of the main block of \<^verbatim>\<open>token_bucket_ratelimiter.py\<close>, on its virtual clock.
\<close>

definition demo_edge_bursts :: "(rat \<Rightarrow> rat) \<Rightarrow> unit res" where
  "demo_edge_bursts rnd =
     (let (gs, bkt) = run_calls (edge_allow rnd) (replicate 15 (1000, 1)) (edge_init 5 10 1000) in
      rbind (py_assert (count_true gs = 10)) (\<lambda>_.
      let (hs, bkt) = run_calls (edge_allow rnd) (replicate 15 (rnd (1000 + 1), 1)) bkt in
      py_assert (count_true hs = 5)))"

section \<open>A rate contract\<close>

text \<open>
  What the clients of a bucket rely on: the stock of tokens stays between 0 and the capacity,
  and what a call takes plus what it leaves is covered by what was there, the time passed times
  the rate, and a slack for rounding.
\<close>

definition spent :: "(rat \<times> rat) list \<Rightarrow> bool list \<Rightarrow> rat" where
  "spent cs gs = sum_list (map (\<lambda>((t, c), g). if g then c else 0) (zip cs gs))"

abbreviation calls_ok :: "rat \<Rightarrow> rat \<Rightarrow> (rat \<times> rat) list \<Rightarrow> bool" where
  "calls_ok lo hi cs \<equiv> sorted (lo # map fst cs) \<and> list_all (\<lambda>(t, c). t \<le> hi \<and> 0 \<le> c) cs"

locale rate_contract =
  fixes step :: "rat \<Rightarrow> rat \<Rightarrow> 's \<Rightarrow> bool \<times> 's"
    and inv :: "'s \<Rightarrow> bool"
    and stock :: "'s \<Rightarrow> rat"
    and last_time :: "'s \<Rightarrow> rat"
    and capacity :: rat
    and rate :: rat
    and slack :: rat
    and horizon :: rat
  assumes stock_bounds: "inv s \<Longrightarrow> 0 \<le> stock s \<and> stock s \<le> capacity"
    and step_inv: "inv s \<Longrightarrow> 0 \<le> c \<Longrightarrow> last_time s \<le> t \<Longrightarrow> t \<le> horizon \<Longrightarrow> step t c s = (g, s') \<Longrightarrow>
        inv s' \<and> last_time s' = t"
    and step_spend: "inv s \<Longrightarrow> 0 \<le> c \<Longrightarrow> last_time s \<le> t \<Longrightarrow> t \<le> horizon \<Longrightarrow> step t c s = (g, s') \<Longrightarrow>
        stock s' + (if g then c else 0) \<le> stock s + rate * (t - last_time s) + slack"
    and step_cap: "inv s \<Longrightarrow> 0 \<le> c \<Longrightarrow> last_time s \<le> t \<Longrightarrow> t \<le> horizon \<Longrightarrow> step t c s = (g, s') \<Longrightarrow>
        stock s' + (if g then c else 0) \<le> capacity + slack"
begin

lemma run_inv:
  "inv s \<Longrightarrow> calls_ok (last_time s) horizon cs \<Longrightarrow> run_calls step cs s = (gs, s') \<Longrightarrow>
   inv s' \<and> length gs = length cs \<and> last_time s' = last (last_time s # map fst cs)"
proof (induction cs arbitrary: s gs s')
  case (Cons x cs)
  obtain t c where x: "x = (t, c)" by (cases x)
  obtain g s1 where st: "step t c s = (g, s1)" by (cases "step t c s")
  obtain gs' s2 where run: "run_calls step cs s1 = (gs', s2)" by (cases "run_calls step cs s1")
  have pre: "0 \<le> c" "last_time s \<le> t" "t \<le> horizon" using Cons.prems(2) x by auto
  have s1: "inv s1" "last_time s1 = t" using step_inv [OF Cons.prems(1) pre st] by auto
  moreover have "calls_ok (last_time s1) horizon cs" using Cons.prems(2) x s1 by auto
  ultimately show ?case using Cons.IH [OF _ _ run] Cons.prems(3) x st run s1 by (auto simp: Let_def)
qed simp

lemma run_spend:
  "inv s \<Longrightarrow> calls_ok (last_time s) horizon cs \<Longrightarrow> run_calls step cs s = (gs, s') \<Longrightarrow>
   stock s' + spent cs gs \<le> stock s + rate * (last_time s' - last_time s) + of_nat (length cs) * slack"
proof (induction cs arbitrary: s gs s')
  case (Cons x cs)
  obtain t c where x: "x = (t, c)" by (cases x)
  obtain g s1 where st: "step t c s = (g, s1)" by (cases "step t c s")
  obtain gs' s2 where run: "run_calls step cs s1 = (gs', s2)" by (cases "run_calls step cs s1")
  have pre: "0 \<le> c" "last_time s \<le> t" "t \<le> horizon" using Cons.prems(2) x by auto
  have s1: "inv s1" "last_time s1 = t" using step_inv [OF Cons.prems(1) pre st] by auto
  have ok: "calls_ok (last_time s1) horizon cs" using Cons.prems(2) x s1 by auto
  have res: "gs = g # gs'" "s' = s2" using Cons.prems(3) x st run by (auto simp: Let_def)
  note step_spend [OF Cons.prems(1) pre st] Cons.IH [OF s1(1) ok run]
  then show ?case by (simp add: res x s1 spent_def algebra_simps)
qed (simp add: spent_def)

lemma window_bound:
  assumes "inv s" "calls_ok (last_time s) horizon ((t, c) # cs)" "run_calls step ((t, c) # cs) s = (gs, s')"
  shows "spent ((t, c) # cs) gs \<le>
    capacity + rate * (last (t # map fst cs) - t) + of_nat (Suc (length cs)) * slack"
proof -
  obtain g s1 where st: "step t c s = (g, s1)" by (cases "step t c s")
  obtain gs' s2 where run: "run_calls step cs s1 = (gs', s2)" by (cases "run_calls step cs s1")
  have pre: "0 \<le> c" "last_time s \<le> t" "t \<le> horizon" using assms(2) by auto
  have s1: "inv s1" "last_time s1 = t" using step_inv [OF assms(1) pre st] by auto
  have ok: "calls_ok (last_time s1) horizon cs" using assms(2) s1 by auto
  have res: "gs = g # gs'" "s' = s2" using assms(3) st run by (auto simp: Let_def)
  note step_cap [OF assms(1) pre st] run_spend [OF s1(1) ok run] run_inv [OF s1(1) ok run]
    stock_bounds [of s2] stock_bounds [OF s1(1)]
  then show ?thesis by (simp add: res s1 spent_def algebra_simps)
qed

end

section \<open>Rounding\<close>

text \<open>
  What is used of float rounding: it is monotone and idempotent, keeps 0 and does not turn a
  positive number into 0 (underflow is excluded; it matters only for the difference of two clock readings, which for
  doubles is 0 only where the readings are equal), and up to the magnitude \<open>B\<close> it exceeds the exact value by at most \<open>eps\<close>
  (for doubles \<open>eps\<close> is \<open>B * 2 ^ -53\<close>; exact arithmetic has \<open>eps = 0\<close>).
\<close>

definition rounding :: "(rat \<Rightarrow> rat) \<Rightarrow> rat \<Rightarrow> rat \<Rightarrow> bool" where
  "rounding rnd eps B \<longleftrightarrow> mono rnd \<and> rnd 0 = 0 \<and> (\<forall>x. rnd (rnd x) = rnd x) \<and> (\<forall>x>0. 0 < rnd x) \<and>
     0 \<le> eps \<and> (\<forall>x. 0 \<le> x \<and> x \<le> B \<longrightarrow> rnd x \<le> x + eps)"

lemma roundingD:
  assumes "rounding rnd eps B"
  shows "x \<le> y \<Longrightarrow> rnd x \<le> rnd y" "rnd 0 = 0" "rnd (rnd x) = rnd x" "0 < x \<Longrightarrow> 0 < rnd x" "0 \<le> eps"
    "0 \<le> x \<Longrightarrow> x \<le> B \<Longrightarrow> rnd x \<le> x + eps" "0 \<le> x \<Longrightarrow> 0 \<le> rnd x"
  using assms unfolding rounding_def mono_def by metis+

lemma rounding_id: "rounding (\<lambda>x. x) 0 B"
  by (simp add: rounding_def mono_def)

abbreviation roomy :: "rat \<Rightarrow> rat \<Rightarrow> rat \<Rightarrow> rat \<Rightarrow> rat \<Rightarrow> bool" where
  "roomy B cap rate width eps \<equiv> width \<le> B \<and> cap + (width + eps) * rate + eps \<le> B"

lemma refill_bounds:
  assumes "rounding rnd eps B" "roomy B cap rate width eps" "0 \<le> rate" "0 \<le> tok" "tok \<le> cap" "rnd cap = cap"
    and "0 \<le> d" "d \<le> width"
  defines "tok' \<equiv> min cap (rnd (tok + rnd (rnd d * rate)))"
  shows "0 \<le> tok' \<and> tok' \<le> cap \<and> rnd tok' = tok' \<and> tok' \<le> tok + rate * d + eps * (rate + 2)"
proof -
  note R = roundingD [OF assms(1)]
  have d: "rnd d \<le> d + eps" "0 \<le> rnd d" using R(6,7) assms(2,7,8) by auto
  have "rnd d * rate \<le> (d + eps) * rate" using d(1) assms(3) by (rule mult_right_mono)
  moreover have "(d + eps) * rate \<le> (width + eps) * rate" using assms(3,8) by (simp add: mult_right_mono)
  ultimately have e: "0 \<le> rnd d * rate" "rnd d * rate \<le> (d + eps) * rate" "(d + eps) * rate + eps + cap \<le> B"
    using d(2) assms(2,3) by auto
  then have p: "0 \<le> rnd (rnd d * rate)" "rnd (rnd d * rate) \<le> (d + eps) * rate + eps"
    using R(6) [of "rnd d * rate"] R(7) R(5) assms(4,5) by auto
  then have "0 \<le> rnd (tok + rnd (rnd d * rate))" "rnd (tok + rnd (rnd d * rate)) \<le> tok + rnd (rnd d * rate) + eps"
    using R(6) [of "tok + rnd (rnd d * rate)"] R(7) e assms(4,5) by auto
  with p e assms(4,5,6) R(3) show ?thesis by (simp add: tok'_def min_def algebra_simps)
qed

lemma take_tokens_bounds:
  assumes "rounding rnd eps B" "cap \<le> B" "0 \<le> tb_tokens b" "tb_tokens b \<le> cap" "rnd (tb_tokens b) = tb_tokens b" "0 \<le> c"
    and "take_tokens rnd c b = (g, b')"
  shows "0 \<le> tb_tokens b' \<and> tb_tokens b' \<le> cap \<and> rnd (tb_tokens b') = tb_tokens b' \<and>
    tb_tokens b' + (if g then c else 0) \<le> tb_tokens b + eps \<and>
    tb_last b' = tb_last b \<and> tb_rate b' = tb_rate b \<and> tb_capacity b' = tb_capacity b"
proof -
  note R = roundingD [OF assms(1)]
  have "rnd (tb_tokens b - c) \<le> tb_tokens b" using R(1) [of "tb_tokens b - c" "tb_tokens b"] assms(5,6) by simp
  with R(3,5) R(6,7) [of "tb_tokens b - c"] assms(2-7) show ?thesis
    by (auto simp: take_tokens_def split: if_splits)
qed

definition bucket_inv :: "(rat \<Rightarrow> rat) \<Rightarrow> rat \<Rightarrow> rat \<Rightarrow> rat \<Rightarrow> rat \<Rightarrow> rat \<Rightarrow> rat \<Rightarrow> bucket \<Rightarrow> bool" where
  "bucket_inv rnd eps B cap rate t0 t1 b \<longleftrightarrow> rounding rnd eps B \<and> roomy B cap rate (t1 - t0) eps \<and> 0 \<le> rate \<and>
     tb_rate b = rate \<and> tb_capacity b = cap \<and> rnd cap = cap \<and> t0 \<le> tb_last b \<and>
     0 \<le> tb_tokens b \<and> tb_tokens b \<le> cap \<and> rnd (tb_tokens b) = tb_tokens b"

lemma os_refill_inv:
  assumes "bucket_inv rnd eps B cap rate t0 t1 b" "tb_last b \<le> t" "t \<le> t1"
  shows "bucket_inv rnd eps B cap rate t0 t1 (os_refill rnd t b)" "tb_last (os_refill rnd t b) = t"
    "tb_tokens (os_refill rnd t b) \<le> tb_tokens b + rate * (t - tb_last b) + eps * (rate + 2)"
  using refill_bounds [where rnd = rnd and eps = eps and B = B and cap = cap and rate = rate and width = "t1 - t0"
      and tok = "tb_tokens b" and d = "t - tb_last b"] assms
  by (auto simp: bucket_inv_def os_refill_def Let_def)

lemma edge_refill_eq:
  "rounding rnd eps B \<Longrightarrow> rnd (tb_tokens b) = tb_tokens b \<Longrightarrow> tb_tokens b \<le> tb_capacity b \<Longrightarrow> tb_last b \<le> t \<Longrightarrow>
   edge_refill rnd t b = os_refill rnd t b"
  using roundingD(2) [of rnd eps B] roundingD(4) [of rnd eps B "t - tb_last b"]
  by (cases "tb_last b = t") (auto simp: edge_refill_def os_refill_def Let_def min_def)

lemma edge_allow_eq:
  "bucket_inv rnd eps B cap rate t0 t1 b \<Longrightarrow> tb_last b \<le> t \<Longrightarrow> edge_allow rnd t c b = os_allow rnd t c b"
  using edge_refill_eq [of rnd eps B b t] by (simp add: edge_allow_def os_allow_def bucket_inv_def)

lemma os_allow_laws:
  assumes "bucket_inv rnd eps B cap rate t0 t1 b" "0 \<le> c" "tb_last b \<le> t" "t \<le> t1" "os_allow rnd t c b = (g, b')"
  shows "bucket_inv rnd eps B cap rate t0 t1 b' \<and> tb_last b' = t"
    "tb_tokens b' + (if g then c else 0) \<le> tb_tokens b + rate * (t - tb_last b) + eps * (rate + 3)"
    "tb_tokens b' + (if g then c else 0) \<le> cap + eps * (rate + 3)"
proof -
  let ?r = "os_refill rnd t b"
  note r = os_refill_inv [OF assms(1,3,4)]
  have hyp: "rounding rnd eps B" "0 \<le> rate" "0 \<le> eps" "t0 \<le> t" "t1 - t0 \<ge> 0"
    using assms roundingD(5) [of rnd eps B] by (auto simp: bucket_inv_def)
  have "0 \<le> (t1 - t0 + eps) * rate" using hyp by simp
  then have "cap \<le> B" using assms(1) hyp(3) by (auto simp: bucket_inv_def)
  then have tk: "0 \<le> tb_tokens b' \<and> tb_tokens b' \<le> cap \<and> rnd (tb_tokens b') = tb_tokens b' \<and>
      tb_tokens b' + (if g then c else 0) \<le> tb_tokens ?r + eps \<and>
      tb_last b' = tb_last ?r \<and> tb_rate b' = tb_rate ?r \<and> tb_capacity b' = tb_capacity ?r"
    using r(1) assms(2,5) hyp(1) by (intro take_tokens_bounds) (auto simp: os_allow_def bucket_inv_def)
  then show "bucket_inv rnd eps B cap rate t0 t1 b' \<and> tb_last b' = t"
    using r hyp by (auto simp: bucket_inv_def)
  show "tb_tokens b' + (if g then c else 0) \<le> tb_tokens b + rate * (t - tb_last b) + eps * (rate + 3)"
    using tk r(3) by (simp add: algebra_simps)
  have "tb_tokens ?r \<le> cap" using r(1) by (simp add: bucket_inv_def)
  moreover have "0 \<le> eps * (rate + 2)" using hyp by simp
  ultimately show "tb_tokens b' + (if g then c else 0) \<le> cap + eps * (rate + 3)"
    using tk by (simp add: algebra_simps)
qed

interpretation osb: rate_contract "os_allow rnd" "bucket_inv rnd eps B cap rate t0 t1" tb_tokens tb_last
  cap rate "eps * (rate + 3)" t1 for rnd eps B cap rate t0 t1
  by unfold_locales (simp add: bucket_inv_def, (erule (4) os_allow_laws)+)

lemma edge_allow_laws:
  assumes "bucket_inv rnd eps B cap rate t0 t1 b" "0 \<le> c" "tb_last b \<le> t" "t \<le> t1" "edge_allow rnd t c b = (g, b')"
  shows "bucket_inv rnd eps B cap rate t0 t1 b' \<and> tb_last b' = t"
    "tb_tokens b' + (if g then c else 0) \<le> tb_tokens b + rate * (t - tb_last b) + eps * (rate + 3)"
    "tb_tokens b' + (if g then c else 0) \<le> cap + eps * (rate + 3)"
  using os_allow_laws [OF assms(1-4), of g b'] edge_allow_eq [OF assms(1,3), of c] assms(5) by auto

interpretation edgeb: rate_contract "edge_allow rnd" "bucket_inv rnd eps B cap rate t0 t1" tb_tokens tb_last
  cap rate "eps * (rate + 3)" t1 for rnd eps B cap rate t0 t1
  by unfold_locales (simp add: bucket_inv_def, (erule (4) edge_allow_laws)+)

section \<open>Token bucket theorems\<close>

lemma bucket_init_inv:
  "rounding rnd eps B \<Longrightarrow> roomy B cap rate (t1 - t0) eps \<Longrightarrow> 0 \<le> rate \<Longrightarrow> 0 \<le> cap \<Longrightarrow> rnd cap = cap \<Longrightarrow>
   bucket_inv rnd eps B cap rate t0 t1 (bucket_init rate cap t0)"
  by (simp add: bucket_inv_def bucket_init_def)

lemma calls_ok_split:
  assumes "calls_ok lo hi (xs @ (t, c) # ys)"
  shows "calls_ok lo hi xs" "calls_ok (last (lo # map fst xs)) hi ((t, c) # ys)"
proof -
  have "last (lo # map fst xs) \<in> insert lo (fst ` set xs)"
    using last_in_set [of "lo # map fst xs"] by simp
  then have "\<forall>u \<in> insert t (fst ` set ys). last (lo # map fst xs) \<le> u"
    using assms by (fastforce simp: sorted_append)
  then show "calls_ok lo hi xs" "calls_ok (last (lo # map fst xs)) hi ((t, c) # ys)"
    using assms by (auto simp: sorted_append)
qed

text \<open>
  C15. The burst-plus-rate bound, for both token buckets and for any rounding: in every run of
  calls of nonnegative cost and over every stretch of it, however the calls of the threads
  interleave, the tokens granted are at most the capacity plus the rate times the duration of the
  stretch (plus at most \<open>eps * (rate + 3)\<close> per call for rounding); the stock stays between 0 and the
  capacity.
\<close>

theorem bucket_rate_bound:
  assumes "step = os_allow rnd \<or> step = edge_allow rnd"
    and "rounding rnd eps B" "roomy B cap rate (t1 - t0) eps" "0 \<le> rate" "0 \<le> cap" "rnd cap = cap"
    and "calls_ok t0 t1 (pre @ (t, c) # cs)"
    and "run_calls step pre (bucket_init rate cap t0) = (gs0, b)" "run_calls step ((t, c) # cs) b = (gs, b')"
  shows "spent ((t, c) # cs) gs \<le>
      cap + rate * (last (t # map fst cs) - t) + of_nat (Suc (length cs)) * (eps * (rate + 3)) \<and>
    0 \<le> tb_tokens b' \<and> tb_tokens b' \<le> cap"
proof -
  note init = bucket_init_inv [OF assms(2-6)]
  have ok: "calls_ok (tb_last (bucket_init rate cap t0)) t1 pre"
    using calls_ok_split(1) [OF assms(7)] by (simp add: bucket_init_def)
  show ?thesis
    using assms(1)
  proof
    assume step: "step = os_allow rnd"
    note b = osb.run_inv [OF init ok assms(8) [unfolded step]]
    then have ok': "calls_ok (tb_last b) t1 ((t, c) # cs)"
      using calls_ok_split(2) [OF assms(7)] by (simp add: bucket_init_def)
    with b osb.window_bound [OF _ ok' assms(9) [unfolded step]] osb.run_inv [OF _ ok' assms(9) [unfolded step]]
    show ?thesis using osb.stock_bounds by blast
  next
    assume step: "step = edge_allow rnd"
    note b = edgeb.run_inv [OF init ok assms(8) [unfolded step]]
    then have ok': "calls_ok (tb_last b) t1 ((t, c) # cs)"
      using calls_ok_split(2) [OF assms(7)] by (simp add: bucket_init_def)
    with b edgeb.window_bound [OF _ ok' assms(9) [unfolded step]] edgeb.run_inv [OF _ ok' assms(9) [unfolded step]]
    show ?thesis using edgeb.stock_bounds by blast
  qed
qed

theorem bucket_rate_bound_witness:
  "let (gs, b') = run_calls (os_allow (\<lambda>x. x)) [(0, 1), (0, 1), (0, 1), (1, 1)] (bucket_init 1 2 0) in
   gs = [True, True, False, True] \<and> spent [(0, 1), (0, 1), (0, 1), (1, 1)] gs \<le> 2 + 1 * (1 - 0)"
proof -
  have run: "run_calls (os_allow (\<lambda>x. x)) [(0, 1), (0, 1), (0, 1), (1, 1)] (bucket_init 1 2 0) =
      ([True, True, False, True], \<lparr>tb_rate = 1, tb_capacity = 2, tb_tokens = 0, tb_last = 1\<rparr>)"
    by (simp add: os_allow_def os_refill_def take_tokens_def bucket_init_def Let_def)
  have "spent [(0, 1), (0, 1), (0, 1), (1, 1)] [True, True, False, True] \<le>
      2 + 1 * (last (0 # map fst [(0, 1), (0, 1), (1, 1 :: rat)]) - 0) +
      of_nat (Suc (length [(0, 1), (0, 1), (1 :: rat, 1 :: rat)])) * (0 * (1 + 3))"
    by (rule conjunct1 [OF bucket_rate_bound [OF disjI1 [OF refl] rounding_id [of 10] _ _ _ refl _ _ run,
          where pre = "[]" and ?t1.0 = 1 and ?t0.0 = 0]]) simp_all
  then show ?thesis unfolding run by simp
qed

text \<open>
  C24. The two token buckets of the repository are the same limiter: on a clock that never runs
  backwards they take the same decisions and reach the same state, call by call, although one
  of them only refills when time has passed.
\<close>

theorem buckets_agree:
  assumes "rounding rnd eps B" "roomy B cap rate (t1 - t0) eps" "0 \<le> rate" "0 \<le> cap" "rnd cap = cap"
    and "calls_ok t0 t1 cs"
  shows "run_calls (edge_allow rnd) cs (edge_init rate cap t0) = run_calls (os_allow rnd) cs (bucket_init rate cap t0)"
proof -
  have "run_calls (edge_allow rnd) cs b = run_calls (os_allow rnd) cs b"
    if "bucket_inv rnd eps B cap rate t0 t1 b" "calls_ok (tb_last b) t1 cs" for b
    using that
  proof (induction cs arbitrary: b)
    case (Cons x cs)
    obtain t c where x: "x = (t, c)" by (cases x)
    obtain g b1 where st: "os_allow rnd t c b = (g, b1)" by (cases "os_allow rnd t c b")
    have pre: "0 \<le> c" "tb_last b \<le> t" "t \<le> t1" using Cons.prems(2) x by auto
    note l = os_allow_laws(1) [OF Cons.prems(1) pre st]
    moreover have "calls_ok (tb_last b1) t1 cs" using Cons.prems(2) x l by auto
    ultimately show ?case
      using Cons.IH [of b1] edge_allow_eq [OF Cons.prems(1) pre(2), of c] by (simp add: x st)
  qed simp
  from this [OF bucket_init_inv [OF assms(1-5)]] assms(6) show ?thesis by (simp add: bucket_init_def edge_init_def)
qed

theorem buckets_agree_witness:
  "run_calls (edge_allow (\<lambda>x. x)) [(0, 1), (1 / 2, 3)] (edge_init 2 4 0) =
   run_calls (os_allow (\<lambda>x. x)) [(0, 1), (1 / 2, 3)] (bucket_init 2 4 0)"
  by (rule buckets_agree [OF rounding_id [of 10], where ?t1.0 = 1]) simp_all

section \<open>No double spending\<close>

lemma count_true_Cons [simp]: "count_true (g # gs) = (if g then 1 else 0) + count_true gs" "count_true [] = 0"
  by (simp_all add: count_true_def)

lemma run_without_refill:
  assumes "\<And>k. k \<le> n \<Longrightarrow> rnd (of_nat k) = of_nat k" "rnd 0 = 0" "k \<le> n"
  shows "count_true (fst (run_calls (os_allow rnd) (map (\<lambda>t. (t, 1)) ts)
     \<lparr>tb_rate = 0, tb_capacity = of_nat n, tb_tokens = of_nat k, tb_last = t0\<rparr>)) = int (min (length ts) k)"
  using assms(3)
proof (induction ts arbitrary: k t0)
  case (Cons t ts)
  let ?b = "\<lambda>k. \<lparr>tb_rate = 0, tb_capacity = of_nat n, tb_tokens = of_nat k, tb_last = t\<rparr> :: bucket"
  have refill: "os_refill rnd t \<lparr>tb_rate = 0, tb_capacity = of_nat n, tb_tokens = of_nat k, tb_last = t0\<rparr> = ?b k"
    using Cons.prems assms(1,2) by (simp add: os_refill_def Let_def min_def)
  show ?case
  proof (cases k)
    case 0
    have "os_allow rnd t 1 \<lparr>tb_rate = 0, tb_capacity = of_nat n, tb_tokens = of_nat k, tb_last = t0\<rparr> = (False, ?b 0)"
      using refill 0 by (simp add: os_allow_def take_tokens_def)
    with 0 Cons.IH [of 0 t] show ?thesis
      by (cases "run_calls (os_allow rnd) (map (\<lambda>t. (t, 1)) ts) (?b 0)") auto
  next
    case (Suc j)
    have "os_allow rnd t 1 \<lparr>tb_rate = 0, tb_capacity = of_nat n, tb_tokens = of_nat k, tb_last = t0\<rparr> = (True, ?b j)"
      using refill Suc Cons.prems assms(1) [of j] by (simp add: os_allow_def take_tokens_def)
    with Suc Cons.prems Cons.IH [of j t] show ?thesis by (auto simp: Let_def split: prod.splits)
  qed
qed simp

text \<open>
  The thread-safety demonstration holds for every schedule: with no refill and a capacity of
  100, any 100 or more attempts, at whatever clock readings the threads get, are granted exactly
  100 times. No token is spent twice.
\<close>

theorem thread_safety_every_schedule:
  assumes "\<And>k. k \<le> (100 :: nat) \<Longrightarrow> rnd (of_nat k) = of_nat k" "100 \<le> length ts"
  shows "demo_thread_safety rnd t0 ts = Inr ()"
proof -
  let ?run = "run_calls (os_allow rnd) (map (\<lambda>t. (t, 1)) ts) (bucket_init 0 100 t0)"
  have "count_true (fst ?run) = 100"
    using run_without_refill [of 100 rnd 100 ts t0] assms assms(1) [of 0] by (simp add: bucket_init_def min_def)
  then show ?thesis by (cases ?run) (simp add: demo_thread_safety_def py_assert_def)
qed

theorem thread_safety_every_schedule_witness:
  "demo_thread_safety (\<lambda>x. x) 0 (replicate 5000 7) = Inr ()"
  by (rule thread_safety_every_schedule) simp_all

section \<open>Sliding window theorems\<close>

text \<open>
  The reference: remember every granted time for ever and admit a call when fewer than \<open>limit\<close> of
  them lie in its window.
\<close>

abbreviation in_window :: "(rat \<Rightarrow> rat) \<Rightarrow> rat \<Rightarrow> rat \<Rightarrow> rat \<Rightarrow> bool" where
  "in_window rnd window x e \<equiv> rnd (x - window) < e \<and> e \<le> x"

fun window_ref :: "(rat \<Rightarrow> rat) \<Rightarrow> int \<Rightarrow> rat \<Rightarrow> rat list \<Rightarrow> rat list \<Rightarrow> bool list \<times> rat list" where
  "window_ref rnd limit window [] hist = ([], hist)"
| "window_ref rnd limit window (t # ts) hist =
     (let g = int (length (filter (in_window rnd window t) hist)) < limit;
          (gs, h) = window_ref rnd limit window ts (if g then hist @ [t] else hist) in (g # gs, h))"

lemma dropWhile_sorted: "sorted xs \<Longrightarrow> dropWhile (\<lambda>e. e \<le> c) xs = filter (\<lambda>e. c < e) (xs :: rat list)"
proof (induction xs)
  case (Cons x xs)
  then show ?case by (cases "x \<le> c") (auto intro!: filter_True [symmetric] dest: less_le_trans)
qed simp

lemma filter_above: "\<forall>e \<in> set h. e \<le> t \<Longrightarrow> filter (in_window rnd window t) h = filter (\<lambda>e. rnd (t - window) < e) h"
  by (auto intro: filter_cong)

lemma window_refines:
  assumes "mono rnd"
  shows "sorted ev \<Longrightarrow> (\<And>c. old \<le> c \<Longrightarrow> filter (\<lambda>e. c < e) ev = filter (\<lambda>e. c < e) hist) \<Longrightarrow>
    \<forall>e \<in> set hist \<union> set ev. e \<le> lo \<Longrightarrow> sorted (lo # ts) \<Longrightarrow> old \<le> rnd (lo - window) \<Longrightarrow>
    fst (run_calls (\<lambda>t u. window_allow rnd t) (map (\<lambda>t. (t, ())) ts)
           \<lparr>sw_limit = limit, sw_window = window, sw_events = ev\<rparr>) = fst (window_ref rnd limit window ts hist)"
proof (induction ts arbitrary: hist lo old ev)
  case (Cons t ts)
  let ?cut = "rnd (t - window)"
  have le: "old \<le> ?cut" using Cons.prems(4,5) monoD [OF assms, of "lo - window" "t - window"] by auto
  have hist: "\<forall>e \<in> set hist. e \<le> t" using Cons.prems(3,4) by (auto intro: order_trans)
  have ev: "dropWhile (\<lambda>e. e \<le> ?cut) ev = filter (\<lambda>e. ?cut < e) hist"
    using Cons.prems(2) [OF le] by (simp add: dropWhile_sorted [OF Cons.prems(1)])
  define g where "g \<longleftrightarrow> int (length (filter (\<lambda>e. ?cut < e) hist)) < limit"
  define ev' where "ev' = (if g then filter (\<lambda>e. ?cut < e) hist @ [t] else filter (\<lambda>e. ?cut < e) hist)"
  have step: "window_allow rnd t \<lparr>sw_limit = limit, sw_window = window, sw_events = ev\<rparr> =
      (g, \<lparr>sw_limit = limit, sw_window = window, sw_events = ev'\<rparr>)"
    by (simp add: window_allow_def Let_def ev g_def ev'_def)
  have g_ref: "int (length (filter (in_window rnd window t) hist)) < limit \<longleftrightarrow> g"
    using filter_above [OF hist] by (simp add: g_def)
  have "sorted (filter (\<lambda>e. ?cut < e) hist)"
    using Cons.prems(1) Cons.prems(2) [OF le] by (metis sorted_wrt_filter)
  then have "sorted ev'" using hist by (auto simp: ev'_def sorted_append)
  then have "fst (run_calls (\<lambda>t u. window_allow rnd t) (map (\<lambda>t. (t, ())) ts)
         \<lparr>sw_limit = limit, sw_window = window, sw_events = ev'\<rparr>) =
       fst (window_ref rnd limit window ts (if g then hist @ [t] else hist))"
    using Cons.prems(4) hist
    by (intro Cons.IH [of ev' ?cut _ t]) (auto simp: ev'_def intro!: filter_cong)
  then show ?case by (auto simp: step g_ref Let_def split: prod.splits)
qed simp

lemma window_ref_bound:
  assumes "mono rnd" "0 \<le> limit"
  shows "\<forall>e \<in> set hist. e \<le> lo \<Longrightarrow> sorted (lo # ts) \<Longrightarrow>
    (\<And>x. int (length (filter (in_window rnd window x) hist)) \<le> limit) \<Longrightarrow>
    int (length (filter (in_window rnd window x) (snd (window_ref rnd limit window ts hist)))) \<le> limit"
proof (induction ts arbitrary: hist lo)
  case (Cons t ts)
  define g where "g \<longleftrightarrow> int (length (filter (in_window rnd window t) hist)) < limit"
  let ?h = "if g then hist @ [t] else hist"
  have hist: "\<forall>e \<in> set hist. e \<le> t" using Cons.prems(1,2) by fastforce
  have "int (length (filter (in_window rnd window y) ?h)) \<le> limit" for y
  proof (cases "g \<and> t \<le> y")
    case True
    then have "rnd (t - window) \<le> rnd (y - window)" by (intro monoD [OF assms(1)]) simp
    then have "length (filter (in_window rnd window y) hist) \<le> length (filter (in_window rnd window t) hist)"
      using hist by (auto simp: length_filter_conv_card intro!: card_mono)
    with True show ?thesis by (simp add: g_def)
  next
    case False
    with Cons.prems(3) [of y] show ?thesis by auto
  qed
  moreover have "\<forall>e \<in> set ?h. e \<le> t" using hist by auto
  ultimately have "int (length (filter (in_window rnd window x) (snd (window_ref rnd limit window ts ?h)))) \<le> limit"
    using Cons.prems(2) by (intro Cons.IH [of ?h t]) auto
  then show ?case
    by (cases "window_ref rnd limit window ts ?h") (simp flip: g_def add: Let_def)
qed simp

lemma window_ref_hist:
  "window_ref rnd limit window ts hist = (gs, h) \<Longrightarrow>
   length gs = length ts \<and> h = hist @ map fst (filter snd (zip ts gs))"
  by (induction ts arbitrary: hist gs) (fastforce simp: Let_def split: prod.splits if_splits)+

text \<open>
  C23. The sliding window log keeps its promise for every clock that never runs backwards: at no
  moment \<open>x\<close>, call or not, have more than \<open>limit\<close> of the admitted calls fallen into the window
  that ends at \<open>x\<close>; and forgetting the evicted events changes no decision, a call is refused
  only if its own window already holds \<open>limit\<close> admitted calls.
\<close>

theorem window_limit:
  fixes rnd :: "rat \<Rightarrow> rat" and limit :: int and window x :: rat and ts :: "rat list"
  assumes "mono rnd" "0 \<le> limit" "sorted ts"
  defines "gs \<equiv> fst (run_calls (\<lambda>t u. window_allow rnd t) (map (\<lambda>t. (t, ())) ts) (window_init limit window))"
  shows "int (length (filter (in_window rnd window x) (map fst (filter snd (zip ts gs))))) \<le> limit \<and>
    gs = fst (window_ref rnd limit window ts [])"
proof (cases ts)
  case Nil
  with assms(2) show ?thesis by (simp add: gs_def)
next
  case (Cons t ts')
  have lo: "sorted (t # ts)" using assms(3) Cons by simp
  have ref: "gs = fst (window_ref rnd limit window ts [])"
    unfolding gs_def window_init_def
    by (rule window_refines [OF assms(1), where old = "rnd (t - window)" and lo = t]) (use lo in auto)
  have "int (length (filter (in_window rnd window x) (snd (window_ref rnd limit window ts [])))) \<le> limit"
    by (rule window_ref_bound [OF assms(1,2), where lo = t]) (use lo assms(2) in auto)
  with ref window_ref_hist [of rnd limit window ts "[]"] show ?thesis
    by (metis append_Nil prod.collapse)
qed

theorem window_limit_witness:
  "fst (run_calls (\<lambda>t u. window_allow (\<lambda>x. x) t) (map (\<lambda>t. (t, ())) [0, 0, 1, 2]) (window_init 1 1)) =
     [True, False, True, True] \<and>
   int (length (filter (in_window (\<lambda>x. x) 1 2) [0, 1, 2])) \<le> 1"
proof -
  have run: "fst (run_calls (\<lambda>t u. window_allow (\<lambda>x. x) t) (map (\<lambda>t. (t, ())) [0, 0, 1, 2]) (window_init 1 1)) =
      [True, False, True, True]"
    by (simp add: window_allow_def window_init_def Let_def)
  show ?thesis
    using window_limit [where rnd = "\<lambda>x. x" and limit = 1 and ts = "[0, 0, 1, 2]" and x = 2 and window = 1] run by (simp add: mono_def)
qed

lemma demo_token_bucket_passes: "demo_token_bucket (\<lambda>x. x) 0 (replicate 20 0) (replicate 20 (1 / 2)) = Inr ()"
  by code_simp

lemma demo_sliding_window_passes: "demo_sliding_window (\<lambda>x. x) (replicate 10 0) (replicate 10 (11 / 20)) = Inr ()"
  by code_simp

text \<open>
  The sustained-rate part of the main block: \<open>n\<close> attempts, each after \<^verbatim>\<open>t2 += 0.1\<close>; the numbers of attempts granted.
\<close>

fun sustained :: "(rat \<Rightarrow> rat) \<Rightarrow> nat \<Rightarrow> rat \<Rightarrow> bucket \<Rightarrow> nat" where
  "sustained rnd 0 t b = 0"
| "sustained rnd (Suc n) t b =
     (let t = rnd (t + rnd (1/10)); (ok, b) = edge_allow rnd t 1 b in (if ok then 1 else 0) + sustained rnd n t b)"

definition demo_edge_sustained :: "(rat \<Rightarrow> rat) \<Rightarrow> unit res" where
  "demo_edge_sustained rnd =
     (let passed = sustained rnd 100 2000 (edge_init 5 10 2000) in py_assert (50 \<le> passed \<and> passed \<le> 60))"

abbreviation level :: "rat \<Rightarrow> rat \<Rightarrow> bucket" where
  "level n t \<equiv> \<lparr>tb_rate = 5, tb_capacity = 10, tb_tokens = n, tb_last = t\<rparr>"

lemma sustained_step:
  "sustained (\<lambda>x. x) (Suc n) t (level k t) =
     (if 1 \<le> min 10 (k + 1/2) then 1 + sustained (\<lambda>x. x) n (t + 1/10) (level (min 10 (k + 1/2) - 1) (t + 1/10))
      else sustained (\<lambda>x. x) n (t + 1/10) (level (min 10 (k + 1/2)) (t + 1/10)))"
  by (simp add: edge_allow_def edge_refill_def take_tokens_def Let_def)

lemma sustained_drain: "k \<le> 19 \<Longrightarrow> \<exists>t'. sustained (\<lambda>x. x) (k + n) t (level (of_nat k / 2) t) = k + sustained (\<lambda>x. x) n t' (level 0 t')"
proof (induction k arbitrary: t)
  case 0
  show ?case by (intro exI [of _ t]) simp
next
  case (Suc k)
  have k: "of_nat k \<le> (18 :: rat)" using Suc.prems by simp
  have "min 10 (of_nat (Suc k) / 2 + 1 / 2) = (of_nat k / 2 + 1 :: rat)" using k by (simp add: add_divide_distrib)
  then have "sustained (\<lambda>x. x) (Suc (k + n)) t (level (of_nat (Suc k) / 2) t) =
      1 + sustained (\<lambda>x. x) (k + n) (t + 1/10) (level (of_nat k / 2) (t + 1/10))"
    unfolding sustained_step by simp
  then show ?case using Suc.IH [of "t + 1/10"] Suc.prems by auto
qed

lemma sustained_even: "\<exists>t'. sustained (\<lambda>x. x) (2 * k + n) t (level 0 t) = k + sustained (\<lambda>x. x) n t' (level 0 t')"
proof (induction k arbitrary: t)
  case 0
  show ?case by (intro exI [of _ t]) simp
next
  case (Suc k)
  have "2 * Suc k + n = Suc (Suc (2 * k + n))" by simp
  then have "sustained (\<lambda>x. x) (2 * Suc k + n) t (level 0 t) =
      1 + sustained (\<lambda>x. x) (2 * k + n) (t + 1/10 + 1/10) (level 0 (t + 1/10 + 1/10))"
    by (simp only: sustained_step) (simp del: sustained.simps)
  then show ?case using Suc.IH [of "t + 1/10 + 1/10"] by auto
qed

text \<open>59 attempts pass: the full bucket lasts for 19 attempts, then every second one is granted.\<close>

lemma demo_edge_sustained_passes: "demo_edge_sustained (\<lambda>x. x) = Inr ()"
proof -
  have "edge_init 5 10 2000 = level 10 2000" by (simp add: edge_init_def)
  moreover have "(100 :: nat) = Suc 99" by simp
  ultimately have "sustained (\<lambda>x. x) 100 2000 (edge_init 5 10 2000) = 1 + sustained (\<lambda>x. x) 99 (2000 + 1/10) (level 9 (2000 + 1/10))"
    by (simp only: sustained_step) simp
  moreover obtain t1 where "sustained (\<lambda>x. x) (18 + 81) (2000 + 1/10) (level (of_nat 18 / 2) (2000 + 1/10)) = 18 + sustained (\<lambda>x. x) 81 t1 (level 0 t1)"
    using sustained_drain [of 18 81] by auto
  moreover obtain t2 where "sustained (\<lambda>x. x) (2 * 40 + 1) t1 (level 0 t1) = 40 + sustained (\<lambda>x. x) 1 t2 (level 0 t2)"
    using sustained_even [of 40 1 t1] by auto
  moreover have "sustained (\<lambda>x. x) (Suc 0) t2 (level 0 t2) = 0" by (simp only: sustained_step) simp
  ultimately have "sustained (\<lambda>x. x) 100 2000 (edge_init 5 10 2000) = 59" by (simp del: sustained.simps)
  then show ?thesis by (simp add: demo_edge_sustained_def py_assert_def)
qed

lemma demo_edge_bursts_pass: "demo_edge_bursts (\<lambda>x. x) = Inr ()"
  by code_simp

end
