(* ===== verification/Request_Signing.thy ===== *)
theory Request_Signing
  imports Py_Bytes
begin

text \<open>
  The signing half of \<^verbatim>\<open>comp_networking/examples/token_bucket_ratelimiter.py\<close>:
  \<^verbatim>\<open>RequestSigner\<close> and \<^verbatim>\<open>SignatureVerifier\<close> with its nonce store. The hash functions and
  \<^verbatim>\<open>str.upper\<close> are parameters (\<open>prims\<close>), so the theorems hold for every choice of them.
  Texts are lists of code points; times are the integers the code truncates to.
\<close>

section \<open>Signing\<close>

record prims =
  upper :: "ustr \<Rightarrow> ustr"
  sha256_hex :: "bytes \<Rightarrow> ustr"
  hmac_hex :: "bytes \<Rightarrow> bytes \<Rightarrow> ustr"

definition canonical_text :: "prims \<Rightarrow> ustr \<Rightarrow> ustr \<Rightarrow> bytes \<Rightarrow> int \<Rightarrow> ustr \<Rightarrow> ustr" where
  "canonical_text pr method path body timestamp nonce =
     join_with [10] [upper pr method, path, ustr_of (py_str timestamp), nonce, sha256_hex pr body]"

definition canonical :: "prims \<Rightarrow> ustr \<Rightarrow> ustr \<Rightarrow> bytes \<Rightarrow> int \<Rightarrow> ustr \<Rightarrow> bytes res" where
  "canonical pr method path body timestamp nonce = utf8_encode (canonical_text pr method path body timestamp nonce)"

record headers =
  h_timestamp :: "int option"
  h_nonce :: "ustr option"
  h_signature :: "ustr option"

text \<open>\<open>rand\<close> is what \<^verbatim>\<open>secrets.token_hex(16)\<close> drew; it replaces an absent or empty nonce.\<close>

definition sign :: "prims \<Rightarrow> bytes \<Rightarrow> ustr \<Rightarrow> ustr \<Rightarrow> bytes \<Rightarrow> int \<Rightarrow> ustr option \<Rightarrow> ustr \<Rightarrow> headers res" where
  "sign pr secret method path body timestamp nonce rand =
     (let nonce = (case nonce of None \<Rightarrow> rand | Some n \<Rightarrow> if n = [] then rand else n) in
      rbind (canonical pr method path body timestamp nonce) (\<lambda>msg.
      Inr \<lparr>h_timestamp = Some timestamp, h_nonce = Some nonce, h_signature = Some (hmac_hex pr secret msg)\<rparr>))"

section \<open>Verifying\<close>

record verifier =
  vf_secret :: bytes
  max_skew :: int
  nonce_ttl :: int
  vf_seen :: "(ustr, int) dict"

definition verifier_init :: "bytes \<Rightarrow> int \<Rightarrow> int \<Rightarrow> verifier" where
  "verifier_init secret skew ttl = \<lparr>vf_secret = secret, max_skew = skew, nonce_ttl = ttl, vf_seen = []\<rparr>"

definition gc :: "int \<Rightarrow> verifier \<Rightarrow> verifier" where
  "gc now v =
     (let expired = map fst (filter (\<lambda>(n, exp). exp \<le> now) (vf_seen v)) in
      v\<lparr>vf_seen := fold AList.delete expired (vf_seen v)\<rparr>)"

definition header :: "'a option \<Rightarrow> 'a res" where
  "header h = (case h of None \<Rightarrow> Inl KeyError | Some x \<Rightarrow> Inr x)"

text \<open>\<^verbatim>\<open>hmac.compare_digest\<close> on two texts raises \<open>TypeError\<close> unless both are ASCII.\<close>

definition compare_digest :: "ustr \<Rightarrow> ustr \<Rightarrow> bool res" where
  "compare_digest a b = (if \<forall>c\<in>set (a @ b). c < 128 then Inr (a = b) else Inl TypeError)"

datatype reason = StaleTimestamp | BadSignature | ReplayedNonce | Ok

text \<open>
  The reads and checks that come before the nonce store: \<open>Inr (Inl r)\<close> is an early return with
  reason \<open>r\<close>, \<open>Inr (Inr nonce)\<close> falls through to the replay check.
\<close>

definition verify_signature ::
    "prims \<Rightarrow> verifier \<Rightarrow> ustr \<Rightarrow> ustr \<Rightarrow> bytes \<Rightarrow> headers \<Rightarrow> int \<Rightarrow> (reason + ustr) res" where
  "verify_signature pr v method path body hdrs now =
     rbind (header (h_timestamp hdrs)) (\<lambda>ts.
     rbind (header (h_nonce hdrs)) (\<lambda>nonce.
     rbind (header (h_signature hdrs)) (\<lambda>provided.
     if \<bar>now - ts\<bar> > max_skew v then Inr (Inl StaleTimestamp)
     else rbind (canonical pr method path body ts nonce) (\<lambda>msg.
       let expected = hmac_hex pr (vf_secret v) msg in
       rbind (compare_digest expected provided) (\<lambda>same.
       if \<not> same then Inr (Inl BadSignature) else Inr (Inr nonce))))))"

definition verify ::
    "prims \<Rightarrow> ustr \<Rightarrow> ustr \<Rightarrow> bytes \<Rightarrow> headers \<Rightarrow> int \<Rightarrow> verifier \<Rightarrow> (bool \<times> reason) res \<times> verifier" where
  "verify pr method path body hdrs now v =
     (case verify_signature pr v method path body hdrs now of
        Inl e \<Rightarrow> (Inl e, v)
      | Inr (Inl r) \<Rightarrow> (Inr (False, r), v)
      | Inr (Inr nonce) \<Rightarrow>
          let v = gc now v in
          if nonce \<in> set (dict_keys (vf_seen v)) then (Inr (False, ReplayedNonce), v)
          else (Inr (True, Ok), v\<lparr>vf_seen := AList.update nonce (now + nonce_ttl v) (vf_seen v)\<rparr>))"

text \<open>The six checks of the main block; \<open>secret\<close>, \<open>forged_secret\<close>, \<open>n1\<close>, \<open>n2\<close>, \<open>n3\<close> are drawn by \<^verbatim>\<open>secrets\<close>.\<close>

definition demo_signing :: "prims \<Rightarrow> bytes \<Rightarrow> bytes \<Rightarrow> ustr \<Rightarrow> ustr \<Rightarrow> ustr \<Rightarrow> bytes \<Rightarrow> bytes \<Rightarrow> unit res" where
  "demo_signing pr secret forged_secret n1 n2 n3 body body' =
     (let post = ustr_of ''POST''; path = ustr_of ''/v1/charge''; now = 5000000;
          v0 = verifier_init secret 30 300 in
      rbind (sign pr secret post path body now None n1) (\<lambda>hdrs.
      let (r1, v1) = verify pr post path body hdrs now v0 in
      rbind r1 (\<lambda>r1. rbind (py_assert (r1 = (True, Ok))) (\<lambda>_.
      let (r2, v2) = verify pr post path body' hdrs now v1 in
      rbind r2 (\<lambda>r2. rbind (py_assert (r2 = (False, BadSignature))) (\<lambda>_.
      let (r3, v3) = verify pr post path body hdrs now v2 in
      rbind r3 (\<lambda>r3. rbind (py_assert (r3 = (False, ReplayedNonce))) (\<lambda>_.
      rbind (sign pr secret post path body (now - 120) None n2) (\<lambda>old.
      let (r4, v4) = verify pr post path body old now v3 in
      rbind r4 (\<lambda>r4. rbind (py_assert (r4 = (False, StaleTimestamp))) (\<lambda>_.
      rbind (sign pr forged_secret post path body now None n3) (\<lambda>forged.
      let (r5, v5) = verify pr post path body forged now v4 in
      rbind r5 (\<lambda>r5. py_assert (r5 = (False, BadSignature)))))))))))))))"

section \<open>The nonce store\<close>

lemma fold_delete: "fold AList.delete ks d = filter (\<lambda>p. fst p \<notin> set ks) d"
  by (induction ks arbitrary: d) (auto simp: delete_eq_filter intro: filter_cong)

lemma gc_filter:
  assumes "dict_wf (vf_seen v)"
  shows "gc now v = v\<lparr>vf_seen := filter (\<lambda>(n, exp). now < exp) (vf_seen v)\<rparr>"
proof -
  have "fst p \<notin> fst ` {q \<in> set (vf_seen v). snd q \<le> now} \<longleftrightarrow> now < snd p" if p: "p \<in> set (vf_seen v)" for p
  proof
    assume "fst p \<notin> fst ` {q \<in> set (vf_seen v). snd q \<le> now}"
    with p show "now < snd p" by (metis (mono_tags, lifting) image_eqI mem_Collect_eq not_le)
  next
    assume lt: "now < snd p"
    show "fst p \<notin> fst ` {q \<in> set (vf_seen v). snd q \<le> now}"
    proof
      assume "fst p \<in> fst ` {q \<in> set (vf_seen v). snd q \<le> now}"
      then obtain q where "q \<in> set (vf_seen v)" "fst q = fst p" "snd q \<le> now" by force
      with eq_key_imp_eq_value [OF assms, of "fst p" "snd p" "snd q"] p lt show False
        by (metis not_le prod.collapse)
    qed
  qed
  then have "filter (\<lambda>p. fst p \<notin> fst ` {q \<in> set (vf_seen v). snd q \<le> now}) (vf_seen v) =
      filter (\<lambda>p. now < snd p) (vf_seen v)"
    by (intro filter_cong) auto
  then show ?thesis by (simp add: gc_def Let_def fold_delete case_prod_unfold)
qed

lemma gc_wf: "dict_wf (vf_seen v) \<Longrightarrow> dict_wf (vf_seen (gc now v))"
  by (simp add: gc_filter distinct_map_filter)

lemma verify_signature_cong:
  "vf_secret v = vf_secret w \<Longrightarrow> max_skew v = max_skew w \<Longrightarrow>
   verify_signature pr v method path body hdrs now = verify_signature pr w method path body hdrs now"
  by (simp add: verify_signature_def Let_def cong: if_cong)

text \<open>What an accepted request has proved, and the store after it.\<close>

lemma verify_signature_ok:
  "verify_signature pr v method path body hdrs now = Inr (Inr nonce) \<longleftrightarrow>
     (\<exists>ts sig msg. hdrs = \<lparr>h_timestamp = Some ts, h_nonce = Some nonce, h_signature = Some sig\<rparr> \<and>
       \<bar>now - ts\<bar> \<le> max_skew v \<and> canonical pr method path body ts nonce = Inr msg \<and>
       sig = hmac_hex pr (vf_secret v) msg \<and> (\<forall>c\<in>set sig. c < 128))"
  by (cases hdrs) (auto simp: verify_signature_def res_simps header_def compare_digest_def Let_def
      split: option.splits if_splits)

lemma verify_accept:
  assumes "dict_wf (vf_seen v)"
  shows "verify pr method path body hdrs now v = (Inr (True, r), v') \<longleftrightarrow>
    r = Ok \<and> (\<exists>nonce. verify_signature pr v method path body hdrs now = Inr (Inr nonce) \<and>
       (\<forall>exp. map_of (vf_seen v) nonce = Some exp \<longrightarrow> exp \<le> now) \<and>
       v' = v\<lparr>vf_seen := AList.update nonce (now + nonce_ttl v) (filter (\<lambda>(n, exp). now < exp) (vf_seen v))\<rparr>)"
proof -
  have "nonce \<in> fst ` set (filter (\<lambda>(n, exp). now < exp) (vf_seen v)) \<longleftrightarrow>
      (\<exists>exp. map_of (vf_seen v) nonce = Some exp \<and> now < exp)" for nonce
    using assms by (force simp: image_iff)
  then show ?thesis
    using assms by (auto simp: verify_def gc_filter Let_def not_less split: sum.splits if_splits)
qed

section \<open>Runs of the verifier\<close>

record request =
  rq_method :: ustr
  rq_path :: ustr
  rq_body :: bytes
  rq_headers :: headers

fun verify_run :: "prims \<Rightarrow> (int \<times> request) list \<Rightarrow> verifier \<Rightarrow> (bool \<times> reason) res list \<times> verifier" where
  "verify_run pr [] v = ([], v)"
| "verify_run pr ((now, q) # qs) v =
     (let (r, v') = verify pr (rq_method q) (rq_path q) (rq_body q) (rq_headers q) now v;
          (rs, v'') = verify_run pr qs v' in (r # rs, v''))"

abbreviation accepted :: "(bool \<times> reason) res \<Rightarrow> bool" where
  "accepted r \<equiv> r = Inr (True, Ok)"

lemma verify_fields:
  assumes "verify pr m p b h now v = (r, v')"
  shows "vf_secret v' = vf_secret v \<and> max_skew v' = max_skew v \<and> nonce_ttl v' = nonce_ttl v"
  using assms by (auto simp: verify_def gc_def Let_def split: sum.splits if_splits)

lemma verify_wf:
  assumes "verify pr m p b h now v = (r, v')" "dict_wf (vf_seen v)"
  shows "dict_wf (vf_seen v')"
  using assms gc_wf [OF assms(2), of now]
  by (auto simp: verify_def Let_def distinct_update split: sum.splits if_splits)

text \<open>A nonce stays in the store until its expiry.\<close>

lemma verify_keeps_unexpired:
  assumes "verify pr m p b h now v = (r, v')" "dict_wf (vf_seen v)" "map_of (vf_seen v) n = Some exp" "now < exp"
  shows "map_of (vf_seen v') n = Some exp"
proof -
  have keep: "map_of (vf_seen (gc now v)) n = Some exp"
    using assms(2-4) by (simp add: gc_filter distinct_map_filter)
  have nin: "n \<in> fst ` set (vf_seen (gc now v))" using keep by (metis map_of_eq_None_iff option.distinct(1))
  show ?thesis
    using assms(1,3) by (auto simp: verify_def Let_def update_conv' nin keep split: sum.splits if_splits)
qed

lemma accepted_nonce_blocked:
  assumes "verify_run pr qs v = (rs, v'')" "dict_wf (vf_seen v)" "map_of (vf_seen v) n = Some exp"
    and "sorted (map fst qs)" "j < length qs" "accepted (rs ! j)" "h_nonce (rq_headers (snd (qs ! j))) = Some n"
  shows "exp \<le> fst (qs ! j)"
  using assms
proof (induction qs arbitrary: v v'' rs j)
  case (Cons x qs)
  obtain now q where x: "x = (now, q)" by (cases x)
  obtain r v' where st: "verify pr (rq_method q) (rq_path q) (rq_body q) (rq_headers q) now v = (r, v')"
    by (cases "verify pr (rq_method q) (rq_path q) (rq_body q) (rq_headers q) now v")
  obtain rs' w where run: "verify_run pr qs v' = (rs', w)" by (cases "verify_run pr qs v'")
  have rs: "rs = r # rs'" using Cons.prems(1) x st run by simp
  show ?case
  proof (cases j)
    case 0
    then have "accepted r" "h_nonce (rq_headers q) = Some n" using Cons.prems(6,7) rs x by auto
    with st verify_accept [OF Cons.prems(2), of pr "rq_method q" "rq_path q" "rq_body q" "rq_headers q" now Ok v']
    show ?thesis using 0 x Cons.prems(3) by (auto simp: verify_signature_ok)
  next
    case (Suc k)
    show ?thesis
    proof (cases "now < exp")
      case True
      from verify_keeps_unexpired [OF st Cons.prems(2,3) True] verify_wf [OF st Cons.prems(2)]
      have "exp \<le> fst (qs ! k)"
        using Cons.prems(4-7) Suc rs x by (intro Cons.IH [OF run]) auto
      with Suc show ?thesis by simp
    next
      case False
      have "now \<le> fst (qs ! k)" using Cons.prems(4,5) Suc x by auto
      with False Suc show ?thesis by simp
    qed
  qed
qed simp

lemma verify_run_length: "verify_run pr qs v = (rs, v') \<Longrightarrow> length rs = length qs"
  by (induction qs arbitrary: v rs) (auto simp: Let_def split: prod.splits)

lemma verify_signature_not_replayed: "verify_signature pr v m p b h now \<noteq> Inr (Inl ReplayedNonce)"
  by (auto simp: verify_signature_def res_simps Let_def split: if_splits)

lemma accepted_facts:
  assumes "verify pr (rq_method q) (rq_path q) (rq_body q) (rq_headers q) now v = (Inr (True, Ok), v')" "dict_wf (vf_seen v)"
  shows "\<exists>n ts. h_nonce (rq_headers q) = Some n \<and> h_timestamp (rq_headers q) = Some ts \<and> \<bar>now - ts\<bar> \<le> max_skew v \<and>
    map_of (vf_seen v') n = Some (now + nonce_ttl v)"
  using assms(1) unfolding verify_accept [OF assms(2)] verify_signature_ok by (auto simp: update_conv')

lemma accepted_skew:
  assumes "verify_run pr qs v = (rs, v'')" "dict_wf (vf_seen v)" "j < length qs" "accepted (rs ! j)"
  shows "\<exists>ts. h_timestamp (rq_headers (snd (qs ! j))) = Some ts \<and> \<bar>fst (qs ! j) - ts\<bar> \<le> max_skew v"
  using assms
proof (induction qs arbitrary: v v'' rs j)
  case (Cons x qs)
  obtain now q where x: "x = (now, q)" by (cases x)
  obtain r v' where st: "verify pr (rq_method q) (rq_path q) (rq_body q) (rq_headers q) now v = (r, v')"
    by (cases "verify pr (rq_method q) (rq_path q) (rq_body q) (rq_headers q) now v")
  obtain rs' w where run: "verify_run pr qs v' = (rs', w)" by (cases "verify_run pr qs v'")
  have rs: "rs = r # rs'" using Cons.prems(1) x st run by simp
  show ?case
  proof (cases j)
    case 0
    with accepted_facts [of pr q now v v'] Cons.prems(2,4) rs st x show ?thesis by auto
  next
    case (Suc k)
    with Cons.IH [OF run verify_wf [OF st Cons.prems(2)], of k] Cons.prems rs verify_fields [OF st] show ?thesis by simp
  qed
qed simp

lemma accepted_twice:
  assumes "verify_run pr qs v = (rs, v'')" "dict_wf (vf_seen v)" "sorted (map fst qs)" "i < j" "j < length qs"
    and "accepted (rs ! i)" "accepted (rs ! j)"
    and "h_nonce (rq_headers (snd (qs ! i))) = h_nonce (rq_headers (snd (qs ! j)))"
  shows "\<exists>ts ts'. h_timestamp (rq_headers (snd (qs ! i))) = Some ts \<and> h_timestamp (rq_headers (snd (qs ! j))) = Some ts' \<and>
    \<bar>fst (qs ! i) - ts\<bar> \<le> max_skew v \<and> \<bar>fst (qs ! j) - ts'\<bar> \<le> max_skew v \<and>
    fst (qs ! i) + nonce_ttl v \<le> fst (qs ! j)"
  using assms
proof (induction qs arbitrary: v v'' rs i j)
  case (Cons x qs)
  obtain now q where x: "x = (now, q)" by (cases x)
  obtain r v' where st: "verify pr (rq_method q) (rq_path q) (rq_body q) (rq_headers q) now v = (r, v')"
    by (cases "verify pr (rq_method q) (rq_path q) (rq_body q) (rq_headers q) now v")
  obtain rs' w where run: "verify_run pr qs v' = (rs', w)" by (cases "verify_run pr qs v'")
  have rs: "rs = r # rs'" using Cons.prems(1) x st run by simp
  have wf: "dict_wf (vf_seen v')" by (rule verify_wf [OF st Cons.prems(2)])
  obtain k where k: "j = Suc k" using Cons.prems(4) by (cases j) auto
  have srt: "sorted (map fst qs)" using Cons.prems(3) by simp
  show ?case
  proof (cases i)
    case 0
    then have acc: "verify pr (rq_method q) (rq_path q) (rq_body q) (rq_headers q) now v = (Inr (True, Ok), v')"
      using Cons.prems(6) rs st by simp
    from accepted_facts [OF acc Cons.prems(2)] obtain n ts where n: "h_nonce (rq_headers q) = Some n"
      "h_timestamp (rq_headers q) = Some ts" "\<bar>now - ts\<bar> \<le> max_skew v" "map_of (vf_seen v') n = Some (now + nonce_ttl v)"
      by blast
    have j: "k < length qs" "accepted (rs' ! k)" "h_nonce (rq_headers (snd (qs ! k))) = Some n"
      using Cons.prems(5,7,8) k rs 0 x n(1) by auto
    from accepted_nonce_blocked [OF run wf n(4) srt j] have le: "now + nonce_ttl v \<le> fst (qs ! k)" .
    obtain ts' where "h_timestamp (rq_headers (snd (qs ! k))) = Some ts'" "\<bar>fst (qs ! k) - ts'\<bar> \<le> max_skew v'"
      using accepted_skew [OF run wf j(1,2)] by blast
    then show ?thesis using 0 k x n le verify_fields [OF st] by simp
  next
    case (Suc m)
    with Cons.IH [OF run wf srt, of m k] Cons.prems k rs verify_fields [OF st] show ?thesis by simp
  qed
qed simp

section \<open>Theorems\<close>

text \<open>
  C8. Replay protection: on a clock that never runs backwards, a nonce is accepted a second time
  only after its time to live is over; and if the time to live exceeds twice the allowed clock
  skew, as with the defaults, no two accepted requests of a run carry the same timestamp and
  nonce, so no captured request can be replayed.
\<close>

theorem no_replay:
  assumes "verify_run pr qs (verifier_init secret skew ttl) = (rs, v')" "sorted (map fst qs)"
    and "i < j" "j < length qs" "accepted (rs ! i)" "accepted (rs ! j)"
    and "h_nonce (rq_headers (snd (qs ! i))) = h_nonce (rq_headers (snd (qs ! j)))"
  shows "fst (qs ! i) + ttl \<le> fst (qs ! j) \<and>
    (2 * skew < ttl \<longrightarrow> h_timestamp (rq_headers (snd (qs ! i))) \<noteq> h_timestamp (rq_headers (snd (qs ! j))))"
  using accepted_twice [OF assms(1) _ assms(2-7)] by (auto simp: verifier_init_def)

definition toy_prims :: prims where
  "toy_prims = \<lparr>upper = (\<lambda>s. s), sha256_hex = (\<lambda>b. [97]), hmac_hex = (\<lambda>k m. map (\<lambda>b. unat b mod 128) m)\<rparr>"

definition toy_request :: "int \<Rightarrow> request" where
  "toy_request ts = \<lparr>rq_method = [71], rq_path = [47], rq_body = [],
     rq_headers = \<lparr>h_timestamp = Some ts, h_nonce = Some [110],
       h_signature = Some (canonical_text toy_prims [71] [47] [] ts [110])\<rparr>\<rparr>"

lemma toy_verify_signature:
  "verify_signature toy_prims v [71] [47] [] (rq_headers (toy_request ts)) now =
     (if \<bar>now - ts\<bar> > max_skew v then Inr (Inl StaleTimestamp) else Inr (Inr [110]))"
proof -
  let ?t = "canonical_text toy_prims [71] [47] [] ts [110]"
  have ascii: "\<forall>c \<in> set ?t. c < 128"
    using ustr_of_py_str [of _ ts] by (auto simp: canonical_text_def toy_prims_def)
  then have "map (\<lambda>b. unat b mod 128) (map (of_nat :: nat \<Rightarrow> byte) ?t) = ?t"
    by (auto simp: unat_of_nat o_def intro!: map_idI)
  then have hm: "hmac_hex toy_prims k (map of_nat ?t) = ?t" for k by (simp add: toy_prims_def)
  have can: "canonical toy_prims [71] [47] [] ts [110] = Inr (map of_nat ?t)"
    unfolding canonical_def by (rule utf8_ascii [OF ascii])
  have cmp: "compare_digest ?t ?t = Inr True" unfolding compare_digest_def using ascii by auto
  have h: "rq_headers (toy_request ts) = \<lparr>h_timestamp = Some ts, h_nonce = Some [110], h_signature = Some ?t\<rparr>"
    by (simp add: toy_request_def)
  show ?thesis
    unfolding verify_signature_def h headers.simps header_def option.case rbind.simps can Let_def hm cmp by simp
qed

lemma toy_verify:
  "verify toy_prims (rq_method (toy_request ts)) (rq_path (toy_request ts)) (rq_body (toy_request ts))
     (rq_headers (toy_request ts)) now v =
   (if \<bar>now - ts\<bar> > max_skew v then (Inr (False, StaleTimestamp), v)
    else let v = gc now v in
      if [110] \<in> set (dict_keys (vf_seen v)) then (Inr (False, ReplayedNonce), v)
      else (Inr (True, Ok), v\<lparr>vf_seen := AList.update [110] (now + nonce_ttl v) (vf_seen v)\<rparr>))"
proof -
  have f: "rq_method (toy_request ts) = [71]" "rq_path (toy_request ts) = [47]" "rq_body (toy_request ts) = []"
    by (simp_all add: toy_request_def)
  show ?thesis unfolding f verify_def toy_verify_signature by simp
qed

lemmas toy_run_simps = toy_verify verifier_init_def gc_def Let_def

theorem no_replay_witness:
  "let (rs, v) = verify_run toy_prims [(100, toy_request 100), (101, toy_request 100), (110, toy_request 110)]
                   (verifier_init [1] 2 5) in
   rs = [Inr (True, Ok), Inr (False, ReplayedNonce), Inr (True, Ok)] \<and> (100 :: int) + 5 \<le> 110 \<and>
   h_timestamp (rq_headers (toy_request 100)) \<noteq> h_timestamp (rq_headers (toy_request 110))"
proof -
  let ?qs = "[(100, toy_request 100), (101, toy_request 100), (110, toy_request 110)]"
  have rs: "fst (verify_run toy_prims ?qs (verifier_init [1] 2 5)) = [Inr (True, Ok), Inr (False, ReplayedNonce), Inr (True, Ok)]"
    by (simp add: toy_run_simps)
  obtain rs v where run: "verify_run toy_prims ?qs (verifier_init [1] 2 5) = (rs, v)"
    by (cases "verify_run toy_prims ?qs (verifier_init [1] 2 5)")
  with rs have r: "rs = [Inr (True, Ok), Inr (False, ReplayedNonce), Inr (True, Ok)]" by simp
  have n: "h_nonce (rq_headers (toy_request 100)) = h_nonce (rq_headers (toy_request 110))" by (simp add: toy_request_def)
  from no_replay [OF run, of 0 2] r n run show ?thesis by simp
qed

text \<open>
  If the time to live does not exceed the skew window, the same signed request is accepted
  again as soon as its nonce has expired: with skew 30 and time to live 20 a request accepted at
  its own timestamp is accepted once more 20 seconds later.
\<close>

theorem short_ttl_allows_replay:
  "fst (verify_run toy_prims [(100, toy_request 100), (120, toy_request 100)] (verifier_init [1] 30 20)) =
   [Inr (True, Ok), Inr (True, Ok)]"
  by (simp add: toy_run_simps)

text \<open>
  C25. Only a valid, fresh request touches the nonce store: \<^verbatim>\<open>verify\<close> accepts exactly when the
  timestamp is within the skew, the signature is the HMAC of the canonical request under the
  verifier's secret, and the nonce is not in the store with a later expiry; a stale or badly signed
  request, or one that raises, leaves the store unchanged.
\<close>

theorem verify_characterised:
  assumes "dict_wf (vf_seen v)" "verify pr method path body hdrs now v = (res, v')"
  shows "(accepted res \<longleftrightarrow>
      (\<exists>ts nonce sig msg. hdrs = \<lparr>h_timestamp = Some ts, h_nonce = Some nonce, h_signature = Some sig\<rparr> \<and>
        \<bar>now - ts\<bar> \<le> max_skew v \<and> canonical pr method path body ts nonce = Inr msg \<and>
        sig = hmac_hex pr (vf_secret v) msg \<and> (\<forall>c\<in>set sig. c < 128) \<and>
        (\<forall>exp. map_of (vf_seen v) nonce = Some exp \<longrightarrow> exp \<le> now))) \<and>
    (res \<in> {Inr (False, StaleTimestamp), Inr (False, BadSignature)} \<union> range Inl \<longrightarrow> v' = v) \<and>
    (res = Inr (False, ReplayedNonce) \<longrightarrow> (\<exists>exp nonce. h_nonce hdrs = Some nonce \<and> map_of (vf_seen v) nonce = Some exp \<and> now < exp))"
proof (intro conjI)
  show "accepted res \<longleftrightarrow> (\<exists>ts nonce sig msg. hdrs = \<lparr>h_timestamp = Some ts, h_nonce = Some nonce, h_signature = Some sig\<rparr> \<and>
        \<bar>now - ts\<bar> \<le> max_skew v \<and> canonical pr method path body ts nonce = Inr msg \<and>
        sig = hmac_hex pr (vf_secret v) msg \<and> (\<forall>c\<in>set sig. c < 128) \<and>
        (\<forall>exp. map_of (vf_seen v) nonce = Some exp \<longrightarrow> exp \<le> now))"
  proof
    assume "accepted res"
    with assms(2) have "verify pr method path body hdrs now v = (Inr (True, Ok), v')" by simp
    then show "\<exists>ts nonce sig msg. hdrs = \<lparr>h_timestamp = Some ts, h_nonce = Some nonce, h_signature = Some sig\<rparr> \<and>
        \<bar>now - ts\<bar> \<le> max_skew v \<and> canonical pr method path body ts nonce = Inr msg \<and>
        sig = hmac_hex pr (vf_secret v) msg \<and> (\<forall>c\<in>set sig. c < 128) \<and>
        (\<forall>exp. map_of (vf_seen v) nonce = Some exp \<longrightarrow> exp \<le> now)"
      unfolding verify_accept [OF assms(1)] verify_signature_ok by blast
  next
    assume "\<exists>ts nonce sig msg. hdrs = \<lparr>h_timestamp = Some ts, h_nonce = Some nonce, h_signature = Some sig\<rparr> \<and>
        \<bar>now - ts\<bar> \<le> max_skew v \<and> canonical pr method path body ts nonce = Inr msg \<and>
        sig = hmac_hex pr (vf_secret v) msg \<and> (\<forall>c\<in>set sig. c < 128) \<and>
        (\<forall>exp. map_of (vf_seen v) nonce = Some exp \<longrightarrow> exp \<le> now)"
    then obtain nonce where "verify_signature pr v method path body hdrs now = Inr (Inr nonce)"
      "\<forall>exp. map_of (vf_seen v) nonce = Some exp \<longrightarrow> exp \<le> now"
      unfolding verify_signature_ok by blast
    with verify_accept [OF assms(1), of pr "method" path body hdrs now Ok] assms(2) show "accepted res" by auto
  qed
  show "res \<in> {Inr (False, StaleTimestamp), Inr (False, BadSignature)} \<union> range Inl \<longrightarrow> v' = v"
    using assms(2) by (auto simp: verify_def Let_def split: sum.splits if_splits)
  show "res = Inr (False, ReplayedNonce) \<longrightarrow> (\<exists>exp nonce. h_nonce hdrs = Some nonce \<and> map_of (vf_seen v) nonce = Some exp \<and> now < exp)"
  proof
    assume "res = Inr (False, ReplayedNonce)"
    with assms obtain nonce where n: "verify_signature pr v method path body hdrs now = Inr (Inr nonce)"
      "nonce \<in> fst ` set (vf_seen (gc now v))"
      by (auto simp: verify_def Let_def verify_signature_not_replayed split: sum.splits if_splits)
    then have "h_nonce hdrs = Some nonce" by (auto simp: verify_signature_ok)
    moreover from n(2) have "\<exists>exp. map_of (vf_seen v) nonce = Some exp \<and> now < exp"
      using assms(1) by (force simp: gc_filter)
    ultimately show "\<exists>exp nonce. h_nonce hdrs = Some nonce \<and> map_of (vf_seen v) nonce = Some exp \<and> now < exp" by blast
  qed
qed

theorem verify_characterised_witness:
  "(\<exists>ts nonce sig msg. rq_headers (toy_request 100) = \<lparr>h_timestamp = Some ts, h_nonce = Some nonce, h_signature = Some sig\<rparr> \<and>
      \<bar>100 - ts\<bar> \<le> 30 \<and> canonical toy_prims [71] [47] [] ts nonce = Inr msg \<and> sig = hmac_hex toy_prims [1] msg) \<and>
   snd (verify toy_prims [71] [47] [] (rq_headers (toy_request 100)) 200 (verifier_init [1] 30 300)) = verifier_init [1] 30 300"
proof -
  let ?v = "verifier_init [1] 30 300"
  have v: "dict_wf (vf_seen ?v)" "max_skew ?v = 30" "vf_secret ?v = [1]" by (simp_all add: verifier_init_def)
  obtain v' where "verify toy_prims [71] [47] [] (rq_headers (toy_request 100)) 100 ?v = (Inr (True, Ok), v')"
    unfolding verify_def toy_verify_signature by (simp add: verifier_init_def gc_def Let_def)
  from verify_characterised [OF v(1) this] v
  have "\<exists>ts nonce sig msg. rq_headers (toy_request 100) = \<lparr>h_timestamp = Some ts, h_nonce = Some nonce, h_signature = Some sig\<rparr> \<and>
      \<bar>100 - ts\<bar> \<le> 30 \<and> canonical toy_prims [71] [47] [] ts nonce = Inr msg \<and> sig = hmac_hex toy_prims [1] msg"
    by (simp only: simp_thms) blast
  moreover obtain r v'' where stale: "verify toy_prims [71] [47] [] (rq_headers (toy_request 100)) 200 ?v = (r, v'')"
      "r = Inr (False, StaleTimestamp)"
    unfolding verify_def toy_verify_signature by (simp add: verifier_init_def)
  moreover from verify_characterised [OF v(1) stale(1)] stale(2) have "v'' = ?v" by simp
  ultimately show ?thesis by simp
qed

lemma signed_verify_signature:
  assumes "sign pr secret m p b ts nonce rand = Inr h" "\<And>k msg. \<forall>c \<in> set (hmac_hex pr k msg). c < 128"
    and "\<bar>now - ts\<bar> \<le> max_skew v" "h_nonce h = Some n"
    and "canonical pr m p b ts n = Inr msg" "canonical pr m' p' b' ts n = Inr msg'"
  shows "verify_signature pr v m' p' b' h now =
      (if hmac_hex pr (vf_secret v) msg' = hmac_hex pr secret msg then Inr (Inr n) else Inr (Inl BadSignature))"
proof -
  from assms(1,4,5) have h: "h = \<lparr>h_timestamp = Some ts, h_nonce = Some n, h_signature = Some (hmac_hex pr secret msg)\<rparr>"
    by (auto simp: sign_def Let_def res_simps)
  have "compare_digest (hmac_hex pr (vf_secret v) msg') (hmac_hex pr secret msg) =
      Inr (hmac_hex pr (vf_secret v) msg' = hmac_hex pr secret msg)"
    using assms(2) unfolding compare_digest_def by auto
  with assms(3,6) show ?thesis by (simp add: verify_signature_def h header_def Let_def)
qed

text \<open>
  The script's five verdicts, for any hash functions that tell the messages it compares apart.
\<close>

lemma demo_signing_passes:
  assumes hex: "\<And>k msg. \<forall>c \<in> set (hmac_hex pr k msg). c < 128"
    and m1: "canonical pr (ustr_of ''POST'') (ustr_of ''/v1/charge'') body 5000000 n1 = Inr m1"
    and m1': "canonical pr (ustr_of ''POST'') (ustr_of ''/v1/charge'') body' 5000000 n1 = Inr m1'"
    and m2: "canonical pr (ustr_of ''POST'') (ustr_of ''/v1/charge'') body (5000000 - 120) n2 = Inr m2"
    and m3: "canonical pr (ustr_of ''POST'') (ustr_of ''/v1/charge'') body 5000000 n3 = Inr m3"
    and tamper: "hmac_hex pr secret m1' \<noteq> hmac_hex pr secret m1"
    and forge: "hmac_hex pr secret m3 \<noteq> hmac_hex pr forged_secret m3"
  shows "demo_signing pr secret forged_secret n1 n2 n3 body body' = Inr ()"
proof -
  let ?m = "ustr_of ''POST''" and ?p = "ustr_of ''/v1/charge''"
  let ?h1 = "\<lparr>h_timestamp = Some 5000000, h_nonce = Some n1, h_signature = Some (hmac_hex pr secret m1)\<rparr>"
  let ?h2 = "\<lparr>h_timestamp = Some (5000000 - 120), h_nonce = Some n2, h_signature = Some (hmac_hex pr secret m2)\<rparr>"
  let ?h3 = "\<lparr>h_timestamp = Some 5000000, h_nonce = Some n3, h_signature = Some (hmac_hex pr forged_secret m3)\<rparr>"
  let ?v0 = "verifier_init secret 30 300"
  let ?v1 = "?v0\<lparr>vf_seen := [(n1, 5000300)]\<rparr>"
  have s1: "sign pr secret ?m ?p body 5000000 None n1 = Inr ?h1" using m1 by (simp add: sign_def Let_def)
  have s2: "sign pr secret ?m ?p body (5000000 - 120) None n2 = Inr ?h2" using m2 by (simp add: sign_def Let_def)
  have s3: "sign pr forged_secret ?m ?p body 5000000 None n3 = Inr ?h3" using m3 by (simp add: sign_def Let_def)
  have sec: "vf_secret ?v0 = secret" "max_skew ?v0 = 30" "vf_secret ?v1 = secret" "max_skew ?v1 = 30"
    by (simp_all add: verifier_init_def)
  note sig = signed_verify_signature [OF s1 hex _ _ m1 m1, where now = 5000000 and v = ?v0]
    signed_verify_signature [OF s1 hex _ _ m1 m1', where now = 5000000 and v = ?v1]
    signed_verify_signature [OF s1 hex _ _ m1 m1, where now = 5000000 and v = ?v1]
    signed_verify_signature [OF s3 hex _ _ m3 m3, where now = 5000000 and v = ?v1]
  have v1: "verify pr ?m ?p body ?h1 5000000 ?v0 = (Inr (True, Ok), ?v1)"
    using sig(1) sec by (simp add: verify_def Let_def) (simp add: verifier_init_def gc_def)
  have v2: "verify pr ?m ?p body' ?h1 5000000 ?v1 = (Inr (False, BadSignature), ?v1)"
    using sig(2) sec tamper by (simp add: verify_def)
  have v3: "verify pr ?m ?p body ?h1 5000000 ?v1 = (Inr (False, ReplayedNonce), ?v1)"
    using sig(3) sec by (simp add: verify_def Let_def gc_def)
  have v4: "verify pr ?m ?p body ?h2 5000000 ?v1 = (Inr (False, StaleTimestamp), ?v1)"
    using sec by (simp add: verify_def verify_signature_def header_def)
  have v5: "verify pr ?m ?p body ?h3 5000000 ?v1 = (Inr (False, BadSignature), ?v1)"
    using sig(4) sec forge by (simp add: verify_def)
  show ?thesis
    unfolding demo_signing_def Let_def s1 s2 s3 rbind.simps prod.case v1 v2 v3 v4 v5 py_assert_def by simp
qed

text \<open>
  Signing and verifying fit together: a request signed with one secret and presented within the
  skew with an unused nonce is accepted exactly when the HMAC of the canonical form of what is presented, under
  the verifier's secret, is the HMAC that was signed; in particular the untampered request under the
  same secret is accepted, and a tampered body or another secret whose HMAC differs is refused as
  badly signed.
\<close>

theorem sign_verify:
  assumes "sign pr secret m p b ts nonce rand = Inr h" "\<And>k msg. \<forall>c \<in> set (hmac_hex pr k msg). c < 128"
    and "\<bar>now - ts\<bar> \<le> max_skew v" "h_nonce h = Some n" "n \<notin> set (dict_keys (vf_seen (gc now v)))"
    and "canonical pr m p b ts n = Inr msg" "canonical pr m' p' b' ts n = Inr msg'"
  shows "fst (verify pr m' p' b' h now v) =
    (if hmac_hex pr (vf_secret v) msg' = hmac_hex pr secret msg then Inr (True, Ok) else Inr (False, BadSignature))"
  using signed_verify_signature [OF assms(1,2,3,4,6,7)] assms(5) by (simp add: verify_def Let_def)

theorem sign_verify_witness:
  "\<exists>h. sign toy_prims [1] [71] [47] [] 100 (Some [110]) [] = Inr h \<and>
     fst (verify toy_prims [71] [47] [] h 100 (verifier_init [1] 30 300)) = Inr (True, Ok)"
proof -
  let ?t = "canonical_text toy_prims [71] [47] [] 100 [110]"
  have ascii: "\<forall>c \<in> set ?t. c < 128"
    using ustr_of_py_str [of _ 100] by (auto simp: canonical_text_def toy_prims_def)
  have can: "canonical toy_prims [71] [47] [] 100 [110] = Inr (map of_nat ?t)"
    unfolding canonical_def by (rule utf8_ascii [OF ascii])
  let ?h = "\<lparr>h_timestamp = Some 100, h_nonce = Some [110], h_signature = Some (hmac_hex toy_prims [1] (map of_nat ?t))\<rparr>"
  have sg: "sign toy_prims [1] [71] [47] [] 100 (Some [110]) [] = Inr ?h"
    by (simp add: sign_def can Let_def)
  have hx: "\<And>k msg. \<forall>c \<in> set (hmac_hex toy_prims k msg). c < 128" by (auto simp: toy_prims_def)
  have "fst (verify toy_prims [71] [47] [] ?h 100 (verifier_init [1] 30 300)) = Inr (True, Ok)"
    using sign_verify [OF sg hx _ _ _ can can, of 100 "verifier_init [1] 30 300"]
    by (simp add: verifier_init_def gc_def)
  with sg show ?thesis by blast
qed

text \<open>
  The canonical form identifies the request as long as no line break occurs in method, path
  or nonce: two requests with the same canonical bytes then agree in the upper-cased method, the
  path, the timestamp, the nonce and the digest of the body.
\<close>

theorem canonical_injective:
  assumes "canonical pr m p b ts n = Inr msg" "canonical pr m' p' b' ts' n' = Inr msg"
    and "10 \<notin> set (upper pr m) \<union> set p \<union> set n \<union> set (sha256_hex pr b)"
    and "10 \<notin> set (upper pr m') \<union> set p' \<union> set n' \<union> set (sha256_hex pr b')"
  shows "upper pr m = upper pr m' \<and> p = p' \<and> ts = ts' \<and> n = n' \<and> sha256_hex pr b = sha256_hex pr b'"
proof -
  let ?f = "[upper pr m, p, ustr_of (py_str ts), n, sha256_hex pr b]"
  let ?f' = "[upper pr m', p', ustr_of (py_str ts'), n', sha256_hex pr b']"
  have "canonical_text pr m p b ts n = canonical_text pr m' p' b' ts' n'"
    using assms(1,2) unfolding canonical_def by (rule utf8_encode_inj)
  then have "split_on 10 (join_with [10] ?f) = split_on 10 (join_with [10] ?f')" by (simp add: canonical_text_def)
  moreover have "split_on 10 (join_with [10] ?f) = ?f"
    using assms(3) ustr_of_py_str [of 10 ts] by (intro split_on_join) auto
  moreover have "split_on 10 (join_with [10] ?f') = ?f'"
    using assms(4) ustr_of_py_str [of 10 ts'] by (intro split_on_join) auto
  ultimately have "?f = ?f'" by (simp only:)
  then show ?thesis using ustr_of_inj py_str_inj by blast
qed

theorem canonical_injective_witness:
  "\<exists>msg. canonical toy_prims [71] [47] [] 7 [110] = Inr msg \<and>
    upper toy_prims [71] = [71] \<and> (canonical toy_prims [71] [47] [] 8 [110] = Inr msg \<longrightarrow> (7 :: int) = 8)"
proof -
  have can: "canonical toy_prims [71] [47] [] ts [110] = Inr (map of_nat (canonical_text toy_prims [71] [47] [] ts [110]))" for ts
    unfolding canonical_def
    by (rule utf8_ascii) (use ustr_of_py_str [of _ ts] in \<open>auto simp: canonical_text_def toy_prims_def\<close>)
  have nl: "10 \<notin> set (upper toy_prims [71]) \<union> set [47] \<union> set [110] \<union> set (sha256_hex toy_prims [])"
    by (simp add: toy_prims_def)
  show ?thesis
    using can [of 7] canonical_injective [OF can [of 7] _ nl nl, of 8] by (auto simp: toy_prims_def)
qed

text \<open>
  With line breaks the serialization is ambiguous, for every choice of the hash functions: the
  request for path \<^verbatim>\<open>p\<close> with timestamp 1 and nonce \<^verbatim>\<open>2\nx\<close> has the same canonical bytes, hence the same
  signature, as the one for path \<^verbatim>\<open>p\n1\<close> with timestamp 2 and nonce \<^verbatim>\<open>x\<close>.
\<close>

theorem canonical_ambiguous:
  "canonical pr m [112] b 1 [50, 10, 120] = canonical pr m [112, 10, 49] b 2 [120]"
proof -
  have "ustr_of (py_str 1) = [49]" "ustr_of (py_str 2) = [50]" by code_simp+
  then show ?thesis by (simp add: canonical_def canonical_text_def)
qed

text \<open>
  \<^verbatim>\<open>verify\<close> does not always return a verdict: a fresh request whose signature header holds a
  non-ASCII character makes \<^verbatim>\<open>hmac.compare_digest\<close> raise \<open>TypeError\<close>, whatever the rest of the request
  is (as long as it can be encoded).
\<close>

theorem non_ascii_signature_raises:
  assumes "canonical pr m p b ts n = Inr msg" "\<bar>now - ts\<bar> \<le> max_skew v" "c \<in> set sig" "128 \<le> c"
  shows "verify pr m p b \<lparr>h_timestamp = Some ts, h_nonce = Some n, h_signature = Some sig\<rparr> now v = (Inl TypeError, v)"
proof -
  have "compare_digest x sig = Inl TypeError" for x
    unfolding compare_digest_def by (rule if_not_P) (use assms(3,4) in \<open>auto simp: not_less intro!: bexI [of _ c]\<close>)
  with assms(1,2) show ?thesis by (simp add: verify_def verify_signature_def header_def Let_def)
qed

theorem non_ascii_signature_raises_witness:
  "verify toy_prims [71] [47] [] \<lparr>h_timestamp = Some 5, h_nonce = Some [110], h_signature = Some [233]\<rparr> 5 (verifier_init [1] 30 300) =
   (Inl TypeError, verifier_init [1] 30 300)"
proof -
  have can: "canonical toy_prims [71] [47] [] 5 [110] = Inr (map of_nat (canonical_text toy_prims [71] [47] [] 5 [110]))"
    unfolding canonical_def
    by (rule utf8_ascii) (use ustr_of_py_str [of _ 5] in \<open>auto simp: canonical_text_def toy_prims_def\<close>)
  show ?thesis by (rule non_ascii_signature_raises [OF can, of 5 _ 233]) (simp_all add: verifier_init_def)
qed

end
