(* ===== verification/Circuit_Breaker.thy ===== *)
theory Circuit_Breaker
  imports Complex_Main Prelude
begin

text \<open>
  \<^verbatim>\<open>operating_system/examples/circuit_breaker.py\<close>. Admission, \<^verbatim>\<open>_on_success\<close> and \<^verbatim>\<open>_on_failure\<close>
  are the three critical sections; the downstream call runs outside the lock. A sequential
  \<^verbatim>\<open>call\<close> composes them; concurrent callers are a step relation that interleaves the sections of
  any number of calls in flight. Clock readings are rationals, \<open>rnd\<close> is float rounding.
\<close>

section \<open>The breaker\<close>

datatype cb_state = CLOSED | OPEN | HALF_OPEN

record breaker =
  fail_threshold :: int
  cooldown :: rat
  success_threshold :: int
  cb_state :: cb_state
  cb_failures :: int
  cb_successes :: int
  opened_at :: rat
  rejected_calls :: int

definition cb_init :: "int \<Rightarrow> rat \<Rightarrow> int \<Rightarrow> breaker" where
  "cb_init ft cd st = \<lparr>fail_threshold = ft, cooldown = cd, success_threshold = st, cb_state = CLOSED,
     cb_failures = 0, cb_successes = 0, opened_at = 0, rejected_calls = 0\<rparr>"

text \<open>The admission check: \<open>False\<close> stands for raising \<^verbatim>\<open>CircuitOpenError\<close>.\<close>

definition admit :: "(rat \<Rightarrow> rat) \<Rightarrow> rat \<Rightarrow> breaker \<Rightarrow> bool \<times> breaker" where
  "admit rnd now b =
     (if cb_state b = OPEN then
        if rnd (now - opened_at b) \<ge> cooldown b then (True, b\<lparr>cb_state := HALF_OPEN, cb_successes := 0\<rparr>)
        else (False, b\<lparr>rejected_calls := rejected_calls b + 1\<rparr>)
      else (True, b))"

definition on_success :: "breaker \<Rightarrow> breaker" where
  "on_success b =
     (if cb_state b = HALF_OPEN then
        let b = b\<lparr>cb_successes := cb_successes b + 1\<rparr> in
        if cb_successes b \<ge> success_threshold b then b\<lparr>cb_state := CLOSED, cb_failures := 0\<rparr> else b
      else b\<lparr>cb_failures := 0\<rparr>)"

definition on_failure :: "rat \<Rightarrow> breaker \<Rightarrow> breaker" where
  "on_failure now b =
     (if cb_state b = HALF_OPEN then b\<lparr>cb_state := OPEN, opened_at := now\<rparr>
      else
        let b = b\<lparr>cb_failures := cb_failures b + 1\<rparr> in
        if cb_failures b \<ge> fail_threshold b then b\<lparr>cb_state := OPEN, opened_at := now\<rparr> else b)"

datatype ('e, 'a) outcome = CircuitOpenError | Raised 'e | Returned 'a

text \<open>
  One thread's \<^verbatim>\<open>call\<close>: \<open>now\<close> is the clock at admission, \<open>now'\<close> the clock in \<^verbatim>\<open>_on_failure\<close>; \<open>func\<close>
  runs on the state \<open>d\<close> of the dependency.
\<close>

definition cb_call :: "(rat \<Rightarrow> rat) \<Rightarrow> rat \<Rightarrow> rat \<Rightarrow> ('d \<Rightarrow> 'e + 'a) \<Rightarrow> 'd \<Rightarrow> breaker \<Rightarrow> ('e, 'a) outcome \<times> breaker" where
  "cb_call rnd now now' func d b =
     (let (ok, b) = admit rnd now b in
      if \<not> ok then (CircuitOpenError, b)
      else case func d of
        Inl e \<Rightarrow> (Raised e, on_failure now' b)
      | Inr x \<Rightarrow> (Returned x, on_success b))"

section \<open>The script\<close>

record flaky = healthy :: bool

definition flaky_init :: flaky where "flaky_init = \<lparr>healthy = False\<rparr>"

definition flaky_call :: "flaky \<Rightarrow> string res" where
  "flaky_call d = (if \<not> healthy d then Inl RuntimeError else Inr ''ok'')"

fun phase1 :: "(rat \<Rightarrow> rat) \<Rightarrow> (rat \<times> rat) list \<Rightarrow> flaky \<Rightarrow> int \<Rightarrow> int \<Rightarrow> breaker \<Rightarrow> int \<times> int \<times> breaker" where
  "phase1 rnd [] dep failures rejections b = (failures, rejections, b)"
| "phase1 rnd ((t, t') # ts) dep failures rejections b =
     (case cb_call rnd t t' flaky_call dep b of
        (CircuitOpenError, b) \<Rightarrow> phase1 rnd ts dep failures (rejections + 1) b
      | (Raised _, b) \<Rightarrow> phase1 rnd ts dep (failures + 1) rejections b
      | (Returned _, b) \<Rightarrow> phase1 rnd ts dep failures rejections b)"

text \<open>A call outside a \<^verbatim>\<open>try\<close>: what it raises leaves the caller.\<close>

fun uncaught :: "(py_error, 'a) outcome \<Rightarrow> 'a res" where
  "uncaught CircuitOpenError = Inl CircuitOpen"
| "uncaught (Raised e) = Inl e"
| "uncaught (Returned x) = Inr x"

definition main_call :: "(rat \<Rightarrow> rat) \<Rightarrow> rat \<times> rat \<Rightarrow> flaky \<Rightarrow> breaker \<Rightarrow> (string \<times> breaker) res" where
  "main_call rnd u dep b =
     (let (r, b) = cb_call rnd (fst u) (snd u) flaky_call dep b in rbind (uncaught r) (\<lambda>x. Inr (x, b)))"

text \<open>\<open>ts\<close>: the clock readings of the eight calls of phase 1; \<open>us\<close>: those of the five calls of phase 3.\<close>

fun phase3 :: "(rat \<Rightarrow> rat) \<Rightarrow> (rat \<times> rat) list \<Rightarrow> flaky \<Rightarrow> breaker \<Rightarrow> breaker res" where
  "phase3 rnd [] dep b = Inr b"
| "phase3 rnd (u # us) dep b =
     rbind (main_call rnd u dep b) (\<lambda>(x, b).
     rbind (py_assert (x = ''ok'')) (\<lambda>_. phase3 rnd us dep b))"

definition cb_main :: "(rat \<Rightarrow> rat) \<Rightarrow> (rat \<times> rat) list \<Rightarrow> rat \<times> rat \<Rightarrow> rat \<times> rat \<Rightarrow> (rat \<times> rat) list \<Rightarrow> unit res" where
  "cb_main rnd ts u1 u2 us =
     (let dep = flaky_init; (failures, rejections, b) = phase1 rnd ts dep 0 0 (cb_init 3 (1 / 2) 2) in
      rbind (py_assert (cb_state b = OPEN)) (\<lambda>_.
      rbind (py_assert (failures = 3)) (\<lambda>_.
      rbind (py_assert (rejections = 5)) (\<lambda>_.
      let dep = dep\<lparr>healthy := True\<rparr> in
      rbind (main_call rnd u1 dep b) (\<lambda>(_, b).
      rbind (py_assert (cb_state b = HALF_OPEN)) (\<lambda>_.
      rbind (main_call rnd u2 dep b) (\<lambda>(_, b).
      rbind (py_assert (cb_state b = CLOSED)) (\<lambda>_.
      rbind (phase3 rnd us dep b) (\<lambda>b. py_assert (cb_state b = CLOSED))))))))))"

section \<open>Concurrent callers\<close>

text \<open>
  The state of all threads together: the breaker, how many admitted calls are still in flight,
  and the clock. An event is one critical section.
\<close>

datatype cb_event = Attempt rat bool | Succeeded | Failed rat

type_synonym cb_world = "breaker \<times> nat \<times> rat"

inductive cb_step :: "(rat \<Rightarrow> rat) \<Rightarrow> cb_world \<Rightarrow> cb_event \<Rightarrow> cb_world \<Rightarrow> bool" for rnd where
  attempt: "clock \<le> t \<Longrightarrow> admit rnd t b = (ok, b') \<Longrightarrow>
     cb_step rnd (b, n, clock) (Attempt t ok) (b', if ok then Suc n else n, t)"
| succeed: "cb_step rnd (b, Suc n, clock) Succeeded (on_success b, n, clock)"
| fail: "clock \<le> t \<Longrightarrow> cb_step rnd (b, Suc n, clock) (Failed t) (on_failure t b, n, t)"

inductive cb_run :: "(rat \<Rightarrow> rat) \<Rightarrow> cb_world \<Rightarrow> cb_event list \<Rightarrow> cb_world \<Rightarrow> bool" for rnd where
  nil: "cb_run rnd w [] w"
| snoc: "cb_run rnd w es w' \<Longrightarrow> cb_step rnd w' e w'' \<Longrightarrow> cb_run rnd w (es @ [e]) w''"

inductive_cases cb_stepE: "cb_step rnd w e w'"

section \<open>Invariant\<close>

definition cb_ok :: "int \<Rightarrow> rat \<Rightarrow> int \<Rightarrow> cb_world \<Rightarrow> bool" where
  "cb_ok ft cd st w \<longleftrightarrow> (case w of (b, n, clock) \<Rightarrow>
     fail_threshold b = ft \<and> cooldown b = cd \<and> success_threshold b = st \<and> 0 \<le> cb_failures b \<and>
     (cb_state b = CLOSED \<longrightarrow> cb_failures b < ft) \<and>
     (cb_state b = HALF_OPEN \<longrightarrow> 0 \<le> cb_successes b \<and> cb_successes b < st) \<and>
     (cb_state b = OPEN \<longrightarrow> opened_at b \<le> clock))"

lemma cb_step_ok:
  assumes "cb_step rnd w e w'" "0 < ft" "0 < st" "cb_ok ft cd st w"
  shows "cb_ok ft cd st w'"
  using assms
  by (auto elim!: cb_stepE simp: cb_ok_def admit_def on_success_def on_failure_def Let_def split: if_splits)

lemma cb_init_ok: "0 < ft \<Longrightarrow> cb_ok ft cd st (cb_init ft cd st, 0, t0)"
  by (simp add: cb_ok_def cb_init_def)

lemma cb_run_ok:
  "cb_run rnd w es w' \<Longrightarrow> 0 < ft \<Longrightarrow> 0 < st \<Longrightarrow> cb_ok ft cd st w \<Longrightarrow> cb_ok ft cd st w'"
  by (induction rule: cb_run.induct) (auto intro: cb_step_ok)

text \<open>While open and cooling down the breaker lets nothing through and stays open.\<close>

abbreviation event_time :: "cb_event \<Rightarrow> rat \<Rightarrow> rat" where
  "event_time e d \<equiv> (case e of Attempt t _ \<Rightarrow> t | Succeeded \<Rightarrow> d | Failed t \<Rightarrow> t)"

lemma open_step:
  assumes "cb_step rnd (b, n, clock) e (b', n', clock')" "cb_state b = OPEN" "mono rnd" "t1 \<le> opened_at b" "opened_at b \<le> clock"
    and "rnd (clock' - t1) < cooldown b"
  shows "cb_state b' = OPEN \<and> t1 \<le> opened_at b' \<and> opened_at b' \<le> clock' \<and> cooldown b' = cooldown b \<and> (\<forall>t. e \<noteq> Attempt t True) \<and>
    rejected_calls b' = rejected_calls b + (case e of Attempt t ok \<Rightarrow> 1 | _ \<Rightarrow> 0)"
proof -
  have "rnd (clock' - opened_at b) < cooldown b"
    using monoD [OF assms(3), of "clock' - opened_at b" "clock' - t1"] assms(4,6) by simp
  with assms show ?thesis
    by (auto elim!: cb_stepE simp: admit_def on_success_def on_failure_def Let_def split: if_splits)
qed

lemma cb_run_clock: "cb_run rnd w es w' \<Longrightarrow> snd (snd w) \<le> snd (snd w')"
  by (induction rule: cb_run.induct) (auto elim!: cb_stepE)

definition rejections :: "cb_event list \<Rightarrow> int" where
  "rejections es = int (length (filter (\<lambda>e. case e of Attempt t ok \<Rightarrow> True | _ \<Rightarrow> False) es))"

lemma open_run:
  assumes "cb_run rnd w es w'" "mono rnd"
  shows "w = (b, n, clock) \<Longrightarrow> w' = (b', n', clock') \<Longrightarrow> cb_state b = OPEN \<Longrightarrow> opened_at b \<le> clock \<Longrightarrow>
    rnd (clock' - opened_at b) < cooldown b \<Longrightarrow>
    cb_state b' = OPEN \<and> opened_at b \<le> opened_at b' \<and> opened_at b' \<le> clock' \<and> cooldown b' = cooldown b \<and>
    (\<forall>t. Attempt t True \<notin> set es) \<and> rejected_calls b' = rejected_calls b + rejections es"
  using assms(1)
proof (induction arbitrary: b' n' clock' rule: cb_run.induct)
  case (snoc w es w1 e w2)
  obtain b1 n1 c1 where w1: "w1 = (b1, n1, c1)" by (cases w1)
  have le: "c1 \<le> clock'" using snoc.hyps(2) snoc.prems w1 by (auto elim!: cb_stepE)
  have "rnd (c1 - opened_at b) < cooldown b"
    using monoD [OF assms(2), of "c1 - opened_at b" "clock' - opened_at b"] le snoc.prems by simp
  with snoc.IH [of b1 n1 c1] snoc.prems w1 have ih: "cb_state b1 = OPEN" "opened_at b \<le> opened_at b1" "opened_at b1 \<le> c1"
    "cooldown b1 = cooldown b" "\<forall>t. Attempt t True \<notin> set es" "rejected_calls b1 = rejected_calls b + rejections es" by auto
  from open_step [of rnd b1 n1 c1 e b' n' clock' "opened_at b"] snoc.hyps(2) snoc.prems w1 ih assms(2)
  show ?case by (auto simp: rejections_def split: cb_event.splits)
qed (simp add: rejections_def)

text \<open>
  C26. Fail fast under concurrency: in any interleaving of any number of callers, once the breaker is
  open, every call attempted before the cooldown has passed is refused and counted, none reaches the
  dependency, and the breaker stays open (a late failure of a call admitted earlier can only move
  the opening time forward).
\<close>

theorem cb_fail_fast:
  assumes "0 < ft" "0 < st" "mono rnd"
    and "cb_run rnd (cb_init ft cd st, 0, t0) es (b, n, clock)" "cb_state b = OPEN"
    and "cb_run rnd (b, n, clock) es' (b', n', clock')" "rnd (clock' - opened_at b) < cd"
  shows "(\<forall>t. Attempt t True \<notin> set es') \<and> rejected_calls b' = rejected_calls b + rejections es' \<and>
    cb_state b' = OPEN \<and> opened_at b \<le> opened_at b'"
proof -
  have "cb_ok ft cd st (b, n, clock)"
    using cb_run_ok [OF assms(4,1,2) cb_init_ok [OF assms(1)]] .
  then have "opened_at b \<le> clock" "cooldown b = cd" using assms(5) by (auto simp: cb_ok_def)
  with open_run [OF assms(6,3) refl refl assms(5)] assms(7) show ?thesis by simp
qed

theorem cb_fail_fast_witness:
  "\<exists>b. cb_run (\<lambda>x. x) (cb_init 1 2 1, 0, 0) [Attempt 0 True, Failed 0] (b, 0, 0) \<and> cb_state b = OPEN \<and>
     (\<exists>b'. cb_run (\<lambda>x. x) (b, 0, 0) [Attempt 1 False] (b', 0, 1) \<and> rejected_calls b' = 1)"
proof -
  let ?b = "on_failure 0 (cb_init 1 2 1)"
  let ?b' = "?b\<lparr>rejected_calls := 1\<rparr>"
  have r1: "cb_run (\<lambda>x. x) (cb_init 1 2 1, 0, 0) [Attempt 0 True, Failed 0] (?b, 0, 0)"
    using cb_run.snoc [OF cb_run.snoc [OF cb_run.nil] cb_step.fail, of "\<lambda>x. x" "(cb_init 1 2 1, 0, 0)" "Attempt 0 True" "cb_init 1 2 1" 0 0 0]
      cb_step.attempt [of 0 0 "\<lambda>x. x" "cb_init 1 2 1" True "cb_init 1 2 1" 0]
    by (simp add: admit_def cb_init_def)
  have r2: "cb_run (\<lambda>x. x) (?b, 0, 0) [Attempt 1 False] (?b', 0, 1)"
    using cb_run.snoc [OF cb_run.nil, of "\<lambda>x. x" "(?b, 0, 0)" "Attempt 1 False" "(?b', 0, 1)"]
      cb_step.attempt [of 0 1 "\<lambda>x. x" ?b False ?b' 0]
    by (simp add: admit_def on_failure_def cb_init_def)
  have o: "cb_state ?b = OPEN" "opened_at ?b = 0" "rejected_calls ?b = 0" by (simp_all add: on_failure_def cb_init_def)
  from cb_fail_fast [OF _ _ _ r1 o(1) r2] o have "rejected_calls ?b' = 1" by simp
  with r1 r2 o show ?thesis by blast
qed

section \<open>Tripping and recovering\<close>

text \<open>Calls one after the other, with the outcomes of the dependency (\<open>True\<close> for success).\<close>

fun cb_seq :: "(rat \<Rightarrow> rat) \<Rightarrow> (rat \<times> rat \<times> bool) list \<Rightarrow> breaker \<Rightarrow> breaker" where
  "cb_seq rnd [] b = b"
| "cb_seq rnd ((t, t', ok) # cs) b =
     cb_seq rnd cs (snd (cb_call rnd t t' (\<lambda>ok. if ok then Inr () else Inl ()) ok b))"

abbreviation trailing_failures :: "(rat \<times> rat \<times> bool) list \<Rightarrow> int" where
  "trailing_failures cs \<equiv> int (length (takeWhile (\<lambda>(t, t', ok). \<not> ok) (rev cs)))"

definition tripped :: "int \<Rightarrow> (rat \<times> rat \<times> bool) list \<Rightarrow> bool" where
  "tripped ft cs \<longleftrightarrow> (\<exists>pre post. cs = pre @ post \<and> ft \<le> trailing_failures pre)"

lemma cb_seq_append: "cb_seq rnd (xs @ ys) b = cb_seq rnd ys (cb_seq rnd xs b)"
  by (induction rnd xs b rule: cb_seq.induct) auto

lemma tripped_snoc: "tripped ft (cs @ [c]) \<longleftrightarrow> tripped ft cs \<or> ft \<le> trailing_failures (cs @ [c])"
proof
  assume "tripped ft (cs @ [c])"
  then obtain pre post where p: "cs @ [c] = pre @ post" "ft \<le> trailing_failures pre" by (auto simp: tripped_def)
  show "tripped ft cs \<or> ft \<le> trailing_failures (cs @ [c])"
  proof (cases post rule: rev_cases)
    case Nil
    with p show ?thesis by simp
  next
    case (snoc ys y)
    with p show ?thesis by (auto simp: tripped_def)
  qed
next
  assume "tripped ft cs \<or> ft \<le> trailing_failures (cs @ [c])"
  then show "tripped ft (cs @ [c])"
    unfolding tripped_def by (metis append.assoc append_Nil2)
qed

lemma cb_seq_closed:
  assumes "0 < ft" "cb_state b = CLOSED" "cb_failures b = 0" "fail_threshold b = ft"
  shows "\<not> tripped ft cs \<Longrightarrow>
    cb_state (cb_seq rnd cs b) = CLOSED \<and> cb_failures (cb_seq rnd cs b) = trailing_failures cs \<and>
    fail_threshold (cb_seq rnd cs b) = ft"
proof (induction cs rule: rev_induct)
  case (snoc c cs)
  obtain t t' ok where c: "c = (t, t', ok)" by (cases c) auto
  from snoc tripped_snoc [of ft cs c] show ?case
    by (cases ok) (auto simp: c cb_seq_append cb_call_def admit_def on_success_def on_failure_def Let_def)
qed (use assms in simp)

text \<open>
  C16. The breaker trips exactly at the threshold: as long as the calls so far contain no run of
  \<open>fail_threshold\<close> consecutive failures the breaker is closed and its counter is the length of the current run
  of failures; the next failing call opens it if and only if it completes such a run, and the opening
  time is the clock of that failure.
\<close>

theorem cb_trips_at_threshold:
  fixes rnd :: "rat \<Rightarrow> rat" and cd t t' :: rat and ft st :: int
  assumes "0 < ft" "\<not> tripped ft cs"
  defines "b \<equiv> cb_seq rnd cs (cb_init ft cd st)"
  shows "cb_state b = CLOSED \<and> cb_failures b = trailing_failures cs \<and>
    (let b' = cb_seq rnd (cs @ [(t, t', False)]) (cb_init ft cd st) in
     if tripped ft (cs @ [(t, t', False)]) then cb_state b' = OPEN \<and> opened_at b' = t' else cb_state b' = CLOSED)"
proof -
  have b: "cb_state b = CLOSED" "cb_failures b = trailing_failures cs" "fail_threshold b = ft"
    using cb_seq_closed [OF assms(1) _ _ _ assms(2), of "cb_init ft cd st" rnd] by (auto simp: b_def cb_init_def)
  have "tripped ft (cs @ [(t, t', False)]) \<longleftrightarrow> ft \<le> trailing_failures cs + 1"
    using tripped_snoc [of ft cs "(t, t', False)"] assms(2) by (simp add: add.commute)
  with b show ?thesis
    by (simp add: cb_seq_append cb_call_def admit_def on_failure_def Let_def flip: b_def)
qed

theorem cb_trips_at_threshold_witness:
  "cb_state (cb_seq (\<lambda>x. x) [(0, 0, False), (1, 1, True), (2, 2, False), (3, 4, False)] (cb_init 2 5 1)) = OPEN"
proof -
  have "\<not> tripped 2 [(0, 0, False), (1, 1, True), (2, 2, False)]"
  proof
    assume "tripped 2 [(0, 0, False), (1, 1, True), (2, 2, False)]"
    then obtain pre post where p: "[(0, 0, False), (1, 1, True), (2, 2, False)] = pre @ post" "2 \<le> trailing_failures pre"
      by (auto simp: tripped_def)
    then have "pre \<in> {[], [(0, 0, False)], [(0, 0, False), (1, 1, True)], [(0, 0, False), (1, 1, True), (2, 2, False)]}"
      by (auto simp: Cons_eq_append_conv)
    with p(2) show False by auto
  qed
  moreover have "tripped 2 ([(0, 0, False), (1, 1, True), (2, 2, False)] @ [(3, 4, False)])"
    by (simp only: tripped_snoc) simp
  ultimately show ?thesis
    using cb_trips_at_threshold [of 2 "[(0, 0, False), (1, 1, True), (2, 2, False)]", where rnd = "\<lambda>x. x" and cd = 5 and st = 1 and t = 3 and t' = 4]
    by (simp add: Let_def)
qed

lemma half_open_successes:
  assumes "cb_state b = HALF_OPEN" "0 \<le> cb_successes b" "cb_successes b < success_threshold b"
    and "cb_successes b + int (length ts) \<le> success_threshold b"
  shows "let b' = cb_seq rnd (map (\<lambda>(t, t'). (t, t', True)) ts) b in
    if cb_successes b + int (length ts) < success_threshold b
    then cb_state b' = HALF_OPEN \<and> cb_successes b' = cb_successes b + int (length ts)
    else cb_state b' = CLOSED \<and> cb_failures b' = 0"
  using assms
proof (induction ts arbitrary: b)
  case (Cons x ts)
  obtain t t' where x: "x = (t, t')" by (cases x)
  let ?b = "on_success b"
  have step: "snd (cb_call rnd t t' (\<lambda>ok. if ok then Inr () else Inl ()) True b) = ?b"
    using Cons.prems(1) by (simp add: cb_call_def admit_def)
  show ?case
  proof (cases "cb_successes b + 1 < success_threshold b")
    case True
    then have "cb_state ?b = HALF_OPEN" "cb_successes ?b = cb_successes b + 1" "success_threshold ?b = success_threshold b"
      using Cons.prems(1) by (auto simp: on_success_def Let_def)
    with Cons.IH [of ?b] Cons.prems True show ?thesis by (simp add: x step Let_def ac_simps)
  next
    case False
    with Cons.prems(4) have "length ts = 0" by (simp only: list.size)
    then have "ts = []" by simp
    with Cons.prems False show ?thesis by (simp add: x step on_success_def Let_def)
  qed
qed (simp add: Let_def)

text \<open>
  C27. Recovery: when an open breaker has cooled down, the next calls are admitted; after \<open>k\<close> successes in
  a row it is half open if \<open>k\<close> is below \<open>success_threshold\<close> and closed with a cleared failure counter if
  it is equal, and a failing probe reopens it at once with a new cooldown.
\<close>

theorem cb_recovers:
  fixes rnd :: "rat \<Rightarrow> rat" and t t' u u' :: rat
  assumes "cb_state b = OPEN" "rnd (t - opened_at b) \<ge> cooldown b" "0 < success_threshold b"
    and "int (length ts) + 1 \<le> success_threshold b"
  defines "b' \<equiv> cb_seq rnd ((t, t', True) # map (\<lambda>(t, t'). (t, t', True)) ts) b"
  shows "(if int (length ts) + 1 < success_threshold b then cb_state b' = HALF_OPEN else cb_state b' = CLOSED \<and> cb_failures b' = 0) \<and>
    (let r = cb_seq rnd [(t, t', False)] b in cb_state r = OPEN \<and> opened_at r = t') \<and>
    (cb_state b' = HALF_OPEN \<longrightarrow> (let r = cb_seq rnd [(u, u', False)] b' in cb_state r = OPEN \<and> opened_at r = u'))"
proof -
  let ?h = "b\<lparr>cb_state := HALF_OPEN, cb_successes := 0\<rparr>"
  have adm: "admit rnd t b = (True, ?h)" using assms(1,2) by (simp add: admit_def)
  have b': "b' = cb_seq rnd (map (\<lambda>(t, t'). (t, t', True)) ((t, t') # ts)) ?h"
    unfolding b'_def using adm by (simp add: cb_call_def admit_def)
  from half_open_successes [of ?h "(t, t') # ts" rnd] assms(3,4)
  have "if int (length ts) + 1 < success_threshold b then cb_state b' = HALF_OPEN else cb_state b' = CLOSED \<and> cb_failures b' = 0"
    unfolding b' by (simp add: Let_def add.commute split: if_splits)
  moreover have "let r = cb_seq rnd [(t, t', False)] b in cb_state r = OPEN \<and> opened_at r = t'"
    using adm by (simp add: cb_call_def on_failure_def)
  moreover have "cb_state b' = HALF_OPEN \<longrightarrow> (let r = cb_seq rnd [(u, u', False)] b' in cb_state r = OPEN \<and> opened_at r = u')"
    by (simp add: cb_call_def admit_def on_failure_def)
  ultimately show ?thesis by blast
qed

theorem cb_recovers_witness:
  "let b = (cb_init 1 2 2)\<lparr>cb_state := OPEN, opened_at := 5\<rparr> in
   cb_state (cb_seq (\<lambda>x. x) [(7, 7, True)] b) = HALF_OPEN \<and> cb_state (cb_seq (\<lambda>x. x) [(7, 7, True), (8, 8, True)] b) = CLOSED"
  using cb_recovers [of "(cb_init 1 2 2)\<lparr>cb_state := OPEN, opened_at := 5\<rparr>" "\<lambda>x. x" 7 "[]", where t' = 7]
    cb_recovers [of "(cb_init 1 2 2)\<lparr>cb_state := OPEN, opened_at := 5\<rparr>" "\<lambda>x. x" 7 "[(8, 8)]", where t' = 7]
  by (simp add: cb_init_def Let_def)

text \<open>
  A half-open breaker does not limit itself to a single probe: any number of concurrent calls is
  admitted before the first of them returns.
\<close>

theorem half_open_admits_many:
  assumes "cb_state b = HALF_OPEN"
  shows "cb_run rnd (b, n, clock) (replicate k (Attempt clock True)) (b, n + k, clock)"
proof (induction k)
  case (Suc k)
  have "cb_step rnd (b, n + k, clock) (Attempt clock True) (b, Suc (n + k), clock)"
    using cb_step.attempt [of clock clock rnd b True b "n + k"] assms by (simp add: admit_def)
  from cb_run.snoc [OF Suc this] show ?case by (simp add: replicate_append_same)
qed (simp add: cb_run.nil)

theorem half_open_admits_many_witness:
  "cb_run (\<lambda>x. x) ((cb_init 1 2 1)\<lparr>cb_state := HALF_OPEN\<rparr>, 0, 3) (replicate 5 (Attempt 3 True))
     ((cb_init 1 2 1)\<lparr>cb_state := HALF_OPEN\<rparr>, 5, 3)"
  using half_open_admits_many [of "(cb_init 1 2 1)\<lparr>cb_state := HALF_OPEN\<rparr>" "\<lambda>x. x" 0 3 5] by simp

section \<open>The script runs through\<close>

text \<open>
  The asserts of \<^verbatim>\<open>main\<close> hold for all clock readings for which the five rejected calls fall within the
  cooldown and the first probe after it; if the sleep of 0.55 seconds were shorter than the cooldown, the first
  probe would raise \<^verbatim>\<open>CircuitOpenError\<close> out of \<^verbatim>\<open>main\<close>.
\<close>

lemma phase3_closed:
  "cb_state b = CLOSED \<Longrightarrow> cb_failures b = 0 \<Longrightarrow> phase3 rnd us \<lparr>healthy = True\<rparr> b = Inr (b\<lparr>cb_failures := 0\<rparr>)"
  by (induction us arbitrary: b)
    (auto simp: main_call_def cb_call_def admit_def flaky_call_def on_success_def py_assert_def)

lemmas cb_script_simps = cb_main_def main_call_def cb_call_def admit_def flaky_call_def flaky_init_def on_failure_def
  on_success_def cb_init_def py_assert_def Let_def

lemma cb_main_outcome:
  assumes "\<forall>t \<in> {t4, t5, t6, t7, t8}. rnd (t - t3') < 1 / 2"
  shows "cb_main rnd [(t1, t1'), (t2, t2'), (t3, t3'), (t4, t4'), (t5, t5'), (t6, t6'), (t7, t7'), (t8, t8')] u1 u2 us =
    (if rnd (fst u1 - t3') < 1 / 2 then Inl CircuitOpen else Inr ())"
  using assms by (simp add: cb_script_simps phase3_closed)

end
