(* ===== verification/Http_Client.thy ===== *)
theory Http_Client
  imports Py_Bytes
begin

text \<open>
  \<^verbatim>\<open>comp_networking/examples/http_client.py\<close>: the HTTP/1.1 client on a raw socket. A byte is a
  character (so \<^verbatim>\<open>decode("latin1")\<close> is the identity). A connection is the list of chunks that the
  successive \<^verbatim>\<open>recv\<close> calls return, followed by end of file or by an exception such as a timeout.
\<close>

section \<open>Byte strings\<close>

text \<open>\<^verbatim>\<open>buf.find(marker)\<close>, \<^verbatim>\<open>buf.partition(marker)\<close>, \<^verbatim>\<open>buf.split(marker)\<close> for a nonempty marker.\<close>

fun find_sub :: "string \<Rightarrow> string \<Rightarrow> nat option" where
  "find_sub m [] = (if m = [] then Some 0 else None)"
| "find_sub m (c # cs) = (if take (length m) (c # cs) = m then Some 0 else map_option Suc (find_sub m cs))"

definition partition_sub :: "string \<Rightarrow> string \<Rightarrow> string \<times> string" where
  "partition_sub m s = (case find_sub m s of None \<Rightarrow> (s, []) | Some i \<Rightarrow> (take i s, drop (i + length m) s))"

function split_sub :: "string \<Rightarrow> string \<Rightarrow> string list" where
  "split_sub m s =
     (case find_sub m s of None \<Rightarrow> [s]
      | Some i \<Rightarrow> if m = [] \<or> s = [] then [s] else take i s # split_sub m (drop (i + length m) s))"
  by pat_completeness auto
termination
  by (relation "measure (\<lambda>(m, s). length s)") auto

declare split_sub.simps [simp del]

text \<open>\<^verbatim>\<open>s.split(" ", n)\<close>.\<close>

fun split_max :: "char \<Rightarrow> nat \<Rightarrow> string \<Rightarrow> string list" where
  "split_max c 0 s = [s]"
| "split_max c (Suc n) s =
     (if c \<in> set s then takeWhile (\<lambda>x. x \<noteq> c) s # split_max c n (tl (dropWhile (\<lambda>x. x \<noteq> c) s)) else [s])"

text \<open>Slices \<^verbatim>\<open>s[:i]\<close> and \<^verbatim>\<open>s[i:]\<close>; a negative bound counts from the end.\<close>

definition py_take :: "int \<Rightarrow> 'a list \<Rightarrow> 'a list" where
  "py_take i s = (if 0 \<le> i then take (nat i) s else take (nat (int (length s) + i)) s)"

definition py_drop :: "int \<Rightarrow> 'a list \<Rightarrow> 'a list" where
  "py_drop i s = (if 0 \<le> i then drop (nat i) s else drop (nat (int (length s) + i)) s)"

definition is_space_b :: "char \<Rightarrow> bool" where
  "is_space_b c \<longleftrightarrow> (let n = of_char c :: nat in (9 \<le> n \<and> n \<le> 13) \<or> n = 32)"

text \<open>\<^verbatim>\<open>int(b, base)\<close> on bytes differs from the one on text in what counts as a space.\<close>

definition py_int_b :: "int \<Rightarrow> string \<Rightarrow> int res" where
  "py_int_b b s =
     (case strip_by is_space_b s of
        [] \<Rightarrow> Inl ValueError
      | c # cs \<Rightarrow>
          if c = CHR ''+'' then read_unsigned b cs
          else if c = CHR ''-'' then rbind (read_unsigned b cs) (\<lambda>n. Inr (- n))
          else read_unsigned b (c # cs))"

definition lower_char :: "char \<Rightarrow> char" where
  "lower_char c = (let n = of_char c :: nat in
     if (65 \<le> n \<and> n \<le> 90) \<or> (192 \<le> n \<and> n \<le> 222 \<and> n \<noteq> 215) then char_of (n + 32) else c)"

abbreviation lower :: "string \<Rightarrow> string" where
  "lower s \<equiv> map lower_char s"

section \<open>Reading from the socket\<close>

abbreviation CRLF :: string where
  "CRLF \<equiv> [CHR 0x0D, CHR 0x0A]"

type_synonym chunks = "string list"

text \<open>
  The two receive loops: until a marker is in the buffer, until the buffer is long enough. \<open>e\<close> is what
  \<^verbatim>\<open>recv\<close> does after the last chunk: end of file (\<open>None\<close>) or an exception.
\<close>

definition at_end :: "py_error option \<Rightarrow> 'a \<Rightarrow> 'a res" where
  "at_end e x = (case e of None \<Rightarrow> Inr x | Some err \<Rightarrow> Inl err)"

fun fill_until :: "py_error option \<Rightarrow> string \<Rightarrow> string \<Rightarrow> chunks \<Rightarrow> (string \<times> chunks) res" where
  "fill_until e m buf [] = (if find_sub m buf \<noteq> None then Inr (buf, []) else at_end e (buf, []))"
| "fill_until e m buf (c # cs) =
     (if find_sub m buf \<noteq> None then Inr (buf, c # cs)
      else if c = [] then Inr (buf, cs)
      else fill_until e m (buf @ c) cs)"

fun fill_len :: "py_error option \<Rightarrow> int \<Rightarrow> string \<Rightarrow> chunks \<Rightarrow> (string \<times> chunks) res" where
  "fill_len e n buf [] = (if int (length buf) < n then at_end e (buf, []) else Inr (buf, []))"
| "fill_len e n buf (c # cs) =
     (if int (length buf) < n then
        if c = [] then Inr (buf, cs) else fill_len e n (buf @ c) cs
      else Inr (buf, c # cs))"

definition read_until :: "py_error option \<Rightarrow> string \<Rightarrow> chunks \<Rightarrow> (string \<times> string \<times> chunks) res" where
  "read_until e m cs =
     rbind (fill_until e m [] cs) (\<lambda>(buf, cs). let (before, rest) = partition_sub m buf in Inr (before, rest, cs))"

definition recv_exactly :: "py_error option \<Rightarrow> int \<Rightarrow> string \<Rightarrow> chunks \<Rightarrow> (string \<times> string \<times> chunks) res" where
  "recv_exactly e n prefetched cs =
     rbind (fill_len e n prefetched cs) (\<lambda>(buf, cs). Inr (py_take n buf, py_drop n buf, cs))"

definition chunk_size :: "string \<Rightarrow> int res" where
  "chunk_size line =
     (let s = strip_by is_space_b (hd (split_on CHR '';'' line)) in py_int_b 16 (if s = [] then ''0'' else s))"

lemma fill_until_bytes:
  "fill_until e m buf cs = Inr (buf', cs') \<Longrightarrow> \<exists>mid. buf' = buf @ mid \<and> length mid + length (concat cs') \<le> length (concat cs)"
proof (induction cs arbitrary: buf)
  case Nil
  then show ?case by (auto simp: at_end_def split: if_splits option.splits)
next
  case (Cons c cs)
  show ?case
  proof (cases "find_sub m buf \<noteq> None \<or> c = []")
    case True
    with Cons.prems show ?thesis by (auto split: if_splits)
  next
    case False
    with Cons.prems Cons.IH [of "buf @ c"] show ?thesis by fastforce
  qed
qed

lemma fill_len_bytes:
  "fill_len e n buf cs = Inr (buf', cs') \<Longrightarrow> \<exists>mid. buf' = buf @ mid \<and> length mid + length (concat cs') \<le> length (concat cs)"
proof (induction cs arbitrary: buf)
  case Nil
  then show ?case by (auto simp: at_end_def split: if_splits option.splits)
next
  case (Cons c cs)
  show ?case
  proof (cases "int (length buf) < n \<and> c \<noteq> []")
    case True
    with Cons.prems Cons.IH [of "buf @ c"] show ?thesis by fastforce
  next
    case False
    with Cons.prems show ?thesis by (auto split: if_splits)
  qed
qed

lemma chunk_size_Nil: "chunk_size [] = Inr 0"
  by code_simp

lemma partition_sub_length:
  "partition_sub m s = (a, b) \<Longrightarrow> length b \<le> length s \<and> (m \<noteq> [] \<and> s \<noteq> [] \<longrightarrow> length b < length s)"
  by (auto simp: partition_sub_def split: option.splits)

text \<open>
  The \<^verbatim>\<open>while True\<close> of \<^verbatim>\<open>_decode_chunked\<close>: every turn with a nonzero size consumes at least the bytes of
  its size line, and an empty line reads as size 0, so the loop ends on every input.
\<close>

function decode_chunked :: "py_error option \<Rightarrow> string \<Rightarrow> chunks \<Rightarrow> string \<Rightarrow> string res" where
  "decode_chunked e body cs buf =
     rbind (fill_until e CRLF buf cs) (\<lambda>(buf, cs).
     let (line, buf) = partition_sub CRLF buf in
     rbind (chunk_size line) (\<lambda>size.
     if size = 0 then rbind (fill_until e CRLF buf cs) (\<lambda>_. Inr body)
     else rbind (fill_len e (size + 2) buf cs) (\<lambda>(buf, cs).
          decode_chunked e (body @ py_take size buf) cs (py_drop (size + 2) buf))))"
  by pat_completeness auto
termination
proof (relation "measure (\<lambda>(e, body, cs, buf). length buf + length (concat cs))", goal_cases)
  case (2 e body cs buf x buf1 cs1 y line buf2 size z buf3 cs3)
  from fill_until_bytes [of e CRLF buf cs buf1 cs1] 2 obtain mid where
    m: "buf1 = buf @ mid" "length mid + length (concat cs1) \<le> length (concat cs)" by auto
  from fill_len_bytes [of e "size + 2" buf2 cs1 buf3 cs3] 2 obtain mid' where
    m': "buf3 = buf2 @ mid'" "length mid' + length (concat cs3) \<le> length (concat cs1)" by auto
  have "buf1 \<noteq> []"
  proof
    assume "buf1 = []"
    then have "line = []" using 2 by (auto simp: partition_sub_def)
    with 2 show False by (simp add: chunk_size_Nil)
  qed
  moreover have "length buf2 \<le> length buf1 \<and> (buf1 \<noteq> [] \<longrightarrow> length buf2 < length buf1)"
    using partition_sub_length [of CRLF buf1 line buf2] 2 by auto
  moreover have "length (py_drop (size + 2) buf3) \<le> length buf3" by (simp add: py_drop_def)
  ultimately show ?case using m m' by simp
qed simp

declare decode_chunked.simps [simp del]

section \<open>The client\<close>

record http_response =
  rs_status :: int
  rs_reason :: string
  rs_headers :: "(string, string) dict"
  rs_body :: string

definition request_text :: "string \<Rightarrow> int \<Rightarrow> string \<Rightarrow> string" where
  "request_text host port path =
     ''GET '' @ path @ '' HTTP/1.1'' @ CRLF @ ''Host: '' @ host @ '':'' @ py_str port @ CRLF @
     ''User-Agent: raw-http-client/1.0'' @ CRLF @ ''Accept: */*'' @ CRLF @ ''Connection: close'' @ CRLF @ CRLF"

definition encode_ascii :: "string \<Rightarrow> string res" where
  "encode_ascii s = (if list_all (\<lambda>c. (of_char c :: nat) < 128) s then Inr s else Inl UnicodeError)"

definition parse_status :: "string \<Rightarrow> (int \<times> string) res" where
  "parse_status line =
     (case take 3 (split_max CHR '' '' 2 line @ [[], []]) of
        [proto, status, reason] \<Rightarrow> rbind (py_int 10 status) (\<lambda>n. Inr (n, reason))
      | _ \<Rightarrow> Inl ValueError)"

definition add_header :: "string \<Rightarrow> (string, string) dict \<Rightarrow> (string, string) dict" where
  "add_header line d =
     (if CHR '':'' \<in> set line then
        let (k, v) = partition_sub '':'' line in AList.update (lower (strip k)) (strip v) d
      else d)"

fun read_eof :: "py_error option \<Rightarrow> string \<Rightarrow> chunks \<Rightarrow> string res" where
  "read_eof e buf [] = at_end e buf"
| "read_eof e buf (c # cs) = (if c = [] then Inr buf else read_eof e (buf @ c) cs)"

definition read_body :: "py_error option \<Rightarrow> (string, string) dict \<Rightarrow> string \<Rightarrow> chunks \<Rightarrow> string res" where
  "read_body e headers rest cs =
     (if lower (dict_get headers ''transfer-encoding'' []) = ''chunked'' then decode_chunked e [] cs rest
      else case map_of headers ''content-length'' of
        Some v \<Rightarrow> rbind (py_int 10 v) (\<lambda>n. rbind (recv_exactly e n rest cs) (\<lambda>(body, _). Inr body))
      | None \<Rightarrow> read_eof e rest cs)"

definition parse_head :: "string \<Rightarrow> (int \<times> string \<times> (string, string) dict) res" where
  "parse_head head_bytes =
     (let head_lines = split_sub CRLF head_bytes in
      rbind (parse_status (hd head_lines)) (\<lambda>(status, reason).
      Inr (status, reason, fold add_header (tl head_lines) [])))"

text \<open>
  \<open>exchange\<close> is the network: for the request sent, the chunks that come back and how they end, or the
  exception of \<^verbatim>\<open>create_connection\<close> or \<^verbatim>\<open>sendall\<close>.
\<close>

definition http_get :: "(string \<Rightarrow> (chunks \<times> py_error option) res) \<Rightarrow> string \<Rightarrow> int \<Rightarrow> string \<Rightarrow> http_response res" where
  "http_get exchange host port path =
     rbind (encode_ascii (request_text host port path)) (\<lambda>request.
     rbind (exchange request) (\<lambda>(cs, e).
     rbind (read_until e (CRLF @ CRLF) cs) (\<lambda>(head_bytes, rest, cs).
     rbind (parse_head head_bytes) (\<lambda>(status, reason, headers).
     rbind (read_body e headers rest cs) (\<lambda>body.
     Inr \<lparr>rs_status = status, rs_reason = reason, rs_headers = headers, rs_body = body\<rparr>)))))"

section \<open>The server of the demonstration\<close>

text \<open>\<^verbatim>\<open>b"%X" % n\<close>.\<close>

definition hex_char :: "nat \<Rightarrow> char" where
  "hex_char d = (if d < 10 then char_of (48 + d) else char_of (55 + d))"

fun hex_upper :: "nat \<Rightarrow> string" where
  "hex_upper n = (if n < 16 then [hex_char n] else hex_upper (n div 16) @ [hex_char (n mod 16)])"

declare hex_upper.simps [simp del]

definition write_chunk :: "string \<Rightarrow> string" where
  "write_chunk piece = hex_upper (length piece) @ CRLF @ piece @ CRLF"

definition write_chunked :: "string list \<Rightarrow> string" where
  "write_chunked pieces = concat (map write_chunk pieces) @ ''0'' @ CRLF @ CRLF"

text \<open>
  \<^verbatim>\<open>do_GET\<close>: the bytes of the reply; \<open>std\<close> are the header lines that \<^verbatim>\<open>send_response\<close> itself writes
  (\<^verbatim>\<open>Server\<close> and \<^verbatim>\<open>Date\<close>).
\<close>

definition do_GET :: "string list \<Rightarrow> string \<Rightarrow> string" where
  "do_GET std path =
     (let head = (\<lambda>hs. concat (map (\<lambda>h. h @ CRLF) ((''HTTP/1.0 200 OK'' # std) @ hs)) @ CRLF) in
      if path = ''/chunked'' then
        head [''Content-Type: text/plain'', ''Transfer-Encoding: chunked''] @
        write_chunked [''chunk-one '', ''chunk-two '', ''chunk-three'']
      else
        let body = ''hello over content-length'' in
        head [''Content-Type: text/plain'', ''Content-Length: '' @ py_str (int (length body))] @ body)"

section \<open>Framing does not depend on how the bytes arrive\<close>

text \<open>
  The reference reads the whole byte stream at once. It is undefined (\<open>None\<close>) when a chunk size or a
  content length is negative, where the code slices from the end of whatever it has buffered.
\<close>

function decode_ref :: "string \<Rightarrow> string \<Rightarrow> string res option" where
  "decode_ref body s =
     (let (line, rest) = partition_sub CRLF s in
      case chunk_size line of
        Inl e \<Rightarrow> Some (Inl e)
      | Inr n \<Rightarrow>
          if n = 0 then Some (Inr body)
          else if n < 0 then None
          else decode_ref (body @ take (nat n) rest) (drop (nat (n + 2)) rest))"
  by pat_completeness auto
termination
proof (relation "measure (\<lambda>(body, s). length s)", goal_cases)
  case (2 body s x line rest size)
  have "s \<noteq> []"
  proof
    assume "s = []"
    with 2 have "line = []" by (simp add: partition_sub_def)
    with 2 show False by (simp add: chunk_size_Nil)
  qed
  with partition_sub_length [of CRLF s line rest] 2 show ?case by auto
qed simp

declare decode_ref.simps [simp del]

definition http_ref :: "string \<Rightarrow> http_response res option" where
  "http_ref s =
     (let (head_bytes, rest) = partition_sub (CRLF @ CRLF) s in
      case parse_head head_bytes of
        Inl e \<Rightarrow> Some (Inl e)
      | Inr (status, reason, headers) \<Rightarrow>
          let result = (\<lambda>b. rbind b (\<lambda>body.
            Inr \<lparr>rs_status = status, rs_reason = reason, rs_headers = headers, rs_body = body\<rparr>)) in
          if lower (dict_get headers ''transfer-encoding'' []) = ''chunked'' then map_option result (decode_ref [] rest)
          else case map_of headers ''content-length'' of
            None \<Rightarrow> Some (result (Inr rest))
          | Some v \<Rightarrow>
              (case py_int 10 v of
                 Inl e \<Rightarrow> Some (Inl e)
               | Inr n \<Rightarrow> if n < 0 then None else Some (result (Inr (take (nat n) rest)))))"

lemma find_sub_bound: "find_sub m s = Some i \<Longrightarrow> i + length m \<le> length s"
proof (induction s arbitrary: i)
  case (Cons c s)
  show ?case
  proof (cases "take (length m) (c # s) = m")
    case True
    then have "length m \<le> length (c # s)" by (metis length_take min.cobounded1)
    with True Cons.prems show ?thesis by simp
  next
    case False
    with Cons show ?thesis by auto
  qed
qed (auto split: if_splits)

lemma find_sub_append: "find_sub m s = Some i \<Longrightarrow> find_sub m (s @ t) = Some i"
proof (induction s arbitrary: i)
  case Nil
  then show ?case by (cases t) (auto split: if_splits)
next
  case (Cons c s)
  from find_sub_bound [OF Cons.prems] have "length m \<le> length (c # s)" by simp
  then have eq: "take (length m) (c # s @ t) = take (length m) (c # s)" by (simp add: take_Cons')
  show ?case
  proof (cases "take (length m) (c # s) = m")
    case True
    with eq Cons.prems show ?thesis by simp
  next
    case False
    with Cons.prems obtain j where "find_sub m s = Some j" "i = Suc j" by auto
    with False eq Cons.IH show ?thesis by simp
  qed
qed

text \<open>
  The receive loops move bytes from the chunks to the buffer and stop for a reason.
\<close>

lemma fill_until_eof:
  assumes "[] \<notin> set cs"
  shows "\<exists>buf' cs'. fill_until None m buf cs = Inr (buf', cs') \<and> buf' @ concat cs' = buf @ concat cs \<and> [] \<notin> set cs' \<and>
    (find_sub m buf' \<noteq> None \<or> cs' = [])"
  using assms
proof (induction cs arbitrary: buf)
  case (Cons c cs)
  then show ?case using Cons.IH [of "buf @ c"] by (cases "find_sub m buf = None") auto
qed (simp add: at_end_def)

lemma fill_len_eof:
  assumes "[] \<notin> set cs"
  shows "\<exists>buf' cs'. fill_len None n buf cs = Inr (buf', cs') \<and> buf' @ concat cs' = buf @ concat cs \<and> [] \<notin> set cs' \<and>
    (n \<le> int (length buf') \<or> cs' = [])"
  using assms
proof (induction cs arbitrary: buf)
  case (Cons c cs)
  then show ?case using Cons.IH [of "buf @ c"] by (cases "int (length buf) < n") auto
qed (simp add: at_end_def)

lemma partition_sub_stable:
  assumes "find_sub m buf \<noteq> None \<or> t = []" "partition_sub m buf = (line, rest)"
  shows "partition_sub m (buf @ t) = (line, rest @ t)"
proof (cases "find_sub m buf")
  case (Some i)
  then show ?thesis
    using assms(2) find_sub_append [OF Some, of t] find_sub_bound [OF Some] by (auto simp: partition_sub_def)
qed (use assms in auto)

lemma decode_chunked_ref:
  assumes "decode_ref body s = Some r" "[] \<notin> set cs" "s = buf @ concat cs"
  shows "decode_chunked None body cs buf = r"
  using assms
proof (induction body s arbitrary: cs buf rule: decode_ref.induct)
  case (1 body s)
  obtain buf1 cs1 where f: "fill_until None CRLF buf cs = Inr (buf1, cs1)" "buf1 @ concat cs1 = s" "[] \<notin> set cs1"
    "find_sub CRLF buf1 \<noteq> None \<or> cs1 = []"
    using fill_until_eof [OF "1.prems"(2), of CRLF buf] "1.prems"(3) by blast
  obtain line buf2 where p: "partition_sub CRLF buf1 = (line, buf2)" by (cases "partition_sub CRLF buf1")
  let ?rest = "buf2 @ concat cs1"
  have ps: "partition_sub CRLF s = (line, ?rest)"
    using partition_sub_stable [OF _ p, of "concat cs1"] f by auto
  show ?case
  proof (cases "chunk_size line")
    case (Inl e)
    with "1.prems"(1) f p ps show ?thesis by (simp add: decode_ref.simps [of body s] decode_chunked.simps [of None body cs buf])
  next
    case (Inr n)
    consider "n = 0" | "n > 0" using "1.prems"(1) ps Inr by (auto simp: decode_ref.simps [of body s] split: if_splits)
    then show ?thesis
    proof cases
      case 1
      obtain b c where "fill_until None CRLF buf2 cs1 = Inr (b, c)" using fill_until_eof [OF f(3)] by blast
      with 1 "1.prems"(1) f p ps Inr show ?thesis
        by (simp add: decode_ref.simps [of body s] decode_chunked.simps [of None body cs buf])
    next
      case 2
      obtain buf3 cs3 where g: "fill_len None (n + 2) buf2 cs1 = Inr (buf3, cs3)" "buf3 @ concat cs3 = ?rest" "[] \<notin> set cs3"
        "n + 2 \<le> int (length buf3) \<or> cs3 = []"
        using fill_len_eof [OF f(3), of "n + 2" buf2] by blast
      have t: "take (nat n) buf3 = take (nat n) ?rest" "drop (nat (n + 2)) buf3 @ concat cs3 = drop (nat (n + 2)) ?rest"
        unfolding g(2) [symmetric] using g(4) 2 by auto
      have ref: "decode_ref (body @ take (nat n) ?rest) (drop (nat (n + 2)) ?rest) = Some r"
        using "1.prems"(1) ps Inr 2 by (simp add: decode_ref.simps [of body s])
      have "decode_chunked None (body @ take (nat n) ?rest) cs3 (drop (nat (n + 2)) buf3) = r"
        by (rule "1.IH" [OF ps [symmetric] refl Inr _ _ ref g(3) t(2) [symmetric]]) (use 2 in auto)
      with 2 f p Inr g t show ?thesis
        by (simp add: decode_chunked.simps [of None body cs buf] py_take_def py_drop_def)
    qed
  qed
qed

lemma read_eof_all: "[] \<notin> set cs \<Longrightarrow> read_eof None buf cs = Inr (buf @ concat cs)"
  by (induction cs arbitrary: buf) (auto simp: at_end_def)

lemma recv_exactly_ref:
  assumes "[] \<notin> set cs" "0 \<le> n"
  shows "\<exists>rest cs'. recv_exactly None n buf cs = Inr (take (nat n) (buf @ concat cs), rest, cs')"
proof -
  obtain buf' cs' where f: "fill_len None n buf cs = Inr (buf', cs')" "buf' @ concat cs' = buf @ concat cs"
    "n \<le> int (length buf') \<or> cs' = []"
    using fill_len_eof [OF assms(1), of n buf] by blast
  have "take (nat n) buf' = take (nat n) (buf @ concat cs)"
    unfolding f(2) [symmetric] using f(3) assms(2) by auto
  with f assms(2) show ?thesis by (simp add: recv_exactly_def py_take_def)
qed

lemma http_get_ref:
  assumes "http_ref (concat cs) = Some r" "[] \<notin> set cs"
    and "encode_ascii (request_text host port path) = Inr req" "exchange req = Inr (cs, None)"
  shows "http_get exchange host port path = r"
proof -
  let ?m = "CRLF @ CRLF"
  obtain buf cs1 where f: "fill_until None ?m [] cs = Inr (buf, cs1)" "buf @ concat cs1 = concat cs" "[] \<notin> set cs1"
    "find_sub ?m buf \<noteq> None \<or> cs1 = []"
    using fill_until_eof [OF assms(2), of ?m "[]"] by auto
  obtain head rest where p: "partition_sub ?m buf = (head, rest)" by (cases "partition_sub ?m buf")
  have ps: "partition_sub ?m (concat cs) = (head, rest @ concat cs1)"
    using partition_sub_stable [OF _ p, of "concat cs1"] f by auto
  have rd: "read_until None ?m cs = Inr (head, rest, cs1)" using f(1) p by (simp add: read_until_def)
  have get: "http_get exchange host port path = rbind (parse_head head) (\<lambda>(status, reason, headers).
     rbind (read_body None headers rest cs1) (\<lambda>body.
     Inr \<lparr>rs_status = status, rs_reason = reason, rs_headers = headers, rs_body = body\<rparr>))"
    using assms(3,4) rd by (simp add: http_get_def)
  show ?thesis
  proof (cases "parse_head head")
    case (Inl e)
    with assms(1) get ps show ?thesis by (simp add: http_ref_def)
  next
    case (Inr x)
    obtain status reason headers where x: "x = (status, reason, headers)" by (cases x) auto
    let ?out = "\<lambda>b. rbind b (\<lambda>body. Inr \<lparr>rs_status = status, rs_reason = reason, rs_headers = headers, rs_body = body\<rparr>)"
    have "?out (read_body None headers rest cs1) = r"
    proof (cases "lower (dict_get headers ''transfer-encoding'' []) = ''chunked''")
      case True
      with assms(1) ps Inr x obtain b where "decode_ref [] (rest @ concat cs1) = Some b" "r = ?out b"
        by (auto simp: http_ref_def)
      with decode_chunked_ref [OF _ f(3) refl] True show ?thesis by (simp add: read_body_def)
    next
      case False
      show ?thesis
      proof (cases "map_of headers ''content-length''")
        case None
        with False assms(1) ps Inr x f(3) show ?thesis by (simp add: http_ref_def read_body_def read_eof_all)
      next
        case (Some v)
        show ?thesis
        proof (cases "py_int 10 v")
          case (Inl e)
          with Some False assms(1) ps Inr x show ?thesis by (simp add: http_ref_def read_body_def)
        next
          case n: (Inr n)
          with Some False assms(1) ps Inr x have "0 \<le> n" "r = ?out (Inr (take (nat n) (rest @ concat cs1)))"
            by (auto simp: http_ref_def split: if_splits)
          with recv_exactly_ref [OF f(3), of n rest] n Some False show ?thesis by (auto simp: read_body_def)
        qed
      qed
    qed
    with get Inr x show ?thesis by simp
  qed
qed

section \<open>Chunked bodies round trip\<close>

lemma hex_char_code: "d < 16 \<Longrightarrow> (of_char (hex_char d) :: nat) = (if d < 10 then 48 + d else 55 + d)"
  by (simp add: hex_char_def)

lemma hex_char_facts:
  assumes "d < 16"
  shows "digit_val (hex_char d) = Some (int d)" "hex_char d \<notin> {CHR ''_'', CHR '';'', CHR ''+'', CHR ''-'', CHR ''x'', CHR ''X'', CHR 0x0D}"
    "\<not> is_space_b (hex_char d)"
proof -
  note n = hex_char_code [OF assms]
  have i: "(of_char (hex_char d) :: int) = int (of_char (hex_char d))" by (simp only: of_nat_of_char)
  show "digit_val (hex_char d) = Some (int d)"
    unfolding digit_val_def Let_def i n using assms by auto
  show "hex_char d \<notin> {CHR ''_'', CHR '';'', CHR ''+'', CHR ''-'', CHR ''x'', CHR ''X'', CHR 0x0D}"
    by (rule notI, elim insertE emptyE) (use n assms in \<open>auto split: if_splits\<close>)
  show "\<not> is_space_b (hex_char d)" using n assms by (auto simp: is_space_b_def Let_def)
qed

lemma hex_upper_digits: "c \<in> set (hex_upper n) \<Longrightarrow> \<exists>d<16. c = hex_char d"
proof (induction n rule: hex_upper.induct)
  case (1 n)
  then show ?case
    by (cases "n < 16") (auto simp: hex_upper.simps [of n] intro: exI [of _ "n mod 16"])
qed

lemma hex_upper_nonempty [simp]: "hex_upper n \<noteq> []"
  by (subst hex_upper.simps) simp

lemma hex_upper_chars:
  "c \<in> set (hex_upper n) \<Longrightarrow> c \<notin> {CHR ''_'', CHR '';'', CHR ''+'', CHR ''-'', CHR ''x'', CHR ''X'', CHR 0x0D} \<and> \<not> is_space_b c"
  using hex_upper_digits hex_char_facts(2,3) by metis

lemma read_digits_hex:
  "read_digits 16 0 us (hex_upper n @ rest) = read_digits 16 (int n) False rest"
proof (induction n arbitrary: rest us rule: hex_upper.induct)
  case (1 n)
  show ?case
  proof (cases "n < 16")
    case True
    then show ?thesis using hex_char_facts [OF True] by (simp add: hex_upper.simps [of n])
  next
    case False
    have d: "n mod 16 < 16" by simp
    have "read_digits 16 0 us (hex_upper n @ rest) =
        read_digits 16 0 us (hex_upper (n div 16) @ hex_char (n mod 16) # rest)"
      using False by (simp add: hex_upper.simps [of n])
    also have "\<dots> = read_digits 16 (int (n div 16)) False (hex_char (n mod 16) # rest)"
      using 1 [OF False] by blast
    also have "\<dots> = read_digits 16 (int (n div 16) * 16 + int (n mod 16)) False rest"
      using hex_char_facts [OF d] d by (simp flip: of_nat_mod)
    also have "int (n div 16) * 16 + int (n mod 16) = int n"
      by (metis div_mult_mod_eq of_nat_add of_nat_mult of_nat_numeral)
    finally show ?thesis .
  qed
qed

lemma read_hex: "read_unsigned 16 (hex_upper n) = Inr (int n)"
proof -
  obtain c cs where c: "hex_upper n = c # cs" by (meson neq_Nil_conv hex_upper_nonempty)
  have "drop_base_prefix 16 (hex_upper n) = hex_upper n"
  proof (cases cs)
    case (Cons x rest)
    then have "x \<noteq> CHR ''x''" "x \<noteq> CHR ''X''" using hex_upper_chars [of x n] c by auto
    with c Cons show ?thesis by (simp add: drop_base_prefix_def)
  qed (simp add: c drop_base_prefix_def)
  then show ?thesis using read_digits_hex [of True n "[]"] by (simp add: read_unsigned_def)
qed

lemma hex_upper_head:
  obtains c cs where "hex_upper n = c # cs" "c \<noteq> CHR ''+''" "c \<noteq> CHR ''-''"
proof -
  obtain c cs where c: "hex_upper n = c # cs" by (meson neq_Nil_conv hex_upper_nonempty)
  then show ?thesis using that hex_upper_chars [of c n] by auto
qed

lemma chunk_size_hex: "chunk_size (hex_upper n) = Inr (int n)"
proof -
  have semi: "split_on CHR '';'' (hex_upper n) = [hex_upper n]"
    by (rule split_on_no_sep) (use hex_upper_chars in blast)
  have sp: "strip_by is_space_b (hex_upper n) = hex_upper n"
    by (rule strip_by_id) (use hex_upper_chars [of "hd (hex_upper n)" n] hex_upper_chars [of "last (hex_upper n)" n] in auto)
  obtain c cs where "hex_upper n = c # cs" "c \<noteq> CHR ''+''" "c \<noteq> CHR ''-''" by (rule hex_upper_head)
  with sp semi read_hex [of n] show ?thesis by (simp add: chunk_size_def py_int_b_def Let_def)
qed

lemma find_CRLF: "CHR 0x0D \<notin> set line \<Longrightarrow> find_sub CRLF (line @ CRLF @ rest) = Some (length line)"
  by (induction line) auto

lemma partition_CRLF: "CHR 0x0D \<notin> set line \<Longrightarrow> partition_sub CRLF (line @ CRLF @ rest) = (line, rest)"
  using find_CRLF [of line rest] by (simp add: partition_sub_def)

lemma decode_ref_chunks:
  assumes "[] \<notin> set pieces"
  shows "decode_ref body (write_chunked pieces @ tail) = Some (Inr (body @ concat pieces))"
  using assms
proof (induction pieces arbitrary: body)
  case Nil
  have "chunk_size ''0'' = Inr 0" by code_simp
  with partition_CRLF [of "''0''" "CRLF @ tail"] show ?case
    by (simp add: decode_ref.simps [of body] write_chunked_def)
next
  case (Cons p ps)
  have "p \<noteq> []" using Cons.prems by auto
  have "CHR 0x0D \<notin> set (hex_upper (length p))" using hex_upper_chars by blast
  from partition_CRLF [OF this, of "p @ CRLF @ write_chunked ps @ tail"] chunk_size_hex [of "length p"] Cons \<open>p \<noteq> []\<close>
  show ?case
    by (subst decode_ref.simps) (simp add: write_chunked_def write_chunk_def nat_add_distrib)
qed

text \<open>
  What a server sends in chunks is what the client reassembles, in whatever pieces the network
  delivers it: for every list of nonempty chunks, every split of the encoded stream into receive
  buffers and any bytes that follow, \<^verbatim>\<open>_decode_chunked\<close> returns the concatenation of the chunks.
\<close>

theorem chunked_round_trip:
  assumes "[] \<notin> set pieces" "[] \<notin> set cs" "buf @ concat cs = write_chunked pieces @ tail"
  shows "decode_chunked None [] cs buf = Inr (concat pieces)"
  using decode_chunked_ref [OF decode_ref_chunks [OF assms(1), of "[]" tail] assms(2) assms(3) [symmetric]] by simp

theorem chunked_round_trip_witness:
  "decode_chunked None [] [[CHR 0x0A, CHR ''a''], ''bc'', CRLF @ ''0'' @ CRLF @ CRLF] [CHR ''3'', CHR 0x0D] = Inr ''abc''"
proof -
  have "hex_upper 3 = ''3''" by code_simp
  then have "[CHR ''3'', CHR 0x0D] @ concat [[CHR 0x0A, CHR ''a''], ''bc'', CRLF @ ''0'' @ CRLF @ CRLF] = write_chunked [''abc''] @ []"
    by (simp add: write_chunked_def write_chunk_def numeral_3_eq_3)
  from chunked_round_trip [OF _ _ this] show ?thesis by simp
qed

text \<open>
  C10. The result of \<^verbatim>\<open>http_get\<close> does not depend on how the network cuts the reply: if the reference, which
  reads the whole reply at once, is defined (no negative chunk size or content length), then for every sequence of receive buffers
  with these bytes the client returns the reference result, the parsed status, headers and framed body or the
  same exception.
\<close>

theorem http_get_fragmentation:
  assumes "http_ref s = Some r" "encode_ascii (request_text host port path) = Inr req"
  shows "\<forall>exchange cs. exchange req = Inr (cs, None) \<and> concat cs = s \<and> [] \<notin> set cs \<longrightarrow>
    http_get exchange host port path = r"
  using http_get_ref assms by blast

section \<open>The demonstration\<close>

definition HOST :: string where "HOST = ''127.0.0.1''"

definition http_main :: "(string \<Rightarrow> (chunks \<times> py_error option) res) \<Rightarrow> (string \<Rightarrow> (chunks \<times> py_error option) res) \<Rightarrow> int \<Rightarrow> unit res" where
  "http_main ex1 ex2 port =
     rbind (http_get ex1 HOST port ''/'') (\<lambda>resp.
     rbind (py_assert (rs_status resp = 200)) (\<lambda>_.
     rbind (py_assert (rs_body resp = ''hello over content-length'')) (\<lambda>_.
     rbind (dict_lookup (rs_headers resp) ''content-length'') (\<lambda>cl.
     rbind (py_int 10 cl) (\<lambda>n.
     rbind (py_assert (n = int (length (rs_body resp)))) (\<lambda>_.
     rbind (http_get ex2 HOST port ''/chunked'') (\<lambda>resp.
     rbind (py_assert (rs_status resp = 200)) (\<lambda>_.
     rbind (py_assert (map_of (rs_headers resp) ''transfer-encoding'' = Some ''chunked'')) (\<lambda>_.
     py_assert (rs_body resp = ''chunk-one chunk-two chunk-three''))))))))))"

definition std_headers :: "string list" where
  "std_headers = [''Server: BaseHTTP/0.6 Python/3.12'', ''Date: Mon, 01 Jan 2024 00:00:00 GMT'']"

lemma request_ascii: "list_all (\<lambda>c. (of_char c :: nat) < 128) path \<Longrightarrow>
    encode_ascii (request_text HOST port path) = Inr (request_text HOST port path)"
proof -
  have "list_all (\<lambda>c. (of_char c :: nat) < 128) (py_str port)"
    using ustr_of_py_str [of _ port] by (auto simp: list_all_iff ustr_of_def)
  then show "list_all (\<lambda>c. (of_char c :: nat) < 128) path \<Longrightarrow> ?thesis"
    by (simp add: encode_ascii_def request_text_def HOST_def)
qed

lemma backend_plain: "http_ref (do_GET std_headers ''/'') =
   Some (Inr \<lparr>rs_status = 200, rs_reason = ''OK'', rs_headers = [(''server'', ''BaseHTTP/0.6 Python/3.12''),
     (''date'', ''Mon, 01 Jan 2024 00:00:00 GMT''), (''content-type'', ''text/plain''), (''content-length'', ''25'')],
     rs_body = ''hello over content-length''\<rparr>)"
  by code_simp

lemma backend_chunked: "http_ref (do_GET std_headers ''/chunked'') =
   Some (Inr \<lparr>rs_status = 200, rs_reason = ''OK'', rs_headers = [(''server'', ''BaseHTTP/0.6 Python/3.12''),
     (''date'', ''Mon, 01 Jan 2024 00:00:00 GMT''), (''content-type'', ''text/plain''), (''transfer-encoding'', ''chunked'')],
     rs_body = ''chunk-one chunk-two chunk-three''\<rparr>)"
  by code_simp

text \<open>
  The asserts of the script hold however the backend's two replies arrive.
\<close>

lemma http_main_passes:
  assumes "concat cs1 = do_GET std_headers ''/''" "[] \<notin> set cs1" "concat cs2 = do_GET std_headers ''/chunked''" "[] \<notin> set cs2"
  shows "http_main (\<lambda>_. Inr (cs1, None)) (\<lambda>_. Inr (cs2, None)) port = Inr ()"
proof -
  have a: "encode_ascii (request_text HOST port ''/'') = Inr (request_text HOST port ''/'')"
    "encode_ascii (request_text HOST port ''/chunked'') = Inr (request_text HOST port ''/chunked'')"
    by (rule request_ascii, simp)+
  note g = http_get_ref [OF backend_plain [folded assms(1)] assms(2) a(1)] http_get_ref [OF backend_chunked [folded assms(3)] assms(4) a(2)]
  have "py_int 10 ''25'' = Inr 25" by code_simp
  then show ?thesis
    by (simp add: http_main_def g [where exchange = "\<lambda>_. Inr (cs1, None)"] g [where exchange = "\<lambda>_. Inr (cs2, None)"]
        py_assert_def dict_lookup_def)
qed

theorem http_get_fragmentation_witness:
  "\<exists>r. http_get (\<lambda>_. Inr (map (\<lambda>c. [c]) (do_GET std_headers ''/''), None)) HOST 80 ''/'' = Inr r \<and>
     rs_body r = ''hello over content-length''"
proof -
  have a: "encode_ascii (request_text HOST 80 ''/'') = Inr (request_text HOST 80 ''/'')"
    by (rule request_ascii) simp
  have c: "concat (map (\<lambda>c. [c]) s) = s" "[] \<notin> set (map (\<lambda>c. [c]) s)" for s :: string
    by (induction s) auto
  show ?thesis
    using http_get_fragmentation [OF backend_plain a] c by simp
qed

section \<open>Truncated and malformed replies\<close>

lemma decode_ref_Nil: "decode_ref body [] = Some (Inr body)"
  by (simp add: decode_ref.simps [of body "[]"] partition_sub_def chunk_size_Nil)

text \<open>
  A reply that is cut off is accepted as complete: when the server announces a chunk of \<open>n\<close> bytes, or
  a content length of \<open>n\<close>, and the connection closes after fewer, \<^verbatim>\<open>_decode_chunked\<close> and \<^verbatim>\<open>_recv_exactly\<close> return the
  bytes that came, without an error.
\<close>

theorem truncated_reply_accepted:
  assumes "length data < n" "[] \<notin> set cs"
  shows "(buf @ concat cs = hex_upper n @ CRLF @ data \<longrightarrow> decode_chunked None [] cs buf = Inr data) \<and>
    (buf @ concat cs = data \<longrightarrow> (\<exists>rest cs'. recv_exactly None (int n) buf cs = Inr (data, rest, cs')))"
proof (intro conjI impI)
  assume s: "buf @ concat cs = hex_upper n @ CRLF @ data"
  have "CHR 0x0D \<notin> set (hex_upper n)" using hex_upper_chars by blast
  from partition_CRLF [OF this, of data] have "decode_ref [] (hex_upper n @ CRLF @ data) = Some (Inr data)"
    using assms(1) chunk_size_hex [of n] decode_ref_Nil [of data] by (subst decode_ref.simps) simp
  from decode_chunked_ref [OF this assms(2) s [symmetric]] show "decode_chunked None [] cs buf = Inr data" .
next
  assume "buf @ concat cs = data"
  with recv_exactly_ref [OF assms(2), of "int n" buf] assms(1)
  show "\<exists>rest cs'. recv_exactly None (int n) buf cs = Inr (data, rest, cs')" by simp
qed

theorem truncated_reply_accepted_witness:
  "decode_chunked None [] [] (hex_upper 100 @ CRLF @ ''half'') = Inr ''half''"
  using truncated_reply_accepted [of "''half''" 100 "[]" "hex_upper 100 @ CRLF @ ''half''"] by simp

text \<open>
  A negative chunk size is accepted, and then the body depends on how the bytes arrive: for the same
  stream, a size line \<^verbatim>\<open>-2\<close> followed by the terminating chunk, one receive buffer gives a different body than two.
\<close>

theorem negative_chunk_size_accepted:
  "decode_chunked None [] [] (''-2'' @ CRLF @ ''0'' @ CRLF @ CRLF) = Inr (''0'' @ CRLF) \<and>
   decode_chunked None [] [''0'' @ CRLF @ CRLF] (''-2'' @ CRLF) = Inr []"
  by code_simp

end
