(* ===== verification/Reverse_Proxy.thy ===== *)
theory Reverse_Proxy
  imports Http_Client
begin

text \<open>
  \<^verbatim>\<open>comp_networking/examples/reverse_proxy.py\<close>: the backend pool, active health checks, the two
  selection strategies and the relaying of one request. Members are identified by their index in
  \<^verbatim>\<open>self.members\<close>. What the network does (health probes, the client's chunks, the backend's reply) is a
  parameter. Bytes are characters, chunks are what successive \<^verbatim>\<open>recv\<close> calls return, as in \<open>Http_Client\<close>.
\<close>

section \<open>The pool\<close>

record member =
  m_backend :: string
  m_healthy :: bool
  m_inflight :: int

record proxy =
  px_members :: "member list"
  px_strategy :: string
  px_rr_index :: nat

definition pool_member :: "string \<Rightarrow> member" where
  "pool_member b = \<lparr>m_backend = b, m_healthy = True, m_inflight = 0\<rparr>"

definition proxy_init :: "string list \<Rightarrow> string \<Rightarrow> proxy" where
  "proxy_init bs strategy = \<lparr>px_members = map pool_member bs, px_strategy = strategy, px_rr_index = 0\<rparr>"

text \<open>One round of \<^verbatim>\<open>_health_loop\<close>: \<open>probe\<close> gives the status of \<^verbatim>\<open>/health\<close> or an exception.\<close>

definition health_round :: "(string \<Rightarrow> int res) \<Rightarrow> proxy \<Rightarrow> proxy" where
  "health_round probe p =
     p\<lparr>px_members := map (\<lambda>m. m\<lparr>m_healthy := (case probe (m_backend m) of Inl _ \<Rightarrow> False | Inr status \<Rightarrow> status = 200)\<rparr>) (px_members p)\<rparr>"

definition healthy_members :: "proxy \<Rightarrow> nat list" where
  "healthy_members p = filter (\<lambda>i. m_healthy (px_members p ! i)) [0..<length (px_members p)]"

text \<open>\<^verbatim>\<open>min(xs, key=f)\<close>: the first element with the least key.\<close>

fun min_by :: "('a \<Rightarrow> int) \<Rightarrow> 'a list \<Rightarrow> 'a option" where
  "min_by f [] = None"
| "min_by f (x # xs) = (case min_by f xs of None \<Rightarrow> Some x | Some y \<Rightarrow> if f y < f x then Some y else Some x)"

definition select :: "proxy \<Rightarrow> nat option \<times> proxy" where
  "select p =
     (let healthy = healthy_members p in
      if healthy = [] then (None, p)
      else if px_strategy p = ''least_connections''
      then (min_by (\<lambda>i. m_inflight (px_members p ! i)) healthy, p)
      else let i = (px_rr_index p + 1) mod length healthy in (Some (healthy ! i), p\<lparr>px_rr_index := i\<rparr>))"

section \<open>Handling a request\<close>

definition read_http_message :: "py_error option \<Rightarrow> chunks \<Rightarrow> string res" where
  "read_http_message e cs = rbind (fill_until e (CRLF @ CRLF) [] cs) (\<lambda>(buf, _). Inr buf)"

text \<open>
  \<^verbatim>\<open>_proxy_to_backend\<close>: \<open>up\<close> is the connection to the backend, a failure to connect or the chunks of the
  reply with their end, where a timeout (\<open>timed_out\<close>) ends the reply as an end of file does.
\<close>

datatype up_end = EOF | Timeout | Broken py_error

fun relay :: "string \<Rightarrow> chunks \<Rightarrow> up_end \<Rightarrow> string res" where
  "relay resp [] EOF = Inr resp"
| "relay resp [] Timeout = Inr resp"
| "relay resp [] (Broken e) = Inl e"
| "relay resp (c # cs) fin = (if c = [] then Inr resp else relay (resp @ c) cs fin)"

definition proxy_to_backend :: "(string \<Rightarrow> string \<Rightarrow> (chunks \<times> up_end) res) \<Rightarrow> string \<Rightarrow> string \<Rightarrow> string res" where
  "proxy_to_backend up backend request =
     rbind (up backend request) (\<lambda>(cs, fin). relay [] cs fin)"

definition unavailable :: string where
  "unavailable = ''HTTP/1.1 503 Service Unavailable'' @ CRLF @ ''Content-Length: 0'' @ CRLF @ CRLF"

definition add_inflight :: "nat \<Rightarrow> int \<Rightarrow> proxy \<Rightarrow> proxy" where
  "add_inflight i d p =
     p\<lparr>px_members := (px_members p)[i := (px_members p ! i)\<lparr>m_inflight := m_inflight (px_members p ! i) + d\<rparr>]\<rparr>"

text \<open>
  \<^verbatim>\<open>_handle\<close> with no other handler running (interleaved updates of the counts are \<open>inflight_step\<close> below): the bytes sent to the client, or the exception that ends the thread. \<open>send\<close> is the
  client's end of \<^verbatim>\<open>sendall\<close>, which may raise. The \<^verbatim>\<open>finally\<close> runs in both cases.
\<close>

definition handle ::
    "(string \<Rightarrow> string \<Rightarrow> (chunks \<times> up_end) res) \<Rightarrow> (string \<Rightarrow> unit res) \<Rightarrow> py_error option \<Rightarrow> chunks \<Rightarrow> proxy \<Rightarrow> string res \<times> proxy" where
  "handle up send e cs p =
     (case read_http_message e cs of
        Inl err \<Rightarrow> (Inl err, p)
      | Inr request \<Rightarrow>
          if request = [] then (Inr [], p)
          else case select p of
            (None, p) \<Rightarrow> (rbind (send unavailable) (\<lambda>_. Inr unavailable), p)
          | (Some i, p) \<Rightarrow>
              let p = add_inflight i 1 p;
                  sent = rbind (proxy_to_backend up (m_backend (px_members p ! i)) request) (\<lambda>response.
                         rbind (send response) (\<lambda>_. Inr response)) in
              (sent, add_inflight i (- 1) p))"

section \<open>Selection\<close>

lemma healthy_members_iff: "i \<in> set (healthy_members p) \<longleftrightarrow> i < length (px_members p) \<and> m_healthy (px_members p ! i)"
  by (auto simp: healthy_members_def)

lemma distinct_healthy [simp]: "distinct (healthy_members p)"
  by (simp add: healthy_members_def)

lemma min_by_None [simp]: "min_by f xs = None \<longleftrightarrow> xs = []"
  by (cases xs) (auto split: option.splits)

lemma min_by_Some: "min_by f xs = Some x \<Longrightarrow> x \<in> set xs \<and> (\<forall>y \<in> set xs. f x \<le> f y)"
  by (induction xs arbitrary: x) (force split: option.splits if_splits)+

text \<open>
  Traffic only ever goes to a healthy backend: after a health round, \<^verbatim>\<open>_select\<close> returns a member whose
  probe answered 200, and none exactly when there is no such member; under \<^verbatim>\<open>least_connections\<close> it has the fewest
  requests in flight of all healthy members.
\<close>

theorem select_healthy:
  assumes "p' = health_round probe p" "select p' = (r, p'')"
  shows "(case r of
      None \<Rightarrow> (\<forall>m \<in> set (px_members p). probe (m_backend m) \<noteq> Inr 200)
    | Some i \<Rightarrow> i < length (px_members p) \<and> probe (m_backend (px_members p ! i)) = Inr 200 \<and>
        (px_strategy p = ''least_connections'' \<longrightarrow>
          (\<forall>j < length (px_members p). probe (m_backend (px_members p ! j)) = Inr 200 \<longrightarrow>
            m_inflight (px_members p ! i) \<le> m_inflight (px_members p ! j)))) \<and>
    px_members p'' = px_members p'"
proof -
  have hm: "m_healthy (px_members p' ! i) \<longleftrightarrow> probe (m_backend (px_members p ! i)) = Inr 200"
    "m_inflight (px_members p' ! i) = m_inflight (px_members p ! i)" if "i < length (px_members p)" for i
    using that by (auto simp: assms(1) health_round_def split: sum.splits)
  have len: "length (px_members p') = length (px_members p)" "px_strategy p' = px_strategy p"
    by (simp_all add: assms(1) health_round_def)
  have set: "i \<in> set (healthy_members p') \<longleftrightarrow> i < length (px_members p) \<and> probe (m_backend (px_members p ! i)) = Inr 200" for i
    using hm by (auto simp: healthy_members_iff len)
  have mem: "px_members p'' = px_members p'" using assms(2) by (auto simp: select_def Let_def split: if_splits)
  show ?thesis
  proof (cases r)
    case None
    then have "healthy_members p' = []" using assms(2) by (auto simp: select_def Let_def split: if_splits)
    then have "\<forall>m \<in> set (px_members p). probe (m_backend m) \<noteq> Inr 200"
      using set by (metis in_set_conv_nth empty_iff empty_set)
    with None mem show ?thesis by simp
  next
    case (Some i)
    have ne: "healthy_members p' \<noteq> []" using assms(2) Some by (auto simp: select_def Let_def split: if_splits)
    show ?thesis
    proof (cases "px_strategy p = ''least_connections''")
      case True
      then have "min_by (\<lambda>i. m_inflight (px_members p' ! i)) (healthy_members p') = Some i"
        using assms(2) Some ne by (auto simp: select_def Let_def len)
      note mn = min_by_Some [OF this]
      have "m_inflight (px_members p ! i) \<le> m_inflight (px_members p ! j)"
        if "j < length (px_members p)" "probe (m_backend (px_members p ! j)) = Inr 200" for j
        using mn that set [of i] set [of j] hm(2) by fastforce
      with mn set [of i] Some mem show ?thesis by simp
    next
      case False
      then have "i = healthy_members p' ! ((px_rr_index p' + 1) mod length (healthy_members p'))"
        using assms(2) Some ne by (auto simp: select_def Let_def len)
      then have "i \<in> set (healthy_members p')" using ne by simp
      with set [of i] Some mem False show ?thesis by simp
    qed
  qed
qed

theorem select_healthy_witness:
  "fst (select (health_round (\<lambda>b. if b = ''b'' then Inr 200 else Inr 503) (proxy_init [''a'', ''b''] ''round_robin''))) = Some 1"
proof -
  let ?probe = "\<lambda>b. if b = ''b'' then Inr 200 else Inr 503"
  let ?p = "proxy_init [''a'', ''b''] ''round_robin''"
  obtain r p'' where s: "select (health_round ?probe ?p) = (r, p'')" by (cases "select (health_round ?probe ?p)")
  from select_healthy [OF refl s] have "r = Some 1"
    by (auto simp: proxy_init_def pool_member_def nth_Cons' split: option.splits if_splits)
  with s show ?thesis by simp
qed

section \<open>Round-robin fairness\<close>

fun run_select :: "nat \<Rightarrow> proxy \<Rightarrow> nat option list" where
  "run_select 0 p = []"
| "run_select (Suc n) p = (let (r, p') = select p in r # run_select n p')"

lemma healthy_members_rr [simp]: "healthy_members (p\<lparr>px_rr_index := i\<rparr>) = healthy_members p"
  by (simp add: healthy_members_def)

lemma run_select_rr:
  assumes "healthy_members p \<noteq> []" "px_strategy p \<noteq> ''least_connections''"
  shows "run_select n p = map (\<lambda>j. Some (healthy_members p ! ((px_rr_index p + 1 + j) mod length (healthy_members p)))) [0..<n]"
  using assms
proof (induction n arbitrary: p)
  case (Suc n)
  let ?k = "length (healthy_members p)"
  let ?i = "(px_rr_index p + 1) mod ?k"
  have "(?i + (1 + j)) mod ?k = (px_rr_index p + 1 + (1 + j)) mod ?k" for j
    by (rule mod_add_left_eq)
  then have "Suc (?i + j) mod ?k = Suc (Suc (px_rr_index p + j)) mod ?k" for j by simp
  with Suc show ?case
    by (simp add: select_def Let_def upt_conv_Cons map_Suc_upt [symmetric] o_def del: upt_Suc)
qed simp

text \<open>How often a residue is hit by \<open>n\<close> consecutive numbers.\<close>

definition hits :: "nat \<Rightarrow> nat \<Rightarrow> nat \<Rightarrow> nat \<Rightarrow> nat" where
  "hits a k r n = card {j. j < n \<and> (a + j) mod k = r}"

lemma residue_inj: "inj_on (\<lambda>j. (a + j) mod k) {j. j < (k :: nat)}"
proof (rule inj_onI, simp)
  fix x y :: nat
  assume lt: "x < k" "y < k" and eq: "(a + x) mod k = (a + y) mod k"
  have "x = y" if "x \<le> y" "x < k" "y < k" "(a + x) mod k = (a + y) mod k" for x y :: nat
  proof -
    have "k dvd (a + y) - (a + x)" using mod_eq_dvd_iff_nat [of "a + x" "a + y" k] that(1,4) by simp
    then have "k dvd y - x" by simp
    moreover have "y - x < k" using that(3) by simp
    ultimately have "y - x = 0" using nat_dvd_not_less [of "y - x" k] by blast
    with that(1) show ?thesis by simp
  qed
  from this [of x y] this [of y x] lt eq show "x = y" by (cases "x \<le> y") auto
qed

lemma hits_small: "n \<le> k \<Longrightarrow> hits a k r n \<le> 1"
proof -
  assume n: "n \<le> k"
  let ?S = "{j. j < n \<and> (a + j) mod k = r}"
  have inj: "inj_on (\<lambda>j. (a + j) mod k) ?S" by (rule inj_on_subset [OF residue_inj]) (use n in auto)
  have "(\<lambda>j. (a + j) mod k) ` ?S \<subseteq> {r}" by auto
  from card_inj_on_le [OF inj this] show ?thesis by (simp add: hits_def)
qed

lemma hits_full: "r < k \<Longrightarrow> hits a k r k = 1"
proof -
  assume r: "r < k"
  have "(\<lambda>j. (a + j) mod k) ` {j. j < k} = {j. j < k}"
    by (rule card_subset_eq) (use r residue_inj [of a k] in \<open>auto simp: card_image\<close>)
  with r obtain j where "j < k" "(a + j) mod k = r" by (metis (mono_tags, lifting) imageE mem_Collect_eq)
  then have "0 < hits a k r k" by (auto simp: hits_def card_gt_0_iff)
  with hits_small [of k k a r] show ?thesis by simp
qed

lemma hits_add: "r < k \<Longrightarrow> hits a k r (k + n) = 1 + hits a k r n"
proof -
  assume r: "r < k"
  have shift: "(a + (k + i)) mod k = (a + i) mod k" for i by (metis add.left_commute mod_add_self1)
  have "{j. j < k + n \<and> (a + j) mod k = r} =
      {j. j < k \<and> (a + j) mod k = r} \<union> (\<lambda>j. k + j) ` {j. j < n \<and> (a + j) mod k = r}" (is "_ = ?A \<union> ?B")
  proof (intro set_eqI iffI)
    fix j assume j: "j \<in> {j. j < k + n \<and> (a + j) mod k = r}"
    show "j \<in> ?A \<union> ?B"
    proof (cases "j < k")
      case False
      then obtain i where "j = k + i" by (metis le_Suc_ex not_less)
      with j show ?thesis by (auto simp: shift)
    qed (use j in auto)
  qed (auto simp: shift)
  moreover have "card (?A \<union> ?B) = card ?A + card ?B" by (rule card_Un_disjoint) auto
  moreover have "card ?B = card {j. j < n \<and> (a + j) mod k = r}" by (rule card_image) auto
  ultimately show ?thesis using hits_full [OF r, of a] by (simp add: hits_def)
qed

lemma hits_bounds: "r < k \<Longrightarrow> n div k \<le> hits a k r n \<and> hits a k r n \<le> n div k + 1"
proof (induction n rule: less_induct)
  case (less n)
  show ?case
  proof (cases "n < k")
    case True
    then show ?thesis using hits_small [of n k a r] by simp
  next
    case False
    then obtain m where m: "n = k + m" by (metis le_Suc_ex not_less)
    moreover have "k \<noteq> 0" using less.prems by simp
    ultimately have "n div k = Suc (m div k)" using div_add_self1 [of k m] by simp
    with m less.IH [of m] less.prems hits_add [OF less.prems, of a m] show ?thesis by simp
  qed
qed

text \<open>
  Round robin is fair: while the health of the \<open>k\<close> healthy members does not change, any \<open>n\<close> consecutive selections
  give each of them \<open>n div k\<close> or \<open>n div k + 1\<close> requests, wherever the index stands.
\<close>

theorem round_robin_fair:
  assumes "px_strategy p \<noteq> ''least_connections''" "i \<in> set (healthy_members p)"
  defines "k \<equiv> length (healthy_members p)"
  shows "n div k \<le> count_list (run_select n p) (Some i) \<and> count_list (run_select n p) (Some i) \<le> n div k + 1"
proof -
  obtain r where r: "r < k" "healthy_members p ! r = i" using assms(2) by (auto simp: in_set_conv_nth k_def)
  then have ne: "healthy_members p \<noteq> []" by (auto simp: k_def)
  let ?a = "px_rr_index p + 1"
  have eq: "Some (healthy_members p ! ((?a + j) mod k)) = Some i \<longleftrightarrow> (?a + j) mod k = r" for j
    using nth_eq_iff_index_eq [OF distinct_healthy, of "(?a + j) mod k" p r] r ne
      mod_less_divisor [of k "?a + j"] by (simp add: k_def)
  have "count_list (run_select n p) (Some i) = length (filter (\<lambda>j. (?a + j) mod k = r) [0..<n])"
    unfolding run_select_rr [OF ne assms(1)] k_def [symmetric] count_list_eq_length_filter filter_map length_map o_def
    using eq by (metis (mono_tags, lifting))
  also have "\<dots> = hits ?a k r n"
    by (auto simp: hits_def length_filter_conv_card intro!: arg_cong [where f = card])
  finally show ?thesis using hits_bounds [OF r(1), of n ?a] by simp
qed

theorem round_robin_fair_witness:
  "count_list (run_select 60 (proxy_init [''a'', ''b'', ''c''] ''round_robin'')) (Some 0) \<in> {20, 21}"
proof -
  let ?p = "proxy_init [''a'', ''b'', ''c''] ''round_robin''"
  have h: "healthy_members ?p = [0, 1, 2]"
    by (simp add: healthy_members_def proxy_init_def pool_member_def upt_rec)
  from round_robin_fair [of ?p 0 60] h show ?thesis by (auto simp: proxy_init_def)
qed

section \<open>Relaying\<close>

lemma relay_all: "[] \<notin> set cs \<Longrightarrow> fin = EOF \<or> fin = Timeout \<Longrightarrow> relay resp cs fin = Inr (resp @ concat cs)"
  by (induction cs arbitrary: resp) auto

lemma add_inflight_back:
  "i < length (px_members p) \<Longrightarrow> add_inflight i (- 1) (add_inflight i 1 p) = p"
  by (simp add: add_inflight_def)

text \<open>
  C28. One request through the proxy, with no other handler running: a nonempty request is answered with the 503 reply when no member is
  healthy, and otherwise with exactly the bytes the selected healthy backend sent, however they were cut, when it answers and its connection ends or times
  out and the sends to the client succeed; in every case, exceptions of the backend or of the client included, the in-flight counts are afterwards what they were before.
\<close>

theorem handle_relays:
  assumes "read_http_message e cs = Inr req" "req \<noteq> []" "send = (\<lambda>_. Inr ())"
  shows "(healthy_members p = [] \<longrightarrow> handle up send e cs p = (Inr unavailable, p)) \<and>
    (\<forall>i p' rcs fin. select p = (Some i, p') \<and> up (m_backend (px_members p ! i)) req = Inr (rcs, fin) \<and> [] \<notin> set rcs \<and> fin \<in> {EOF, Timeout} \<longrightarrow>
      i \<in> set (healthy_members p) \<and> handle up send e cs p = (Inr (concat rcs), p')) \<and>
    (\<forall>up' send' e' cs'. px_members (snd (handle up' send' e' cs' p)) = px_members p)"
proof -
  have sel: "i < length (px_members p) \<and> i \<in> set (healthy_members p) \<and> px_members p' = px_members p" if "select p = (Some i, p')" for i p'
  proof -
    from that have "i \<in> set (healthy_members p) \<and> px_members p' = px_members p"
      by (auto simp: select_def Let_def split: if_splits dest: min_by_Some)
    then show ?thesis by (simp add: healthy_members_iff)
  qed
  have keep: "px_members (snd (handle up' send' e' cs' p)) = px_members p" for up' send' e' cs'
  proof -
    obtain r p' where s: "select p = (r, p')" by (cases "select p")
    have "px_members p' = px_members p"
    proof (cases r)
      case None
      with s show ?thesis by (auto simp: select_def Let_def split: if_splits)
    qed (use s sel in auto)
    then show ?thesis
      using s sel by (auto simp: handle_def Let_def add_inflight_back split: sum.splits option.splits)
  qed
  have none: "handle up send e cs p = (Inr unavailable, p)" if "healthy_members p = []"
    using that assms by (simp add: handle_def select_def)
  have some: "handle up send e cs p = (Inr (concat rcs), p')"
    if "select p = (Some i, p')" "up (m_backend (px_members p ! i)) req = Inr (rcs, fin)" "[] \<notin> set rcs" "fin \<in> {EOF, Timeout}" for i p' rcs fin
  proof -
    have b: "m_backend (px_members (add_inflight i 1 p') ! i) = m_backend (px_members p ! i)"
      using sel [OF that(1)] by (simp add: add_inflight_def)
    show ?thesis
      using that assms sel [OF that(1)] b relay_all [of rcs fin "[]"]
      by (simp add: handle_def proxy_to_backend_def add_inflight_back Let_def)
  qed
  from keep none some sel show ?thesis by blast
qed

theorem handle_relays_witness:
  "handle (\<lambda>b r. Inr ([''ab'', ''c''], EOF)) (\<lambda>_. Inr ()) None [''GET'' @ CRLF @ CRLF] (proxy_init [''x''] ''round_robin'') =
   (Inr ''abc'', proxy_init [''x''] ''round_robin'')"
proof -
  let ?p = "proxy_init [''x''] ''round_robin''"
  have r: "read_http_message None [''GET'' @ CRLF @ CRLF] = Inr (''GET'' @ CRLF @ CRLF)" by code_simp
  have s: "select ?p = (Some 0, ?p)" by code_simp
  show ?thesis
    using conjunct1 [OF conjunct2 [OF handle_relays [OF r _ refl, of ?p "\<lambda>b r. Inr ([''ab'', ''c''], EOF)"]]] s by simp
qed

section \<open>Unsynchronised in-flight counts\<close>

text \<open>
  \<^verbatim>\<open>member.inflight += 1\<close> and \<^verbatim>\<open>member.inflight -= 1\<close> run outside the lock, each as a read followed by a
  write. The state is the counter of one member and the threads that serve requests for it.
\<close>

datatype server_thread = Ready | IncRead int | Active | DecRead int | Finished

inductive inflight_step :: "int \<times> server_thread list \<Rightarrow> int \<times> server_thread list \<Rightarrow> bool" where
  inc_read: "t < length ts \<Longrightarrow> ts ! t = Ready \<Longrightarrow> inflight_step (c, ts) (c, ts[t := IncRead c])"
| inc_write: "t < length ts \<Longrightarrow> ts ! t = IncRead v \<Longrightarrow> inflight_step (c, ts) (v + 1, ts[t := Active])"
| dec_read: "t < length ts \<Longrightarrow> ts ! t = Active \<Longrightarrow> inflight_step (c, ts) (c, ts[t := DecRead c])"
| dec_write: "t < length ts \<Longrightarrow> ts ! t = DecRead v \<Longrightarrow> inflight_step (c, ts) (v - 1, ts[t := Finished])"

text \<open>
  Two requests to the same member can leave its counter at 1 or at -1 for good after both have finished,
  so \<^verbatim>\<open>least_connections\<close> then compares wrong loads.
\<close>

theorem inflight_lost_update:
  "inflight_step\<^sup>*\<^sup>* (0, [Ready, Ready]) (- 1, [Finished, Finished]) \<and>
   inflight_step\<^sup>*\<^sup>* (0, [Ready, Ready]) (1, [Finished, Finished])"
proof
  note hop = converse_rtranclp_into_rtranclp [where r = inflight_step] and last_hop = r_into_rtranclp [where r = inflight_step]
  have s1: "inflight_step (0, [Ready, Ready]) (0, [IncRead 0, Ready])" using inc_read [of 0 "[Ready, Ready]" 0] by simp
  have s2: "inflight_step (0, [IncRead 0, Ready]) (0, [IncRead 0, IncRead 0])" using inc_read [of 1 "[IncRead 0, Ready]" 0] by simp
  have s3: "inflight_step (0, [IncRead 0, IncRead 0]) (1, [Active, IncRead 0])" using inc_write [of 0 "[IncRead 0, IncRead 0]" 0 0] by simp
  have s4: "inflight_step (1, [Active, IncRead 0]) (1, [Active, Active])" using inc_write [of 1 "[Active, IncRead 0]" 0 1] by simp
  have s5: "inflight_step (c, [Active, Active]) (c, [DecRead c, Active])" for c using dec_read [of 0 "[Active, Active]" c] by simp
  have s6: "inflight_step (1, [DecRead 1, Active]) (0, [Finished, Active])" using dec_write [of 0 "[DecRead 1, Active]" 1 1] by simp
  have s7: "inflight_step (0, [Finished, Active]) (0, [Finished, DecRead 0])" using dec_read [of 1 "[Finished, Active]" 0] by simp
  have s8: "inflight_step (0, [Finished, DecRead 0]) (- 1, [Finished, Finished])" using dec_write [of 1 "[Finished, DecRead 0]" 0 0] by simp
  show "inflight_step\<^sup>*\<^sup>* (0, [Ready, Ready]) (- 1, [Finished, Finished])"
    by (rule hop [OF s1], rule hop [OF s2],
        rule hop [OF s3], rule hop [OF s4],
        rule hop [OF s5], rule hop [OF s6],
        rule hop [OF s7], rule last_hop [OF s8])
  have t2: "inflight_step (0, [IncRead 0, Ready]) (1, [Active, Ready])" using inc_write [of 0 "[IncRead 0, Ready]" 0 0] by simp
  have t3: "inflight_step (1, [Active, Ready]) (1, [Active, IncRead 1])" using inc_read [of 1 "[Active, Ready]" 1] by simp
  have t4: "inflight_step (1, [Active, IncRead 1]) (2, [Active, Active])" using inc_write [of 1 "[Active, IncRead 1]" 1 1] by simp
  have t6: "inflight_step (2, [DecRead 2, Active]) (2, [DecRead 2, DecRead 2])" using dec_read [of 1 "[DecRead 2, Active]" 2] by simp
  have t7: "inflight_step (2, [DecRead 2, DecRead 2]) (1, [Finished, DecRead 2])" using dec_write [of 0 "[DecRead 2, DecRead 2]" 2 2] by simp
  have t8: "inflight_step (1, [Finished, DecRead 2]) (1, [Finished, Finished])" using dec_write [of 1 "[Finished, DecRead 2]" 2 1] by simp
  show "inflight_step\<^sup>*\<^sup>* (0, [Ready, Ready]) (1, [Finished, Finished])"
    by (rule hop [OF s1], rule hop [OF t2],
        rule hop [OF t3], rule hop [OF t4],
        rule hop [OF s5], rule hop [OF t6],
        rule hop [OF t7], rule last_hop [OF t8])
qed

end
