(* ===== verification/Bounded_Queue.thy ===== *)
theory Bounded_Queue
  imports Prelude
begin

text \<open>
  Bounded buffers with condition variables and the thread systems built on them:
  \<^verbatim>\<open>producer_consumer.py\<close> (\<^verbatim>\<open>RawBoundedBuffer\<close> and the same workload on \<^verbatim>\<open>queue.Queue\<close>) and
  \<^verbatim>\<open>worker_pool.py\<close>. A step is one critical section under the buffer's lock; waiting threads sleep until
  a \<^verbatim>\<open>notify\<close> (which wakes any one of them) or a spurious wakeup, and then test the condition again.
\<close>

section \<open>The buffer\<close>

text \<open>\<open>Pill\<close> is the sentinel object (\<^verbatim>\<open>_DONE\<close>, \<^verbatim>\<open>_SHUTDOWN\<close>).\<close>

datatype item = Item int | Pill

text \<open>The bodies of \<^verbatim>\<open>put\<close> and \<^verbatim>\<open>get\<close>: \<open>None\<close> means that the caller goes to sleep on the condition.\<close>

definition buf_put :: "nat \<Rightarrow> item \<Rightarrow> item list \<Rightarrow> item list option" where
  "buf_put capacity x buf = (if length buf \<ge> capacity then None else Some (buf @ [x]))"

definition buf_get :: "item list \<Rightarrow> (item \<times> item list) option" where
  "buf_get buf = (case buf of [] \<Rightarrow> None | x # rest \<Rightarrow> Some (x, rest))"

section \<open>Threads\<close>

text \<open>
  A producer is the list of items it still has to put, with a flag that says whether it sleeps on
  \<^verbatim>\<open>not_full\<close>. The last producer of the list is the main thread, which puts the pills.
  A consumer is about to call \<^verbatim>\<open>get\<close>, sleeps on \<^verbatim>\<open>not_empty\<close>, processes an item, or has exited.
\<close>

type_synonym producer = "item list \<times> bool"

datatype consumer = CGet | CWait | CHold int | CExit

type_synonym pc_state = "item list \<times> producer list \<times> consumer list \<times> int list"

text \<open>
  When main may put pills: after joining the producers and, in the worker pool (\<open>drain\<close>), after \<^verbatim>\<open>tasks.join()\<close>,
  that is when no task is queued or being processed.
\<close>

definition gate :: "bool \<Rightarrow> item list \<Rightarrow> producer list \<Rightarrow> consumer list \<Rightarrow> nat \<Rightarrow> bool" where
  "gate drain buf ps cs i \<longleftrightarrow>
     i + 1 < length ps \<or>
     (\<forall>j. j + 1 < length ps \<longrightarrow> fst (ps ! j) = []) \<and>
     (drain \<longrightarrow> (\<forall>v. Item v \<notin> set buf \<and> CHold v \<notin> set cs))"

text \<open>\<^verbatim>\<open>notify\<close> on \<^verbatim>\<open>not_empty\<close> and on \<^verbatim>\<open>not_full\<close>: wakes one sleeper if there is one.\<close>

inductive wake_c :: "consumer list \<Rightarrow> consumer list \<Rightarrow> bool" where
  none: "CWait \<notin> set cs \<Longrightarrow> wake_c cs cs"
| one: "j < length cs \<Longrightarrow> cs ! j = CWait \<Longrightarrow> wake_c cs (cs[j := CGet])"

inductive wake_p :: "producer list \<Rightarrow> producer list \<Rightarrow> bool" where
  none: "\<forall>p \<in> set ps. \<not> snd p \<Longrightarrow> wake_p ps ps"
| one: "i < length ps \<Longrightarrow> snd (ps ! i) \<Longrightarrow> wake_p ps (ps[i := (fst (ps ! i), False)])"

text \<open>What a consumer does with what it got: exit on a pill, else process it and store \<open>work v\<close>.\<close>

definition receive :: "item \<Rightarrow> consumer" where
  "receive x = (case x of Item v \<Rightarrow> CHold v | Pill \<Rightarrow> CExit)"

inductive pc_step :: "nat \<Rightarrow> bool \<Rightarrow> (int \<Rightarrow> int) \<Rightarrow> pc_state \<Rightarrow> pc_state \<Rightarrow> bool" for capacity drain work where
  put: "i < length ps \<Longrightarrow> ps ! i = (x # xs, False) \<Longrightarrow> gate drain buf ps cs i \<Longrightarrow>
     buf_put capacity x buf = Some buf' \<Longrightarrow> wake_c cs cs' \<Longrightarrow>
     pc_step capacity drain work (buf, ps, cs, out) (buf', ps[i := (xs, False)], cs', out)"
| put_wait: "i < length ps \<Longrightarrow> ps ! i = (x # xs, False) \<Longrightarrow> gate drain buf ps cs i \<Longrightarrow>
     buf_put capacity x buf = None \<Longrightarrow>
     pc_step capacity drain work (buf, ps, cs, out) (buf, ps[i := (x # xs, True)], cs, out)"
| get: "j < length cs \<Longrightarrow> cs ! j = CGet \<Longrightarrow> buf_get buf = Some (x, buf') \<Longrightarrow> wake_p ps ps' \<Longrightarrow>
     pc_step capacity drain work (buf, ps, cs, out) (buf', ps', cs[j := receive x], out)"
| get_wait: "j < length cs \<Longrightarrow> cs ! j = CGet \<Longrightarrow> buf_get buf = None \<Longrightarrow>
     pc_step capacity drain work (buf, ps, cs, out) (buf, ps, cs[j := CWait], out)"
| store: "j < length cs \<Longrightarrow> cs ! j = CHold v \<Longrightarrow>
     pc_step capacity drain work (buf, ps, cs, out) (buf, ps, cs[j := CGet], out @ [work v])"

inductive pc_spurious :: "pc_state \<Rightarrow> pc_state \<Rightarrow> bool" where
  producer: "i < length ps \<Longrightarrow> snd (ps ! i) \<Longrightarrow> pc_spurious (buf, ps, cs, out) (buf, ps[i := (fst (ps ! i), False)], cs, out)"
| consumer: "j < length cs \<Longrightarrow> cs ! j = CWait \<Longrightarrow> pc_spurious (buf, ps, cs, out) (buf, ps, cs[j := CGet], out)"

text \<open>The systems of the two scripts, when all threads have been started.\<close>

definition producer_items :: "nat \<Rightarrow> nat \<Rightarrow> item list" where
  "producer_items per_producer pid = map (\<lambda>i. Item (int (pid * per_producer + i))) [0..<per_producer]"

definition run_init :: "nat \<Rightarrow> nat \<Rightarrow> nat \<Rightarrow> pc_state" where
  "run_init num_producers num_consumers per_producer =
     ([], map (\<lambda>pid. (producer_items per_producer pid, False)) [0..<num_producers] @ [(replicate num_consumers Pill, False)],
      replicate num_consumers CGet, [])"

text \<open>
  \<^verbatim>\<open>run_with_stdlib_queue\<close> runs the same threads on \<^verbatim>\<open>queue.Queue(maxsize)\<close>, whose \<^verbatim>\<open>put\<close> and \<^verbatim>\<open>get\<close> wait and
  notify in the same way; its \<^verbatim>\<open>task_done\<close> calls have no effect on it, as nobody joins the queue.
\<close>

definition queue_run_init :: "nat \<Rightarrow> nat \<Rightarrow> nat \<Rightarrow> pc_state" where
  "queue_run_init num_producers num_consumers per_producer =
     ([], map (\<lambda>pid. (producer_items per_producer pid, False)) [0..<num_producers] @ [(replicate num_consumers Pill, False)],
      replicate num_consumers CGet, [])"

definition pool_init :: "nat \<Rightarrow> int list \<Rightarrow> pc_state" where
  "pool_init num_workers tasks =
     ([], [(map Item tasks, False), (replicate num_workers Pill, False)], replicate num_workers CGet, [])"

definition do_work :: "int \<Rightarrow> int" where
  "do_work task = task * task"

text \<open>
  \<^verbatim>\<open>verify\<close>, and what the final asserts of \<^verbatim>\<open>worker_pool.main\<close> say of the abstract state; the pool itself,
  with \<^verbatim>\<open>completed\<close> and all five asserts, is in \<open>Worker_Pool\<close>.
\<close>

definition verify_consumed :: "int list \<Rightarrow> nat \<Rightarrow> nat \<Rightarrow> unit res" where
  "verify_consumed consumed num_producers per_producer =
     rbind (py_assert (length consumed = card (set consumed))) (\<lambda>_.
     rbind (py_assert (set consumed = {0..<int (num_producers * per_producer)})) (\<lambda>_.
     py_assert (length consumed = num_producers * per_producer)))"

text \<open>
  \<^verbatim>\<open>run_with_raw_buffer\<close> and \<^verbatim>\<open>run_with_stdlib_queue\<close> return \<^verbatim>\<open>consumed\<close> when all consumers have been joined; both
  buffers have 16 slots. \<^verbatim>\<open>main\<close> verifies the two results.
\<close>

abbreviation pc_any :: "nat \<Rightarrow> bool \<Rightarrow> (int \<Rightarrow> int) \<Rightarrow> pc_state \<Rightarrow> pc_state \<Rightarrow> bool" where
  "pc_any capacity drain work s s' \<equiv> pc_step capacity drain work s s' \<or> pc_spurious s s'"

definition run_returns :: "pc_state \<Rightarrow> int list \<Rightarrow> bool" where
  "run_returns start consumed \<longleftrightarrow>
     (\<exists>buf ps cs. (pc_any 16 False id)\<^sup>*\<^sup>* start (buf, ps, cs, consumed) \<and> list_all (\<lambda>c. c = CExit) cs)"

definition pc_main :: "int list \<Rightarrow> int list \<Rightarrow> unit res" where
  "pc_main consumed_raw consumed_q =
     rbind (verify_consumed consumed_raw 4 5000) (\<lambda>_. verify_consumed consumed_q 4 5000)"

definition pool_checks :: "nat \<Rightarrow> pc_state \<Rightarrow> unit res" where
  "pool_checks num_tasks s = (case s of (buf, ps, cs, results) \<Rightarrow>
     rbind (py_assert (length results = num_tasks)) (\<lambda>_.
     rbind (py_assert (sort results = sort (map (\<lambda>i. int i * int i) [0..<num_tasks]))) (\<lambda>_.
     rbind (py_assert (buf = [])) (\<lambda>_.
     py_assert (list_all (\<lambda>c. c = CExit) cs)))))"

section \<open>Counting\<close>

lemma mset_concat_update:
  "i < length xs \<Longrightarrow> mset (concat (map f (xs[i := y]))) + mset (f (xs ! i)) = mset (concat (map f xs)) + mset (f y)"
proof -
  assume i: "i < length xs"
  have "concat (map f xs) = concat (map f (take i xs)) @ f (xs ! i) @ concat (map f (drop (Suc i) xs))"
    by (subst id_take_nth_drop [OF i]) simp
  moreover have "concat (map f (xs[i := y])) = concat (map f (take i xs)) @ f y @ concat (map f (drop (Suc i) xs))"
    using i by (simp add: upd_conv_take_nth_drop)
  ultimately show ?thesis by (simp add: ac_simps)
qed

lemma sum_list_map_update:
  "i < length xs \<Longrightarrow> sum_list (map f (xs[i := y])) + f (xs ! i) = sum_list (map f xs) + (f y :: nat)"
proof -
  assume i: "i < length xs"
  have "sum_list (map f xs) = sum_list (map f (take i xs)) + f (xs ! i) + sum_list (map f (drop (Suc i) xs))"
    by (subst id_take_nth_drop [OF i]) simp
  moreover have "sum_list (map f (xs[i := y])) = sum_list (map f (take i xs)) + f y + sum_list (map f (drop (Suc i) xs))"
    using i by (simp add: upd_conv_take_nth_drop)
  ultimately show ?thesis by simp
qed

fun held :: "consumer \<Rightarrow> item list" where
  "held (CHold v) = [Item v]"
| "held CExit = [Pill]"
| "held _ = []"

definition all_items :: "pc_state \<Rightarrow> item multiset" where
  "all_items s = (case s of (buf, ps, cs, out) \<Rightarrow>
     mset (concat (map fst ps)) + mset buf + mset (concat (map held cs)))"

text \<open>
  Every step but \<open>store\<close> keeps the items in the system; \<open>store\<close> moves one to the output.
\<close>

lemma wake_c_items: "wake_c cs cs' \<Longrightarrow> mset (concat (map held cs')) = mset (concat (map held cs)) \<and> length cs' = length cs"
proof (induction rule: wake_c.induct)
  case (one j cs)
  then show ?case using mset_concat_update [of j cs held CGet] by simp
qed simp

lemma wake_p_items: "wake_p ps ps' \<Longrightarrow> map fst ps' = map fst ps"
  by (induction rule: wake_p.induct) (auto simp: map_update list_update_same_conv)

lemma pc_step_items:
  assumes "pc_step capacity drain work s s'"
  shows "(\<exists>v. snd (snd (snd s')) = snd (snd (snd s)) @ [work v] \<and> all_items s = add_mset (Item v) (all_items s')) \<or>
    snd (snd (snd s')) = snd (snd (snd s)) \<and> all_items s' = all_items s"
  using assms
proof cases
  case (put i ps x xs buf cs buf' cs' out)
  have "mset (concat (map fst (ps[i := (xs, False)]))) + {#x#} + mset xs = mset (concat (map fst ps)) + mset xs"
    using mset_concat_update [OF put(3), of fst "(xs, False)"] put(4) by simp
  with put wake_c_items [OF put(7)] show ?thesis
    by (auto simp: all_items_def buf_put_def split: if_splits)
next
  case (put_wait i ps x xs buf cs out)
  then have "map fst (ps[i := (x # xs, True)]) = map fst ps" by (simp add: map_update list_update_same_conv)
  with put_wait show ?thesis by (simp add: all_items_def)
next
  case (get j cs buf x buf' ps ps' out)
  have "mset (concat (map held (cs[j := receive x]))) = mset (concat (map held cs)) + mset (held (receive x))"
    using mset_concat_update [OF get(3), of held "receive x"] get(4) by simp
  moreover have "held (receive x) = [x]" by (cases x) (auto simp: receive_def)
  ultimately show ?thesis
    using get wake_p_items [OF get(6)] by (auto simp: all_items_def buf_get_def split: list.splits)
next
  case (get_wait j cs buf ps out)
  then show ?thesis using mset_concat_update [of j cs held CWait] by (simp add: all_items_def)
next
  case (store j cs v buf ps out)
  then show ?thesis using mset_concat_update [of j cs held CGet] by (auto simp: all_items_def)
qed

section \<open>The invariant\<close>

text \<open>
  \<open>runnable\<close> producers can take a step; \<open>awake\<close> consumers are about to call \<^verbatim>\<open>get\<close>. The two last clauses are
  the reason why no wakeup is lost: while a consumer sleeps there are at least as many awake consumers as
  items, while a producer sleeps there are at least as many runnable producers as free slots.
\<close>

definition runnable :: "bool \<Rightarrow> item list \<Rightarrow> producer list \<Rightarrow> consumer list \<Rightarrow> nat set" where
  "runnable drain buf ps cs = {i. i < length ps \<and> fst (ps ! i) \<noteq> [] \<and> \<not> snd (ps ! i) \<and> gate drain buf ps cs i}"

definition awake :: "consumer list \<Rightarrow> nat set" where
  "awake cs = {j. j < length cs \<and> cs ! j = CGet}"

definition pc_inv :: "nat \<Rightarrow> bool \<Rightarrow> nat \<Rightarrow> pc_state \<Rightarrow> bool" where
  "pc_inv capacity drain n s \<longleftrightarrow> (case s of (buf, ps, cs, out) \<Rightarrow>
     ps \<noteq> [] \<and> length cs = n \<and> length buf \<le> capacity \<and>
     (\<forall>i. i + 1 < length ps \<longrightarrow> Pill \<notin> set (fst (ps ! i))) \<and>
     (\<forall>x \<in> set (fst (last ps)). x = Pill) \<and>
     (\<forall>i < length ps. snd (ps ! i) \<longrightarrow> fst (ps ! i) \<noteq> [] \<and> gate drain buf ps cs i) \<and>
     (CWait \<in> set cs \<longrightarrow> length buf \<le> card (awake cs)) \<and>
     ((\<exists>i < length ps. snd (ps ! i)) \<longrightarrow> capacity \<le> length buf + card (runnable drain buf ps cs)))"

lemma finite_runnable [simp]: "finite (runnable drain buf ps cs)"
  by (simp add: runnable_def)

lemma finite_awake [simp]: "finite (awake cs)"
  by (simp add: awake_def)

lemma gate_cong:
  assumes "length ps' = length ps" "\<And>j. j + 1 < length ps \<Longrightarrow> fst (ps ! j) = [] \<Longrightarrow> fst (ps' ! j) = []"
    and "i < length ps" "gate drain buf ps cs i"
    and "\<And>v. drain \<Longrightarrow> i + 1 = length ps \<Longrightarrow> Item v \<notin> set buf \<Longrightarrow> CHold v \<notin> set cs \<Longrightarrow> Item v \<notin> set buf' \<and> CHold v \<notin> set cs'"
  shows "gate drain buf' ps' cs' i"
  using assms unfolding gate_def by (cases "i + 1 < length ps") auto

lemma last_pill: "ps \<noteq> [] \<Longrightarrow> i < length ps \<Longrightarrow> \<not> i + 1 < length ps \<Longrightarrow> ps ! i = last ps"
  by (metis Suc_eq_plus1 Suc_lessI diff_Suc_1 last_conv_nth)

lemma card_ge: "finite B \<Longrightarrow> A - {x} \<subseteq> B \<Longrightarrow> card A \<le> card B + 1"
proof -
  assume "finite B" "A - {x} \<subseteq> B"
  then have "card (A - {x}) \<le> card B" by (rule card_mono)
  then show ?thesis by (cases "x \<in> A") (auto simp: card_Diff_singleton_if split: if_splits)
qed

lemma card_insert_ge: "finite B \<Longrightarrow> x \<in> B \<Longrightarrow> x \<notin> A \<Longrightarrow> A \<subseteq> B \<Longrightarrow> card A + 1 \<le> card B"
  by (metis Suc_eq_plus1 card_insert_disjoint card_mono finite_subset insert_subset)

lemma awake_update: "j < length cs \<Longrightarrow> awake (cs[j := c]) = (if c = CGet then insert j (awake cs) else awake cs - {j})"
  by (auto simp: awake_def nth_list_update)

lemma mem_update: "j < length cs \<Longrightarrow> cs ! j \<noteq> y \<Longrightarrow> y \<in> set (cs[j := c]) \<longleftrightarrow> y \<in> set cs \<or> y = c"
  by (metis in_set_conv_nth length_list_update nth_list_update_eq nth_list_update_neq)

lemma wake_c_awake:
  assumes "wake_c cs cs'" "CWait \<in> set cs \<Longrightarrow> n \<le> card (awake cs)"
  shows "CWait \<in> set cs' \<longrightarrow> n + 1 \<le> card (awake cs')"
  using assms
proof (induction rule: wake_c.induct)
  case (one j cs)
  have "j \<notin> awake cs" using one by (simp add: awake_def)
  moreover have "CWait \<in> set cs" using one(1,2) nth_mem by metis
  ultimately show ?case using one by (simp add: awake_update)
qed simp

lemma wake_c_hold: "wake_c cs cs' \<Longrightarrow> CHold v \<in> set cs' \<Longrightarrow> CHold v \<in> set cs"
  by (induction rule: wake_c.induct) (auto dest: set_update_subset_insert [THEN subsetD])

lemma pc_invI:
  assumes "ps \<noteq> []" "length cs = n" "length buf \<le> capacity"
    and "\<And>i. i + 1 < length ps \<Longrightarrow> Pill \<notin> set (fst (ps ! i))"
    and "\<And>x. x \<in> set (fst (last ps)) \<Longrightarrow> x = Pill"
    and "\<And>i. i < length ps \<Longrightarrow> snd (ps ! i) \<Longrightarrow> fst (ps ! i) \<noteq> [] \<and> gate drain buf ps cs i"
    and "CWait \<in> set cs \<Longrightarrow> length buf \<le> card (awake cs)"
    and "\<And>i. i < length ps \<Longrightarrow> snd (ps ! i) \<Longrightarrow> capacity \<le> length buf + card (runnable drain buf ps cs)"
  shows "pc_inv capacity drain n (buf, ps, cs, out)"
  using assms unfolding pc_inv_def by auto

lemma pc_invD:
  assumes "pc_inv capacity drain n (buf, ps, cs, out)"
  shows "ps \<noteq> []" "length cs = n" "length buf \<le> capacity"
    and "i + 1 < length ps \<Longrightarrow> Pill \<notin> set (fst (ps ! i))"
    and "x \<in> set (fst (last ps)) \<Longrightarrow> x = Pill"
    and "i < length ps \<Longrightarrow> snd (ps ! i) \<Longrightarrow> fst (ps ! i) \<noteq> [] \<and> gate drain buf ps cs i"
    and "CWait \<in> set cs \<Longrightarrow> length buf \<le> card (awake cs)"
    and "i < length ps \<Longrightarrow> snd (ps ! i) \<Longrightarrow> capacity \<le> length buf + card (runnable drain buf ps cs)"
  using assms unfolding pc_inv_def by auto

lemma gate_put:
  assumes "pc_inv capacity drain n (buf, ps, cs, out)" "i < length ps" "ps ! i = (x # xs, False)" "wake_c cs cs'"
    and "k < length ps" "gate drain buf ps cs k"
  shows "gate drain (buf @ [x]) (ps[i := (xs, False)]) cs' k"
proof (cases "k + 1 < length ps")
  case False
  have empt: "\<forall>j. j + 1 < length ps \<longrightarrow> fst (ps ! j) = []" using assms(6) False by (auto simp: gate_def)
  then have "\<not> i + 1 < length ps" using assms(3) by auto
  then have "last ps = (x # xs, False)" using last_pill [OF pc_invD(1) [OF assms(1)] assms(2)] assms(3) by auto
  then have "x = Pill" using pc_invD(5) [OF assms(1), of x] by simp
  with empt assms False show ?thesis by (auto simp: gate_def nth_list_update dest: wake_c_hold)
qed (simp add: gate_def)

lemma put_inv:
  assumes inv: "pc_inv capacity drain n (buf, ps, cs, out)"
    and i: "i < length ps" "ps ! i = (x # xs, False)" and lt: "length buf < capacity" and w: "wake_c cs cs'"
  shows "pc_inv capacity drain n (buf @ [x], ps[i := (xs, False)], cs', out)"
proof (rule pc_invI)
  let ?ps = "ps[i := (xs, False)]"
  note D = pc_invD [OF inv]
  note G = gate_put [OF inv i w]
  show "?ps \<noteq> []" "length cs' = n" "length (buf @ [x]) \<le> capacity"
    using D(1,2) lt wake_c_items [OF w] by auto
  show "Pill \<notin> set (fst (?ps ! k))" if "k + 1 < length ?ps" for k
    using D(4) [of k] that i by (auto simp: nth_list_update)
  show "y = Pill" if "y \<in> set (fst (last ?ps))" for y
  proof (cases "i = length ps - 1")
    case True
    then have "last ps = (x # xs, False)" using D(1) i(2) by (simp add: last_conv_nth)
    with that True D(1) D(5) [of y] show ?thesis by (simp add: last_list_update)
  qed (use that D(1) D(5) [of y] in \<open>simp add: last_list_update\<close>)
  show "fst (?ps ! k) \<noteq> [] \<and> gate drain (buf @ [x]) ?ps cs' k" if "k < length ?ps" "snd (?ps ! k)" for k
    using D(6) [of k] G [of k] that i by (auto simp: nth_list_update split: if_splits)
  show "CWait \<in> set cs' \<Longrightarrow> length (buf @ [x]) \<le> card (awake cs')"
    using wake_c_awake [OF w D(7)] by simp
  show "capacity \<le> length (buf @ [x]) + card (runnable drain (buf @ [x]) ?ps cs')" if "k < length ?ps" "snd (?ps ! k)" for k
  proof -
    have "runnable drain buf ps cs - {i} \<subseteq> runnable drain (buf @ [x]) ?ps cs'"
      using G by (auto simp: runnable_def nth_list_update)
    then have "card (runnable drain buf ps cs) \<le> card (runnable drain (buf @ [x]) ?ps cs') + 1"
      by (intro card_ge) simp_all
    moreover have "capacity \<le> length buf + card (runnable drain buf ps cs)"
      using D(8) [of k] that i by (auto simp: nth_list_update split: if_splits)
    ultimately show ?thesis by simp
  qed
qed

lemma put_wait_inv:
  assumes inv: "pc_inv capacity drain n (buf, ps, cs, out)"
    and i: "i < length ps" "ps ! i = (x # xs, False)" "gate drain buf ps cs i" and ge: "capacity \<le> length buf"
  shows "pc_inv capacity drain n (buf, ps[i := (x # xs, True)], cs, out)"
proof (rule pc_invI)
  let ?ps = "ps[i := (x # xs, True)]"
  note D = pc_invD [OF inv]
  have f: "fst (?ps ! k) = fst (ps ! k)" if "k < length ps" for k using i that by (auto simp: nth_list_update)
  have G: "gate drain buf ps cs k \<Longrightarrow> k < length ps \<Longrightarrow> gate drain buf ?ps cs k" for k
    by (rule gate_cong [where buf = buf and cs = cs and ps = ps]) (use f in auto)
  show "?ps \<noteq> []" "length cs = n" "length buf \<le> capacity" using D(1-3) by auto
  show "Pill \<notin> set (fst (?ps ! k))" if "k + 1 < length ?ps" for k using D(4) [of k] f [of k] that by simp
  show "y = Pill" if "y \<in> set (fst (last ?ps))" for y
    using that D(5) [of y] D(1) i f [of "length ps - 1"] by (simp add: last_conv_nth)
  show "fst (?ps ! k) \<noteq> [] \<and> gate drain buf ?ps cs k" if "k < length ?ps" "snd (?ps ! k)" for k
    using D(6) [of k] G [of k] that i by (auto simp: nth_list_update split: if_splits)
  show "CWait \<in> set cs \<Longrightarrow> length buf \<le> card (awake cs)" by (rule D(7))
  show "capacity \<le> length buf + card (runnable drain buf ?ps cs)" if "k < length ?ps" "snd (?ps ! k)" for k
    using ge by simp
qed

text \<open>Steps that change neither what the producers have left nor whom they wait for.\<close>

lemma consumer_step_inv:
  assumes inv: "pc_inv capacity drain n (buf, ps, cs, out)" and len: "length cs' = length cs" "length buf' \<le> length buf"
    and hold: "\<And>v. Item v \<notin> set buf \<Longrightarrow> CHold v \<notin> set cs \<Longrightarrow> Item v \<notin> set buf' \<and> CHold v \<notin> set cs'"
    and g: "CWait \<in> set cs' \<Longrightarrow> length buf' \<le> card (awake cs')"
    and ps: "map fst ps' = map fst ps" "\<And>i. i < length ps \<Longrightarrow> snd (ps' ! i) \<Longrightarrow> snd (ps ! i)"
    and h: "\<And>i. i < length ps \<Longrightarrow> snd (ps' ! i) \<Longrightarrow>
      capacity \<le> length buf' + card (runnable drain buf' ps' cs')"
  shows "pc_inv capacity drain n (buf', ps', cs', out')"
proof (rule pc_invI)
  note D = pc_invD [OF inv]
  have l: "length ps' = length ps" using ps(1) by (metis length_map)
  have f: "fst (ps' ! k) = fst (ps ! k)" if "k < length ps" for k using ps(1) that l by (metis nth_map)
  show "ps' \<noteq> []" "length cs' = n" "length buf' \<le> capacity" using D(1-3) len l by auto
  show "Pill \<notin> set (fst (ps' ! k))" if "k + 1 < length ps'" for k using D(4) [of k] f [of k] that l by simp
  show "y = Pill" if "y \<in> set (fst (last ps'))" for y
  proof -
    have "ps' \<noteq> []" using D(1) l by auto
    with that D(5) [of y] D(1) f [of "length ps - 1"] l show ?thesis by (simp add: last_conv_nth)
  qed
  show "fst (ps' ! k) \<noteq> [] \<and> gate drain buf' ps' cs' k" if k: "k < length ps'" "snd (ps' ! k)" for k
  proof -
    have old: "fst (ps ! k) \<noteq> [] \<and> gate drain buf ps cs k" using D(6) ps(2) k l by auto
    have "gate drain buf' ps' cs' k"
      by (rule gate_cong [where buf = buf and cs = cs and ps = ps]) (use f hold l k old in auto)
    with old f k l show ?thesis by simp
  qed
  show "CWait \<in> set cs' \<Longrightarrow> length buf' \<le> card (awake cs')" by (rule g)
  show "capacity \<le> length buf' + card (runnable drain buf' ps' cs')" if "k < length ps'" "snd (ps' ! k)" for k
    using h that l by auto
qed

lemma runnable_mono:
  assumes "map fst ps' = map fst ps" "\<And>i. i < length ps \<Longrightarrow> snd (ps' ! i) \<Longrightarrow> snd (ps ! i)"
    and "\<And>v. Item v \<notin> set buf \<Longrightarrow> CHold v \<notin> set cs \<Longrightarrow> Item v \<notin> set buf' \<and> CHold v \<notin> set cs'"
  shows "runnable drain buf ps cs \<subseteq> runnable drain buf' ps' cs'"
proof
  fix k assume k: "k \<in> runnable drain buf ps cs"
  have l: "length ps' = length ps" using assms(1) by (metis length_map)
  have f: "fst (ps' ! k) = fst (ps ! k)" if "k < length ps" for k using assms(1) that l by (metis nth_map)
  have "gate drain buf' ps' cs' k"
    by (rule gate_cong [where buf = buf and cs = cs and ps = ps]) (use f assms(3) l k in \<open>auto simp: runnable_def\<close>)
  with k f l assms(2) show "k \<in> runnable drain buf' ps' cs'" by (auto simp: runnable_def)
qed

lemma get_inv:
  assumes inv: "pc_inv capacity drain n (x # buf, ps, cs, out)"
    and j: "j < length cs" "cs ! j = CGet" and w: "wake_p ps ps'"
  shows "pc_inv capacity drain n (buf, ps', cs[j := receive x], out)"
proof -
  let ?cs = "cs[j := receive x]"
  note D = pc_invD [OF inv]
  have rc: "receive x \<noteq> CGet" "receive x \<noteq> CWait" by (auto simp: receive_def split: item.splits)
  have hold: "Item v \<notin> set buf \<and> CHold v \<notin> set ?cs" if "Item v \<notin> set (x # buf)" "CHold v \<notin> set cs" for v
    using that mem_update [OF j(1), of "CHold v" "receive x"] j(2) by (auto simp: receive_def split: item.splits)
  have ps: "map fst ps' = map fst ps" by (rule wake_p_items [OF w])
  have snd: "snd (ps' ! i) \<Longrightarrow> snd (ps ! i)" if "i < length ps" for i
    using w that by (induction rule: wake_p.induct) (auto simp: nth_list_update split: if_splits)
  show ?thesis
  proof (rule consumer_step_inv [OF inv])
    show "length buf \<le> card (awake ?cs)" if "CWait \<in> set ?cs"
    proof -
      have "CWait \<in> set cs" using that mem_update [OF j(1), of CWait "receive x"] j(2) rc by auto
      from D(7) [OF this] have "Suc (length buf) \<le> card (awake cs)" by simp
      moreover have "j \<in> awake cs" using j by (simp add: awake_def)
      ultimately show ?thesis using rc j(1) by (simp add: awake_update card_Diff_singleton)
    qed
    show "capacity \<le> length buf + card (runnable drain buf ps' ?cs)" if i: "i < length ps" "snd (ps' ! i)" for i
    proof -
      have old: "capacity \<le> length (x # buf) + card (runnable drain (x # buf) ps cs)" using D(8) snd i by blast
      have mono: "runnable drain (x # buf) ps cs \<subseteq> runnable drain buf ps' ?cs"
        by (rule runnable_mono [OF ps snd]) (use hold in auto)
      from w show ?thesis
      proof cases
        case none
        with i show ?thesis using nth_mem by blast
      next
        case (one k)
        have "k \<in> runnable drain buf ps' ?cs" "k \<notin> runnable drain (x # buf) ps cs"
        proof -
          have g: "fst (ps ! k) \<noteq> [] \<and> gate drain (x # buf) ps cs k" using D(6) one by auto
          have fs: "fst (ps' ! q) = fst (ps ! q)" if "q < length ps" for q using ps that by (metis length_map nth_map)
          have "gate drain buf ps' ?cs k"
            by (rule gate_cong [where buf = "x # buf" and cs = cs and ps = ps]) (use g one hold fs in auto)
          with g one show "k \<in> runnable drain buf ps' ?cs" by (simp add: runnable_def)
          show "k \<notin> runnable drain (x # buf) ps cs" using one by (simp add: runnable_def)
        qed
        then have "card (runnable drain (x # buf) ps cs) + 1 \<le> card (runnable drain buf ps' ?cs)"
          using mono by (intro card_insert_ge) auto
        with old show ?thesis by simp
      qed
    qed
  qed (use hold ps snd in auto)
qed

lemma small_step_inv:
  assumes inv: "pc_inv capacity drain n (buf, ps, cs, out)" and j: "j < length cs"
    and c: "cs ! j \<in> {CGet, CHold v} \<and> c = CGet \<or> cs ! j = CGet \<and> c = CWait \<and> buf = [] \<or> cs ! j = CWait \<and> c = CGet"
  shows "pc_inv capacity drain n (buf, ps, cs[j := c], out')"
proof (rule consumer_step_inv [OF inv])
  note D = pc_invD [OF inv]
  have hold: "Item v \<notin> set buf \<and> CHold v \<notin> set (cs[j := c])" if "Item v \<notin> set buf" "CHold v \<notin> set cs" for v
    using that c set_update_subset_insert [of cs j c] by auto
  then show "Item v \<notin> set buf \<and> CHold v \<notin> set (cs[j := c])" if "Item v \<notin> set buf" "CHold v \<notin> set cs" for v using that by blast
  show "length buf \<le> card (awake (cs[j := c]))" if w: "CWait \<in> set (cs[j := c])"
  proof (cases "c = CWait")
    case False
    with c have "c = CGet" by auto
    with w have "CWait \<in> set cs" using set_update_subset_insert [of cs j c] by auto
    then have "length buf \<le> card (awake cs)" by (rule D(7))
    also have "\<dots> \<le> card (awake (cs[j := c]))" using \<open>c = CGet\<close> j by (intro card_mono) (auto simp: awake_update)
    finally show ?thesis .
  qed (use c in auto)
  show "capacity \<le> length buf + card (runnable drain buf ps (cs[j := c]))" if "i < length ps" "snd (ps ! i)" for i
  proof -
    have "runnable drain buf ps cs \<subseteq> runnable drain buf ps (cs[j := c])"
      by (rule runnable_mono) (use hold in auto)
    then have "card (runnable drain buf ps cs) \<le> card (runnable drain buf ps (cs[j := c]))" by (intro card_mono) auto
    with D(8) [OF that] show ?thesis by simp
  qed
qed auto

lemma pc_step_inv:
  assumes "pc_step capacity drain work s s'" "pc_inv capacity drain n s"
  shows "pc_inv capacity drain n s'"
  using assms(1)
proof cases
  case (put i ps x xs buf cs buf' cs' out)
  then have "length buf < capacity" "buf' = buf @ [x]" by (auto simp: buf_put_def split: if_splits)
  with put_inv [of capacity drain n buf ps cs out i x xs cs'] put assms(2) show ?thesis by simp
next
  case (put_wait i ps x xs buf cs out)
  then have "capacity \<le> length buf" by (auto simp: buf_put_def split: if_splits)
  with put_wait_inv [of capacity drain n buf ps cs out i x xs] put_wait assms(2) show ?thesis by simp
next
  case (get j cs buf x buf' ps ps' out)
  then have "buf = x # buf'" by (auto simp: buf_get_def split: list.splits)
  with get_inv [of capacity drain n x buf' ps cs out j ps'] get assms(2) show ?thesis by simp
next
  case (get_wait j cs buf ps out)
  then have "buf = []" by (auto simp: buf_get_def split: list.splits)
  with small_step_inv [of capacity drain n buf ps cs out j _ CWait] get_wait assms(2) show ?thesis by simp
next
  case (store j cs v buf ps out)
  with small_step_inv [of capacity drain n buf ps cs out j v CGet] assms(2) show ?thesis by simp
qed

lemma pc_spurious_inv:
  assumes "pc_spurious s s'" "pc_inv capacity drain n s"
  shows "pc_inv capacity drain n s'"
  using assms(1)
proof cases
  case (producer i ps buf cs out)
  let ?ps = "ps[i := (fst (ps ! i), False)]"
  note D = pc_invD [OF assms(2) [unfolded producer]]
  have f: "map fst ?ps = map fst ps" using producer by (simp add: map_update list_update_same_conv)
  have s: "snd (?ps ! k) \<Longrightarrow> snd (ps ! k)" if "k < length ps" for k using that by (cases "k = i") (auto simp: nth_list_update split: if_splits)
  have "card (runnable drain buf ps cs) \<le> card (runnable drain buf ?ps cs)"
    by (intro card_mono runnable_mono [OF f s]) auto
  then have "capacity \<le> length buf + card (runnable drain buf ?ps cs)" if "k < length ps" "snd (?ps ! k)" for k
    using D(8) [of k] s that by fastforce
  with consumer_step_inv [OF assms(2) [unfolded producer] _ _ _ _ f s] D(7) producer show ?thesis by simp
next
  case (consumer j cs buf ps out)
  with small_step_inv [of capacity drain n buf ps cs out j _ CGet] assms(2) show ?thesis by simp
qed

text \<open>
  The buffer is first in, first out: pills come after all items, and once a pill has been put the
  producers are finished.
\<close>

definition pc_fifo :: "pc_state \<Rightarrow> bool" where
  "pc_fifo s \<longleftrightarrow> (case s of (buf, ps, cs, out) \<Rightarrow>
     (\<exists>vs k. buf = map Item vs @ replicate k Pill) \<and>
     (CExit \<in> set cs \<longrightarrow> (\<forall>x \<in> set buf. x = Pill)) \<and>
     (Pill \<in> set buf \<or> CExit \<in> set cs \<longrightarrow> (\<forall>j. j + 1 < length ps \<longrightarrow> fst (ps ! j) = [])))"

lemma wake_c_exit: "wake_c cs cs' \<Longrightarrow> CExit \<in> set cs' \<Longrightarrow> CExit \<in> set cs"
  by (induction rule: wake_c.induct) (auto dest: set_update_subset_insert [THEN subsetD])

lemma pc_step_fifo:
  assumes "pc_step capacity drain work s s'" "pc_inv capacity drain n s" "pc_fifo s"
  shows "pc_fifo s'"
  using assms(1)
proof cases
  case (put i ps x xs buf cs buf' cs' out)
  note D = pc_invD [OF assms(2) [unfolded put(1)]]
  have buf': "buf' = buf @ [x]" using put(6) by (auto simp: buf_put_def split: if_splits)
  obtain vs k where shape: "buf = map Item vs @ replicate k Pill" using assms(3) put(1) by (auto simp: pc_fifo_def)
  show ?thesis
  proof (cases "i + 1 < length ps")
    case True
    have "x \<noteq> Pill" using D(4) [OF True] put(4) by auto
    then obtain v where x: "x = Item v" by (cases x) auto
    have no: "Pill \<notin> set buf" "CExit \<notin> set cs" using assms(3) put(1,4) True by (auto simp: pc_fifo_def)
    then have "k = 0" using shape by auto
    then have "buf' = map Item (vs @ [v]) @ replicate 0 Pill" using shape buf' x by simp
    moreover have "Pill \<notin> set buf'" using no buf' x by simp
    ultimately show ?thesis using put wake_c_exit [OF put(7)] no unfolding pc_fifo_def by blast
  next
    case False
    then have "last ps = (x # xs, False)" using last_pill [OF D(1) put(3)] put(4) by auto
    then have x: "x = Pill" using D(5) [of x] by simp
    have fin: "\<forall>j. j + 1 < length ps \<longrightarrow> fst (ps ! j) = []" using put(5) False by (auto simp: gate_def)
    have "buf' = map Item vs @ replicate (Suc k) Pill" using shape buf' x by (simp add: replicate_append_same)
    moreover have "CExit \<in> set cs' \<longrightarrow> (\<forall>y \<in> set buf'. y = Pill)"
      using assms(3) put(1) wake_c_exit [OF put(7)] buf' x by (auto simp: pc_fifo_def)
    moreover have "\<forall>j. j + 1 < length (ps[i := (xs, False)]) \<longrightarrow> fst (ps[i := (xs, False)] ! j) = []"
      using fin False by (auto simp: nth_list_update)
    ultimately show ?thesis unfolding put(2) pc_fifo_def by blast
  qed
next
  case (put_wait i ps x xs buf cs out)
  then show ?thesis using assms(3) by (auto simp: pc_fifo_def nth_list_update)
next
  case (get j cs buf x buf' ps ps' out)
  have buf: "buf = x # buf'" using get(5) by (auto simp: buf_get_def split: list.splits)
  have f: "fst (ps' ! k) = fst (ps ! k)" "length ps' = length ps" if "k < length ps" for k
    using wake_p_items [OF get(6)] that by (metis length_map nth_map)+
  obtain vs k where shape: "buf = map Item vs @ replicate k Pill" using assms(3) get(1) by (auto simp: pc_fifo_def)
  have sub: "CExit \<in> set (cs[j := receive x]) \<Longrightarrow> CExit \<in> set cs \<or> x = Pill"
    using set_update_subset_insert [of cs j "receive x"] by (auto simp: receive_def split: item.splits)
  have old: "CExit \<in> set cs \<longrightarrow> (\<forall>y \<in> set buf. y = Pill)"
    "Pill \<in> set buf \<or> CExit \<in> set cs \<longrightarrow> (\<forall>j. j + 1 < length ps \<longrightarrow> fst (ps ! j) = [])"
    using assms(3) get(1) by (auto simp: pc_fifo_def)
  have "\<exists>vs k. buf' = map Item vs @ replicate k Pill"
  proof (cases vs)
    case Nil
    then have "buf' = map Item [] @ replicate (k - 1) Pill" using shape buf by (cases k) auto
    then show ?thesis by blast
  next
    case (Cons v ws)
    then have "buf' = map Item ws @ replicate k Pill" using shape buf by simp
    then show ?thesis by blast
  qed
  moreover have "x = Pill \<Longrightarrow> \<forall>y \<in> set buf'. y = Pill" using shape buf by (cases vs; cases k) auto
  moreover have "\<forall>j. j + 1 < length ps' \<longrightarrow> fst (ps' ! j) = []" if "Pill \<in> set buf \<or> CExit \<in> set cs"
    using old(2) that f wake_p_items [OF get(6)] by (metis (no_types, lifting) add_lessD1 length_map nth_map)
  ultimately show ?thesis using sub old buf unfolding get(2) pc_fifo_def by auto
next
  case (get_wait j cs buf ps out)
  then show ?thesis using assms(3) set_update_subset_insert [of cs j CWait] by (auto simp: pc_fifo_def)
next
  case (store j cs v buf ps out)
  then show ?thesis using assms(3) set_update_subset_insert [of cs j CGet] by (auto simp: pc_fifo_def)
qed

lemma pc_spurious_fifo: "pc_spurious s s' \<Longrightarrow> pc_fifo s \<Longrightarrow> pc_fifo s'"
proof (induction rule: pc_spurious.induct)
  case (producer i ps buf cs out)
  then show ?case by (auto simp: pc_fifo_def nth_list_update)
next
  case (consumer j cs buf ps out)
  then show ?case using set_update_subset_insert [of cs j CGet] by (auto simp: pc_fifo_def)
qed

lemma pc_spurious_items:
  "pc_spurious s s' \<Longrightarrow> all_items s' = all_items s \<and> snd (snd (snd s')) = snd (snd (snd s))"
proof (induction rule: pc_spurious.induct)
  case (producer i ps buf cs out)
  then show ?case using wake_p_items [OF wake_p.one [of i ps]] by (simp add: all_items_def)
next
  case (consumer j cs buf ps out)
  then show ?case using mset_concat_update [of j cs held CGet] by (simp add: all_items_def)
qed

section \<open>Every run ends with all the work done\<close>

fun weight_c :: "consumer \<Rightarrow> nat" where
  "weight_c (CHold v) = 2"
| "weight_c CGet = 1"
| "weight_c _ = 0"

definition weight_p :: "producer \<Rightarrow> nat" where
  "weight_p p = 5 * length (fst p) + (if snd p then 0 else 1)"

definition weight :: "pc_state \<Rightarrow> nat" where
  "weight s = (case s of (buf, ps, cs, out) \<Rightarrow>
     3 * length buf + sum_list (map weight_p ps) + sum_list (map weight_c cs))"

lemma wake_c_weight: "wake_c cs cs' \<Longrightarrow> sum_list (map weight_c cs') \<le> sum_list (map weight_c cs) + 1"
proof (induction rule: wake_c.induct)
  case (one j cs)
  then show ?case using sum_list_map_update [of j cs weight_c CGet] by simp
qed simp

lemma wake_p_weight: "wake_p ps ps' \<Longrightarrow> sum_list (map weight_p ps') \<le> sum_list (map weight_p ps) + 1"
proof (induction rule: wake_p.induct)
  case (one i ps)
  then show ?case
    using sum_list_map_update [of i ps weight_p "(fst (ps ! i), False)"] weight_p_def [of "ps ! i"] weight_p_def [of "(fst (ps ! i), False)"]
    by simp
qed simp

lemma pc_step_weight: "pc_step capacity drain work s s' \<Longrightarrow> weight s' < weight s"
proof (induction rule: pc_step.induct)
  case (put i ps x xs buf cs buf' cs' out)
  then show ?case
    using sum_list_map_update [of i ps weight_p "(xs, False)"] wake_c_weight [of cs cs']
    by (auto simp: weight_def weight_p_def buf_put_def split: if_splits)
next
  case (put_wait i ps x xs buf cs out)
  then show ?case
    using sum_list_map_update [of i ps weight_p "(x # xs, True)"] by (simp add: weight_def weight_p_def)
next
  case (get j cs buf x buf' ps ps' out)
  have "weight_c (receive x) \<le> 2" by (auto simp: receive_def split: item.splits)
  with get show ?case
    using sum_list_map_update [of j cs weight_c "receive x"] wake_p_weight [of ps ps']
    by (auto simp: weight_def buf_get_def split: list.splits)
next
  case (get_wait j cs buf ps out)
  then show ?case using sum_list_map_update [of j cs weight_c CWait] by (simp add: weight_def)
next
  case (store j cs v buf ps out)
  then show ?case using sum_list_map_update [of j cs weight_c CGet] by (simp add: weight_def)
qed

text \<open>All that is known of a reachable state: \<open>stored\<close> are the items processed so far.\<close>

definition pc_good :: "nat \<Rightarrow> bool \<Rightarrow> (int \<Rightarrow> int) \<Rightarrow> nat \<Rightarrow> item multiset \<Rightarrow> pc_state \<Rightarrow> bool" where
  "pc_good capacity drain work n M s \<longleftrightarrow> pc_inv capacity drain n s \<and> pc_fifo s \<and>
     (\<exists>stored. snd (snd (snd s)) = map work stored \<and> all_items s + mset (map Item stored) = M)"

lemma pc_any_good:
  assumes "pc_any capacity drain work s s'" "pc_good capacity drain work n M s"
  shows "pc_good capacity drain work n M s'"
proof -
  obtain stored where st: "snd (snd (snd s)) = map work stored" "all_items s + mset (map Item stored) = M"
    using assms(2) by (auto simp: pc_good_def)
  have "\<exists>stored. snd (snd (snd s')) = map work stored \<and> all_items s' + mset (map Item stored) = M"
    using assms(1)
  proof
    assume "pc_step capacity drain work s s'"
    from pc_step_items [OF this] show ?thesis
    proof
      assume "\<exists>v. snd (snd (snd s')) = snd (snd (snd s)) @ [work v] \<and> all_items s = add_mset (Item v) (all_items s')"
      then obtain v where "snd (snd (snd s')) = map work (stored @ [v])" "all_items s = add_mset (Item v) (all_items s')"
        using st by auto
      then show ?thesis using st(2) by (intro exI [of _ "stored @ [v]"]) simp
    qed (use st in auto)
  next
    assume "pc_spurious s s'"
    from pc_spurious_items [OF this] st show ?thesis by auto
  qed
  with assms pc_step_inv pc_spurious_inv pc_step_fifo pc_spurious_fifo show ?thesis
    unfolding pc_good_def by metis
qed

interpretation pc: step_invariant "pc_any capacity drain work" "pc_good capacity drain work n M"
  by unfold_locales (rule pc_any_good)

lemma wake_p_total: "\<exists>ps'. wake_p ps ps'"
  by (metis wake_p.intros in_set_conv_nth)

lemma wake_c_total: "\<exists>cs'. wake_c cs cs'"
  by (metis wake_c.intros in_set_conv_nth)

lemma stuck_threads:
  assumes "\<nexists>s'. pc_step capacity drain work (buf, ps, cs, out) s'"
  shows "awake cs = {}" "c \<in> set cs \<Longrightarrow> c = CWait \<or> c = CExit" "runnable drain buf ps cs = {}"
proof -
  have no_get: "cs ! j \<noteq> CGet" if "j < length cs" for j
  proof
    assume "cs ! j = CGet"
    then show False
      using assms that pc_step.get [of j cs buf _ _ ps _ capacity drain work out] pc_step.get_wait [of j cs buf capacity drain work ps out]
        wake_p_total [of ps]
      by (cases buf) (auto simp: buf_get_def, blast)
  qed
  then show "awake cs = {}" by (auto simp: awake_def)
  have no_hold: "cs ! j \<noteq> CHold v" if "j < length cs" for j v
    using assms that pc_step.store [of j cs v capacity drain work buf ps out] by blast
  show "c = CWait \<or> c = CExit" if "c \<in> set cs"
  proof -
    obtain j where "j < length cs" "cs ! j = c" using \<open>c \<in> set cs\<close> by (auto simp: in_set_conv_nth)
    then show ?thesis using no_get [of j] no_hold [of j] by (cases c) auto
  qed
  show "runnable drain buf ps cs = {}"
  proof (rule ccontr)
    assume "runnable drain buf ps cs \<noteq> {}"
    then obtain i x xs where i: "i < length ps" "ps ! i = (x # xs, False)" "gate drain buf ps cs i"
      by (auto simp: runnable_def) (metis neq_Nil_conv prod.collapse)
    show False
      using assms wake_c_total [of cs] pc_step.put [OF i, of capacity _ _ work out] pc_step.put_wait [OF i, of capacity work out]
      by (cases "buf_put capacity x buf") blast+
  qed
qed

lemma count_pills:
  assumes "\<forall>c \<in> set cs. c = CWait \<or> c = CExit"
  shows "count (mset (concat (map held cs))) Pill = length (filter (\<lambda>c. c = CExit) cs)"
  using assms by (induction cs) auto

lemma pills_total:
  assumes "pc_good capacity drain work n M (buf, ps, cs, out)" "count M Pill = n"
    and "\<forall>c \<in> set cs. c = CWait \<or> c = CExit"
  shows "count (mset (concat (map fst ps))) Pill + count (mset buf) Pill + length (filter (\<lambda>c. c = CExit) cs) = length cs"
proof -
  obtain stored where "all_items (buf, ps, cs, out) + mset (map Item stored) = M" "length cs = n"
    using assms(1) by (auto simp: pc_good_def dest: pc_invD(2))
  moreover have "count (mset (map Item stored)) Pill = 0" by (induction stored) auto
  ultimately have "count (all_items (buf, ps, cs, out)) Pill = length cs" using assms(2) by auto
  with count_pills [of cs] assms(3) show ?thesis by (auto simp: all_items_def)
qed

text \<open>When every consumer has exited, nothing is left to put and nothing is left in the buffer.\<close>

lemma exited_finished:
  assumes good: "pc_good capacity drain work n M (buf, ps, cs, out)" and pills: "count M Pill = n"
    and pos: "0 < n" and ex: "\<forall>c \<in> set cs. c = CExit"
  shows "buf = [] \<and> (\<forall>p \<in> set ps. fst p = [])"
proof -
  have inv: "pc_inv capacity drain n (buf, ps, cs, out)" and fifo: "pc_fifo (buf, ps, cs, out)" using good by (auto simp: pc_good_def)
  note D = pc_invD [OF inv]
  have "filter (\<lambda>c. c = CExit) cs = cs" using ex by (intro filter_True) simp
  then have "length (filter (\<lambda>c. c = CExit) cs) = length cs" by simp
  with pills_total [OF good pills] ex have np: "Pill \<notin> set (concat (map fst ps))" "Pill \<notin> set buf"
    by (simp_all add: count_eq_zero_iff del: set_concat)
  have "CExit \<in> set cs" using ex D(2) pos by (cases cs) auto
  then have fin: "\<forall>x \<in> set buf. x = Pill" "\<forall>j. j + 1 < length ps \<longrightarrow> fst (ps ! j) = []"
    using fifo by (auto simp: pc_fifo_def)
  have l: "fst (last ps) = []"
  proof (cases "fst (last ps)")
    case (Cons y ys)
    then have "Pill \<in> set (fst (last ps))" using D(5) [of y] by simp
    moreover have "last ps \<in> set ps" using D(1) by simp
    ultimately show ?thesis using np(1) by auto
  qed
  have "fst p = []" if p: "p \<in> set ps" for p
  proof -
    obtain i where i: "i < length ps" "ps ! i = p" using p by (auto simp: in_set_conv_nth)
    with fin(2) l last_pill [OF D(1) i(1)] show ?thesis by (cases "i + 1 < length ps") auto
  qed
  moreover have "buf = []" using fin(1) np(2) by (cases buf) auto
  ultimately show ?thesis by blast
qed

text \<open>A state with no step left is a finished one, if there is at least one consumer and one slot.\<close>

lemma stuck_finished:
  assumes good: "pc_good capacity drain work n M (buf, ps, cs, out)" and pills: "count M Pill = n"
    and pos: "0 < n" "0 < capacity" and stuck: "\<nexists>s'. pc_step capacity drain work (buf, ps, cs, out) s'"
  shows "buf = [] \<and> (\<forall>p \<in> set ps. fst p = []) \<and> (\<forall>c \<in> set cs. c = CExit)"
proof (cases "CWait \<in> set cs")
  case True
  note S = stuck_threads [OF stuck]
  have inv: "pc_inv capacity drain n (buf, ps, cs, out)" using good by (auto simp: pc_good_def)
  note D = pc_invD [OF inv]
  have buf: "buf = []" using True D(7) S(1) by simp
  then have nowait: "\<not> snd (ps ! i)" if "i < length ps" for i using D(8) S(3) pos(2) that by fastforce
  have ready: "fst (ps ! i) = []" if "i < length ps" "gate drain buf ps cs i" for i
    using S(3) that nowait by (auto simp: runnable_def)
  then have ord: "fst (ps ! i) = []" if "i + 1 < length ps" for i using that by (simp add: gate_def)
  have "CHold v \<notin> set cs" for v using S(2) by blast
  then have "fst (ps ! i) = []" if "i < length ps" for i using ready [OF that] ord buf by (simp add: gate_def)
  then have "\<forall>p \<in> set ps. fst p = []" by (metis in_set_conv_nth)
  then have "concat (map fst ps) = []" by simp
  with pills_total [OF good pills] S(2) buf have "length (filter (\<lambda>c. c = CExit) cs) = length cs" by simp
  then have "CWait = CExit" using length_filter_less [OF True, of "\<lambda>c. c = CExit"] by simp
  then show ?thesis by simp
next
  case False
  with stuck_threads(2) [OF stuck] have "\<forall>c \<in> set cs. c = CExit" by blast
  with exited_finished [OF good pills pos(1)] show ?thesis by blast
qed

section \<open>Finished runs\<close>

lemma all_items_finished:
  assumes "\<forall>p \<in> set ps. fst p = []" "\<forall>c \<in> set cs. c = CExit"
  shows "all_items ([], ps, cs, out) = replicate_mset (length cs) Pill"
proof -
  have "concat (map fst ps) = []" using assms(1) by simp
  moreover have "mset (concat (map held cs)) = replicate_mset (length cs) Pill" using assms(2) by (induction cs) auto
  ultimately show ?thesis by (simp add: all_items_def)
qed

text \<open>
  The shape shared by both scripts: the items \<open>vs\<close> are put by the threads before the last one, the last one
  puts one pill per consumer.
\<close>

definition loaded :: "nat \<Rightarrow> int list \<Rightarrow> pc_state \<Rightarrow> bool" where
  "loaded n vs s \<longleftrightarrow> (\<exists>qs. s = ([], map (\<lambda>q. (map Item q, False)) qs @ [(replicate n Pill, False)], replicate n CGet, []) \<and>
     concat qs = vs)"

lemma loaded_good:
  assumes "loaded n vs s"
  shows "pc_good capacity drain work n (mset (map Item vs) + replicate_mset n Pill) s"
proof -
  obtain qs where s: "s = ([], map (\<lambda>q. (map Item q, False)) qs @ [(replicate n Pill, False)], replicate n CGet, [])"
    and vs: "concat qs = vs" using assms by (auto simp: loaded_def)
  have held: "concat (map held (replicate n CGet)) = []" by (induction n) auto
  have put: "concat (map fst (map (\<lambda>q. (map Item q, False)) qs)) = map Item vs"
    unfolding vs [symmetric] by (simp add: map_concat o_def)
  have "pc_inv capacity drain n s"
    unfolding s by (rule pc_invI) (auto simp: nth_append split: if_splits)
  moreover have "pc_fifo s" by (simp add: s pc_fifo_def)
  moreover have "all_items s = mset (map Item vs) + replicate_mset n Pill"
    using held put by (simp add: s all_items_def)
  ultimately show ?thesis using s by (simp add: pc_good_def)
qed

lemma mset_Item_inj: "mset (map Item xs) = mset (map Item ys) \<Longrightarrow> mset xs = mset ys"
proof -
  assume "mset (map Item xs) = mset (map Item ys)"
  then have "image_mset (\<lambda>x. case x of Item v \<Rightarrow> v | Pill \<Rightarrow> 0) (image_mset Item (mset xs)) =
    image_mset (\<lambda>x. case x of Item v \<Rightarrow> v | Pill \<Rightarrow> 0) (image_mset Item (mset ys))" by simp
  then show ?thesis by (simp add: multiset.map_comp o_def)
qed

lemma exited_run:
  assumes "loaded n vs s0" "0 < n" "(pc_any capacity drain work)\<^sup>*\<^sup>* s0 (buf, ps, cs, out)" "\<forall>c \<in> set cs. c = CExit"
  shows "buf = []" "length cs = n" "mset out = mset (map work vs)"
proof -
  let ?M = "mset (map Item vs) + replicate_mset n Pill"
  have good: "pc_good capacity drain work n ?M (buf, ps, cs, out)"
    using pc.reach_inv [OF assms(3) loaded_good [OF assms(1)]] .
  have "count (mset (map Item vs)) Pill = 0" by (induction vs) auto
  then have "count ?M Pill = n" by simp
  from exited_finished [OF good this assms(2,4)] have fin: "buf = []" "\<forall>p \<in> set ps. fst p = []" by auto
  then show "buf = []" by simp
  show "length cs = n" using good by (auto simp: pc_good_def dest: pc_invD(2))
  then have all: "all_items (buf, ps, cs, out) = replicate_mset n Pill" using all_items_finished [OF fin(2) assms(4), of out] fin(1) by simp
  obtain stored where out: "out = map work stored" and "all_items (buf, ps, cs, out) + mset (map Item stored) = ?M"
    using good by (auto simp: pc_good_def)
  then have "mset (map Item stored) = mset (map Item vs)" using all by (simp add: add.commute)
  then have "mset stored = mset vs" by (rule mset_Item_inj)
  then show "mset out = mset (map work vs)" unfolding out mset_map by simp
qed

lemma finished_run:
  assumes "loaded n vs s0" "0 < n" "0 < capacity" "(pc_any capacity drain work)\<^sup>*\<^sup>* s0 (buf, ps, cs, out)"
    and "\<nexists>s'. pc_step capacity drain work (buf, ps, cs, out) s'"
  shows "buf = []" "\<forall>c \<in> set cs. c = CExit" "length cs = n" "mset out = mset (map work vs)"
proof -
  let ?M = "mset (map Item vs) + replicate_mset n Pill"
  have good: "pc_good capacity drain work n ?M (buf, ps, cs, out)"
    using pc.reach_inv [OF assms(4) loaded_good [OF assms(1)]] .
  have "count (mset (map Item vs)) Pill = 0" by (induction vs) auto
  then have "count ?M Pill = n" by simp
  from stuck_finished [OF good this assms(2,3,5)] show ex: "\<forall>c \<in> set cs. c = CExit" by auto
  show "buf = []" "length cs = n" "mset out = mset (map work vs)" using exited_run [OF assms(1,2,4) ex] by auto
qed

lemma concat_blocks: "concat (map (\<lambda>p. map (\<lambda>i. int (p * k + i)) [0..<k]) [0..<n]) = map int [0..<n * k]"
proof (induction n)
  case (Suc n)
  have "[0..<Suc n * k] = [0..<n * k] @ map (\<lambda>i. i + n * k) [0..<k]"
    using upt_add_eq_append [of 0 "n * k" k] by (simp add: map_add_upt add.commute)
  then show ?case using Suc by (simp add: o_def add.commute)
qed simp

lemma run_init_loaded:
  "loaded num_consumers (map int [0..<num_producers * per_producer]) (run_init num_producers num_consumers per_producer)"
  unfolding loaded_def run_init_def producer_items_def
  by (rule exI [of _ "map (\<lambda>p. map (\<lambda>i. int (p * per_producer + i)) [0..<per_producer]) [0..<num_producers]"])
    (simp add: concat_blocks o_def del: of_nat_add of_nat_mult)

lemma queue_run_init_eq: "queue_run_init = run_init"
  by (intro ext) (simp add: queue_run_init_def run_init_def)

lemma pool_init_loaded: "loaded num_workers tasks (pool_init num_workers tasks)"
  unfolding loaded_def pool_init_def by (rule exI [of _ "[tasks]"]) simp

text \<open>What the checks of \<^verbatim>\<open>verify\<close> need of the consumed items.\<close>

lemma verify_consumed_complete:
  assumes "mset consumed = mset (map int [0..<num_producers * per_producer])"
  shows "verify_consumed consumed num_producers per_producer = Inr ()"
proof -
  have set: "set consumed = {0..<int (num_producers * per_producer)}"
    using assms by (metis image_int_atLeastLessThan int_ops(1) set_map set_mset_mset set_upt)
  have "length consumed = num_producers * per_producer" using mset_eq_length [OF assms] by simp
  with set show ?thesis by (simp add: verify_consumed_def py_assert_def del: of_nat_mult)
qed

text \<open>Both runs of \<^verbatim>\<open>main\<close> pass \<^verbatim>\<open>verify\<close>, whatever the threads did before the joins let them return.\<close>

lemma pc_main_passes:
  assumes "run_returns (run_init 4 3 5000) consumed_raw" "run_returns (queue_run_init 4 3 5000) consumed_q"
  shows "pc_main consumed_raw consumed_q = Inr ()"
proof -
  have "verify_consumed consumed 4 5000 = Inr ()" if returns: "run_returns (run_init 4 3 5000) consumed" for consumed
  proof -
    obtain buf ps cs where "(pc_any 16 False id)\<^sup>*\<^sup>* (run_init 4 3 5000) (buf, ps, cs, consumed)" "\<forall>c \<in> set cs. c = CExit"
      using returns by (auto simp: run_returns_def list_all_iff)
    from exited_run(3) [OF run_init_loaded _ this] show ?thesis by (intro verify_consumed_complete) simp
  qed
  with assms show ?thesis by (simp add: pc_main_def queue_run_init_eq)
qed

section \<open>Properties\<close>

text \<open>C30. No run of the threads is infinite: every critical section brings the system closer to the end,
  whatever the interleaving, for the raw buffer, \<^verbatim>\<open>queue.Queue\<close> and the worker pool.\<close>

theorem thread_system_terminates: "wfp (pc_step capacity drain work)\<inverse>\<inverse>"
proof (rule wfp_if_convertible_to_nat)
  show "(pc_step capacity drain work)\<inverse>\<inverse> s s' \<Longrightarrow> weight s < weight s'" for s s'
    using pc_step_weight by simp
qed

text \<open>C3. \<^verbatim>\<open>producer_consumer.py\<close>: with at least one consumer and one slot, in every interleaving (spurious
  wakeups included) the buffer never holds more than \<open>capacity\<close> items, and whenever no thread can move
  every consumer has exited, the buffer is empty and \<^verbatim>\<open>verify\<close> succeeds: no deadlock, no lost and no
  duplicated item.\<close>

theorem producer_consumer_exact:
  assumes "0 < num_consumers" "0 < capacity"
    and "start \<in> {run_init num_producers num_consumers per_producer, queue_run_init num_producers num_consumers per_producer}"
    and "(pc_any capacity False id)\<^sup>*\<^sup>* start (buf, ps, cs, consumed)"
  shows "length buf \<le> capacity \<and>
    ((\<exists>s'. pc_step capacity False id (buf, ps, cs, consumed) s') \<or>
     buf = [] \<and> cs = replicate num_consumers CExit \<and> verify_consumed consumed num_producers per_producer = Inr ())"
proof (intro conjI)
  let ?s = "(buf, ps, cs, consumed)"
  have load: "loaded num_consumers (map int [0..<num_producers * per_producer]) start"
    using assms(3) run_init_loaded [of num_consumers num_producers per_producer] by (simp add: queue_run_init_eq)
  have "pc_inv capacity False num_consumers ?s"
    using pc.reach_inv [OF assms(4) loaded_good [OF load]] by (simp add: pc_good_def)
  then show "length buf \<le> capacity" by (rule pc_invD)
  show "(\<exists>s'. pc_step capacity False id ?s s') \<or>
     buf = [] \<and> cs = replicate num_consumers CExit \<and> verify_consumed consumed num_producers per_producer = Inr ()"
  proof (cases "\<exists>s'. pc_step capacity False id ?s s'")
    case False
    note fin = finished_run [OF load assms(1,2,4) this]
    then have "verify_consumed consumed num_producers per_producer = Inr ()" by (intro verify_consumed_complete) simp
    with fin show ?thesis by (simp add: replicate_eqI)
  qed simp
qed

text \<open>\<^verbatim>\<open>worker_pool.py\<close>: with at least one worker and one slot, in every interleaving the task queue stays
  within its bound, and whenever no thread can move all workers have exited and the checks at the end of
  \<^verbatim>\<open>main\<close> succeed: every submitted task was squared exactly once.\<close>

theorem worker_pool_exact:
  assumes "0 < num_workers" "0 < max_queue"
    and "(pc_any max_queue True do_work)\<^sup>*\<^sup>* (pool_init num_workers (map int [0..<num_tasks])) s"
  shows "length (fst s) \<le> max_queue \<and>
    ((\<exists>s'. pc_step max_queue True do_work s s') \<or> pool_checks num_tasks s = Inr ())"
proof (intro conjI)
  obtain buf ps cs results where s: "s = (buf, ps, cs, results)" by (cases s) auto
  note load = pool_init_loaded [of num_workers "map int [0..<num_tasks]"]
  have "pc_inv max_queue True num_workers s"
    using pc.reach_inv [OF assms(3) loaded_good [OF load]] by (simp add: pc_good_def)
  then show "length (fst s) \<le> max_queue" using pc_invD(3) by (simp add: s)
  show "(\<exists>s'. pc_step max_queue True do_work s s') \<or> pool_checks num_tasks s = Inr ()"
  proof (cases "\<exists>s'. pc_step max_queue True do_work s s'")
    case False
    note fin = finished_run [OF load assms(1,2) assms(3)[unfolded s] this [unfolded s]]
    have ms: "mset results = mset (map (\<lambda>i. int i * int i) [0..<num_tasks])"
      using fin(4) by (simp add: do_work_def o_def flip: mset_map)
    have "sort results = sort (map (\<lambda>i. int i * int i) [0..<num_tasks])"
      using ms by (metis mset_sort properties_for_sort sorted_sort)
    with fin mset_eq_length [OF ms] show ?thesis
      by (simp add: s pool_checks_def py_assert_def list_all_iff)
  qed simp
qed

text \<open>One producer (or submitter), one consumer, one item and one slot: the run that ends with the item stored.\<close>

lemma one_item_run:
  "(pc_any 1 drain work)\<^sup>*\<^sup>* ([], [([Item 0], False), ([Pill], False)], [CGet], [])
     ([], [([], False), ([], False)], [CExit], [work 0])"
proof -
  let ?R = "pc_any 1 drain work"
  have r1: "?R ([], [([Item 0], False), ([Pill], False)], [CGet], []) ([Item 0], [([], False), ([Pill], False)], [CGet], [])"
    using pc_step.put [of 0 "[([Item 0], False), ([Pill], False)]" "Item 0" "[]" drain "[]" "[CGet]" 1 "[Item 0]" "[CGet]" work "[]"]
    by (simp add: gate_def buf_put_def wake_c.none)
  have r2: "?R ([Item 0], [([], False), ([Pill], False)], [CGet], []) ([], [([], False), ([Pill], False)], [CHold 0], [])"
    using pc_step.get [of 0 "[CGet]" "[Item 0]" "Item 0" "[]" "[([], False), ([Pill], False)]" "[([], False), ([Pill], False)]" 1 drain work "[]"]
    by (simp add: buf_get_def wake_p.none receive_def)
  have r3: "?R ([], [([], False), ([Pill], False)], [CHold 0], []) ([], [([], False), ([Pill], False)], [CGet], [work 0])"
    using pc_step.store [of 0 "[CHold 0]" 0 1 drain work "[]" "[([], False), ([Pill], False)]" "[]"] by simp
  have r4: "?R ([], [([], False), ([Pill], False)], [CGet], [work 0]) ([Pill], [([], False), ([], False)], [CGet], [work 0])"
    using pc_step.put [of 1 "[([], False), ([Pill], False)]" Pill "[]" drain "[]" "[CGet]" 1 "[Pill]" "[CGet]" work "[work 0]"]
    by (simp add: gate_def buf_put_def wake_c.none less_Suc_eq)
  have r5: "?R ([Pill], [([], False), ([], False)], [CGet], [work 0]) ([], [([], False), ([], False)], [CExit], [work 0])"
    using pc_step.get [of 0 "[CGet]" "[Pill]" Pill "[]" "[([], False), ([], False)]" "[([], False), ([], False)]" 1 drain work "[work 0]"]
    by (simp add: buf_get_def wake_p.none receive_def)
  note C = converse_rtranclp_into_rtranclp [of ?R]
  show ?thesis by (rule C [OF r1 C [OF r2 C [OF r3 C [OF r4 r_into_rtranclp [of ?R, OF r5]]]]])
qed

lemma one_item_stuck: "\<not> pc_step 1 drain work ([], [([], False), ([], False)], [CExit], out) s'"
  by (auto elim!: pc_step.cases simp: less_Suc_eq)

theorem producer_consumer_exact_witness:
  "(pc_any 1 False id)\<^sup>*\<^sup>* (run_init 1 1 1) ([], [([], False), ([], False)], [CExit], [0]) \<and>
   verify_consumed [0] 1 1 = Inr ()"
proof
  show run: "(pc_any 1 False id)\<^sup>*\<^sup>* (run_init 1 1 1) ([], [([], False), ([], False)], [CExit], [0])"
    using one_item_run [of False id] by (simp add: run_init_def producer_items_def)
  show "verify_consumed [0] 1 1 = Inr ()"
    using producer_consumer_exact [OF _ _ _ run] one_item_stuck by auto
qed

theorem worker_pool_exact_witness:
  "(pc_any 1 True do_work)\<^sup>*\<^sup>* (pool_init 1 (map int [0..<1])) ([], [([], False), ([], False)], [CExit], [0]) \<and>
   pool_checks 1 ([], [([], False), ([], False)], [CExit], [0]) = Inr ()"
proof
  show run: "(pc_any 1 True do_work)\<^sup>*\<^sup>* (pool_init 1 (map int [0..<1])) ([], [([], False), ([], False)], [CExit], [0])"
    using one_item_run [of True do_work] by (simp add: pool_init_def do_work_def)
  show "pool_checks 1 ([], [([], False), ([], False)], [CExit], [0]) = Inr ()"
    using worker_pool_exact [OF _ _ run] one_item_stuck by auto
qed

end
