(* ===== verification/Lock_Order.thy ===== *)
theory Lock_Order
  imports Prelude
begin

text \<open>
  \<^verbatim>\<open>deadlock_demo.py\<close>: two threads that each need two locks. A thread is a small state machine; its possible
  next moves are computed from the set of locks that are taken. The three functions of the script differ in
  these moves only, so the discipline they share (a lock has at most one holder, and the taken locks are the
  held ones) is proved once, in the locale \<open>lock_discipline\<close>. The theorems are stated for any number of threads where the
  code's \<^verbatim>\<open>transfer\<close> takes its locks as arguments.
\<close>

section \<open>Threads and locks\<close>

text \<open>A lock is known by its \<^verbatim>\<open>id\<close>. \<open>Want1\<close> is the position before the outer acquire, \<open>Want2\<close> before the inner one.\<close>

datatype phase = Want1 | AtBarrier | Want2 | Both | Rel1 | Fin

record lthread =
  l_first :: nat
  l_second :: nat
  phase :: phase
  flag :: bool

type_synonym lock_state = "lthread list \<times> nat set"

definition thread_of :: "nat \<Rightarrow> nat \<Rightarrow> lthread" where
  "thread_of a b = \<lparr>l_first = a, l_second = b, phase = Want1, flag = False\<rparr>"

text \<open>
  \<^verbatim>\<open>demonstrate_deadlock\<close>: \<open>flag\<close> is the thread's entry of \<^verbatim>\<open>deadlocked\<close>. The barrier opens when no thread is
  before it any more. An acquire with a timeout gives up when the lock is still taken.
\<close>

definition ab_next :: "lthread list \<Rightarrow> lthread \<Rightarrow> nat set \<Rightarrow> (lthread \<times> nat set) list" where
  "ab_next ths th taken = (case phase th of
     Want1 \<Rightarrow> if l_first th \<in> taken then [] else [(th\<lparr>phase := AtBarrier\<rparr>, insert (l_first th) taken)]
   | AtBarrier \<Rightarrow> if list_all (\<lambda>u. phase u \<noteq> Want1) ths then [(th\<lparr>phase := Want2\<rparr>, taken)] else []
   | Want2 \<Rightarrow> if l_second th \<in> taken then [(th\<lparr>phase := Rel1, flag := True\<rparr>, taken)]
              else [(th\<lparr>phase := Both\<rparr>, insert (l_second th) taken)]
   | Both \<Rightarrow> [(th\<lparr>phase := Rel1\<rparr>, taken - {l_second th})]
   | Rel1 \<Rightarrow> [(th\<lparr>phase := Fin\<rparr>, taken - {l_first th})]
   | Fin \<Rightarrow> [])"

definition ab_init :: "nat \<Rightarrow> nat \<Rightarrow> lock_state" where
  "ab_init lock_a lock_b = ([thread_of lock_a lock_b, thread_of lock_b lock_a], {})"

text \<open>
  \<^verbatim>\<open>fixed_with_global_ordering\<close>: \<open>flag\<close> is the thread's entry of \<^verbatim>\<open>completed\<close>; the acquires block.
  \<^verbatim>\<open>sorted\<close> on the pair, by \<^verbatim>\<open>id\<close>, is stable.
\<close>

definition ordered_next :: "lthread list \<Rightarrow> lthread \<Rightarrow> nat set \<Rightarrow> (lthread \<times> nat set) list" where
  "ordered_next ths th taken = (case phase th of
     Want1 \<Rightarrow> if l_first th \<in> taken then [] else [(th\<lparr>phase := Want2\<rparr>, insert (l_first th) taken)]
   | Want2 \<Rightarrow> if l_second th \<in> taken then [] else [(th\<lparr>phase := Both\<rparr>, insert (l_second th) taken)]
   | Both \<Rightarrow> [(th\<lparr>phase := Rel1, flag := True\<rparr>, taken - {l_second th})]
   | Rel1 \<Rightarrow> [(th\<lparr>phase := Fin\<rparr>, taken - {l_first th})]
   | _ \<Rightarrow> [])"

definition sorted_pair :: "nat \<Rightarrow> nat \<Rightarrow> nat \<times> nat" where
  "sorted_pair a b = (if b < a then (b, a) else (a, b))"

definition ordered_init :: "(nat \<times> nat) list \<Rightarrow> lock_state" where
  "ordered_init pairs = (map (\<lambda>(a, b). case sorted_pair a b of (c, d) \<Rightarrow> thread_of c d) pairs, {})"

text \<open>\<^verbatim>\<open>fixed_with_trylock\<close>: both acquires have a timeout; a failed attempt releases and goes round the loop.\<close>

definition try_next :: "lthread list \<Rightarrow> lthread \<Rightarrow> nat set \<Rightarrow> (lthread \<times> nat set) list" where
  "try_next ths th taken = (case phase th of
     Want1 \<Rightarrow> if l_first th \<in> taken then [(th, taken)] else [(th\<lparr>phase := Want2\<rparr>, insert (l_first th) taken)]
   | Want2 \<Rightarrow> if l_second th \<in> taken then [(th\<lparr>phase := Want1\<rparr>, taken - {l_first th})]
              else [(th\<lparr>phase := Both\<rparr>, insert (l_second th) taken)]
   | Both \<Rightarrow> [(th\<lparr>phase := Rel1, flag := True\<rparr>, taken - {l_second th})]
   | Rel1 \<Rightarrow> [(th\<lparr>phase := Fin\<rparr>, taken - {l_first th})]
   | _ \<Rightarrow> [])"

definition try_init :: "(nat \<times> nat) list \<Rightarrow> lock_state" where
  "try_init pairs = (map (\<lambda>(a, b). thread_of a b) pairs, {})"

text \<open>What the functions return when all their threads have been joined.\<close>

definition any_flag :: "lock_state \<Rightarrow> bool" where
  "any_flag s = list_ex flag (fst s)"

definition all_flags :: "lock_state \<Rightarrow> bool" where
  "all_flags s = list_all flag (fst s)"

definition finished :: "lock_state \<Rightarrow> bool" where
  "finished s = list_all (\<lambda>th. phase th = Fin) (fst s)"

text \<open>Any thread may move next.\<close>

inductive lock_step :: "(lthread list \<Rightarrow> lthread \<Rightarrow> nat set \<Rightarrow> (lthread \<times> nat set) list) \<Rightarrow> lock_state \<Rightarrow> lock_state \<Rightarrow> bool"
  for next_moves where
  move: "i < length ths \<Longrightarrow> (th', taken') \<in> set (next_moves ths (ths ! i) taken) \<Longrightarrow>
     lock_step next_moves (ths, taken) (ths[i := th'], taken')"

inductive_cases lock_stepE: "lock_step next_moves (ths, taken) s'"

section \<open>The locking discipline\<close>

definition held_locks :: "lthread \<Rightarrow> nat set" where
  "held_locks th = (case phase th of
     Want1 \<Rightarrow> {} | AtBarrier \<Rightarrow> {l_first th} | Want2 \<Rightarrow> {l_first th} | Both \<Rightarrow> {l_first th, l_second th}
   | Rel1 \<Rightarrow> {l_first th} | Fin \<Rightarrow> {})"

definition lock_inv :: "lock_state \<Rightarrow> bool" where
  "lock_inv s \<longleftrightarrow> (case s of (ths, taken) \<Rightarrow>
     taken = (\<Union>th \<in> set ths. held_locks th) \<and>
     (\<forall>i < length ths. \<forall>j < length ths. i \<noteq> j \<longrightarrow> held_locks (ths ! i) \<inter> held_locks (ths ! j) = {}) \<and>
     (\<forall>th \<in> set ths. l_first th \<noteq> l_second th))"

lemma lock_invD:
  assumes "lock_inv (ths, taken)"
  shows "taken = (\<Union>th \<in> set ths. held_locks th)"
    and "i < length ths \<Longrightarrow> j < length ths \<Longrightarrow> i \<noteq> j \<Longrightarrow> held_locks (ths ! i) \<inter> held_locks (ths ! j) = {}"
    and "th \<in> set ths \<Longrightarrow> l_first th \<noteq> l_second th"
  using assms by (auto simp: lock_inv_def)

text \<open>
  What a move may do to the locks: the thread keeps its two locks' names, gives back what it no longer holds,
  and takes only free locks.
\<close>

locale lock_discipline =
  fixes next_moves :: "lthread list \<Rightarrow> lthread \<Rightarrow> nat set \<Rightarrow> (lthread \<times> nat set) list"
  assumes names: "(th', taken') \<in> set (next_moves ths th taken) \<Longrightarrow> l_first th' = l_first th \<and> l_second th' = l_second th"
    and frame: "(th', taken') \<in> set (next_moves ths th taken) \<Longrightarrow> held_locks th \<subseteq> taken \<Longrightarrow> l_first th \<noteq> l_second th \<Longrightarrow>
      taken' = taken - held_locks th \<union> held_locks th' \<and> held_locks th' \<inter> taken \<subseteq> held_locks th"
begin

lemma step_inv:
  assumes "lock_step next_moves s s'" "lock_inv s"
  shows "lock_inv s'"
  using assms(1)
proof cases
  case (move i ths th' taken' taken)
  let ?th = "ths ! i"
  note I = lock_invD [OF assms(2) [unfolded move(1)]]
  have mem: "?th \<in> set ths" using move(3) by simp
  have sub: "held_locks ?th \<subseteq> taken" using I(1) mem by auto
  note F = frame [OF move(4) sub I(3) [OF mem]]
  have rest: "(\<Union>j \<in> {..<length ths} - {i}. held_locks (ths ! j)) = taken - held_locks ?th"
  proof -
    have "taken = (\<Union>j \<in> {..<length ths}. held_locks (ths ! j))" using I(1) by (auto simp: set_conv_nth)
    with I(2) move(3) show ?thesis by blast
  qed
  have "(\<Union>th \<in> set (ths[i := th']). held_locks th) = (\<Union>j \<in> {..<length ths}. held_locks (ths[i := th'] ! j))"
    by (auto simp: set_conv_nth)
  also have "\<dots> = (\<Union>j \<in> {..<length ths} - {i}. held_locks (ths ! j)) \<union> held_locks th'"
    using move(3) by (auto simp: nth_list_update split: if_splits)
  finally have "taken' = (\<Union>th \<in> set (ths[i := th']). held_locks th)" using F rest by simp
  moreover have "held_locks (ths[i := th'] ! j) \<inter> held_locks (ths[i := th'] ! k) = {}"
    if "j < length ths" "k < length ths" "j \<noteq> k" for j k
  proof -
    have other: "held_locks th' \<inter> held_locks (ths ! m) = {}" if "m < length ths" "m \<noteq> i" for m
      using F rest that by blast
    show ?thesis using I(2) [OF that] other that move(3) by (auto simp: nth_list_update)
  qed
  moreover have "l_first th \<noteq> l_second th" if "th \<in> set (ths[i := th'])" for th
    using that I(3) names [OF move(4)] mem set_update_subset_insert [of ths i th'] by (metis insertE subsetD)
  ultimately show ?thesis by (auto simp: move(2) lock_inv_def)
qed

end

sublocale lock_discipline \<subseteq> step_invariant "lock_step next_moves" lock_inv
  by unfold_locales (rule step_inv)

named_theorems next_defs

lemmas [next_defs] = ab_next_def ordered_next_def try_next_def held_locks_def

interpretation ab: lock_discipline ab_next
  by unfold_locales (auto simp: next_defs split: phase.splits if_splits)

interpretation ord: lock_discipline ordered_next
  by unfold_locales (auto simp: next_defs split: phase.splits if_splits)

interpretation try_lock: lock_discipline try_next
  by unfold_locales (auto simp: next_defs split: phase.splits if_splits)

lemma held_taken: "lock_inv (ths, taken) \<Longrightarrow> l \<in> taken \<Longrightarrow> \<exists>i < length ths. l \<in> held_locks (ths ! i)"
  by (auto dest!: lock_invD(1) simp: set_conv_nth)

lemma held_cases:
  assumes "l \<in> held_locks th"
  obtains "phase th \<in> {AtBarrier, Want2, Both, Rel1}" "l = l_first th" | "phase th = Both" "l = l_second th"
  using assms by (auto simp: held_locks_def split: phase.splits)

lemma stuck_next: "\<nexists>s'. lock_step next_moves (ths, taken) s' \<Longrightarrow> i < length ths \<Longrightarrow> next_moves ths (ths ! i) taken = []"
  using lock_step.move [of i ths] by (metis list.set_intros(1) neq_Nil_conv surj_pair)

lemma start_inv:
  assumes "\<And>th. th \<in> set ths \<Longrightarrow> phase th \<in> {Want1, Fin} \<and> l_first th \<noteq> l_second th"
  shows "lock_inv (ths, {})"
proof -
  have "held_locks th = {}" if "th \<in> set ths" for th using assms [OF that] by (auto simp: held_locks_def)
  then show ?thesis using assms by (auto simp: lock_inv_def)
qed

section \<open>The AB/BA demonstration\<close>

text \<open>What one thread \<open>u\<close> knows of the other one, \<open>v\<close>.\<close>

definition ab_know :: "lthread \<Rightarrow> lthread \<Rightarrow> bool" where
  "ab_know u v \<longleftrightarrow> (phase u \<in> {Want2, Both, Rel1, Fin} \<longrightarrow> phase v \<noteq> Want1) \<and>
     (flag u \<longrightarrow> phase u \<in> {Rel1, Fin}) \<and> (phase u \<in> {Both, Rel1, Fin} \<longrightarrow> flag u \<or> flag v)"

definition ab_inv :: "nat \<Rightarrow> nat \<Rightarrow> lock_state \<Rightarrow> bool" where
  "ab_inv a b s \<longleftrightarrow> (\<exists>u v. fst s = [u, v] \<and> l_first u = a \<and> l_second u = b \<and> l_first v = b \<and> l_second v = a \<and>
     ab_know u v \<and> ab_know v u)"

lemma ab_know_move:
  assumes "(u', taken') \<in> set (ab_next ths u taken)" "set ths = {u, v}" "ab_know u v" "ab_know v u"
    and "taken = held_locks u \<union> held_locks v" "l_second u = l_first v"
  shows "ab_know u' v" "ab_know v u'"
  using assms by (auto simp: ab_next_def ab_know_def held_locks_def list_all_iff split: phase.splits if_splits)

lemma ab_step_inv:
  assumes "lock_step ab_next s s'" "ab_inv a b s" "lock_inv s"
  shows "ab_inv a b s'"
  using assms(1)
proof cases
  case (move i ths th' taken' taken)
  obtain u v where uv: "ths = [u, v]" "l_first u = a" "l_second u = b" "l_first v = b" "l_second v = a" "ab_know u v" "ab_know v u"
    using assms(2) by (auto simp: ab_inv_def move)
  have t: "taken = held_locks u \<union> held_locks v" using lock_invD(1) [OF assms(3) [unfolded move]] by (simp add: uv)
  have "i = 0 \<or> i = 1" using move(3) by (auto simp: uv)
  then show ?thesis
  proof
    assume "i = 0"
    with move uv t ab_know_move [of th' taken' ths u taken v] ab.names [of th' taken' ths u taken]
    show ?thesis by (auto simp: ab_inv_def)
  next
    assume "i = 1"
    with move uv t ab_know_move [of th' taken' ths v taken u] ab.names [of th' taken' ths v taken]
    show ?thesis by (auto simp: ab_inv_def insert_commute)
  qed
qed

lemma ab_reach:
  assumes "a \<noteq> b" "(lock_step ab_next)\<^sup>*\<^sup>* (ab_init a b) s"
  shows "ab_inv a b s \<and> lock_inv s"
  using assms(2)
proof (induction rule: rtranclp_induct)
  case base
  show ?case using assms(1)
    by (auto simp: ab_init_def ab_inv_def ab_know_def lock_inv_def thread_of_def held_locks_def less_Suc_eq)
qed (auto intro: ab_step_inv ab.step_inv)

lemma ab_stuck:
  assumes "ab_inv a b (ths, taken)" "lock_inv (ths, taken)" "\<nexists>s'. lock_step ab_next (ths, taken) s'"
  shows "finished (ths, taken) \<and> any_flag (ths, taken)"
proof -
  obtain u v where uv: "ths = [u, v]" "l_first u = a" "l_second u = b" "l_first v = b" "l_second v = a" "ab_know u v" "ab_know v u"
    using assms(1) by (auto simp: ab_inv_def)
  have t: "taken = held_locks u \<union> held_locks v" using lock_invD(1) [OF assms(2)] by (simp add: uv)
  have "ab_next [u, v] u taken = []" "ab_next [u, v] v taken = []"
    using stuck_next [OF assms(3), of 0] stuck_next [OF assms(3), of 1] by (simp_all add: uv)
  then have "phase u = Fin" "phase v = Fin"
    using t uv(2-5) lock_invD(2) [OF assms(2), of 0 1] lock_invD(3) [OF assms(2), of u]
    by (auto simp: ab_next_def held_locks_def uv(1) split: phase.splits if_splits)
  with uv(1,6) show ?thesis by (auto simp: finished_def any_flag_def ab_know_def)
qed

section \<open>Global ordering\<close>

definition ordered_ok :: "lthread \<Rightarrow> bool" where
  "ordered_ok th \<longleftrightarrow> l_first th < l_second th \<and> phase th \<noteq> AtBarrier \<and> (phase th \<in> {Rel1, Fin} \<longrightarrow> flag th)"

lemma ordered_next_ok: "(th', taken') \<in> set (ordered_next ths th taken) \<Longrightarrow> ordered_ok th \<Longrightarrow> ordered_ok th'"
  by (auto simp: ordered_next_def ordered_ok_def split: phase.splits if_splits)

lemma step_all:
  assumes "\<And>th th' taken taken' ths. (th', taken') \<in> set (next_moves ths th taken) \<Longrightarrow> P th \<Longrightarrow> P th'"
    and "(lock_step next_moves)\<^sup>*\<^sup>* s s'" "\<forall>th \<in> set (fst s). P th"
  shows "\<forall>th \<in> set (fst s'). P th"
  using assms(2,3)
proof (induction rule: rtranclp_induct)
  case (step s' s'')
  from step(2) show ?case
  proof cases
    case (move i ths th' taken' taken)
    then show ?thesis
      using step assms(1) [of th' taken' ths "ths ! i" taken] set_update_subset_insert [of ths i th'] by auto
  qed
qed simp

lemma ordered_init_ok:
  assumes "\<forall>(a, b) \<in> set pairs. a \<noteq> b"
  shows "\<forall>th \<in> set (fst (ordered_init pairs)). ordered_ok th" "lock_inv (ordered_init pairs)"
  using assms by (fastforce simp: ordered_init_def sorted_pair_def thread_of_def ordered_ok_def intro!: start_inv split: if_splits)+

lemma ordered_stuck:
  assumes "lock_inv (ths, taken)" "\<forall>th \<in> set ths. ordered_ok th" "\<nexists>s'. lock_step ordered_next (ths, taken) s'"
  shows "\<forall>th \<in> set ths. phase th = Fin"
proof (rule ccontr)
  assume "\<not> (\<forall>th \<in> set ths. phase th = Fin)"
  then obtain th where th: "th \<in> set ths" "phase th \<noteq> Fin" by blast
  have none: "ordered_next ths u taken = []" if "u \<in> set ths" for u
    using stuck_next [OF assms(3)] that by (auto simp: in_set_conv_nth)
  then have ph: "phase u \<in> {Want1, Want2, Fin}" if "u \<in> set ths" for u
    using that assms(2) by (cases "phase u") (force simp: ordered_next_def ordered_ok_def)+
  have holder: "\<exists>v \<in> set ths. phase v = Want2 \<and> l = l_first v" if "l \<in> taken" for l
  proof -
    obtain v where v: "v \<in> set ths" "l \<in> held_locks v" using \<open>l \<in> taken\<close> lock_invD(1) [OF assms(1)] by auto
    then show ?thesis using ph [OF v(1)] by (auto elim!: held_cases)
  qed
  let ?W = "{v \<in> set ths. phase v = Want2}"
  have next_w: "\<exists>w \<in> ?W. l_first v < l_first w" if "v \<in> ?W" for v
  proof -
    have "l_second v \<in> taken" using none [of v] that by (auto simp: ordered_next_def split: if_splits)
    with holder that assms(2) show ?thesis by (fastforce simp: ordered_ok_def)
  qed
  have "?W \<noteq> {}"
  proof (cases "phase th = Want2")
    case False
    then have "phase th = Want1" using ph th by auto
    then have "l_first th \<in> taken" using none [OF th(1)] by (auto simp: ordered_next_def split: if_splits)
    then show ?thesis using holder by blast
  qed (use th in auto)
  moreover have "finite ?W" by simp
  ultimately have "Max (l_first ` ?W) \<in> l_first ` ?W" by (intro Max_in) auto
  then obtain v where "v \<in> ?W" "l_first v = Max (l_first ` ?W)" by auto
  moreover have "l_first w \<le> Max (l_first ` ?W)" if "w \<in> ?W" for w using that by (intro Max_ge) auto
  ultimately show False using next_w [of v] by (metis not_less)
qed

section \<open>Try-lock\<close>

definition try_ok :: "lthread \<Rightarrow> bool" where
  "try_ok th \<longleftrightarrow> l_first th \<noteq> l_second th \<and> phase th \<noteq> AtBarrier \<and> (phase th \<in> {Rel1, Fin} \<longrightarrow> flag th)"

lemma try_next_ok: "(th', taken') \<in> set (try_next ths th taken) \<Longrightarrow> try_ok th \<Longrightarrow> try_ok th'"
  by (auto simp: try_next_def try_ok_def split: phase.splits if_splits)

lemma try_init_ok:
  assumes "\<forall>(a, b) \<in> set pairs. a \<noteq> b"
  shows "\<forall>th \<in> set (fst (try_init pairs)). try_ok th" "lock_inv (try_init pairs)"
  using assms by (fastforce simp: try_init_def thread_of_def try_ok_def intro!: start_inv)+

text \<open>The measure of the run that gets everybody home: first the threads that are not finished, then how much is held.\<close>

primrec try_rank :: "phase \<Rightarrow> nat" where
  "try_rank Want1 = 0"
| "try_rank Rel1 = 1"
| "try_rank Both = 2"
| "try_rank Want2 = 3"
| "try_rank AtBarrier = 0"
| "try_rank Fin = 0"

definition open_threads :: "lthread list \<Rightarrow> nat" where
  "open_threads ths = length (filter (\<lambda>th. phase th \<noteq> Fin) ths)"

definition total_rank :: "lthread list \<Rightarrow> nat" where
  "total_rank ths = sum_list (map (\<lambda>th. try_rank (phase th)) ths)"

lemma open_threads_update:
  "i < length ths \<Longrightarrow> open_threads (ths[i := th]) + (if phase (ths ! i) \<noteq> Fin then 1 else 0) =
     open_threads ths + (if phase th \<noteq> Fin then 1 else 0)"
proof (induction ths arbitrary: i)
  case (Cons t ts)
  then show ?case by (cases i) (auto simp: open_threads_def)
qed (simp add: open_threads_def)

lemma total_rank_update:
  "i < length ths \<Longrightarrow> total_rank (ths[i := th]) + try_rank (phase (ths ! i)) = total_rank ths + try_rank (phase th)"
proof (induction ths arbitrary: i)
  case (Cons t ts)
  then show ?case by (cases i) (auto simp: total_rank_def)
qed (simp add: total_rank_def)

lemma try_move:
  "i < length ths \<Longrightarrow> try_next ths (ths ! i) taken = [(th', taken')] \<Longrightarrow> lock_step try_next (ths, taken) (ths[i := th'], taken')"
  by (rule lock_step.move) simp_all

text \<open>A thread that holds a lock moves towards holding none.\<close>

lemma try_holder_move:
  assumes "i < length ths" "phase (ths ! i) \<in> {Want2, Both, Rel1}"
  obtains th' taken' where "lock_step try_next (ths, taken) (ths[i := th'], taken')"
    "open_threads (ths[i := th']) \<le> open_threads ths" "total_rank (ths[i := th']) < total_rank ths"
proof -
  obtain th' taken' where nxt: "try_next ths (ths ! i) taken = [(th', taken')]"
      "try_rank (phase th') < try_rank (phase (ths ! i))"
    using assms(2) by (cases "l_second (ths ! i) \<in> taken") (auto simp: try_next_def)
  show thesis
  proof (rule that [OF try_move [OF assms(1) nxt(1)]])
    show "total_rank (ths[i := th']) < total_rank ths" using total_rank_update [OF assms(1), of th'] nxt(2) by simp
    show "open_threads (ths[i := th']) \<le> open_threads ths"
      using open_threads_update [OF assms(1), of th'] assms(2) by (auto split: if_splits)
  qed
qed

text \<open>When no lock is taken a thread runs alone from its outer acquire to its end.\<close>

lemma try_alone:
  assumes "i < length ths" "phase (ths ! i) = Want1" "l_first (ths ! i) \<noteq> l_second (ths ! i)"
  shows "(lock_step try_next)\<^sup>*\<^sup>* (ths, {}) (ths[i := (ths ! i)\<lparr>phase := Fin, flag := True\<rparr>], {})"
proof -
  let ?th = "ths ! i" and ?R = "lock_step try_next"
  let ?a = "l_first ?th" and ?b = "l_second ?th"
  have r1: "?R (ths, {}) (ths[i := ?th\<lparr>phase := Want2\<rparr>], {?a})"
    by (rule try_move) (use assms in \<open>simp_all add: try_next_def\<close>)
  have r2: "?R (ths[i := ?th\<lparr>phase := Want2\<rparr>], {?a}) (ths[i := ?th\<lparr>phase := Both\<rparr>], {?b, ?a})"
    using try_move [of i "ths[i := ?th\<lparr>phase := Want2\<rparr>]" "{?a}" "?th\<lparr>phase := Both\<rparr>" "{?b, ?a}"] assms by (simp add: try_next_def)
  have r3: "?R (ths[i := ?th\<lparr>phase := Both\<rparr>], {?b, ?a}) (ths[i := ?th\<lparr>phase := Rel1, flag := True\<rparr>], {?a})"
    using try_move [of i "ths[i := ?th\<lparr>phase := Both\<rparr>]" "{?b, ?a}" "?th\<lparr>phase := Rel1, flag := True\<rparr>" "{?a}"] assms
    by (auto simp: try_next_def)
  have r4: "?R (ths[i := ?th\<lparr>phase := Rel1, flag := True\<rparr>], {?a}) (ths[i := ?th\<lparr>phase := Fin, flag := True\<rparr>], {})"
    using try_move [of i "ths[i := ?th\<lparr>phase := Rel1, flag := True\<rparr>]" "{?a}" "?th\<lparr>phase := Fin, flag := True\<rparr>" "{}"] assms
    by (simp add: try_next_def)
  note C = converse_rtranclp_into_rtranclp [of ?R]
  show ?thesis by (rule C [OF r1 C [OF r2 C [OF r3 r_into_rtranclp [of ?R, OF r4]]]])
qed

lemma try_finishes:
  assumes "lock_inv s" "\<forall>th \<in> set (fst s). try_ok th"
  shows "\<exists>s'. (lock_step try_next)\<^sup>*\<^sup>* s s' \<and> finished s'"
  using assms
proof (induction s rule: wf_induct_rule [OF wf_measures, of "[\<lambda>s. open_threads (fst s), \<lambda>s. total_rank (fst s)]"])
  case (1 s)
  obtain ths taken where s: "s = (ths, taken)" by (cases s)
  have onward: "\<exists>s'. (lock_step try_next)\<^sup>*\<^sup>* s s' \<and> finished s'"
    if st: "(lock_step try_next)\<^sup>*\<^sup>* s t" and less: "(t, s) \<in> measures [\<lambda>s. open_threads (fst s), \<lambda>s. total_rank (fst s)]" for t
  proof -
    have "lock_inv t" using try_lock.reach_inv [OF that(1) "1.prems"(1)] .
    moreover have "\<forall>th \<in> set (fst t). try_ok th" using step_all [OF try_next_ok that(1) "1.prems"(2)] .
    ultimately obtain s' where "(lock_step try_next)\<^sup>*\<^sup>* t s'" "finished s'" using "1.IH" [OF less] by blast
    with that(1) show ?thesis using rtranclp_trans by metis
  qed
  consider (all_fin) "\<forall>th \<in> set ths. phase th = Fin"
    | (holder) i where "i < length ths" "phase (ths ! i) \<in> {Want2, Both, Rel1}"
    | (idle) i where "i < length ths" "phase (ths ! i) = Want1" "\<forall>th \<in> set ths. phase th \<in> {Want1, Fin}"
  proof (cases "\<exists>i < length ths. phase (ths ! i) \<in> {Want2, Both, Rel1}")
    case False
    have W: "phase th \<in> {Want1, Fin}" if "th \<in> set ths" for th
    proof -
      have "phase th \<noteq> AtBarrier" using "1.prems"(2) that by (auto simp: s try_ok_def)
      moreover have "phase th \<notin> {Want2, Both, Rel1}" using False that by (metis in_set_conv_nth)
      ultimately show ?thesis by (cases "phase th") auto
    qed
    show thesis
    proof (cases "\<forall>th \<in> set ths. phase th = Fin")
      case False
      then obtain i where "i < length ths" "phase (ths ! i) \<noteq> Fin" by (auto simp: in_set_conv_nth)
      with W [of "ths ! i"] W show thesis using idle [of i] by auto
    qed (rule all_fin)
  qed (use holder in blast)
  then show ?case
  proof cases
    case all_fin
    then show ?thesis by (auto simp: finished_def s list_all_iff)
  next
    case holder
    then obtain th' taken' where "lock_step try_next s (ths[i := th'], taken')"
        "open_threads (ths[i := th']) \<le> open_threads ths" "total_rank (ths[i := th']) < total_rank ths"
      using try_holder_move [of i ths taken] s by metis
    then show ?thesis by (intro onward [of "(ths[i := th'], taken')"]) (auto simp: s)
  next
    case idle
    have "held_locks th = {}" if "th \<in> set ths" for th using idle(3) that by (auto simp: held_locks_def)
    then have t: "taken = {}" using lock_invD(1) [OF "1.prems"(1) [unfolded s]] by simp
    have "l_first (ths ! i) \<noteq> l_second (ths ! i)" using "1.prems"(2) idle(1) by (simp add: s try_ok_def)
    from try_alone [OF idle(1,2) this] show ?thesis
      using open_threads_update [OF idle(1), of "(ths ! i)\<lparr>phase := Fin, flag := True\<rparr>"] idle(2)
      by (intro onward [of "(ths[i := (ths ! i)\<lparr>phase := Fin, flag := True\<rparr>], {})"]) (auto simp: s t)
  qed
qed

section \<open>Properties\<close>

lemma ab_final:
  assumes "lock_a \<noteq> lock_b" "(lock_step ab_next)\<^sup>*\<^sup>* (ab_init lock_a lock_b) s" "\<nexists>s'. lock_step ab_next s s'"
  shows "finished s \<and> any_flag s \<and> snd s = {}"
proof -
  obtain ths taken where s: "s = (ths, taken)" by (cases s)
  have inv: "ab_inv lock_a lock_b s" "lock_inv s" using ab_reach [OF assms(1,2)] by auto
  note fin = ab_stuck [OF inv [unfolded s] assms(3) [unfolded s]]
  then have "held_locks th = {}" if "th \<in> set ths" for th using that by (auto simp: finished_def list_all_iff held_locks_def)
  then show ?thesis using fin lock_invD(1) [OF inv(2) [unfolded s]] by (simp add: s)
qed

lemma ordered_final:
  assumes "\<forall>(a, b) \<in> set pairs. a \<noteq> b" "(lock_step ordered_next)\<^sup>*\<^sup>* (ordered_init pairs) s" "\<nexists>s'. lock_step ordered_next s s'"
  shows "finished s \<and> all_flags s"
proof -
  obtain ths taken where s: "s = (ths, taken)" by (cases s)
  have ok: "\<forall>th \<in> set ths. ordered_ok th"
    using step_all [OF ordered_next_ok assms(2) ordered_init_ok(1) [OF assms(1)]] by (simp add: s)
  have "\<forall>th \<in> set ths. phase th = Fin"
    using ordered_stuck [OF ord.reach_inv [OF assms(2) ordered_init_ok(2) [OF assms(1)], unfolded s] ok] assms(3) s by simp
  with ok show ?thesis by (auto simp: s finished_def all_flags_def list_all_iff ordered_ok_def)
qed

lemma try_final:
  assumes "\<forall>(a, b) \<in> set pairs. a \<noteq> b" "(lock_step try_next)\<^sup>*\<^sup>* (try_init pairs) s" "finished s"
  shows "all_flags s"
proof -
  have "\<forall>th \<in> set (fst s). try_ok th" using step_all [OF try_next_ok assms(2) try_init_ok(1) [OF assms(1)]] .
  with assms(3) show ?thesis by (auto simp: finished_def all_flags_def list_all_iff try_ok_def)
qed

text \<open>C31. \<^verbatim>\<open>demonstrate_deadlock\<close> never hangs and always returns \<^verbatim>\<open>True\<close>: for two different locks, in every
  interleaving, whenever no thread can move both threads have ended and at least one of them could not get
  its second lock.\<close>

theorem ab_always_detected:
  assumes "lock_a \<noteq> lock_b" "(lock_step ab_next)\<^sup>*\<^sup>* (ab_init lock_a lock_b) s"
  shows "(\<exists>s'. lock_step ab_next s s') \<or> finished s \<and> any_flag s \<and> snd s = {}"
  using ab_final [OF assms] by blast

text \<open>C14. \<^verbatim>\<open>fixed_with_global_ordering\<close> cannot deadlock: any number of threads, each with any two different locks
  taken in the order of their ids, in every interleaving: whenever no thread can move all have completed.\<close>

theorem global_order_no_deadlock:
  assumes "\<forall>(a, b) \<in> set pairs. a \<noteq> b" "(lock_step ordered_next)\<^sup>*\<^sup>* (ordered_init pairs) s"
  shows "(\<exists>s'. lock_step ordered_next s s') \<or> finished s \<and> all_flags s"
  using ordered_final [OF assms] by blast

text \<open>C32. \<^verbatim>\<open>fixed_with_trylock\<close> cannot deadlock either: although the threads take their locks in any order, from
  every state they can reach a state is reachable in which all of them have completed.\<close>

theorem trylock_can_finish:
  assumes "\<forall>(a, b) \<in> set pairs. a \<noteq> b" "(lock_step try_next)\<^sup>*\<^sup>* (try_init pairs) s"
  shows "\<exists>s'. (lock_step try_next)\<^sup>*\<^sup>* s s' \<and> finished s' \<and> all_flags s'"
proof -
  have ok: "\<forall>th \<in> set (fst s). try_ok th" using step_all [OF try_next_ok assms(2) try_init_ok(1) [OF assms(1)]] .
  obtain s' where s': "(lock_step try_next)\<^sup>*\<^sup>* s s'" "finished s'"
    using try_finishes [OF try_lock.reach_inv [OF assms(2) try_init_ok(2) [OF assms(1)]] ok] by blast
  with try_final [OF assms(1) rtranclp_trans [OF assms(2) s'(1)]] show ?thesis by blast
qed

text \<open>Runs by a schedule: which thread moves next. The scripts' own two threads have, say, the ids 1 and 2.\<close>

fun run_schedule :: "(lthread list \<Rightarrow> lthread \<Rightarrow> nat set \<Rightarrow> (lthread \<times> nat set) list) \<Rightarrow> nat list \<Rightarrow> lock_state \<Rightarrow> lock_state option" where
  "run_schedule next_moves [] s = Some s"
| "run_schedule next_moves (i # is) (ths, taken) = (if i < length ths then
     (case next_moves ths (ths ! i) taken of [] \<Rightarrow> None | (th', taken') # _ \<Rightarrow> run_schedule next_moves is (ths[i := th'], taken'))
     else None)"

lemma run_schedule_reach: "run_schedule next_moves is s = Some s' \<Longrightarrow> (lock_step next_moves)\<^sup>*\<^sup>* s s'"
proof (induction next_moves "is" s rule: run_schedule.induct)
  case (2 next_moves i "is" ths taken)
  then obtain th' taken' rest where n: "i < length ths" "next_moves ths (ths ! i) taken = (th', taken') # rest"
      "run_schedule next_moves is (ths[i := th'], taken') = Some s'"
    by (auto split: if_splits list.splits)
  then have "lock_step next_moves (ths, taken) (ths[i := th'], taken')" by (intro lock_step.move) simp_all
  moreover have "(lock_step next_moves)\<^sup>*\<^sup>* (ths[i := th'], taken') s'" using 2(1) [OF n(1) n(2)] n(3) by simp
  ultimately show ?case by (rule converse_rtranclp_into_rtranclp)
qed simp

definition ab_end :: lock_state where
  "ab_end = ([\<lparr>l_first = 1, l_second = 2, phase = Fin, flag = True\<rparr>, \<lparr>l_first = 2, l_second = 1, phase = Fin, flag = False\<rparr>], {})"

lemma ab_end_run: "run_schedule ab_next [0, 1, 0, 0, 0, 1, 1, 1, 1] (ab_init 1 2) = Some ab_end"
  by code_simp

lemma ab_end_stuck: "\<not> lock_step ab_next ab_end s"
  by (auto simp: ab_end_def ab_next_def less_Suc_eq elim!: lock_stepE)

theorem ab_always_detected_witness:
  "(lock_step ab_next)\<^sup>*\<^sup>* (ab_init 1 2) ab_end \<and> finished ab_end \<and> any_flag ab_end \<and> snd ab_end = {}"
proof
  show run: "(lock_step ab_next)\<^sup>*\<^sup>* (ab_init 1 2) ab_end" by (rule run_schedule_reach [OF ab_end_run])
  show "finished ab_end \<and> any_flag ab_end \<and> snd ab_end = {}"
    using ab_always_detected [OF _ run] ab_end_stuck by auto
qed

definition ordered_end :: lock_state where
  "ordered_end = ([\<lparr>l_first = 1, l_second = 2, phase = Fin, flag = True\<rparr>, \<lparr>l_first = 1, l_second = 2, phase = Fin, flag = True\<rparr>], {})"

lemma ordered_end_run: "run_schedule ordered_next [0, 0, 0, 0, 1, 1, 1, 1] (ordered_init [(1, 2), (2, 1)]) = Some ordered_end"
  by code_simp

lemma ordered_end_stuck: "\<not> lock_step ordered_next ordered_end s"
  by (auto simp: ordered_end_def ordered_next_def less_Suc_eq elim!: lock_stepE)

theorem global_order_no_deadlock_witness:
  "(lock_step ordered_next)\<^sup>*\<^sup>* (ordered_init [(1, 2), (2, 1)]) ordered_end \<and> finished ordered_end \<and> all_flags ordered_end"
proof
  show run: "(lock_step ordered_next)\<^sup>*\<^sup>* (ordered_init [(1, 2), (2, 1)]) ordered_end"
    by (rule run_schedule_reach [OF ordered_end_run])
  show "finished ordered_end \<and> all_flags ordered_end"
    using global_order_no_deadlock [OF _ run] ordered_end_stuck by auto
qed

theorem trylock_can_finish_witness:
  "\<exists>s'. (lock_step try_next)\<^sup>*\<^sup>* (try_init [(1, 2), (2, 1)]) s' \<and> finished s' \<and> all_flags s'"
  using trylock_can_finish [of "[(1, 2), (2, 1)]" "try_init [(1, 2), (2, 1)]"] by simp

section \<open>The main function\<close>

text \<open>\<^verbatim>\<open>main\<close>, on the states in which the threads of the three protocols were joined.\<close>

definition deadlock_main :: "lock_state \<Rightarrow> lock_state \<Rightarrow> lock_state \<Rightarrow> unit res" where
  "deadlock_main s1 s2 s3 =
     rbind (py_assert (any_flag s1)) (\<lambda>_. rbind (py_assert (all_flags s2)) (\<lambda>_. py_assert (all_flags s3)))"

lemma deadlock_main_passes:
  assumes "lock_a \<noteq> lock_b" "(lock_step ab_next)\<^sup>*\<^sup>* (ab_init lock_a lock_b) s1" "\<nexists>s'. lock_step ab_next s1 s'"
    and "(lock_step ordered_next)\<^sup>*\<^sup>* (ordered_init [(lock_a, lock_b), (lock_b, lock_a)]) s2" "\<nexists>s'. lock_step ordered_next s2 s'"
    and "(lock_step try_next)\<^sup>*\<^sup>* (try_init [(lock_a, lock_b), (lock_b, lock_a)]) s3" "finished s3"
  shows "deadlock_main s1 s2 s3 = Inr ()"
proof -
  have ne: "\<forall>(a, b) \<in> set [(lock_a, lock_b), (lock_b, lock_a)]. a \<noteq> b" using assms(1) by auto
  show ?thesis
    using ab_final [OF assms(1-3)] ordered_final [OF ne assms(4,5)] try_final [OF ne assms(6,7)]
    by (simp add: deadlock_main_def py_assert_def)
qed

end
