(* ===== verification/Calendar.thy ===== *)
theory Calendar
  imports Complex_Main Py_Str
begin

text \<open>
  The calendar and clock functions of Python's standard library, as far as the scripts use them: \<^verbatim>\<open>time.sleep\<close>,
  \<^verbatim>\<open>calendar.timegm\<close> with \<^verbatim>\<open>datetime.date.toordinal\<close>, which it calls, and \<^verbatim>\<open>time.gmtime\<close> with the format
  \<^verbatim>\<open>%y%m%d%H%M%SZ\<close> of \<^verbatim>\<open>time.strftime\<close>. The lemmas show that the ordinal counts days and that the two directions
  are inverse.
\<close>

section \<open>Dates\<close>

text \<open>\<^verbatim>\<open>datetime.date.toordinal\<close>: days before the year, before the month, and in the month.\<close>

definition is_leap :: "int \<Rightarrow> bool" where
  "is_leap y \<longleftrightarrow> y mod 4 = 0 \<and> (y mod 100 \<noteq> 0 \<or> y mod 400 = 0)"

definition days_in_month :: "int \<Rightarrow> nat \<Rightarrow> int" where
  "days_in_month y m = (if m = 2 \<and> is_leap y then 29 else [31, 28, 31, 30, 31, 30, 31, 31, 30, 31, 30, 31] ! (m - 1))"

definition days_before_year :: "int \<Rightarrow> int" where
  "days_before_year y = (let y = y - 1 in y * 365 + y div 4 - y div 100 + y div 400)"

definition days_before_month :: "int \<Rightarrow> nat \<Rightarrow> int" where
  "days_before_month y m = sum_list (map (days_in_month y) [1..<m])"

definition toordinal :: "int \<Rightarrow> nat \<Rightarrow> int \<Rightarrow> int" where
  "toordinal y m d = days_before_year y + days_before_month y m + d"

text \<open>\<^verbatim>\<open>calendar.timegm\<close>: the day of the month is not checked against the month.\<close>

definition timegm :: "int \<Rightarrow> nat \<Rightarrow> int \<Rightarrow> int \<Rightarrow> int \<Rightarrow> int \<Rightarrow> int" where
  "timegm year month day hour minute second =
     (let days = toordinal year month 1 - 719163 + day - 1; hours = days * 24 + hour; minutes = hours * 60 + minute
      in minutes * 60 + second)"

section \<open>From seconds to a date\<close>

text \<open>
  \<^verbatim>\<open>time.gmtime\<close>: the day is found from the first of January of the year 1, over whole cycles of 400 years, then year by year and
  month by month. Times outside 64 bits raise \<^verbatim>\<open>OverflowError\<close>, years outside the 32 bits of \<^verbatim>\<open>tm_year\<close> \<^verbatim>\<open>OSError\<close>. The
  clock is a rational; \<^verbatim>\<open>gmtime\<close> rounds it down.
\<close>

definition year_days :: "int \<Rightarrow> int" where
  "year_days y = (if is_leap y then 366 else 365)"

function year_loop :: "int \<Rightarrow> int \<Rightarrow> int \<times> int" where
  "year_loop y d = (if d < year_days y then (y, d) else year_loop (y + 1) (d - year_days y))"
  by pat_completeness auto

termination by (relation "measure (\<lambda>(y, d). nat d)") (auto simp: year_days_def split: if_splits)

function month_loop :: "int \<Rightarrow> nat \<Rightarrow> int \<Rightarrow> nat \<times> int" where
  "month_loop y m d = (if 12 \<le> m \<or> d < days_in_month y m then (m, d + 1) else month_loop y (m + 1) (d - days_in_month y m))"
  by pat_completeness auto

termination by (relation "measure (\<lambda>(y, m, d). 12 - m)") auto

declare year_loop.simps [simp del] month_loop.simps [simp del]

type_synonym time_fields = "int \<times> nat \<times> int \<times> int \<times> int \<times> int"

definition gm_fields :: "int \<Rightarrow> time_fields" where
  "gm_fields t =
     (let days = t div 86400 + 719162; secs = t mod 86400;
          (y0, doy) = year_loop 1 (days mod 146097);
          y = y0 + 400 * (days div 146097);
          (m, d) = month_loop y 1 doy
      in (y, m, d, secs div 3600, secs div 60 mod 60, secs mod 60))"

definition gmtime :: "rat \<Rightarrow> time_fields res" where
  "gmtime t =
     (let s = \<lfloor>t\<rfloor>; year = fst (gm_fields s) in
      if s < - (2 ^ 63) \<or> 2 ^ 63 \<le> s then Inl OverflowError
      else if year - 1900 < - (2 ^ 31) \<or> 2 ^ 31 \<le> year - 1900 then Inl OSError
      else Inr (gm_fields s))"

text \<open>A number in two digits, and \<^verbatim>\<open>time.strftime("%y%m%d%H%M%SZ", ...)\<close>.\<close>

definition pad2 :: "nat \<Rightarrow> string" where
  "pad2 n = [digit_char (n div 10), digit_char (n mod 10)]"

definition strftime_utc :: "time_fields \<Rightarrow> string" where
  "strftime_utc = (\<lambda>(y, m, d, h, mi, s).
     pad2 (nat (y mod 100)) @ pad2 m @ pad2 (nat d) @ pad2 (nat h) @ pad2 (nat mi) @ pad2 (nat s) @ ''Z'')"

text \<open>\<^verbatim>\<open>time.sleep\<close>: the length in nanoseconds has to fit a signed 64-bit integer and may not be negative.\<close>

definition sleep_for :: "rat \<Rightarrow> unit res" where
  "sleep_for x =
     (if x * 10 ^ 9 \<ge> 2 ^ 63 \<or> x * 10 ^ 9 < - (2 ^ 63) then Inl OverflowError
      else if x < 0 then Inl ValueError else Inr ())"

lemma sleep_for_ok: "0 \<le> x \<Longrightarrow> x < 2 ^ 33 \<Longrightarrow> sleep_for x = Inr ()"
proof -
  assume x: "0 \<le> x" "x < 2 ^ 33"
  have "x * 10 ^ 9 < 2 ^ 33 * 10 ^ 9" using x(2) by (intro mult_strict_right_mono) simp_all
  also have "\<dots> < (2 ^ 63 :: rat)" by simp
  finally show ?thesis using x(1) mult_nonneg_nonneg [OF x(1), of "10 ^ 9"] by (simp add: sleep_for_def not_less)
qed

section \<open>The calendar\<close>

lemma days_before_month_Suc: "1 \<le> m \<Longrightarrow> days_before_month y (Suc m) = days_before_month y m + days_in_month y m"
  by (simp add: days_before_month_def)

lemma div_step:
  fixes y k :: int
  assumes "0 < k"
  shows "y div k = (y - 1) div k + (if y mod k = 0 then 1 else 0)"
proof (cases "y mod k = 0")
  case True
  have "y - 1 = k * (y div k - 1) + (k - 1)" using True mult_div_mod_eq [of k y] by (simp add: algebra_simps)
  then have "(y - 1) div k = y div k - 1" by (rule int_div_pos_eq) (use assms in auto)
  with True show ?thesis by simp
next
  case False
  have "y - 1 = k * (y div k) + (y mod k - 1)" using mult_div_mod_eq [of k y] by simp
  moreover have "0 \<le> y mod k - 1" "y mod k - 1 < k" using False pos_mod_sign [OF assms, of y] pos_mod_bound [OF assms, of y] by linarith+
  ultimately have "(y - 1) div k = y div k" by (rule int_div_pos_eq)
  with False show ?thesis by simp
qed

text \<open>The ordinal counts days: it goes up by one from each day to the next, over the ends of months and years.\<close>

lemma ordinal_next_day: "toordinal y m (d + 1) = toordinal y m d + 1"
  by (simp add: toordinal_def)

lemma ordinal_next_month: "1 \<le> m \<Longrightarrow> toordinal y (Suc m) 1 = toordinal y m (days_in_month y m) + 1"
  by (simp add: toordinal_def days_before_month_Suc)

lemma year_length: "days_before_year (y + 1) = days_before_year y + (if is_leap y then 366 else 365)"
proof -
  have m: "y mod 400 = 0 \<Longrightarrow> y mod 100 = 0" "y mod 100 = 0 \<Longrightarrow> y mod 4 = 0" for y :: int
    using dvd_trans [of 100 400 y] dvd_trans [of 4 100 y] by (simp_all add: mod_eq_0_iff_dvd)
  have pos: "0 < (4 :: int)" "0 < (100 :: int)" "0 < (400 :: int)" by simp_all
  have lin: "n1 = a1 + e1 \<Longrightarrow> n2 = a2 + e2 \<Longrightarrow> n3 = a3 + e3 \<Longrightarrow>
      y * 365 + n1 - n2 + n3 = (y - 1) * 365 + a1 - a2 + a3 + 365 + e1 - e2 + e3" for n1 n2 n3 a1 a2 a3 e1 e2 e3 :: int
    by simp
  have "days_before_year (y + 1) = y * 365 + y div 4 - y div 100 + y div 400"
    "days_before_year y = (y - 1) * 365 + (y - 1) div 4 - (y - 1) div 100 + (y - 1) div 400"
    by (simp_all add: days_before_year_def Let_def)
  then have "days_before_year (y + 1) = days_before_year y + 365 +
      (if y mod 4 = 0 then 1 else 0) - (if y mod 100 = 0 then 1 else 0) + (if y mod 400 = 0 then 1 else 0)"
    by (simp only: lin [OF div_step div_step div_step, OF pos])
  moreover have "x + 365 + (if p then 1 else 0) - (if q then 1 else 0) + (if r then 1 else 0) = x + (if p \<and> (\<not> q \<or> r) then 366 else 365)"
    if "r \<Longrightarrow> q" "q \<Longrightarrow> p" for x :: int and p q r
    using that by (cases p; cases q; cases r) simp_all
  ultimately show ?thesis using m [of y] by (simp only: is_leap_def)
qed

lemma months_sum: "days_before_month y 13 = (if is_leap y then 366 else 365)"
  by (simp add: days_before_month_def days_in_month_def upt_conv_Cons numeral_eq_Suc)

lemma ordinal_next_year: "toordinal (y + 1) 1 1 = toordinal y 12 (days_in_month y 12) + 1"
proof -
  have "days_before_month y (Suc 12) = days_before_month y 12 + days_in_month y 12" by (rule days_before_month_Suc) simp
  with months_sum [of y] year_length [of y] show ?thesis by (simp add: toordinal_def days_before_month_def)
qed

lemma epoch_ordinal: "toordinal 1970 1 1 = 719163"
  by (simp add: toordinal_def days_before_year_def days_before_month_def)

section \<open>The two directions are inverse\<close>

lemma leap_cycle: "is_leap (y + 400 * c) \<longleftrightarrow> is_leap y"
proof -
  have "(y + 400 * c) mod 4 = y mod 4" "(y + 400 * c) mod 100 = y mod 100"
    using mod_mult_self2 [of y 4 "100 * c"] mod_mult_self2 [of y 100 "4 * c"] by (simp_all add: algebra_simps)
  then show ?thesis by (simp add: is_leap_def)
qed

lemma days_cycle: "days_before_year (y + 400 * c) = days_before_year y + 146097 * c"
proof -
  let ?z = "y - 1"
  have z: "y + 400 * c - 1 = ?z + 400 * c" by simp
  have "(?z + 400 * c) div 4 = 100 * c + ?z div 4" "(?z + 400 * c) div 100 = 4 * c + ?z div 100" "(?z + 400 * c) div 400 = c + ?z div 400"
    using div_mult_self2 [of 4 ?z "100 * c"] div_mult_self2 [of 100 ?z "4 * c"] by simp_all
  then show ?thesis unfolding days_before_year_def Let_def z by (simp add: algebra_simps)
qed

lemma year_loop_spec:
  "0 \<le> d \<Longrightarrow> year_loop y d = (y', d') \<Longrightarrow>
     days_before_year y' + d' = days_before_year y + d \<and> 0 \<le> d' \<and> d' < year_days y' \<and> y \<le> y'"
proof (induction y d rule: year_loop.induct)
  case (1 y d)
  show ?case
  proof (cases "d < year_days y")
    case True
    with 1(2,3) show ?thesis by (simp add: year_loop.simps [of y d])
  next
    case False
    then have "year_loop (y + 1) (d - year_days y) = (y', d')" using 1(3) by (simp add: year_loop.simps [of y d])
    with 1(1) [OF False] False year_length [of y] show ?thesis by (auto simp: year_days_def split: if_splits)
  qed
qed

lemma month_loop_spec:
  "1 \<le> m \<Longrightarrow> m \<le> 12 \<Longrightarrow> 0 \<le> d \<Longrightarrow> days_before_month y m + d < year_days y \<Longrightarrow> month_loop y m d = (m', d') \<Longrightarrow>
     days_before_month y m' + d' = days_before_month y m + d + 1 \<and> 1 \<le> m' \<and> m' \<le> 12 \<and> 1 \<le> d' \<and> d' \<le> days_in_month y m'"
proof (induction y m d rule: month_loop.induct)
  case (1 y m d)
  show ?case
  proof (cases "12 \<le> m \<or> d < days_in_month y m")
    case True
    have "d < days_in_month y m"
    proof (cases "12 \<le> m")
      case last: True
      then have "m = 12" using 1(3) by simp
      with 1(5) months_sum [of y] days_before_month_Suc [of 12 y] show ?thesis by (simp add: year_days_def)
    qed (use True in simp)
    with True 1(2-6) show ?thesis by (auto simp: month_loop.simps [of y m d])
  next
    case False
    then have "month_loop y (m + 1) (d - days_in_month y m) = (m', d')" using 1(6) by (simp add: month_loop.simps [of y m d])
    with 1(1) [OF False] False 1(2,5) days_before_month_Suc [of m y] show ?thesis by simp
  qed
qed

lemma gm_fields_spec:
  assumes "gm_fields t = (y, m, d, h, mi, s)"
  shows "timegm y m d h mi s = t" "1 \<le> m" "m \<le> 12" "1 \<le> d" "d \<le> days_in_month y m"
    "0 \<le> h" "h < 24" "0 \<le> mi" "mi < 60" "0 \<le> s" "s < 60"
    "days_before_year y \<le> t div 86400 + 719162" "t div 86400 + 719162 < days_before_year (y + 1)"
proof -
  let ?days = "t div 86400 + 719162" and ?secs = "t mod 86400"
  obtain y0 doy where yl: "year_loop 1 (?days mod 146097) = (y0, doy)" by force
  obtain m' d' where ml: "month_loop (y0 + 400 * (?days div 146097)) 1 doy = (m', d')" by force
  have f: "y = y0 + 400 * (?days div 146097)" "m = m'" "d = d'" "h = ?secs div 3600" "mi = ?secs div 60 mod 60" "s = ?secs mod 60"
    using assms by (simp_all only: gm_fields_def Let_def yl ml prod.case prod.inject)
  have "days_before_year y0 + doy = days_before_year 1 + ?days mod 146097 \<and> 0 \<le> doy \<and> doy < year_days y0 \<and> 1 \<le> y0"
    using yl by (intro year_loop_spec) simp_all
  moreover have "days_before_year 1 = 0" by (simp add: days_before_year_def)
  moreover have "year_days y = year_days y0" by (simp add: year_days_def f(1) leap_cycle)
  moreover have "?days = 146097 * (?days div 146097) + ?days mod 146097" by simp
  ultimately have doy: "days_before_year y + doy = ?days" "0 \<le> doy" "doy < year_days y"
    unfolding f(1) days_cycle by linarith+
  have md: "days_before_month y m + d = days_before_month y 1 + doy + 1 \<and> 1 \<le> m \<and> m \<le> 12 \<and> 1 \<le> d \<and> d \<le> days_in_month y m"
    using ml doy by (intro month_loop_spec) (simp_all add: f days_before_month_def)
  then show "1 \<le> m" "m \<le> 12" "1 \<le> d" "d \<le> days_in_month y m" by simp_all
  have "0 \<le> ?secs" "?secs < 86400" by simp_all
  then show "0 \<le> h" "h < 24" "0 \<le> mi" "mi < 60" "0 \<le> s" "s < 60" unfolding f by (simp_all add: pos_imp_zdiv_nonneg_iff div_int_pos_iff)
  have "?secs = 60 * (?secs div 60) + s" "?secs div 60 = 60 * (?secs div 60 div 60) + mi" unfolding f by simp_all
  moreover have "?secs div 60 div 60 = h" unfolding f by (simp flip: zdiv_zmult2_eq)
  moreover have "a = 60 * b + s \<Longrightarrow> b = 60 * c + mi \<Longrightarrow> c = h \<Longrightarrow> a = (h * 60 + mi) * 60 + s" for a b c :: int by simp
  ultimately have "?secs = (h * 60 + mi) * 60 + s" by metis
  moreover have "t = 86400 * (t div 86400) + ?secs" by simp
  moreover have "days_before_year y + days_before_month y m + d = ?days + 1" using md doy(1) by (simp add: days_before_month_def)
  ultimately show "timegm y m d h mi s = t" by (simp add: timegm_def toordinal_def Let_def)
  show "days_before_year y \<le> ?days" "?days < days_before_year (y + 1)" using doy year_length [of y] by (simp_all add: year_days_def split: if_splits)
qed

lemma days_before_year_mono: "y \<le> z \<Longrightarrow> days_before_year y \<le> days_before_year z"
proof (induction z rule: int_ge_induct)
  case (step i)
  then show ?case using year_length [of i] by (simp split: if_splits)
qed simp

lemma gm_fields_year:
  assumes "gm_fields t = (y, f)" "days_before_year a \<le> t div 86400 + 719162" "t div 86400 + 719162 < days_before_year b"
  shows "a \<le> y" "y < b"
proof -
  obtain m d h mi s where f: "f = (m, d, h, mi, s)" by (cases f)
  note range = gm_fields_spec(12,13) [OF assms(1) [unfolded f]]
  show "a \<le> y" using range(2) assms(2) days_before_year_mono [of "y + 1" a] by linarith
  show "y < b" using range(1) assms(3) days_before_year_mono [of b y] by linarith
qed

text \<open>From the year 1 on, for about a milliard years, \<^verbatim>\<open>gmtime\<close> returns.\<close>

lemma gmtime_returns:
  assumes "-62135596800 \<le> t" "t < 2 ^ 55"
  shows "gmtime t = Inr (gm_fields \<lfloor>t\<rfloor>)"
proof -
  obtain y f where yf: "gm_fields \<lfloor>t\<rfloor> = (y, f)" by (cases "gm_fields \<lfloor>t\<rfloor>") blast
  have t: "-62135596800 \<le> \<lfloor>t\<rfloor>" "\<lfloor>t\<rfloor> < 2 ^ 55" using assms by (simp_all add: le_floor_iff floor_less_iff)
  have days: "-62135596800 \<le> x \<Longrightarrow> days_before_year 1 \<le> x div 86400 + 719162" "x < 2 ^ 55 \<Longrightarrow> x div 86400 + 719162 < days_before_year (2 ^ 31)"
    for x :: int by (simp_all add: days_before_year_def)
  from days(1) [OF t(1)] days(2) [OF t(2)] have "1 \<le> y" "y < 2 ^ 31" by (rule gm_fields_year [OF yf])+
  with t show ?thesis by (simp add: gmtime_def yf)
qed

text \<open>Two digits are enough for the years from 1950 to 2049.\<close>

lemma utc_years:
  assumes "gm_fields t = (y, f)" "-631152000 \<le> t" "t < 2524608000"
  shows "1950 \<le> y" "y < 2050"
proof -
  have "days_before_year 1950 \<le> t div 86400 + 719162" "t div 86400 + 719162 < days_before_year 2050"
    using assms(2,3) by (simp_all add: days_before_year_def)
  then show "1950 \<le> y" "y < 2050" by (rule gm_fields_year [OF assms(1)])+
qed

lemma pad2_chars: "n < 100 \<Longrightarrow> c \<in> set (pad2 n) \<Longrightarrow> \<exists>d < 10. c = digit_char d"
  by (auto simp: pad2_def intro: exI [of _ "n div 10"] exI [of _ "n mod 10"])

end
