(* ===== verification/Supervisor.thy ===== *)
theory Supervisor
  imports Calendar
begin

text \<open>
  \<^verbatim>\<open>supervisor.py\<close>: one child process, restarted with exponential backoff. The environment is the exit code of the
  \<open>n\<close>-th process that is spawned (\<open>exits n\<close>), or that it never exits; backoff times are rationals, so rounding and overflow of floats are left out.
\<close>

section \<open>The supervisor\<close>

record supervisor =
  max_restarts :: int
  base_backoff :: rat
  backoff_factor :: rat
  restarts :: int
  exit_codes :: "int list"
  backoffs :: "rat list"

definition mk_supervisor :: "int \<Rightarrow> rat \<Rightarrow> rat \<Rightarrow> supervisor" where
  "mk_supervisor maxr base factor =
     \<lparr>max_restarts = maxr, base_backoff = base, backoff_factor = factor, restarts = 0, exit_codes = [], backoffs = []\<rparr>"

text \<open>
  The loop of \<^verbatim>\<open>run\<close>; \<open>pid\<close> counts the processes spawned before the one that is running. \<^verbatim>\<open>join\<close> blocks for ever on a child that
  never exits (\<open>None\<close>), and \<^verbatim>\<open>time.sleep\<close> may raise. The backoff's exponent \<^verbatim>\<open>restarts\<close> is never negative, as \<^verbatim>\<open>__init__\<close> sets it to 0.
\<close>

datatype sup_outcome = Returned | Blocked | Failed py_error

function sup_loop :: "(nat \<Rightarrow> int option) \<Rightarrow> nat \<Rightarrow> supervisor \<Rightarrow> sup_outcome \<times> nat \<times> supervisor" where
  "sup_loop exits pid s =
     (case exits pid of None \<Rightarrow> (Blocked, pid + 1, s)
      | Some code \<Rightarrow>
         let s = s\<lparr>exit_codes := exit_codes s @ [code]\<rparr>
         in if code = 0 then (Returned, pid + 1, s)
            else if restarts s \<ge> max_restarts s then (Returned, pid + 1, s)
            else let backoff = base_backoff s * backoff_factor s ^ nat (restarts s);
                     s = s\<lparr>backoffs := backoffs s @ [backoff], restarts := restarts s + 1\<rparr>
                 in case sleep_for backoff of Inl e \<Rightarrow> (Failed e, pid + 1, s) | Inr _ \<Rightarrow> sup_loop exits (pid + 1) s)"
  by pat_completeness auto

termination
  by (relation "measure (\<lambda>(_, _, s). nat (max_restarts s - restarts s))") auto

declare sup_loop.simps [simp del]

text \<open>\<^verbatim>\<open>run\<close>, with the number of processes it has spawned.\<close>

definition sup_run :: "(nat \<Rightarrow> int option) \<Rightarrow> supervisor \<Rightarrow> sup_outcome \<times> nat \<times> supervisor" where
  "sup_run exits s = sup_loop exits 0 s"

text \<open>The workers of the demonstration: one always exits with 1, the other one returns.\<close>

definition crashing_worker :: "nat \<Rightarrow> int option" where
  "crashing_worker n = Some 1"

definition stable_worker :: "nat \<Rightarrow> int option" where
  "stable_worker n = Some 0"

text \<open>\<^verbatim>\<open>backoffs[0] < backoffs[-1]\<close> raises on an empty list.\<close>

definition backoff_grew :: "rat list \<Rightarrow> unit res" where
  "backoff_grew bs = (case bs of [] \<Rightarrow> Inl IndexError | b # _ \<Rightarrow> py_assert (b < last bs))"

definition demo_crash_loop :: "supervisor \<Rightarrow> unit res" where
  "demo_crash_loop s =
     rbind (py_assert (restarts s = 3)) (\<lambda>_.
     rbind (py_assert (length (exit_codes s) = 4)) (\<lambda>_.
     rbind (py_assert (list_all (\<lambda>c. c \<noteq> 0) (exit_codes s))) (\<lambda>_.
     rbind (py_assert (backoffs s = sort (backoffs s))) (\<lambda>_.
     backoff_grew (backoffs s)))))"

definition demo_clean_exit :: "supervisor \<Rightarrow> unit res" where
  "demo_clean_exit s = rbind (py_assert (restarts s = 0)) (\<lambda>_. py_assert (exit_codes s = [0]))"

text \<open>What follows a run: nothing when it blocks, and an exception ends the script.\<close>

definition after_run :: "sup_outcome \<times> nat \<times> supervisor \<Rightarrow> (supervisor \<Rightarrow> unit res option) \<Rightarrow> unit res option" where
  "after_run r k = (case r of (Returned, _, s) \<Rightarrow> k s | (Blocked, _, _) \<Rightarrow> None | (Failed e, _, _) \<Rightarrow> Some (Inl e))"

definition supervisor_main :: "unit res option" where
  "supervisor_main =
     after_run (sup_run crashing_worker (mk_supervisor 3 (1/10) 2)) (\<lambda>sup.
     case demo_crash_loop sup of Inl e \<Rightarrow> Some (Inl e)
     | Inr _ \<Rightarrow> after_run (sup_run stable_worker (mk_supervisor 3 (1/10) 2)) (\<lambda>sup2. Some (demo_clean_exit sup2)))"

section \<open>What a run does\<close>

text \<open>The record after \<open>k\<close> restarts and the given exit codes.\<close>

definition sup_after :: "supervisor \<Rightarrow> nat \<Rightarrow> int list \<Rightarrow> supervisor" where
  "sup_after s k codes = s\<lparr>restarts := restarts s + int k, exit_codes := exit_codes s @ codes,
     backoffs := backoffs s @ map (\<lambda>n. base_backoff s * backoff_factor s ^ (nat (restarts s) + n)) [0..<k]\<rparr>"

definition backoff_at :: "supervisor \<Rightarrow> nat \<Rightarrow> rat" where
  "backoff_at s n = base_backoff s * backoff_factor s ^ (nat (restarts s) + n)"

text \<open>
  After \<open>k\<close> restarts from \<open>s\<close>, child \<open>pid\<close> being the first: the children before were crashes, and the last thing that
  happened agrees with the outcome.
\<close>

definition sup_trace :: "(nat \<Rightarrow> int option) \<Rightarrow> nat \<Rightarrow> supervisor \<Rightarrow> nat \<Rightarrow> int list \<Rightarrow> sup_outcome \<Rightarrow> nat \<Rightarrow> bool" where
  "sup_trace exits pid s k codes out spawned \<longleftrightarrow>
     (\<forall>n < k. \<exists>c. exits (pid + n) = Some c \<and> c \<noteq> 0) \<and> (\<forall>n. n + 1 < k \<longrightarrow> sleep_for (backoff_at s n) = Inr ()) \<and>
     int k \<le> max 0 (max_restarts s - restarts s) \<and>
     (case out of
        Returned \<Rightarrow> spawned = pid + k + 1 \<and> map Some codes = map (\<lambda>n. exits (pid + n)) [0..<k + 1] \<and>
          (exits (pid + k) = Some 0 \<or> exits (pid + k) \<noteq> None \<and> max_restarts s \<le> restarts s + int k) \<and>
          (\<forall>n < k. sleep_for (backoff_at s n) = Inr ())
      | Blocked \<Rightarrow> spawned = pid + k + 1 \<and> map Some codes = map (\<lambda>n. exits (pid + n)) [0..<k] \<and>
          exits (pid + k) = None \<and> (\<forall>n < k. sleep_for (backoff_at s n) = Inr ())
      | Failed e \<Rightarrow> spawned = pid + k \<and> map Some codes = map (\<lambda>n. exits (pid + n)) [0..<k] \<and>
          0 < k \<and> sleep_for (backoff_at s (k - 1)) = Inl e)"

lemma all_less_Suc: "(\<forall>n < Suc k. P n) \<longleftrightarrow> P 0 \<and> (\<forall>n < k. P (Suc n))"
  by (auto simp: less_Suc_eq_0_disj)

lemma sup_trace_step:
  assumes "sup_trace exits (Suc pid) (sup_after s 1 [c]) k codes out spawned" "exits pid = Some c" "c \<noteq> 0"
    and "restarts s < max_restarts s" "0 \<le> restarts s" "sleep_for (backoff_at s 0) = Inr ()"
  shows "sup_trace exits pid s (Suc k) (c # codes) out spawned"
proof -
  have r: "nat (restarts s + 1) = Suc (nat (restarts s))" using assms(5) by simp
  have b: "backoff_at (sup_after s 1 [c]) n = backoff_at s (Suc n)" for n by (simp add: backoff_at_def sup_after_def r)
  have fail: "backoff_at (sup_after s 1 [c]) (k - 1) = backoff_at s k" if "0 < k" using that b [of "k - 1"] by simp
  have early: "\<forall>n. n + 1 < Suc k \<longrightarrow> sleep_for (backoff_at s n) = Inr ()" if "\<forall>n. n + 1 < k \<longrightarrow> sleep_for (backoff_at s (Suc n)) = Inr ()"
    using that assms(6) by (metis Suc_eq_plus1 Suc_less_SucD not0_implies_Suc)
  have codes: "map (\<lambda>n. exits (pid + n)) [0..<Suc j] = Some c # map (\<lambda>n. exits (Suc pid + n)) [0..<j]" for j
    using assms(2) by (simp add: map_upt_Suc del: upt_Suc)
  have max: "max_restarts (sup_after s 1 [c]) = max_restarts s" "restarts (sup_after s 1 [c]) = restarts s + 1"
    by (simp_all add: sup_after_def)
  show ?thesis
    using assms(1) early assms(2-4,6) fail unfolding sup_trace_def b max
    by (cases out) (simp_all add: all_less_Suc codes add.assoc del: upt_Suc cong: conj_cong)
qed

lemma sup_loop_trace:
  assumes "0 \<le> restarts s" "sup_loop exits pid s = (out, spawned, t)"
  shows "\<exists>k codes. t = sup_after s k codes \<and> sup_trace exits pid s k codes out spawned"
  using assms
proof (induction exits pid s rule: sup_loop.induct)
  case (1 exits pid s)
  note unfold = sup_loop.simps [of exits pid s]
  show ?case
  proof (cases "exits pid")
    case None
    then show ?thesis using 1(3) unfold by (intro exI [of _ 0] exI [of _ "[]"]) (auto simp: sup_after_def sup_trace_def)
  next
    case (Some c)
    let ?s = "s\<lparr>exit_codes := exit_codes s @ [c], backoffs := backoffs s @ [base_backoff s * backoff_factor s ^ nat (restarts s)], restarts := restarts s + 1\<rparr>"
    have after: "?s = sup_after s 1 [c]" by (simp add: sup_after_def backoff_at_def)
    show ?thesis
    proof (cases "c = 0 \<or> max_restarts s \<le> restarts s")
      case True
      then have "sup_loop exits pid s = (Returned, pid + 1, s\<lparr>exit_codes := exit_codes s @ [c]\<rparr>)"
        using Some by (subst unfold) (auto simp: Let_def)
      then have "out = Returned" "spawned = pid + 1" "t = s\<lparr>exit_codes := exit_codes s @ [c]\<rparr>" using 1(3) by simp_all
      then show ?thesis using True Some
        by (intro exI [of _ 0] exI [of _ "[c]"]) (auto simp: sup_after_def sup_trace_def)
    next
      case False
      have b0: "backoff_at s 0 = base_backoff s * backoff_factor s ^ nat (restarts s)" by (simp add: backoff_at_def)
      have sl: "sup_loop exits pid s = (case sleep_for (backoff_at s 0) of Inl e \<Rightarrow> (Failed e, pid + 1, ?s) | Inr _ \<Rightarrow> sup_loop exits (pid + 1) ?s)"
        unfolding b0 using False Some by (subst unfold) (simp add: Let_def)
      show ?thesis
      proof (cases "sleep_for (backoff_at s 0)")
        case (Inl e)
        then have "out = Failed e" "spawned = pid + 1" "t = sup_after s 1 [c]" using sl 1(3) after by auto
        moreover have "sup_trace exits pid s 1 [c] (Failed e) (pid + 1)" using Inl Some False by (auto simp: sup_trace_def)
        ultimately show ?thesis by blast
      next
        case (Inr u)
        then have loop: "sup_loop exits (Suc pid) (sup_after s 1 [c]) = (out, spawned, t)" using sl 1(3) after by simp
        have "\<exists>k codes. t = sup_after (sup_after s 1 [c]) k codes \<and> sup_trace exits (Suc pid) (sup_after s 1 [c]) k codes out spawned"
          using "1.IH" [OF Some refl _ _ refl refl, of u] False Inr loop after 1(2) by (simp add: backoff_at_def sup_after_def)
        then obtain k codes where k: "t = sup_after (sup_after s 1 [c]) k codes" "sup_trace exits (Suc pid) (sup_after s 1 [c]) k codes out spawned"
          by blast
        have "nat (restarts s + 1) = Suc (nat (restarts s))" using 1(2) by simp
        then have "t = sup_after s (Suc k) (c # codes)" unfolding k(1) by (simp add: sup_after_def map_upt_Suc del: upt_Suc)
        with sup_trace_step [OF k(2) Some] False Inr 1(2) show ?thesis by auto
      qed
    qed
  qed
qed

section \<open>Properties\<close>

text \<open>C33. \<^verbatim>\<open>Supervisor.run\<close> under every behaviour of the children, also of one that never exits, and for every backoff. With \<open>r\<close>
  restarts, at most \<^verbatim>\<open>max_restarts\<close>, the first \<open>r\<close> children were crashes and the backoff before restart \<open>n + 1\<close> was \<^verbatim>\<open>base * factor ** n\<close>. A
  run that returns has recorded the exit codes of all \<open>r + 1\<close> children, the last of them clean unless the limit was reached; a run that blocks waits
  for child \<open>r + 1\<close>, which never exits; one that raises does so in \<^verbatim>\<open>time.sleep\<close> of the last backoff. It returns when all children exit
  and all backoffs can be slept.\<close>

theorem supervisor_restarts:
  assumes "sup_run exits (mk_supervisor maxr base factor) = (out, spawned, s)"
  defines "r \<equiv> nat (restarts s)"
  shows "0 \<le> restarts s \<and> restarts s \<le> max 0 maxr \<and> backoffs s = map (\<lambda>n. base * factor ^ n) [0..<r] \<and>
    (\<forall>n < r. \<exists>c. exits n = Some c \<and> c \<noteq> 0) \<and>
    (case out of
       Returned \<Rightarrow> spawned = r + 1 \<and> map Some (exit_codes s) = map exits [0..<r + 1] \<and>
         (exits r = Some 0 \<or> exits r \<noteq> None \<and> restarts s = max 0 maxr)
     | Blocked \<Rightarrow> spawned = r + 1 \<and> map Some (exit_codes s) = map exits [0..<r] \<and> exits r = None
     | Failed e \<Rightarrow> spawned = r \<and> map Some (exit_codes s) = map exits [0..<r] \<and> 0 < r \<and> sleep_for (base * factor ^ (r - 1)) = Inl e) \<and>
    ((\<forall>n. exits n \<noteq> None) \<and> (\<forall>n < nat maxr. sleep_for (base * factor ^ n) = Inr ()) \<longrightarrow> out = Returned)"
proof -
  let ?m = "mk_supervisor maxr base factor"
  obtain k codes where k: "s = sup_after ?m k codes" "sup_trace exits 0 ?m k codes out spawned"
    using sup_loop_trace [of ?m exits 0 out spawned s] assms(1) by (auto simp: sup_run_def mk_supervisor_def)
  have b: "backoff_at ?m n = base * factor ^ n" for n by (simp add: backoff_at_def mk_supervisor_def)
  have s: "restarts s = int k" "exit_codes s = codes" "backoffs s = map (\<lambda>n. base * factor ^ n) [0..<k]" and r: "r = k"
    by (simp_all add: k(1) r_def sup_after_def mk_supervisor_def)
  have m: "max_restarts ?m = maxr" "restarts ?m = 0" by (simp_all add: mk_supervisor_def)
  have le: "int k \<le> max 0 maxr" and crash: "\<forall>n < k. \<exists>c. exits n = Some c \<and> c \<noteq> 0" using k(2) by (simp_all add: sup_trace_def m)
  have outcome: "case out of
       Returned \<Rightarrow> spawned = k + 1 \<and> map Some codes = map exits [0..<k + 1] \<and> (exits k = Some 0 \<or> exits k \<noteq> None \<and> maxr \<le> int k)
     | Blocked \<Rightarrow> spawned = k + 1 \<and> map Some codes = map exits [0..<k] \<and> exits k = None
     | Failed e \<Rightarrow> spawned = k \<and> map Some codes = map exits [0..<k] \<and> 0 < k \<and> sleep_for (base * factor ^ (k - 1)) = Inl e"
    using k(2) unfolding sup_trace_def m b by (cases out) simp_all
  have ret: "out = Returned" if "\<forall>n. exits n \<noteq> None" "\<forall>n < nat maxr. sleep_for (base * factor ^ n) = Inr ()"
  proof (cases out)
    case (Failed e)
    then have "k - 1 < nat maxr" using outcome le by (cases "0 \<le> maxr") auto
    with Failed outcome that(2) show ?thesis by auto
  qed (use outcome that in auto)
  then have "(\<forall>n. exits n \<noteq> None) \<and> (\<forall>n < nat maxr. sleep_for (base * factor ^ n) = Inr ()) \<longrightarrow> out = Returned" by blast
  moreover have "maxr \<le> int k \<longleftrightarrow> int k = max 0 maxr" using le by linarith
  ultimately show ?thesis using outcome le crash unfolding r s by (simp only: of_nat_0_le_iff simp_thms)
qed

text \<open>A child that crashes once and then exits cleanly, and the script's own demonstration.\<close>

theorem supervisor_restarts_witness:
  "sup_run (\<lambda>n. Some (if n = 0 then 1 else 0)) (mk_supervisor 3 1 2) =
     (Returned, 2, (mk_supervisor 3 1 2)\<lparr>restarts := 1, exit_codes := [1, 0], backoffs := [1]\<rparr>) \<and>
   map Some [1, 0] = map (\<lambda>n. Some (if n = 0 then 1 else 0 :: int)) [0..<2::nat]"
proof -
  have run: "sup_run (\<lambda>n. Some (if n = 0 then 1 else 0)) (mk_supervisor 3 1 2) =
     (Returned, 2, (mk_supervisor 3 1 2)\<lparr>restarts := 1, exit_codes := [1, 0], backoffs := [1]\<rparr>)"
    by (simp add: sup_run_def sup_loop.simps mk_supervisor_def numeral_2_eq_2 sleep_for_ok)
  from supervisor_restarts [OF run] show ?thesis using run by (simp add: numeral_2_eq_2)
qed

text \<open>A worker that never exits holds \<^verbatim>\<open>run\<close> for ever; a negative base ends it in \<^verbatim>\<open>time.sleep\<close>.\<close>

lemma supervisor_blocks: "fst (sup_run (\<lambda>_. None) s) = Blocked"
  by (simp add: sup_run_def sup_loop.simps)

lemma negative_backoff_raises: "fst (sup_run crashing_worker (mk_supervisor 3 (-1) 2)) = Failed ValueError"
  by (simp add: sup_run_def sup_loop.simps mk_supervisor_def crashing_worker_def sleep_for_def Let_def)

lemma supervisor_main_ok: "supervisor_main = Some (Inr ())"
  by (simp add: supervisor_main_def after_run_def sup_run_def sup_loop.simps mk_supervisor_def crashing_worker_def stable_worker_def
      demo_crash_loop_def demo_clean_exit_def backoff_grew_def py_assert_def Let_def sleep_for_ok)

end
