(* ===== verification/Graceful_Shutdown.thy ===== *)
theory Graceful_Shutdown
  imports Prelude
begin

text \<open>
  \<^verbatim>\<open>graceful_shutdown.py\<close>: a worker that drains its queue after a signal. The worker thread is a state machine that
  moves between the statements of \<^verbatim>\<open>run\<close>; a signal may arrive between any two of its steps.
\<close>

section \<open>Handlers and worker\<close>

text \<open>The signals for which \<^verbatim>\<open>_install_signal_handlers\<close> registers the handler, given those the platform has.\<close>

definition install_signal_handlers :: "string set \<Rightarrow> string list" where
  "install_signal_handlers available =
     filter (\<lambda>name. name \<in> available) [''SIGINT'', ''SIGTERM''] @ filter (\<lambda>name. name \<in> available) [''SIGHUP'', ''SIGQUIT'']"

record worker =
  jobs :: "int list"
  processed :: nat
  accepted :: nat

definition new_worker :: worker where
  "new_worker = \<lparr>jobs = [], processed = 0, accepted = 0\<rparr>"

definition feed :: "nat \<Rightarrow> worker \<Rightarrow> worker" where
  "feed n w = w\<lparr>jobs := jobs w @ map int [0..<n], accepted := accepted w + n\<rparr>"

definition process_job :: "worker \<Rightarrow> worker" where
  "process_job w = w\<lparr>processed := processed w + 1\<rparr>"

text \<open>
  Where the worker thread is: at the test of the first loop, in \<^verbatim>\<open>get\<close>, in \<^verbatim>\<open>_process\<close>, at \<^verbatim>\<open>get_nowait\<close>
  of the draining loop, in its \<^verbatim>\<open>_process\<close>, or returned from \<^verbatim>\<open>run\<close>.
\<close>

datatype wphase = WTop | WGet | WBusy | WDrain | WDrainBusy | WExit

type_synonym shutdown_state = "bool \<times> worker \<times> wphase"

definition worker_move :: "shutdown_state \<Rightarrow> shutdown_state option" where
  "worker_move s = (case s of (shutdown, w, pc) \<Rightarrow> (case pc of
     WTop \<Rightarrow> Some (shutdown, w, if shutdown then WDrain else WGet)
   | WGet \<Rightarrow> (case jobs w of [] \<Rightarrow> Some (shutdown, w, WTop) | j # js \<Rightarrow> Some (shutdown, w\<lparr>jobs := js\<rparr>, WBusy))
   | WBusy \<Rightarrow> Some (shutdown, process_job w, WTop)
   | WDrain \<Rightarrow> (case jobs w of [] \<Rightarrow> Some (shutdown, w, WExit) | j # js \<Rightarrow> Some (shutdown, w\<lparr>jobs := js\<rparr>, WDrainBusy))
   | WDrainBusy \<Rightarrow> Some (shutdown, process_job w, WDrain)
   | WExit \<Rightarrow> None))"

inductive shutdown_step :: "string list \<Rightarrow> shutdown_state \<Rightarrow> shutdown_state \<Rightarrow> bool" for installed where
  run: "worker_move s = Some s' \<Longrightarrow> shutdown_step installed s s'"
| signal: "name \<in> set installed \<Longrightarrow> shutdown_step installed (shutdown, w, pc) (True, w, pc)"

text \<open>\<^verbatim>\<open>main\<close>: the state when the worker thread starts, and the checks after it was joined.\<close>

definition shutdown_init :: "nat \<Rightarrow> shutdown_state" where
  "shutdown_init n = (False, feed n new_worker, WTop)"

definition shutdown_checks :: "shutdown_state \<Rightarrow> unit res" where
  "shutdown_checks s = (case s of (shutdown, w, pc) \<Rightarrow>
     rbind (py_assert shutdown) (\<lambda>_.
     rbind (py_assert (pc = WExit)) (\<lambda>_.
     rbind (py_assert (processed w = accepted w)) (\<lambda>_.
     py_assert (length (jobs w) = 0)))))"

section \<open>Nothing is lost\<close>

definition in_flight :: "wphase \<Rightarrow> nat" where
  "in_flight pc = (if pc = WBusy \<or> pc = WDrainBusy then 1 else 0)"

definition shutdown_inv :: "nat \<Rightarrow> shutdown_state \<Rightarrow> bool" where
  "shutdown_inv n s \<longleftrightarrow> (case s of (shutdown, w, pc) \<Rightarrow>
     accepted w = n \<and> processed w + in_flight pc + length (jobs w) = n \<and>
     (pc \<in> {WDrain, WDrainBusy, WExit} \<longrightarrow> shutdown) \<and> (pc = WExit \<longrightarrow> jobs w = []))"

lemma shutdown_init_inv: "shutdown_inv n (shutdown_init n)"
  by (simp add: shutdown_inv_def shutdown_init_def feed_def new_worker_def in_flight_def)

lemma worker_move_inv: "worker_move s = Some s' \<Longrightarrow> shutdown_inv n s \<Longrightarrow> shutdown_inv n s'"
  by (cases s) (auto simp: worker_move_def shutdown_inv_def in_flight_def process_job_def split: wphase.splits list.splits if_splits)

lemma shutdown_step_inv: "shutdown_step installed s s' \<Longrightarrow> shutdown_inv n s \<Longrightarrow> shutdown_inv n s'"
proof (induction rule: shutdown_step.induct)
  case (run s s')
  then show ?case by (rule worker_move_inv)
next
  case (signal name shutdown w pc)
  then show ?case by (auto simp: shutdown_inv_def)
qed

interpretation shut: step_invariant "shutdown_step installed" "shutdown_inv n"
  by unfold_locales (rule shutdown_step_inv)

text \<open>The number of steps the worker still needs once the flag is set is bounded by \<open>drain_left\<close>.\<close>

primrec pc_left :: "wphase \<Rightarrow> nat" where
  "pc_left WTop = 2"
| "pc_left WGet = 3"
| "pc_left WBusy = 3"
| "pc_left WDrain = 1"
| "pc_left WDrainBusy = 2"
| "pc_left WExit = 0"

definition drain_left :: "shutdown_state \<Rightarrow> nat" where
  "drain_left s = (case s of (shutdown, w, pc) \<Rightarrow> 4 * length (jobs w) + pc_left pc)"

lemma worker_move_less: "worker_move s = Some s' \<Longrightarrow> fst s \<Longrightarrow> fst s' \<and> drain_left s' < drain_left s"
  by (cases s) (auto simp: worker_move_def drain_left_def process_job_def split: wphase.splits list.splits)

text \<open>Running the worker alone for \<open>k\<close> steps, or until it has returned.\<close>

fun worker_run :: "nat \<Rightarrow> shutdown_state \<Rightarrow> shutdown_state" where
  "worker_run 0 s = s"
| "worker_run (Suc k) s = (case worker_move s of None \<Rightarrow> s | Some s' \<Rightarrow> worker_run k s')"

lemma worker_move_None: "worker_move s = None \<longleftrightarrow> snd (snd s) = WExit"
  by (cases s) (auto simp: worker_move_def split: wphase.splits list.splits)

lemma worker_run_exits: "fst s \<Longrightarrow> drain_left s \<le> k \<Longrightarrow> fst (worker_run k s) \<and> snd (snd (worker_run k s)) = WExit"
proof (induction k s rule: worker_run.induct)
  case (1 s)
  then show ?case using worker_move_less [of s] worker_move_None [of s] by (cases "worker_move s") auto
next
  case (2 k s)
  then show ?case using worker_move_less [of s] worker_move_None [of s] by (cases "worker_move s") fastforce+
qed

lemma worker_run_inv: "shutdown_inv n s \<Longrightarrow> shutdown_inv n (worker_run k s)"
  by (induction k s rule: worker_run.induct) (auto split: option.splits dest: worker_move_inv)

lemma exit_checks: "shutdown_inv n s \<Longrightarrow> snd (snd s) = WExit \<Longrightarrow> shutdown_checks s = Inr ()"
  by (cases s) (auto simp: shutdown_inv_def shutdown_checks_def py_assert_def in_flight_def)

section \<open>Properties\<close>

text \<open>C34. Wherever a signal hits the worker, no accepted job is lost: at every moment the accepted jobs are the
  processed ones, the one in progress and the queued ones; the worker returns only after a signal, and when it has
  returned all checks of \<^verbatim>\<open>main\<close> succeed; and once the signal has arrived it does return, after at most four
  steps per queued job and three more.\<close>

theorem shutdown_drains_everything:
  assumes "(shutdown_step installed)\<^sup>*\<^sup>* (shutdown_init n) s"
  shows "accepted (fst (snd s)) = n \<and>
    processed (fst (snd s)) + in_flight (snd (snd s)) + length (jobs (fst (snd s))) = n \<and>
    (snd (snd s) = WExit \<longrightarrow> shutdown_checks s = Inr ()) \<and>
    (fst s \<longrightarrow> shutdown_checks (worker_run (4 * length (jobs (fst (snd s))) + 3) s) = Inr ())"
proof (intro conjI impI)
  have inv: "shutdown_inv n s" using shut.reach_inv [OF assms shutdown_init_inv] .
  then show "accepted (fst (snd s)) = n" "processed (fst (snd s)) + in_flight (snd (snd s)) + length (jobs (fst (snd s))) = n"
    by (auto simp: shutdown_inv_def split: prod.splits)
  show "snd (snd s) = WExit \<Longrightarrow> shutdown_checks s = Inr ()" using exit_checks [OF inv] .
  assume "fst s"
  moreover have "drain_left s \<le> 4 * length (jobs (fst (snd s))) + 3"
    by (cases s; cases "snd (snd s)") (auto simp: drain_left_def)
  ultimately show "shutdown_checks (worker_run (4 * length (jobs (fst (snd s))) + 3) s) = Inr ()"
    using worker_run_exits exit_checks [OF worker_run_inv [OF inv]] by blast
qed

text \<open>Two jobs, and a signal while the first one is being processed.\<close>

theorem shutdown_drains_everything_witness:
  "(shutdown_step [''SIGINT''])\<^sup>*\<^sup>* (shutdown_init 2) (True, \<lparr>jobs = [1], processed = 0, accepted = 2\<rparr>, WBusy) \<and>
   shutdown_checks (worker_run (4 * length [1::int] + 3) (True, \<lparr>jobs = [1], processed = 0, accepted = 2\<rparr>, WBusy)) = Inr ()"
proof
  let ?R = "shutdown_step [''SIGINT'']"
  have "?R (shutdown_init 2) (False, \<lparr>jobs = [0, 1], processed = 0, accepted = 2\<rparr>, WGet)"
    by (rule shutdown_step.run) (simp add: shutdown_init_def feed_def new_worker_def worker_move_def numeral_2_eq_2)
  moreover have "?R (False, \<lparr>jobs = [0, 1], processed = 0, accepted = 2\<rparr>, WGet) (False, \<lparr>jobs = [1], processed = 0, accepted = 2\<rparr>, WBusy)"
    by (rule shutdown_step.run) (simp add: worker_move_def)
  moreover have "?R (False, \<lparr>jobs = [1], processed = 0, accepted = 2\<rparr>, WBusy) (True, \<lparr>jobs = [1], processed = 0, accepted = 2\<rparr>, WBusy)"
    by (rule shutdown_step.signal [of "''SIGINT''"]) simp
  ultimately show run: "?R\<^sup>*\<^sup>* (shutdown_init 2) (True, \<lparr>jobs = [1], processed = 0, accepted = 2\<rparr>, WBusy)"
    by (meson rtranclp.intros)
  show "shutdown_checks (worker_run (4 * length [1::int] + 3) (True, \<lparr>jobs = [1], processed = 0, accepted = 2\<rparr>, WBusy)) = Inr ()"
    using shutdown_drains_everything [OF run] by simp
qed


section \<open>The main thread\<close>

text \<open>
  \<^verbatim>\<open>main\<close>: it installs the handlers, feeds the worker, starts its thread, sleeps, raises \<^verbatim>\<open>SIGINT\<close>, joins the thread and runs the
  checks. The worker moves once its thread is started; other signals may arrive as soon as the handlers are there.
  With \<open>timeouts\<close> the join may give up after its ten seconds.
\<close>

datatype main_at = M_Install | M_Feed | M_Start | M_Sleep | M_Raise | M_Join | M_Checks

type_synonym shutdown_program = "main_at \<times> string list \<times> shutdown_state"

definition program_init :: shutdown_program where
  "program_init = (M_Install, [], False, new_worker, WTop)"

definition started :: "main_at \<Rightarrow> bool" where
  "started m \<longleftrightarrow> m \<in> {M_Sleep, M_Raise, M_Join, M_Checks}"

inductive program_step :: "string set \<Rightarrow> bool \<Rightarrow> shutdown_program \<Rightarrow> shutdown_program \<Rightarrow> bool" for available timeouts where
  install: "program_step available timeouts (M_Install, sigs, s) (M_Feed, install_signal_handlers available, s)"
| feeding: "program_step available timeouts (M_Feed, sigs, f, w, pc) (M_Start, sigs, f, feed 500 w, pc)"
| start: "program_step available timeouts (M_Start, sigs, s) (M_Sleep, sigs, s)"
| slept: "program_step available timeouts (M_Sleep, sigs, s) (M_Raise, sigs, s)"
| raising: "''SIGINT'' \<in> set sigs \<Longrightarrow> program_step available timeouts (M_Raise, sigs, f, w, pc) (M_Join, sigs, True, w, pc)"
| joined: "program_step available timeouts (M_Join, sigs, f, w, WExit) (M_Checks, sigs, f, w, WExit)"
| gave_up: "timeouts \<Longrightarrow> program_step available timeouts (M_Join, sigs, s) (M_Checks, sigs, s)"
| working: "started m \<Longrightarrow> worker_move s = Some s' \<Longrightarrow> program_step available timeouts (m, sigs, s) (m, sigs, s')"
| signal: "name \<in> set sigs \<Longrightarrow> program_step available timeouts (m, sigs, f, w, pc) (m, sigs, True, w, pc)"

definition program_inv :: "string set \<Rightarrow> bool \<Rightarrow> shutdown_program \<Rightarrow> bool" where
  "program_inv available timeouts p \<longleftrightarrow> (case p of (m, sigs, s) \<Rightarrow>
     (m \<noteq> M_Install \<longrightarrow> sigs = install_signal_handlers available) \<and>
     (m \<in> {M_Install, M_Feed} \<longrightarrow> fst (snd s) = new_worker) \<and>
     (\<not> started m \<longrightarrow> snd (snd s) = WTop) \<and>
     (m \<notin> {M_Install, M_Feed} \<longrightarrow> shutdown_inv 500 s) \<and>
     (m \<in> {M_Join, M_Checks} \<longrightarrow> fst s) \<and> (m = M_Checks \<and> \<not> timeouts \<longrightarrow> snd (snd s) = WExit))"

lemma worker_move_flag: "worker_move s = Some s' \<Longrightarrow> fst s' = fst s \<and> snd (snd s) \<noteq> WExit"
  by (cases s) (auto simp: worker_move_def split: wphase.splits list.splits if_splits)

lemma program_step_inv: "program_step available timeouts p p' \<Longrightarrow> program_inv available timeouts p \<Longrightarrow> program_inv available timeouts p'"
proof (induction rule: program_step.induct)
  case (feeding sigs f w pc)
  then show ?case by (auto simp: program_inv_def started_def shutdown_inv_def feed_def new_worker_def in_flight_def)
next
  case (working m s s' sigs)
  then show ?case
    using worker_move_inv [OF working(2)] worker_move_flag [OF working(2)] by (auto simp: program_inv_def started_def)
next
  case (signal name sigs m f w pc)
  then show ?case by (auto simp: program_inv_def shutdown_inv_def)
qed (auto simp: program_inv_def started_def shutdown_inv_def)

interpretation prog: step_invariant "program_step available timeouts" "program_inv available timeouts"
  by unfold_locales (rule program_step_inv)

text \<open>
  On every platform with \<^verbatim>\<open>SIGINT\<close> the program cannot get stuck, and when the join does not time out all checks succeed. Even when it
  does, no job is lost: whatever was accepted is processed, in progress or still queued.
\<close>

lemma program_correct:
  assumes "''SIGINT'' \<in> available" "(program_step available timeouts)\<^sup>*\<^sup>* program_init (m, sigs, s)"
  shows "(m \<noteq> M_Checks \<longrightarrow> (\<exists>p. program_step available timeouts (m, sigs, s) p)) \<and>
    (m = M_Checks \<and> \<not> timeouts \<longrightarrow> shutdown_checks s = Inr ()) \<and>
    (m = M_Checks \<longrightarrow> fst s \<and> shutdown_inv 500 s)"
proof -
  have "program_inv available timeouts program_init"
    by (simp add: program_inv_def program_init_def started_def)
  then have inv: "program_inv available timeouts (m, sigs, s)" using prog.reach_inv [OF assms(2)] by blast
  have "\<exists>p. program_step available timeouts (m, sigs, s) p" if m: "m \<noteq> M_Checks"
  proof (cases m)
    case M_Raise
    then have "''SIGINT'' \<in> set sigs" using inv assms(1) by (auto simp: program_inv_def install_signal_handlers_def)
    with M_Raise program_step.raising show ?thesis by (cases s) blast
  next
    case M_Join
    show ?thesis
    proof (cases "worker_move s")
      case None
      then obtain f w where "s = (f, w, WExit)" by (cases s) (auto simp: worker_move_None)
      with M_Join program_step.joined show ?thesis by blast
    next
      case (Some s')
      moreover have "started M_Join" by (simp add: started_def)
      ultimately show ?thesis using M_Join program_step.working by blast
    qed
  qed (use m program_step.install program_step.feeding program_step.start program_step.slept in \<open>(cases s, blast)+\<close>)
  moreover have "shutdown_checks s = Inr ()" if "m = M_Checks" "\<not> timeouts"
    using inv that exit_checks [of 500 s] by (auto simp: program_inv_def)
  ultimately show ?thesis using inv by (auto simp: program_inv_def)
qed

text \<open>When the join gives up early, the second check fails: the thread is still alive.\<close>

lemma join_timeout_detected: "snd (snd s) \<noteq> WExit \<Longrightarrow> fst s \<Longrightarrow> shutdown_checks s = Inl AssertionError"
  by (cases s) (auto simp: shutdown_checks_def py_assert_def)

end
