(* ===== verification/Primes_RSA.thy ===== *)
theory Primes_RSA
  imports Complex_Main
begin

text \<open>
  The number theory behind the key generator and the signatures of \<^verbatim>\<open>tls_inspect.py\<close>: Euclid's lemma, Fermat's
  little theorem, the square roots of 1 modulo a prime, the RSA equation, and the extended Euclidean algorithm
  that \<^verbatim>\<open>pow(a, -1, m)\<close> computes.
\<close>

section \<open>Primes\<close>

definition is_prime_number :: "nat \<Rightarrow> bool" where
  "is_prime_number p \<longleftrightarrow> 1 < p \<and> (\<forall>m. m dvd p \<longrightarrow> m = 1 \<or> m = p)"

lemma prime_coprime: "is_prime_number p \<Longrightarrow> \<not> p dvd a \<Longrightarrow> coprime p a"
proof -
  assume p: "is_prime_number p" "\<not> p dvd a"
  have "gcd p a = 1 \<or> gcd p a = p" using p(1) unfolding is_prime_number_def by (metis gcd_dvd1)
  with p(2) show ?thesis by (metis coprime_iff_gcd_eq_1 gcd_dvd2)
qed

lemma prime_coprime_int: "is_prime_number p \<Longrightarrow> \<not> int p dvd a \<Longrightarrow> coprime (int p) a"
proof -
  assume p: "is_prime_number p" "\<not> int p dvd a"
  then have "\<not> p dvd nat \<bar>a\<bar>" by (simp add: dvd_nat_abs_iff)
  from prime_coprime [OF p(1) this] have "coprime (int p) (int (nat \<bar>a\<bar>))" by (simp only: coprime_int_iff)
  then show ?thesis by simp
qed

lemma prime_dvd_mult:
  assumes "is_prime_number p" "int p dvd a * b"
  shows "int p dvd a \<or> int p dvd b"
  using assms prime_coprime_int [of p a] by (metis coprime_dvd_mult_right_iff)

lemma prime_dvd_power: "is_prime_number p \<Longrightarrow> int p dvd a ^ n \<Longrightarrow> int p dvd a"
proof (induction n)
  case (Suc n)
  then show ?case using prime_dvd_mult [of p a "a ^ n"] by auto
qed (simp add: is_prime_number_def)

lemma distinct_primes_coprime: "is_prime_number p \<Longrightarrow> is_prime_number q \<Longrightarrow> p \<noteq> q \<Longrightarrow> coprime p q"
  by (rule prime_coprime) (auto simp: is_prime_number_def)

text \<open>Primality by trial division, for concrete numbers.\<close>

lemma prime_by_trial:
  assumes "1 < p" "\<forall>m \<in> {2..b}. \<not> m dvd p" "p < (b + 1) * (b + 1)"
  shows "is_prime_number p"
proof -
  have "m = 1 \<or> m = p" if "m dvd p" for m
  proof (rule ccontr)
    assume neq: "\<not> (m = 1 \<or> m = p)"
    obtain k where k: "p = m * k" using \<open>m dvd p\<close> by (auto elim: dvdE)
    have "m \<noteq> 0" "k \<noteq> 0" "k \<noteq> 1" using k assms(1) neq by (auto intro: Nat.gr0I)
    moreover have "k dvd p" "m dvd p" using k by simp_all
    ultimately have "k \<notin> {2..b}" "m \<notin> {2..b}" using assms(2) by auto
    moreover have "2 \<le> m" "2 \<le> k" using \<open>m \<noteq> 0\<close> \<open>k \<noteq> 0\<close> \<open>k \<noteq> 1\<close> neq by auto
    ultimately have "b < m" "b < k" by auto
    then have "(b + 1) * (b + 1) \<le> m * k" by (intro mult_le_mono) auto
    with k assms(3) show False by simp
  qed
  with assms(1) show ?thesis by (auto simp: is_prime_number_def)
qed

section \<open>Fermat's little theorem\<close>

lemma prime_dvd_binomial:
  assumes "is_prime_number p" "0 < k" "k < p"
  shows "p dvd (p choose k)"
proof -
  have "k * (p choose k) = p * ((p - 1) choose (k - 1))" using assms(2) by (simp add: times_binomial_minus1_eq)
  then have "p dvd k * (p choose k)" by simp
  moreover have "\<not> p dvd k" using assms by (auto dest: dvd_imp_le)
  ultimately show ?thesis using prime_coprime [OF assms(1)] by (metis coprime_dvd_mult_right_iff)
qed

lemma power_add_one_mod:
  assumes "is_prime_number p"
  shows "((a::int) + 1) ^ p mod int p = (a ^ p + 1) mod int p"
proof -
  obtain q where q: "p = Suc q" using assms by (cases p) (auto simp: is_prime_number_def)
  have "(a + 1) ^ p = (\<Sum>k\<le>p. of_nat (p choose k) * a ^ k)" using binomial_ring [of a 1 p] by simp
  also have "\<dots> = (\<Sum>k\<in>{1..q}. of_nat (p choose k) * a ^ k) + (a ^ p + 1)"
  proof -
    have "{..p} = insert 0 (insert p {1..q})" "0 \<notin> insert p {1..q}" "p \<notin> {1..q}" unfolding q by auto
    then show ?thesis by simp
  qed
  finally have "(a + 1) ^ p - (a ^ p + 1) = (\<Sum>k\<in>{1..q}. of_nat (p choose k) * a ^ k)" by simp
  moreover have "int p dvd (\<Sum>k\<in>{1..q}. of_nat (p choose k) * a ^ k)"
    using prime_dvd_binomial [OF assms] q by (intro dvd_sum dvd_mult2) (auto simp: int_dvd_int_iff simp del: of_nat_Suc)
  ultimately show ?thesis by (simp add: mod_eq_dvd_iff)
qed

lemma fermat: "is_prime_number p \<Longrightarrow> (a::int) ^ p mod int p = a mod int p"
proof (induction a rule: int_induct [where k = 0])
  case base
  then show ?case by (simp add: is_prime_number_def zero_power)
next
  case (step1 i)
  then show ?case using power_add_one_mod [of p i] by (metis mod_add_cong)
next
  case (step2 i)
  have "(i - 1) ^ p mod int p = ((i - 1) ^ p + 1 - 1) mod int p" by simp
  also have "\<dots> = (i ^ p - 1) mod int p" using power_add_one_mod [OF step2(3), of "i - 1"] by (metis diff_add_cancel mod_diff_left_eq)
  also have "\<dots> = (i - 1) mod int p" using step2 by (metis mod_diff_left_eq)
  finally show ?case .
qed

lemma fermat_coprime:
  assumes "is_prime_number p" "\<not> int p dvd a"
  shows "a ^ (p - 1) mod int p = 1"
proof -
  have p1: "1 < p" using assms(1) by (simp add: is_prime_number_def)
  then have "a ^ p = a * a ^ (p - 1)" by (metis gr_implies_not0 power_eq_if)
  then have "int p dvd a * (a ^ (p - 1) - 1)"
    using fermat [OF assms(1), of a] by (simp add: mod_eq_dvd_iff right_diff_distrib)
  then have "int p dvd a ^ (p - 1) - 1" using prime_dvd_mult [OF assms(1)] assms(2) by blast
  then have "a ^ (p - 1) mod int p = 1 mod int p" by (simp add: mod_eq_dvd_iff)
  with p1 show ?thesis by simp
qed

lemma square_root_of_one:
  assumes "is_prime_number p" "x ^ 2 mod int p = 1"
  shows "x mod int p = 1 \<or> x mod int p = int p - 1"
proof -
  have p1: "1 < p" using assms(1) by (simp add: is_prime_number_def)
  have "x ^ 2 mod int p = 1 mod int p" using assms(2) p1 by simp
  then have "int p dvd (x - 1) * (x + 1)" by (simp add: mod_eq_dvd_iff power2_eq_square algebra_simps)
  then have "x mod int p = 1 mod int p \<or> x mod int p = (- 1) mod int p"
    using prime_dvd_mult [OF assms(1)] by (auto simp: mod_eq_dvd_iff)
  with p1 show ?thesis by (simp add: zmod_minus1)
qed

section \<open>The RSA equation\<close>

lemma power_phi_mod_prime:
  assumes "is_prime_number p" "k mod (p - 1) = 1 mod (p - 1)" "0 < k"
  shows "(x::int) ^ k mod int p = x mod int p"
proof (cases "int p dvd x")
  case True
  then have "int p dvd x ^ k" using assms(3) by (metis dvd_power dvd_trans)
  with True show ?thesis by simp
next
  case False
  obtain j where j: "k = 1 + j * (p - 1)"
  proof (cases "p = 2")
    case True
    with that [of "k - 1"] assms(3) show thesis by simp
  next
    case False
    then have "1 mod (p - 1) = 1" using assms(1) by (simp add: is_prime_number_def)
    with that [of "k div (p - 1)"] assms(2) show thesis by (metis add.commute div_mult_mod_eq)
  qed
  have "x ^ k mod int p = x * (x ^ (p - 1)) ^ j mod int p" unfolding j by (simp add: power_add mult.commute [of j] power_mult)
  also have "\<dots> = x * ((x ^ (p - 1) mod int p) ^ j mod int p) mod int p" by (simp add: power_mod mod_mult_right_eq)
  also have "\<dots> = x mod int p" using fermat_coprime [OF assms(1) False] by (simp add: mod_mult_right_eq)
  finally show ?thesis .
qed

theorem rsa_power:
  assumes "is_prime_number p" "is_prime_number q" "p \<noteq> q" "k mod ((p - 1) * (q - 1)) = 1 mod ((p - 1) * (q - 1))" "0 < k"
  shows "(x::int) ^ k mod (int p * int q) = x mod (int p * int q)"
proof -
  have m: "k mod (p - 1) = 1 mod (p - 1)" "k mod (q - 1) = 1 mod (q - 1)"
    using assms(4) by (metis dvd_triv_left mod_mod_cancel, metis dvd_triv_right mod_mod_cancel)
  have "int p dvd x ^ k - x" "int q dvd x ^ k - x"
    using power_phi_mod_prime [OF assms(1) m(1) assms(5)] power_phi_mod_prime [OF assms(2) m(2) assms(5)] by (simp_all add: mod_eq_dvd_iff)
  moreover have "coprime (int p) (int q)" using distinct_primes_coprime [OF assms(1-3)] by simp
  ultimately have "int p * int q dvd x ^ k - x" by (rule divides_mult)
  then show ?thesis by (simp add: mod_eq_dvd_iff)
qed

section \<open>Modular inverses\<close>

function egcd :: "int \<Rightarrow> int \<Rightarrow> int \<times> int \<times> int" where
  "egcd a b = (if b \<le> 0 then (a, 1, 0) else case egcd b (a mod b) of (g, x, y) \<Rightarrow> (g, y, x - (a div b) * y))"
  by pat_completeness auto

termination
  by (relation "measure (\<lambda>(a, b). nat b)") auto

declare egcd.simps [simp del]

lemma egcd_bezout: "0 \<le> a \<Longrightarrow> 0 \<le> b \<Longrightarrow> egcd a b = (g, x, y) \<Longrightarrow> g = gcd a b \<and> a * x + b * y = g"
proof (induction a b arbitrary: g x y rule: egcd.induct)
  case (1 a b)
  show ?case
  proof (cases "b \<le> 0")
    case True
    with 1(2-4) show ?thesis by (auto simp: egcd.simps [of a 0])
  next
    case False
    obtain g' x' y' where r: "egcd b (a mod b) = (g', x', y')" by (cases "egcd b (a mod b)") auto
    with False 1(4) have eq: "g = g'" "x = y'" "y = x' - (a div b) * y'" by (auto simp: egcd.simps [of a b])
    have IH: "g' = gcd b (a mod b) \<and> b * x' + (a mod b) * y' = g'" using 1(1) [OF False _ _ r] False by simp
    have "a * y' + b * (x' - (a div b) * y') = b * x' + (a - b * (a div b)) * y'" by (simp add: algebra_simps)
    also have "\<dots> = g'" using IH by (simp add: minus_mult_div_eq_mod)
    finally have "a * y' + b * (x' - (a div b) * y') = g'" .
    moreover have "gcd a b = gcd b (a mod b)" by (rule gcd_red_int)
    ultimately show ?thesis using IH eq by simp
  qed
qed

section \<open>Prime factors\<close>

lemma prime_factor: "1 < n \<Longrightarrow> \<exists>r. is_prime_number r \<and> r dvd n"
proof (induction n rule: less_induct)
  case (less n)
  show ?case
  proof (cases "is_prime_number n")
    case False
    then obtain m where m: "m dvd n" "m \<noteq> 1" "m \<noteq> n" using less.prems by (auto simp: is_prime_number_def)
    moreover have "m \<noteq> 0" using m(1) less.prems by (cases "m = 0") auto
    ultimately have "1 < m" "m < n" using dvd_imp_le [of m n] less.prems by auto
    with less.IH m(1) show ?thesis using dvd_trans by blast
  qed auto
qed

end
