(* ===== verification/Prime_Range.thy ===== *)
theory Prime_Range
  imports Primes_RSA
begin

text \<open>
  Between \<open>2 ^ 1023\<close> and \<open>2 ^ 1024\<close> there are two primes that \<^verbatim>\<open>generate_rsa(2048)\<close> of \<^verbatim>\<open>tls_inspect.py\<close> can use: the search for a
  key can end. The argument is Erdos' proof of Bertrand's postulate, with the primes that are 1 modulo 65537 counted out. It compares the
  size of a central binomial coefficient with the primes that can divide it.
\<close>

section \<open>Numbers and their prime factors\<close>

lemma prime_dvd_mult_nat: "is_prime_number p \<Longrightarrow> p dvd a * b \<Longrightarrow> p dvd a \<or> p dvd (b :: nat)"
  using prime_dvd_mult [of p "int a" "int b"] by (simp flip: of_nat_mult)

lemma prime_dvd_prod_nat:
  assumes "is_prime_number p" "finite S" "p dvd prod f S"
  shows "\<exists>x \<in> S. p dvd (f x :: nat)"
  using assms(2,3)
proof (induction S)
  case empty
  then show ?case using assms(1) by (simp add: is_prime_number_def)
next
  case (insert x S)
  then show ?case using prime_dvd_mult_nat [OF assms(1), of "f x" "prod f S"] by auto
qed

lemma prime_dvd_power_nat: "is_prime_number p \<Longrightarrow> p dvd a ^ n \<Longrightarrow> p dvd (a :: nat)"
proof (induction n)
  case (Suc n)
  then show ?case using prime_dvd_mult_nat [of p a "a ^ n"] by auto
qed (simp add: is_prime_number_def)

lemma prime_dvd_prime: "is_prime_number p \<Longrightarrow> is_prime_number q \<Longrightarrow> p dvd q \<Longrightarrow> p = q"
  by (auto simp: is_prime_number_def)

text \<open>The part of a number that belongs to one prime.\<close>

lemma split_off_prime:
  assumes "is_prime_number p" "0 < n"
  shows "\<exists>k m. n = p ^ k * m \<and> \<not> p dvd m"
  using assms(2)
proof (induction n rule: less_induct)
  case (less n)
  show ?case
  proof (cases "p dvd n")
    case True
    then obtain c where c: "n = p * c" by (auto elim: dvdE)
    have "1 < p" using assms(1) by (simp add: is_prime_number_def)
    then have "0 < c" "c < n" using c less.prems by auto
    with less.IH obtain k m where "c = p ^ k * m" "\<not> p dvd m" by blast
    with c show ?thesis by (intro exI [of _ "Suc k"] exI [of _ m]) simp
  next
    case False
    then show ?thesis by (intro exI [of _ 0] exI [of _ n]) simp
  qed
qed

text \<open>A number divides the product of the prime powers that bound it.\<close>

lemma dvd_prime_powers:
  assumes "finite S" "\<forall>p \<in> S. is_prime_number p" "0 < n"
    and "\<And>p. is_prime_number p \<Longrightarrow> p dvd n \<Longrightarrow> p \<in> S" "\<And>p. p \<in> S \<Longrightarrow> \<not> p ^ Suc (e p) dvd n"
  shows "n dvd (\<Prod>p \<in> S. p ^ e p)"
  using assms
proof (induction S arbitrary: n)
  case empty
  show ?case
  proof (cases "n = 1")
    case False
    with empty.prems(2) have "1 < n" by simp
    then show ?thesis using prime_factor empty.prems(3) by blast
  qed simp
next
  case (insert p S)
  then obtain k m where n: "n = p ^ k * m" "\<not> p dvd m" using split_off_prime [of p n] by blast
  have "k \<le> e p"
  proof (rule ccontr)
    assume "\<not> k \<le> e p"
    then have "p ^ Suc (e p) dvd p ^ k" by (intro le_imp_power_dvd) simp
    then show False using insert.prems(4) [of p] n(1) by auto
  qed
  moreover have "m dvd (\<Prod>p \<in> S. p ^ e p)"
  proof (rule insert.IH)
    show "\<forall>p \<in> S. is_prime_number p" using insert.prems(1) by simp
    show "0 < m" using insert.prems(2) n(1) by (cases m) auto
    show "q \<in> S" if "is_prime_number q" "q dvd m" for q using insert.prems(3) [of q] that n by auto
    show "\<not> q ^ Suc (e q) dvd m" if "q \<in> S" for q using insert.prems(4) [of q] that n(1) by auto
  qed
  ultimately show ?case using insert.hyps n(1) by (simp add: le_imp_power_dvd mult_dvd_mono)
qed

text \<open>Different primes that divide a number divide it together.\<close>

lemma distinct_primes_dvd:
  assumes "finite S" "\<forall>p \<in> S. is_prime_number p \<and> p dvd n"
  shows "\<Prod>S dvd (n :: nat)"
  using assms
proof (induction S arbitrary: n)
  case (insert p S)
  then obtain m where m: "n = p * m" by (meson dvdE insertI1)
  have "q dvd m" if "q \<in> S" for q
  proof -
    have "is_prime_number q" "q dvd p * m" "q \<noteq> p" "is_prime_number p" using insert that m by auto
    then show ?thesis using prime_dvd_mult_nat [of q p m] prime_dvd_prime [of q p] by blast
  qed
  with insert.IH [of m] insert.prems have "\<Prod>S dvd m" by auto
  with insert.hyps m show ?case by simp
qed simp

section \<open>Prime powers in a binomial coefficient\<close>

text \<open>The entries of Leibniz' harmonic triangle: a common multiple of the numbers up to \<open>M\<close> is a multiple of these, too.\<close>

lemma triangle_dvd:
  assumes "\<And>i. 1 \<le> i \<Longrightarrow> i \<le> M \<Longrightarrow> i dvd L"
  shows "1 \<le> c \<Longrightarrow> c \<le> r \<Longrightarrow> r \<le> M \<Longrightarrow> c * (r choose c) dvd L"
proof (induction c arbitrary: r)
  case (Suc c)
  show ?case
  proof (cases "c = 0")
    case True
    with Suc.prems assms show ?thesis by simp
  next
    case False
    obtain s where r: "r = Suc s" using Suc.prems by (cases r) auto
    obtain x where x: "L = c * (s choose c) * x" using Suc.IH [of s] Suc.prems r False by (auto elim: dvdE)
    obtain y where y: "L = c * (r choose c) * y" using Suc.IH [of r] Suc.prems False by (auto elim: dvdE)
    have "(r - c) * (r choose c) = r * (s choose c)" using binomial_absorb_comp [of r c] by (simp add: r)
    then have "(int r - int c) * int (r choose c) = int r * int (s choose c)"
      using Suc.prems by (metis Suc_leD of_nat_diff of_nat_mult)
    then have "(int r - int c) * int L = int c * (int r * int (s choose c)) * int y" unfolding y by simp
    moreover have "int r * int L = int c * (int r * int (s choose c)) * int x" unfolding x by simp
    ultimately have "int c * int L = int c * (int r * int (s choose c) * (int x - int y))" by (simp add: algebra_simps)
    then have "int L = int (r * (s choose c)) * (int x - int y)" using False by simp
    then have "int (r * (s choose c)) dvd int L" by (rule dvdI)
    moreover have "Suc c * (r choose Suc c) = r * (s choose c)" by (simp only: r Suc_times_binomial)
    ultimately show ?thesis by (simp only: int_dvd_int_iff)
  qed
qed simp

text \<open>Prime powers that divide \<open>M choose j\<close> are at most \<open>M\<close>.\<close>

lemma binomial_prime_power:
  assumes "1 \<le> j" "j \<le> M" "is_prime_number p" "p ^ k dvd (M choose j)"
  shows "p ^ k \<le> M"
proof -
  let ?S = "{q. is_prime_number q \<and> q \<le> M}"
  have "\<exists>e. \<forall>q \<in> ?S. q ^ e q \<le> M \<and> M < q ^ Suc (e q)"
  proof (rule bchoice, rule ballI)
    fix q
    assume "q \<in> ?S"
    then have "2 \<le> q" by (simp add: is_prime_number_def)
    from ex_power_ivl1 [OF this, of M] assms(1,2) show "\<exists>e. q ^ e \<le> M \<and> M < q ^ Suc e" by auto
  qed
  then obtain e where e: "\<forall>q \<in> ?S. q ^ e q \<le> M \<and> M < q ^ Suc (e q)" by blast
  let ?L = "\<Prod>q \<in> ?S. q ^ e q"
  have fin: "finite ?S" by simp
  have "i dvd ?L" if "1 \<le> i" "i \<le> M" for i
  proof (rule dvd_prime_powers [OF fin])
    show "q \<in> ?S" if "is_prime_number q" "q dvd i" for q
      using dvd_imp_le [OF that(2)] that(1) \<open>1 \<le> i\<close> \<open>i \<le> M\<close> by simp
    show "\<not> q ^ Suc (e q) dvd i" if "q \<in> ?S" for q
      using dvd_imp_le [of "q ^ Suc (e q)" i] e that \<open>1 \<le> i\<close> \<open>i \<le> M\<close> by fastforce
  qed (use that in auto)
  from triangle_dvd [OF this assms(1,2) order_refl] have L: "p ^ k dvd ?L" using assms(4) by (meson dvd_mult dvd_trans)
  show ?thesis
  proof (cases "k = 0")
    case False
    then have "p dvd p ^ k" by simp
    then have "p dvd ?L" using L by (rule dvd_trans)
    then obtain q where "q \<in> ?S" "p dvd q ^ e q" using prime_dvd_prod_nat [OF assms(3) fin] by blast
    then have "p \<in> ?S" using prime_dvd_power_nat [OF assms(3)] prime_dvd_prime [OF assms(3), of q] by auto
    have split: "?L = p ^ e p * (\<Prod>q \<in> ?S - {p}. q ^ e q)" using prod.remove [OF fin \<open>p \<in> ?S\<close>] .
    have "\<not> p dvd (\<Prod>q \<in> ?S - {p}. q ^ e q)"
    proof
      assume "p dvd (\<Prod>q \<in> ?S - {p}. q ^ e q)"
      then obtain q where "q \<in> ?S - {p}" "p dvd q ^ e q" using prime_dvd_prod_nat [OF assms(3), of "?S - {p}"] by auto
      then show False using prime_dvd_power_nat [OF assms(3)] prime_dvd_prime [OF assms(3), of q] by auto
    qed
    then have "coprime (p ^ k) (\<Prod>q \<in> ?S - {p}. q ^ e q)" using prime_coprime [OF assms(3)] by simp
    then have "p ^ k dvd p ^ e p" using L unfolding split by (simp add: coprime_dvd_mult_left_iff)
    then have "p ^ k \<le> p ^ e p" using dvd_imp_le [of "p ^ k" "p ^ e p"] assms(3) by (simp add: is_prime_number_def)
    then show ?thesis using e \<open>p \<in> ?S\<close> by fastforce
  qed (use assms(1,2) in simp)
qed

text \<open>Primes above two thirds of \<open>n\<close> and up to \<open>n\<close> do not divide \<open>2 n choose n\<close>.\<close>

lemma central_no_prime:
  assumes p: "is_prime_number p" "3 \<le> p" "p \<le> n" "2 * n < 3 * p"
  shows "\<not> p dvd (2 * n choose n)"
proof
  assume dvd: "p dvd (2 * n choose n)"
  let ?A = "\<Prod>({1..n} - {p})" and ?B = "\<Prod>({1..2 * n} - {p, 2 * p})"
  have no: "\<not> p dvd \<Prod>(S - T)" if "S \<subseteq> {1..2 * n}" "S \<inter> {p, 2 * p} \<subseteq> T" for S T
  proof
    assume "p dvd \<Prod>(S - T)"
    moreover have "finite (S - T)" using finite_subset [OF that(1)] by simp
    ultimately obtain x where x: "x \<in> S - T" "p dvd x" using prime_dvd_prod_nat [OF p(1), of "S - T" "\<lambda>x. x"] by auto
    then obtain m where m: "x = p * m" by (auto elim: dvdE)
    have "1 \<le> x" "x \<le> 2 * n" using x(1) that(1) by auto
    have "p * m < p * 3" using \<open>x \<le> 2 * n\<close> p(4) m by linarith
    moreover have "m \<noteq> 0" using \<open>1 \<le> x\<close> m by (cases m) auto
    ultimately have "m = 1 \<or> m = 2" by auto
    with m x(1) that(2) show False by auto
  qed
  have "{1..n} \<inter> {p, 2 * p} \<subseteq> {p}" using p(2,4) by auto
  then have A: "\<not> p dvd ?A" by (intro no) auto
  have B: "\<not> p dvd ?B" by (intro no) auto
  have n: "fact n = p * ?A" using prod.remove [of "{1..n}" p "\<lambda>x. x"] p(2,3) by (simp add: fact_prod)
  have "{1..2 * n} = insert p (insert (2 * p) ({1..2 * n} - {p, 2 * p}))" using p(2,3) by auto
  then have "\<Prod>{1..2 * n} = \<Prod>(insert p (insert (2 * p) ({1..2 * n} - {p, 2 * p})))" by (rule arg_cong)
  then have n2: "fact (2 * n) = p * (2 * p) * ?B" using p(2) by (simp add: fact_prod)
  have "fact n * fact n * (2 * n choose n) = (fact (2 * n) :: nat)" using binomial_fact_lemma [of n "2 * n"] by simp
  then have "(p * p) * (?A * ?A * (2 * n choose n)) = (p * p) * (2 * ?B)" unfolding n n2 by (simp add: mult_ac)
  then have "?A * ?A * (2 * n choose n) = 2 * ?B" using p(2) by simp
  then have "p dvd 2 * ?B" using dvd by (metis dvd_mult)
  then have "p dvd 2" using prime_dvd_mult_nat [OF p(1)] B by blast
  with p(2) show False by (auto dest: dvd_imp_le)
qed

section \<open>The product of the primes up to a bound\<close>

lemma prime_dvd_fact: "is_prime_number p \<Longrightarrow> p dvd fact n \<Longrightarrow> p \<le> n"
proof -
  assume p: "is_prime_number p" "p dvd fact n"
  then obtain x where x: "x \<in> {1..n}" "p dvd x" using prime_dvd_prod_nat [OF p(1), of "{1..n}" "\<lambda>x. x"] by (auto simp: fact_prod)
  then show "p \<le> n" using dvd_imp_le [OF x(2)] by auto
qed

lemma binomial_middle: "(2 * m + 1) choose m \<le> 4 ^ m"
proof -
  have "(2 * m + 1) choose m = (2 * m + 1) choose (m + 1)" using binomial_symmetric [of m "2 * m + 1"] by simp
  then have "2 * ((2 * m + 1) choose m) = (\<Sum>k \<in> {m, m + 1}. (2 * m + 1) choose k)" by simp
  also have "\<dots> \<le> (\<Sum>k \<le> 2 * m + 1. (2 * m + 1) choose k)" by (rule sum_mono2) auto
  also have "\<dots> = 2 * 4 ^ m" unfolding choose_row_sum by (simp add: power_mult)
  finally show ?thesis by simp
qed

lemma primorial: "\<Prod>{p. is_prime_number p \<and> p \<le> n} \<le> 4 ^ n"
proof (induction n rule: less_induct)
  case (less n)
  show ?case
  proof (cases "n \<le> 2")
    case True
    have two: "p = 2" if "is_prime_number p" "p \<le> n" for p using that True by (auto simp: is_prime_number_def)
    then have "{p. is_prime_number p \<and> p \<le> n} = {} \<or> {p. is_prime_number p \<and> p \<le> n} = {2} \<and> n = 2" using True by force
    moreover have "\<Prod>S \<le> 4 ^ n" if "S = {} \<or> S = {2} \<and> n = 2" for S :: "nat set" using that by auto
    ultimately show ?thesis by blast
  next
    case False
    show ?thesis
    proof (cases "even n")
      case True
      then have "\<not> is_prime_number n" using False by (auto simp: is_prime_number_def)
      then have "{p. is_prime_number p \<and> p \<le> n} = {p. is_prime_number p \<and> p \<le> n - 1}" by (auto simp: le_less)
      then have "\<Prod>{p. is_prime_number p \<and> p \<le> n} \<le> 4 ^ (n - 1)" using less [of "n - 1"] False by simp
      also have "\<dots> \<le> 4 ^ n" by (rule power_increasing) auto
      finally show ?thesis .
    next
      case False
      then obtain m where m: "n = 2 * m + 1" by (auto elim: oddE)
      then have m1: "1 \<le> m" using \<open>\<not> n \<le> 2\<close> by simp
      let ?S = "{p. is_prime_number p \<and> p \<le> m + 1}" and ?T = "{p. is_prime_number p \<and> m + 1 < p \<and> p \<le> n}"
      have "p dvd ((2 * m + 1) choose m)" if "p \<in> ?T" for p
      proof -
        have "fact m * fact (m + 1) * ((2 * m + 1) choose m) = (fact (2 * m + 1) :: nat)"
          using binomial_fact_lemma [of m "2 * m + 1"] by simp
        moreover have "p dvd fact (2 * m + 1)" using that m by (intro dvd_fact) (auto simp: is_prime_number_def)
        ultimately have "p dvd fact m * fact (m + 1) * ((2 * m + 1) choose m)" by simp
        then have "p dvd fact m \<or> p dvd fact (m + 1) \<or> p dvd ((2 * m + 1) choose m)"
          using that prime_dvd_mult_nat [of p] by blast
        then show ?thesis using prime_dvd_fact [of p m] prime_dvd_fact [of p "m + 1"] that by force
      qed
      then have "\<Prod>?T dvd ((2 * m + 1) choose m)" by (intro distinct_primes_dvd) auto
      then have "\<Prod>?T \<le> ((2 * m + 1) choose m)" by (rule dvd_imp_le) simp
      then have T: "\<Prod>?T \<le> 4 ^ m" using binomial_middle by (rule order_trans)
      have "{p. is_prime_number p \<and> p \<le> n} = ?S \<union> ?T" using m by auto
      then have "\<Prod>{p. is_prime_number p \<and> p \<le> n} = \<Prod>?S * \<Prod>?T" using prod.union_disjoint [of ?S ?T "\<lambda>p. p"] by (simp only: if_True) (auto simp: disjoint_iff)
      also have "\<dots> \<le> 4 ^ (m + 1) * 4 ^ m" using less [of "m + 1"] T m m1 by (intro mult_le_mono) auto
      also have "\<dots> = 4 ^ n" by (simp add: m mult_2 power_add)
      finally show ?thesis .
    qed
  qed
qed

section \<open>Primes between a power of two and its double\<close>

text \<open>What the primes contribute to \<open>2 n choose n\<close>, for \<open>2 n = 4 ^ m\<close>.\<close>

lemma many_primes:
  assumes "1 \<le> m" "2 * n = 4 ^ m"
  shows "n \<le> m + m * 2 ^ m + 2 * n div 3 + m * card {p. is_prime_number p \<and> n < p \<and> p \<le> 2 * n}"
proof -
  let ?N = "2 * n"
  let ?S1 = "{p. is_prime_number p \<and> p \<le> 2 ^ m}" and ?S2 = "{p. is_prime_number p \<and> 2 ^ m < p \<and> 3 * p \<le> ?N}"
    and ?S3 = "{p. is_prime_number p \<and> n < p \<and> p \<le> ?N}"
  let ?C = "?N choose n"
  have "0 < ?N" unfolding assms(2) by simp
  then have n: "1 \<le> n" by simp
  have sq: "2 ^ m * 2 ^ m = ?N" unfolding assms(2) by (simp flip: power_mult_distrib)
  have "2 ^ m * 2 \<le> 2 ^ m * (2 :: nat) ^ m" using assms(1) by (intro mult_le_mono order_refl self_le_power) auto
  then have s: "2 ^ m \<le> n" using sq by linarith
  have "\<exists>e. \<forall>q \<in> ?S1. q ^ e q \<le> ?N \<and> ?N < q ^ Suc (e q)"
  proof (rule bchoice, rule ballI)
    fix q
    assume "q \<in> ?S1"
    then have "2 \<le> q" by (simp add: is_prime_number_def)
    from ex_power_ivl1 [OF this, of ?N] n show "\<exists>e. q ^ e \<le> ?N \<and> ?N < q ^ Suc e" by auto
  qed
  then obtain e1 where e1: "\<forall>q \<in> ?S1. q ^ e1 q \<le> ?N \<and> ?N < q ^ Suc (e1 q)" by blast
  define e where "e p = (if p \<le> 2 ^ m then e1 p else 1)" for p
  have fin: "finite ?S1" "finite ?S2" "finite ?S3" by (rule finite_subset [of _ "{..2 ^ m + ?N}"]; auto)+
  have power: "p ^ k \<le> ?N" if "is_prime_number p" "p ^ k dvd ?C" for p k
    using binomial_prime_power [of n ?N p k] that n by simp
  have "?C dvd (\<Prod>p \<in> ?S1 \<union> (?S2 \<union> ?S3). p ^ e p)"
  proof (rule dvd_prime_powers)
    show "p \<in> ?S1 \<union> (?S2 \<union> ?S3)" if "is_prime_number p" "p dvd ?C" for p
    proof -
      have "p \<le> ?N" using power [of p 1] that by simp
      moreover have "\<not> (3 \<le> p \<and> p \<le> n \<and> ?N < 3 * p)" using central_no_prime [of p n] that by blast
      moreover have "3 \<le> p" if "2 ^ m < p" using that self_le_power [of "2 :: nat" m] assms(1) by simp
      ultimately show ?thesis using that by fastforce
    qed
    show "\<not> p ^ Suc (e p) dvd ?C" if "p \<in> ?S1 \<union> (?S2 \<union> ?S3)" for p
    proof
      assume "p ^ Suc (e p) dvd ?C"
      moreover have "is_prime_number p" using that by auto
      ultimately have le: "p ^ Suc (e p) \<le> ?N" by (intro power)
      show False
      proof (cases "p \<le> 2 ^ m")
        case True
        then show False using le e1 \<open>is_prime_number p\<close> by (fastforce simp: e_def)
      next
        case False
        then have "2 ^ m * 2 ^ m < p * p" by (intro mult_strict_mono) auto
        with le False sq show False by (simp add: e_def)
      qed
    qed
  qed (use fin n in auto)
  then have "?C \<le> (\<Prod>p \<in> ?S1 \<union> (?S2 \<union> ?S3). p ^ e p)"
    by (rule dvd_imp_le) (intro prod_pos, auto simp: is_prime_number_def)
  also have "\<dots> = (\<Prod>p \<in> ?S1. p ^ e p) * ((\<Prod>p \<in> ?S2. p ^ e p) * (\<Prod>p \<in> ?S3. p ^ e p))"
  proof -
    have "?S1 \<inter> (?S2 \<union> ?S3) = {}" "?S2 \<inter> ?S3 = {}" using s by auto
    with fin show ?thesis by (simp only: prod.union_disjoint finite_UnI)
  qed
  also have "\<dots> \<le> ?N ^ (2 ^ m) * (4 ^ (?N div 3) * ?N ^ card ?S3)"
  proof (intro mult_le_mono)
    have "card ?S1 \<le> card {1..(2 :: nat) ^ m}" by (rule card_mono) (auto simp: is_prime_number_def)
    then have c: "card ?S1 \<le> 2 ^ m" by simp
    have "(\<Prod>p \<in> ?S1. p ^ e p) \<le> (\<Prod>p \<in> ?S1. ?N)" using e1 by (intro prod_mono) (auto simp: e_def)
    also have "\<dots> = ?N ^ card ?S1" by (rule prod_constant)
    also have "\<dots> \<le> ?N ^ (2 ^ m)" using c by (rule power_increasing) (use n in simp)
    finally show "(\<Prod>p \<in> ?S1. p ^ e p) \<le> ?N ^ (2 ^ m)" .
    have "(\<Prod>p \<in> ?S2. p ^ e p) = \<Prod>?S2" by (rule prod.cong) (auto simp: e_def)
    also have "\<dots> \<le> \<Prod>{p. is_prime_number p \<and> p \<le> ?N div 3}"
      by (rule dvd_imp_le [OF prod_dvd_prod_subset]) (auto simp: is_prime_number_def intro!: prod_pos)
    also have "\<dots> \<le> 4 ^ (?N div 3)" by (rule primorial)
    finally show "(\<Prod>p \<in> ?S2. p ^ e p) \<le> 4 ^ (?N div 3)" .
    have "(\<Prod>p \<in> ?S3. p ^ e p) \<le> (\<Prod>p \<in> ?S3. ?N)" using s by (intro prod_mono) (auto simp: e_def)
    then show "(\<Prod>p \<in> ?S3. p ^ e p) \<le> ?N ^ card ?S3" by simp
  qed
  finally have up: "?C \<le> 4 ^ (m * 2 ^ m + ?N div 3 + m * card ?S3)" unfolding assms(2) by (simp add: power_mult power_add mult.assoc)
  have "4 ^ n \<le> ?C * ?N"
  proof -
    have "real (4 ^ n) \<le> real (?C * ?N)" using central_binomial_lower_bound [of n] n by (simp add: field_simps)
    then show ?thesis by (simp only: of_nat_le_iff)
  qed
  also have "\<dots> \<le> 4 ^ (m * 2 ^ m + ?N div 3 + m * card ?S3) * 4 ^ m" using up unfolding assms(2) by (rule mult_le_mono1)
  also have "\<dots> = 4 ^ (m + m * 2 ^ m + ?N div 3 + m * card ?S3)" by (simp add: power_add)
  finally show ?thesis by (simp only: power_increasing_iff)
qed

text \<open>A residue class meets an interval of \<open>n\<close> numbers at most \<open>n div k + 1\<close> times.\<close>

lemma residue_class_card:
  assumes "0 < (k :: nat)"
  shows "card {x. n < x \<and> x \<le> 2 * n \<and> x mod k = r} \<le> n div k + 1"
proof -
  let ?S = "{x. n < x \<and> x \<le> 2 * n \<and> x mod k = r}"
  have "inj_on (\<lambda>x. (x - n - 1) div k) ?S"
  proof (rule inj_onI)
    fix x y
    assume x: "x \<in> ?S" and y: "y \<in> ?S" and eq: "(x - n - 1) div k = (y - n - 1) div k"
    have "int x mod int k = int y mod int k" using x y by (simp flip: zmod_int)
    then have "(int x - int (n + 1)) mod int k = (int y - int (n + 1)) mod int k" by (rule mod_diff_cong) simp
    moreover have "int x - int (n + 1) = int (x - n - 1)" "int y - int (n + 1) = int (y - n - 1)" using x y by auto
    ultimately have "(x - n - 1) mod k = (y - n - 1) mod k" by (simp only: flip: zmod_int of_nat_eq_iff)
    with eq have "x - n - 1 = y - n - 1" by (metis div_mult_mod_eq)
    with x y show "x = y" by auto
  qed
  then have "card ?S = card ((\<lambda>x. (x - n - 1) div k) ` ?S)" by (simp add: card_image)
  also have "\<dots> \<le> card {..n div k}" by (rule card_mono) (auto intro: div_le_mono)
  finally show ?thesis by simp
qed

text \<open>Two primes of 1024 bits of which neither is 1 modulo 65537.\<close>

lemma usable_primes:
  "\<exists>p q. is_prime_number p \<and> is_prime_number q \<and> p \<noteq> q \<and> 2 ^ 1023 < p \<and> p < 2 ^ 1024 \<and> 2 ^ 1023 < q \<and> q < 2 ^ 1024 \<and>
     p mod 65537 \<noteq> 1 \<and> q mod 65537 \<noteq> 1"
proof -
  obtain n :: nat where n: "n = 2 ^ 1023" by blast
  have twice: "2 * n = 2 ^ 1024" unfolding n power_Suc [symmetric] by (rule arg_cong [where f = "power 2"]) simp
  have four: "(4 :: nat) ^ 512 = 2 ^ 1024" using power_mult [of "2 :: nat" 2 512] by simp
  let ?P = "{p. is_prime_number p \<and> n < p \<and> p \<le> 2 * n}" and ?R = "{p. n < p \<and> p \<le> 2 * n \<and> p mod 65537 = 1}"
  have fin: "finite ?P" "finite ?R" by (rule finite_subset [of _ "{..2 * n}"]; auto)+
  have card: "n \<le> 512 + 512 * 2 ^ 512 + 2 * n div 3 + 512 * card ?P"
    by (rule many_primes [OF _ trans [OF twice four [symmetric]]]) simp
  have "\<exists>p \<in> ?P - ?R. \<exists>q \<in> ?P - ?R. p \<noteq> q"
  proof (rule ccontr)
    assume "\<not> (\<exists>p \<in> ?P - ?R. \<exists>q \<in> ?P - ?R. p \<noteq> q)"
    then have "?P - ?R = {} \<or> (\<exists>p. ?P - ?R = {p})" by blast
    moreover have "card S \<le> 1" if "S = {} \<or> (\<exists>p. S = {p})" for S :: "nat set" using that by auto
    ultimately have "card (?P - ?R) \<le> 1" by blast
    moreover have "card ?R \<le> n div 65537 + 1" by (rule residue_class_card) simp
    moreover have "card ?P \<le> card (?P - ?R) + card ?R" using card_Un_le [of "?P - ?R" ?R] card_mono [of "(?P - ?R) \<union> ?R" ?P] fin by auto
    ultimately have "card ?P \<le> n div 65537 + 2" by linarith
    moreover obtain a :: nat where a: "a = 2 ^ 512" by blast
    moreover have "4096 * a \<le> n" and "4096 \<le> a"
    proof -
      have "(2 :: nat) ^ 12 * 2 ^ 512 \<le> 2 ^ 1023" unfolding power_add [symmetric] by (rule power_increasing) simp_all
      then show "4096 * a \<le> n" by (simp add: a n)
      have "(2 :: nat) ^ 12 \<le> 2 ^ 512" by (rule power_increasing) simp_all
      then show "4096 \<le> a" by (simp add: a)
    qed
    ultimately show False using card [folded a] by linarith
  qed
  then obtain p q where pq: "p \<in> ?P - ?R" "q \<in> ?P - ?R" "p \<noteq> q" by blast
  have "1 < n" unfolding n by (rule one_less_power) simp_all
  then have "2 dvd 2 * n" "2 \<noteq> 2 * n" by simp_all
  then have "\<not> is_prime_number (2 * n)" unfolding is_prime_number_def by (metis numeral_eq_one_iff semiring_norm(85))
  then have "p \<noteq> 2 * n" "q \<noteq> 2 * n" using pq by auto
  with pq have "n < p" "p < 2 * n" "n < q" "q < 2 * n" by auto
  with pq show ?thesis unfolding n [symmetric] twice [symmetric] by blast
qed

end
