(* ===== verification/Rsa_Keygen.thy ===== *)
theory Rsa_Keygen
  imports Prime_Range Prelude
begin

unbundle bit_operations_syntax

text \<open>
  Key generation of \<^verbatim>\<open>tls_inspect.py\<close>: the Miller-Rabin test, the search for primes and the RSA parameters.
  The random numbers are arguments: \<^verbatim>\<open>secrets\<close> is the environment. The searches may run forever
  when no candidate is accepted, so they are partial functions into \<open>option\<close>; what makes them return is stated and proved.
\<close>

section \<open>Primality test\<close>

definition small_primes :: "int list" where
  "small_primes = [2, 3, 5, 7, 11, 13, 17, 19, 23, 29, 31, 37]"

text \<open>The \<^verbatim>\<open>for\<close> loop over the small primes: \<open>Some b\<close> when the function returns \<open>b\<close> inside it.\<close>

fun trial_division :: "int list \<Rightarrow> int \<Rightarrow> bool option" where
  "trial_division [] n = None"
| "trial_division (p # ps) n = (if n mod p = 0 then Some (n = p) else trial_division ps n)"

text \<open>\<^verbatim>\<open>while d % 2 == 0\<close>; a \<open>d\<close> that is not positive does not occur (\<^verbatim>\<open>n - 1\<close> with \<^verbatim>\<open>n > 1\<close>).\<close>

function halve :: "int \<Rightarrow> nat \<Rightarrow> int \<times> nat" where
  "halve d r = (if 0 < d \<and> d mod 2 = 0 then halve (d div 2) (r + 1) else (d, r))"
  by pat_completeness auto

termination
  by (relation "measure (\<lambda>(d, _). nat d)") auto

declare halve.simps [simp del]

text \<open>\<^verbatim>\<open>for _ in range(r - 1)\<close> with its \<^verbatim>\<open>else\<close>: \<open>False\<close> when the loop ends without \<^verbatim>\<open>break\<close>.\<close>

fun mr_squares :: "nat \<Rightarrow> int \<Rightarrow> int \<Rightarrow> bool" where
  "mr_squares 0 n x = False"
| "mr_squares (Suc k) n x = (let x = x ^ 2 mod n in if x = n - 1 then True else mr_squares k n x)"

definition mr_round :: "int \<Rightarrow> int \<Rightarrow> nat \<Rightarrow> int \<Rightarrow> bool" where
  "mr_round n d r a = (let x = a ^ nat d mod n in x = 1 \<or> x = n - 1 \<or> mr_squares (r - 1) n x)"

text \<open>\<open>draws\<close> are the results of \<^verbatim>\<open>secrets.randbelow(n - 3)\<close>, one per round.\<close>

definition is_prime :: "int list \<Rightarrow> int \<Rightarrow> bool" where
  "is_prime draws n =
     (if n < 2 then False
      else case trial_division small_primes n of
        Some b \<Rightarrow> b
      | None \<Rightarrow> (case halve (n - 1) 0 of (d, r) \<Rightarrow> list_all (\<lambda>draw. mr_round n d r (draw + 2)) draws))"

definition draws_ok :: "int list \<Rightarrow> int \<Rightarrow> bool" where
  "draws_ok draws n \<longleftrightarrow> (\<forall>x \<in> set draws. 0 \<le> x \<and> x < n - 3)"

section \<open>Searching for primes and the RSA parameters\<close>

text \<open>A source gives, for each turn of the loop, the value of \<^verbatim>\<open>randbits(bits)\<close> and the draws of the test.\<close>

type_synonym prime_source = "nat \<Rightarrow> int \<times> int list"

definition candidate :: "nat \<Rightarrow> prime_source \<Rightarrow> nat \<Rightarrow> int" where
  "candidate bits src k = (fst (src k) OR push_bit (bits - 1) 1) OR 1"

partial_function (option) gen_loop :: "nat \<Rightarrow> prime_source \<Rightarrow> nat \<Rightarrow> int option" where
  "gen_loop bits src k =
     (if is_prime (snd (src k)) (candidate bits src k) then Some (candidate bits src k) else gen_loop bits src (Suc k))"

text \<open>\<^verbatim>\<open>1 << (bits - 1)\<close> raises for \<^verbatim>\<open>bits == 0\<close>.\<close>

definition gen_prime :: "nat \<Rightarrow> prime_source \<Rightarrow> int res option" where
  "gen_prime bits src = (if bits = 0 then Some (Inl ValueError) else map_option Inr (gen_loop bits src 0))"

record rsa_key =
  k_n :: int
  k_e :: int
  k_d :: int
  k_p :: int
  k_q :: int
  k_dp :: int
  k_dq :: int
  k_qinv :: int

text \<open>\<^verbatim>\<open>pow(a, -1, m)\<close> for a positive \<open>m\<close>.\<close>

definition pow_inv :: "int \<Rightarrow> int \<Rightarrow> int res" where
  "pow_inv a m = (case egcd (a mod m) m of (g, x, _) \<Rightarrow> if g = 1 then Inr (x mod m) else Inl ValueError)"

definition rsa_params :: "int \<Rightarrow> int \<Rightarrow> rsa_key res" where
  "rsa_params p q =
     (let e = 65537; phi = (p - 1) * (q - 1) in
      rbind (pow_inv e phi) (\<lambda>d.
      rbind (pow_inv q p) (\<lambda>qinv.
      Inr \<lparr>k_n = p * q, k_e = e, k_d = d, k_p = p, k_q = q, k_dp = d mod (p - 1), k_dq = d mod (q - 1), k_qinv = qinv\<rparr>)))"

partial_function (option) rsa_loop :: "nat \<Rightarrow> (nat \<Rightarrow> prime_source \<times> prime_source) \<Rightarrow> nat \<Rightarrow> rsa_key res option" where
  "rsa_loop bits src k =
     Option.bind (gen_loop (bits div 2) (fst (src k)) 0) (\<lambda>p.
     Option.bind (gen_loop (bits div 2) (snd (src k)) 0) (\<lambda>q.
       if p = q then rsa_loop bits src (Suc k)
       else if (p - 1) * (q - 1) mod 65537 = 0 then rsa_loop bits src (Suc k)
       else Some (rsa_params p q)))"

definition generate_rsa :: "nat \<Rightarrow> (nat \<Rightarrow> prime_source \<times> prime_source) \<Rightarrow> rsa_key res option" where
  "generate_rsa bits src = (if bits div 2 = 0 then Some (Inl ValueError) else rsa_loop bits src 0)"

section \<open>The test never rejects a prime\<close>

lemma trial_division_Some:
  "trial_division ps n = Some b \<Longrightarrow> \<exists>p \<in> set ps. n mod p = 0 \<and> b = (n = p)"
  by (induction ps) (auto split: if_splits)

lemma trial_division_None: "trial_division ps n = None \<longleftrightarrow> (\<forall>p \<in> set ps. n mod p \<noteq> 0)"
  by (induction ps) auto

lemma halve_result: "halve d r = (d', r') \<Longrightarrow> 0 < d \<Longrightarrow> r \<le> r' \<and> d = d' * 2 ^ (r' - r) \<and> d' mod 2 = 1 \<and> 0 < d'"
proof (induction d r rule: halve.induct)
  case (1 d r)
  show ?case
  proof (cases "d mod 2 = 0")
    case True
    then have rec: "halve (d div 2) (r + 1) = (d', r')" and half: "d = 2 * (d div 2)" "0 < d div 2"
      using 1(2,3) by (auto simp: halve.simps [of d r])
    from 1(1) [OF _ rec half(2)] True 1(3) have IH: "r + 1 \<le> r'" "d div 2 = d' * 2 ^ (r' - (r + 1))" "d' mod 2 = 1" "0 < d'"
      by auto
    have "2 ^ (r' - r) = 2 * (2 ^ (r' - (r + 1)) :: int)" using IH(1) by (metis Suc_diff_le Suc_eq_plus1 diff_Suc_Suc power_Suc)
    with IH half show ?thesis by simp
  next
    case False
    with 1 show ?thesis by (auto simp: halve.simps [of d r])
  qed
qed

text \<open>The squarings of a round: \<open>x\<close> is \<open>a ^ d\<close> modulo \<open>n\<close>.\<close>

lemma mr_squares_iff: "mr_squares k n x \<longleftrightarrow> (\<exists>i < k. x ^ 2 ^ Suc i mod n = n - 1)"
proof (induction k arbitrary: x)
  case (Suc k)
  have "(x ^ 2 mod n) ^ m mod n = x ^ (2 * m) mod n" for m by (simp add: power_mod power_mult)
  then have "mr_squares (Suc k) n x \<longleftrightarrow> x ^ 2 mod n = n - 1 \<or> (\<exists>i < k. x ^ 2 ^ Suc (Suc i) mod n = n - 1)"
    using Suc [of "x ^ 2 mod n"] by (simp add: Let_def)
  then show ?case by (auto simp: less_Suc_eq_0_disj)
qed simp

lemma square_chain:
  assumes p: "is_prime_number p" and "x ^ 2 ^ r mod int p = 1"
  shows "x mod int p = 1 \<or> (\<exists>i < r. x ^ 2 ^ i mod int p = int p - 1)"
  using assms(2)
proof (induction r)
  case (Suc r)
  have "(x ^ 2 ^ r) ^ 2 mod int p = 1" using Suc.prems by (simp add: power_mult [symmetric] mult.commute)
  from square_root_of_one [OF p this] Suc.IH show ?case using less_Suc_eq by auto
qed simp

lemma mr_round_prime:
  assumes p: "is_prime_number p" and dr: "int p - 1 = d * 2 ^ r" "0 < d" and a: "\<not> int p dvd a"
  shows "mr_round (int p) d r a"
proof -
  let ?x = "a ^ nat d"
  have "a ^ (p - 1) = ?x ^ 2 ^ r"
  proof -
    have "int (p - 1) = int (nat d * 2 ^ r)" using dr p by (simp add: is_prime_number_def of_nat_diff)
    then have "p - 1 = nat d * 2 ^ r" by (simp only: of_nat_eq_iff)
    then show ?thesis by (simp add: power_mult)
  qed
  then have "?x ^ 2 ^ r mod int p = 1" using fermat_coprime [OF p a] by simp
  from square_chain [OF p this] show ?thesis
  proof
    assume "\<exists>i < r. ?x ^ 2 ^ i mod int p = int p - 1"
    then obtain i where i: "i < r" "?x ^ 2 ^ i mod int p = int p - 1" by blast
    show ?thesis
    proof (cases i)
      case 0
      with i show ?thesis by (simp add: mr_round_def Let_def)
    next
      case (Suc j)
      then have "(?x mod int p) ^ 2 ^ Suc j mod int p = int p - 1" "j < r - 1" using i by (auto simp: power_mod)
      then show ?thesis by (auto simp: mr_round_def Let_def mr_squares_iff)
    qed
  qed (simp add: mr_round_def Let_def)
qed

lemma is_prime_accepts:
  assumes p: "is_prime_number p" and draws: "draws_ok draws (int p)"
  shows "is_prime draws (int p)"
proof (cases "trial_division small_primes (int p)")
  case (Some b)
  then obtain s where s: "s \<in> set small_primes" "int p mod s = 0" "b = (int p = s)"
    using trial_division_Some [of small_primes "int p" b] by auto
  have s1: "1 < s" using s(1) by (auto simp: small_primes_def)
  then have "int (nat s) dvd int p" using s(2) by (simp add: dvd_eq_mod_eq_0)
  then have "nat s dvd p" by (simp only: int_dvd_int_iff)
  then have "nat s = p" using p s1 by (auto simp: is_prime_number_def)
  with s(3) s1 have b: b by auto
  show ?thesis using Some b p by (simp add: is_prime_def is_prime_number_def)
next
  case None
  obtain d r where dr: "halve (int p - 1) 0 = (d, r)" by (cases "halve (int p - 1) 0")
  have "1 < p" using p by (simp add: is_prime_number_def)
  then have H: "int p - 1 = d * 2 ^ r" "0 < d" using halve_result [OF dr] by auto
  have "mr_round (int p) d r (x + 2)" if "x \<in> set draws" for x
  proof (rule mr_round_prime [OF p H])
    have "0 < x + 2" "x + 2 < int p" using that draws by (auto simp: draws_ok_def)
    then show "\<not> int p dvd x + 2" using zdvd_not_zless by blast
  qed
  with None dr \<open>1 < p\<close> show ?thesis by (simp add: is_prime_def list_all_iff)
qed

lemma prime_bounded: "is_prime_number p \<longleftrightarrow> 1 < p \<and> (\<forall>m \<in> set [2..<p]. \<not> m dvd p)"
proof
  assume "1 < p \<and> (\<forall>m \<in> set [2..<p]. \<not> m dvd p)"
  moreover have "m = 1 \<or> m \<in> set [2..<p] \<or> m = p" if "m dvd p" "1 < p" for m
    using dvd_imp_le [OF that(1)] that by (cases m) auto
  ultimately show "is_prime_number p" unfolding is_prime_number_def by blast
qed (auto simp: is_prime_number_def)

lemma small_primes_prime: "s \<in> set small_primes \<Longrightarrow> is_prime_number (nat s)"
proof -
  have "list_all (\<lambda>s. 1 < nat s \<and> (\<forall>m \<in> set [2..<nat s]. \<not> m dvd nat s)) small_primes" by code_simp
  then show "s \<in> set small_primes \<Longrightarrow> is_prime_number (nat s)" by (simp add: prime_bounded list_all_iff)
qed

lemma small_prime_factor: "m \<in> {2..40} \<Longrightarrow> \<exists>s \<in> set small_primes. s dvd int m"
proof -
  have "list_all (\<lambda>m. list_ex (\<lambda>s. int m mod s = 0) small_primes) [2..<41]" by code_simp
  moreover assume "m \<in> {2..40}"
  then have "m \<in> set [2..<41]" unfolding set_upt atLeastLessThan_iff atLeastAtMost_iff by linarith
  ultimately have "list_ex (\<lambda>s. int m mod s = 0) small_primes" by (simp only: list_all_iff)
  then show ?thesis by (simp add: list_ex_iff dvd_eq_mod_eq_0)
qed

lemma is_prime_small:
  assumes "is_prime draws n" "n < 1681"
  shows "is_prime_number (nat n)"
proof (cases "trial_division small_primes n")
  case (Some b)
  then obtain s where s: "s \<in> set small_primes" "b = (n = s)" using trial_division_Some [of small_primes n b] by auto
  have b using assms(1) Some by (simp add: is_prime_def split: if_splits)
  with s small_primes_prime show ?thesis by simp
next
  case None
  have n2: "2 \<le> n" using assms(1) by (simp add: is_prime_def split: if_splits)
  have "\<not> m dvd nat n" if "m \<in> {2..40}" for m
  proof
    assume "m dvd nat n"
    then have "int m dvd n" using n2 by (metis int_dvd_int_iff int_nat_eq dual_order.trans zero_le_numeral)
    moreover obtain s where "s \<in> set small_primes" "s dvd int m" using small_prime_factor [OF \<open>m \<in> {2..40}\<close>] by blast
    ultimately obtain s where "s \<in> set small_primes" "s dvd n" using dvd_trans by blast
    then show False using None by (simp add: trial_division_None dvd_eq_mod_eq_0)
  qed
  then have "\<forall>m \<in> {2..40}. \<not> m dvd nat n" by blast
  moreover have "1 < nat n" "nat n < (40 + 1) * (40 + 1)" using assms(2) n2 by auto
  ultimately show ?thesis using prime_by_trial by blast
qed

text \<open>A number with a small prime factor of its own is always rejected.\<close>

lemma is_prime_no_small_factor:
  assumes "is_prime draws n" "s \<in> set small_primes" "n mod s = 0"
  shows "is_prime_number (nat n)"
proof (cases "trial_division small_primes n")
  case (Some b)
  then obtain s' where s': "s' \<in> set small_primes" "b = (n = s')" using trial_division_Some [of small_primes n b] by auto
  have b using assms(1) Some by (simp add: is_prime_def split: if_splits)
  with s' small_primes_prime show ?thesis by simp
next
  case None
  with assms(2,3) show ?thesis by (simp add: trial_division_None)
qed

section \<open>Key generation\<close>

lemma gen_loop_Some:
  assumes "gen_loop bits src k = Some p"
  shows "\<exists>j \<ge> k. p = candidate bits src j \<and> is_prime (snd (src j)) p \<and>
    (\<forall>i. k \<le> i \<and> i < j \<longrightarrow> \<not> is_prime (snd (src i)) (candidate bits src i))"
proof (rule gen_loop.raw_induct [OF _ assms])
  fix f bits src k p
  assume IH: "\<And>bits src k p. f bits src k = Some p \<Longrightarrow> \<exists>j \<ge> k. p = candidate bits src j \<and> is_prime (snd (src j)) p \<and>
      (\<forall>i. k \<le> i \<and> i < j \<longrightarrow> \<not> is_prime (snd (src i)) (candidate bits src i))"
    and step: "(if is_prime (snd (src k)) (candidate bits src k) then Some (candidate bits src k) else f bits src (Suc k)) = Some p"
  show "\<exists>j \<ge> k. p = candidate bits src j \<and> is_prime (snd (src j)) p \<and>
    (\<forall>i. k \<le> i \<and> i < j \<longrightarrow> \<not> is_prime (snd (src i)) (candidate bits src i))"
  proof (cases "is_prime (snd (src k)) (candidate bits src k)")
    case True
    with step show ?thesis by (intro exI [of _ k]) auto
  next
    case False
    with step IH obtain j where "j \<ge> Suc k" "p = candidate bits src j" "is_prime (snd (src j)) p"
      "\<forall>i. Suc k \<le> i \<and> i < j \<longrightarrow> \<not> is_prime (snd (src i)) (candidate bits src i)" by (auto dest!: IH)
    with False show ?thesis by (intro exI [of _ j]) (metis Suc_leD le_antisym not_less_eq_eq)
  qed
qed

text \<open>The search returns as soon as some candidate is accepted.\<close>

lemma gen_loop_returns:
  assumes "is_prime (snd (src j)) (candidate bits src j)" "k \<le> j"
  shows "\<exists>p. gen_loop bits src k = Some p"
  using assms(2)
proof (induction "j - k" arbitrary: k)
  case 0
  then have "k = j" by simp
  with assms(1) show ?case by (simp add: gen_loop.simps [of bits src j])
next
  case (Suc m)
  then have "\<exists>p. gen_loop bits src (Suc k) = Some p" by (intro Suc.hyps(1)) auto
  then show ?case by (cases "is_prime (snd (src k)) (candidate bits src k)") (simp_all add: gen_loop.simps [of bits src k])
qed

lemma pow_inv_ok:
  assumes "0 < m" "coprime a m"
  shows "\<exists>x. pow_inv a m = Inr x \<and> 0 \<le> x \<and> x < m \<and> a * x mod m = 1 mod m"
proof -
  obtain g x y where e: "egcd (a mod m) m = (g, x, y)" by (cases "egcd (a mod m) m") auto
  then have g: "g = gcd (a mod m) m" "(a mod m) * x + m * y = g" using egcd_bezout [OF _ _ e] assms(1) by auto
  have "gcd (a mod m) m = gcd a m" by (metis gcd.commute gcd_red_int)
  then have "g = 1" using g(1) assms(2) by (simp add: coprime_iff_gcd_eq_1)
  moreover have "a * (x mod m) mod m = ((a mod m) * x + m * y) mod m" by (simp add: mod_mult_left_eq mod_mult_right_eq)
  ultimately show ?thesis using e g(2) assms(1) by (simp add: pow_inv_def)
qed

lemma pow_inv_error: "0 < m \<Longrightarrow> \<not> coprime a m \<Longrightarrow> pow_inv a m = Inl ValueError"
proof -
  assume m: "0 < m" "\<not> coprime a m"
  obtain g x y where e: "egcd (a mod m) m = (g, x, y)" by (cases "egcd (a mod m) m") auto
  then have "g = gcd (a mod m) m" using egcd_bezout [OF _ _ e] m(1) by auto
  moreover have "gcd (a mod m) m = gcd a m" by (metis gcd.commute gcd_red_int)
  ultimately show ?thesis using e m(2) by (simp add: pow_inv_def coprime_iff_gcd_eq_1)
qed

lemma prime_65537: "is_prime_number 65537"
proof (rule prime_by_trial [of _ 256])
  have all: "list_all (\<lambda>m. (65537 :: int) mod m \<noteq> 0) [2..256]" by code_simp
  show "\<forall>m \<in> {2..256}. \<not> m dvd (65537 :: nat)"
  proof (intro ballI notI)
    fix m :: nat
    assume m: "m \<in> {2..256}" "m dvd 65537"
    have "int m \<in> set [2..256]" unfolding set_upto atLeastAtMost_iff using m(1) by auto
    from bspec [OF all [unfolded list_all_iff] this] have "(65537 :: int) mod int m \<noteq> 0" .
    moreover have "int m dvd int 65537" using m(2) by (simp only: int_dvd_int_iff)
    ultimately show False by (simp only: dvd_eq_mod_eq_0 of_nat_numeral)
  qed
qed simp_all

text \<open>What a key must satisfy: the equations of RFC 8017, section 3.2.\<close>

definition rsa_key_ok :: "rsa_key \<Rightarrow> bool" where
  "rsa_key_ok k \<longleftrightarrow> (let p = k_p k; q = k_q k; phi = (p - 1) * (q - 1) in
     1 < p \<and> 1 < q \<and> is_prime_number (nat p) \<and> is_prime_number (nat q) \<and> p \<noteq> q \<and> k_n k = p * q \<and>
     k_e k = 65537 \<and> 0 < k_d k \<and> k_d k < phi \<and> k_e k * k_d k mod phi = 1 mod phi \<and>
     k_e k * k_dp k mod (p - 1) = 1 mod (p - 1) \<and> k_e k * k_dq k mod (q - 1) = 1 mod (q - 1) \<and>
     q * k_qinv k mod p = 1 \<and> 0 \<le> k_dp k \<and> k_dp k < p - 1 \<and> 0 \<le> k_dq k \<and> k_dq k < q - 1 \<and>
     0 \<le> k_qinv k \<and> k_qinv k < p)"

lemma rsa_params_ok:
  assumes "1 < p" "1 < q" "is_prime_number (nat p)" "is_prime_number (nat q)" "p \<noteq> q" "(p - 1) * (q - 1) mod 65537 \<noteq> 0"
  shows "\<exists>k. rsa_params p q = Inr k \<and> rsa_key_ok k \<and> k_p k = p \<and> k_q k = q"
proof -
  let ?phi = "(p - 1) * (q - 1)"
  have phi1: "1 < ?phi"
  proof (cases "q = 2")
    case True
    with assms(1,5) show ?thesis by simp
  next
    case False
    then have "1 * 2 \<le> (p - 1) * (q - 1)" using assms(1,2) by (intro mult_mono) auto
    then show ?thesis by simp
  qed
  have "\<not> int 65537 dvd ?phi" using assms(6) by (simp add: dvd_eq_mod_eq_0)
  from prime_coprime_int [OF prime_65537 this] have cop: "coprime 65537 ?phi" by simp
  obtain d where d: "pow_inv 65537 ?phi = Inr d" "0 \<le> d" "d < ?phi" "65537 * d mod ?phi = 1 mod ?phi"
    using pow_inv_ok [OF _ cop] phi1 by auto
  have "nat p \<noteq> nat q" using assms(1,2,5) by simp
  from distinct_primes_coprime [OF assms(3,4) this] have "coprime (int (nat p)) (int (nat q))" by (simp only: coprime_int_iff)
  then have "coprime q p" using assms(1,2) by (simp add: coprime_commute)
  then obtain x where x: "pow_inv q p = Inr x" "0 \<le> x" "x < p" "q * x mod p = 1" using pow_inv_ok [of p q] assms(1) by auto
  have "d \<noteq> 0" using d(4) phi1 by auto
  moreover have "65537 * (d mod m) mod m = 1 mod m" if "m dvd ?phi" for m
  proof -
    have "65537 * (d mod m) mod m = 65537 * d mod m" by (rule mod_mult_right_eq)
    also have "\<dots> = 65537 * d mod ?phi mod m" using that by (simp add: mod_mod_cancel)
    also have "\<dots> = 1 mod m" using that by (simp only: d(4)) (simp add: mod_mod_cancel)
    finally show ?thesis .
  qed
  ultimately show ?thesis using assms d x by (simp add: rsa_params_def rsa_key_ok_def Let_def)
qed

lemma candidate_range:
  assumes "0 < bits" "0 \<le> fst (src k)" "fst (src k) < 2 ^ bits"
  shows "2 ^ (bits - 1) \<le> candidate bits src k \<and> candidate bits src k < 2 ^ bits \<and> odd (candidate bits src k)"
proof -
  let ?x = "fst (src k)" and ?t = "push_bit (bits - 1) (1 :: int)"
  have t: "?t = 2 ^ (bits - 1)" by (simp add: push_bit_eq_mult)
  then have lt: "?t < 2 ^ bits" "(1 :: int) < 2 ^ bits" using assms(1) by (simp_all add: power_strict_increasing)
  have u: "?x OR ?t < 2 ^ bits" by (rule OR_upper) (use assms lt t in auto)
  have "0 \<le> ?x OR ?t" using assms(2) t by (simp add: or_nonnegative_int_iff)
  from OR_upper [OF this u lt(2)] have "(?x OR ?t) OR 1 < 2 ^ bits" .
  moreover have "?t \<le> ?x OR ?t" using assms(2) or_greater_eq [of ?x ?t] by (simp add: or.commute)
  moreover have "?x OR ?t \<le> (?x OR ?t) OR 1" by (rule or_greater_eq) simp
  moreover have "odd ((?x OR ?t) OR 1)" by (simp add: even_or_iff)
  ultimately show ?thesis using t by (simp add: candidate_def)
qed

text \<open>The pairs of primes the loop draws: \<open>drawn p q k\<close> means that turn \<open>k\<close> finds \<open>p\<close> and \<open>q\<close>.\<close>

definition drawn :: "nat \<Rightarrow> (nat \<Rightarrow> prime_source \<times> prime_source) \<Rightarrow> int \<Rightarrow> int \<Rightarrow> nat \<Rightarrow> bool" where
  "drawn bits src p q k \<longleftrightarrow> gen_loop (bits div 2) (fst (src k)) 0 = Some p \<and> gen_loop (bits div 2) (snd (src k)) 0 = Some q"

definition usable_pair :: "int \<Rightarrow> int \<Rightarrow> bool" where
  "usable_pair p q \<longleftrightarrow> p \<noteq> q \<and> (p - 1) * (q - 1) mod 65537 \<noteq> 0"

lemma rsa_loop_Some:
  assumes "rsa_loop bits src k = Some r"
  shows "\<exists>j p q. drawn bits src p q j \<and> usable_pair p q \<and> r = rsa_params p q"
proof (rule rsa_loop.raw_induct [OF _ assms])
  fix f bits src k r
  assume IH: "\<And>bits src k r. f bits src k = Some r \<Longrightarrow> \<exists>j p q. drawn bits src p q j \<and> usable_pair p q \<and> r = rsa_params p q"
    and step: "Option.bind (gen_loop (bits div 2) (fst (src k)) 0) (\<lambda>p.
     Option.bind (gen_loop (bits div 2) (snd (src k)) 0) (\<lambda>q.
       if p = q then f bits src (Suc k)
       else if (p - 1) * (q - 1) mod 65537 = 0 then f bits src (Suc k)
       else Some (rsa_params p q))) = Some r"
  obtain p q where pq: "drawn bits src p q k"
    and r: "(if p = q then f bits src (Suc k) else if (p - 1) * (q - 1) mod 65537 = 0 then f bits src (Suc k)
       else Some (rsa_params p q)) = Some r"
    using step unfolding drawn_def bind_eq_Some_conv by blast
  show "\<exists>j p q. drawn bits src p q j \<and> usable_pair p q \<and> r = rsa_params p q"
  proof (cases "usable_pair p q")
    case True
    with pq r show ?thesis by (auto simp: usable_pair_def)
  next
    case False
    with r have "f bits src (Suc k) = Some r" by (auto simp: usable_pair_def split: if_splits)
    then show ?thesis by (rule IH)
  qed
qed

lemma rsa_loop_returns:
  assumes "\<And>i. k \<le> i \<Longrightarrow> i \<le> j \<Longrightarrow> \<exists>p q. drawn bits src p q i" "drawn bits src p q j" "usable_pair p q" "k \<le> j"
  shows "\<exists>r. rsa_loop bits src k = Some r"
  using assms(1,4)
proof (induction "j - k" arbitrary: k)
  case 0
  then have "k = j" by simp
  with assms(2,3) show ?case by (simp add: rsa_loop.simps [of bits src j] drawn_def usable_pair_def)
next
  case (Suc m)
  have "\<exists>r. rsa_loop bits src (Suc k) = Some r" using Suc.hyps(2) Suc.prems by (intro Suc.hyps(1)) auto
  moreover obtain p' q' where "drawn bits src p' q' k" using Suc.prems by blast
  ultimately show ?case by (auto simp: rsa_loop.simps [of bits src k] drawn_def)
qed

section \<open>A source that ends the search\<close>

text \<open>The first candidates of both searches are the given numbers; the draws of the 20 rounds are all 0.\<close>

definition fixed_source :: "int \<Rightarrow> int \<Rightarrow> nat \<Rightarrow> prime_source \<times> prime_source" where
  "fixed_source p q k = (\<lambda>i. (p, replicate 20 0), \<lambda>i. (q, replicate 20 0))"

lemma candidate_self:
  assumes "0 < bits" "2 ^ (bits - 1) \<le> fst (src k)" "fst (src k) < 2 ^ bits" "odd (fst (src k))"
  shows "candidate bits src k = fst (src k)"
proof -
  let ?p = "fst (src k)" and ?b = "bits - 1"
  have "?p < 2 * 2 ^ ?b" using assms(1,3) by (metis Suc_diff_1 power_Suc)
  then have "?p div 2 ^ ?b = 1" using assms(2) by (intro int_div_pos_eq [of _ _ _ "?p - 2 ^ ?b"]) auto
  then have top: "bit ?p ?b" by (simp add: bit_iff_odd)
  have "?p OR push_bit ?b 1 = ?p"
  proof (rule bit_eqI)
    show "bit (?p OR push_bit ?b 1) n \<longleftrightarrow> bit ?p n" for n using top by (auto simp: bit_or_iff push_bit_eq_mult bit_exp_iff)
  qed
  then show ?thesis using assms(4) by (simp add: candidate_def or_one_eq)
qed

lemma generate_rsa_ends:
  assumes p: "is_prime_number p" "2 ^ 1023 < p" "p < 2 ^ 1024" "p mod 65537 \<noteq> 1"
    and q: "is_prime_number q" "2 ^ 1023 < q" "q < 2 ^ 1024" "q mod 65537 \<noteq> 1" and "p \<noteq> q"
  shows "candidate 1024 (fst (fixed_source (int p) (int q) k)) i = int p"
    and "candidate 1024 (snd (fixed_source (int p) (int q) k)) i = int q"
    and "generate_rsa 2048 (fixed_source (int p) (int q)) = Some (rsa_params (int p) (int q))"
    and "(int p - 1) * (int q - 1) mod 65537 \<noteq> 0"
proof -
  have odd: "2 ^ 1023 \<le> int r \<and> int r < 2 ^ 1024 \<and> odd (int r)" if "is_prime_number r" "2 ^ 1023 < r" "r < 2 ^ 1024" for r
  proof -
    have "int (2 ^ 1023) \<le> int r" "int r < int (2 ^ 1024)" using that(2,3) by (simp_all only: of_nat_le_iff of_nat_less_iff)
    moreover have "(2 :: nat) ^ 1 \<le> 2 ^ 1023" by (rule power_increasing) simp_all
    then have "2 < r" using that(2) by simp
    then have "\<not> 2 dvd r" using that(1) unfolding is_prime_number_def by (metis less_irrefl numeral_eq_one_iff semiring_norm(85))
    ultimately show ?thesis by simp
  qed
  have half: "1024 - 1 = (1023 :: nat)" "2048 div 2 = (1024 :: nat)" by simp_all
  show c: "candidate 1024 (fst (fixed_source (int p) (int q) k)) i = int p" "candidate 1024 (snd (fixed_source (int p) (int q) k)) i = int q" for k i
  proof -
    have "candidate 1024 (\<lambda>i. (int r, replicate 20 0)) i = int r" if "is_prime_number r" "2 ^ 1023 < r" "r < 2 ^ 1024" for r
      using candidate_self [of 1024 "\<lambda>i. (int r, replicate 20 0)" i, unfolded half fst_conv] odd [OF that] by (metis zero_less_numeral)
    with p(1-3) q(1-3) show "candidate 1024 (fst (fixed_source (int p) (int q) k)) i = int p"
      "candidate 1024 (snd (fixed_source (int p) (int q) k)) i = int q" by (simp_all only: fixed_source_def fst_conv snd_conv)
  qed
  have draws: "draws_ok (replicate 20 0) (int r)" if "2 ^ 1023 < r" for r
  proof -
    have "(2 :: nat) ^ 2 \<le> 2 ^ 1023" by (rule power_increasing) simp_all
    with that show ?thesis by (simp add: draws_ok_def)
  qed
  have acc: "is_prime (replicate 20 0) (int p)" "is_prime (replicate 20 0) (int q)"
    using is_prime_accepts [OF p(1) draws [OF p(2)]] is_prime_accepts [OF q(1) draws [OF q(2)]] by blast+
  have gen: "gen_loop 1024 (fst (fixed_source (int p) (int q) 0)) 0 = Some (int p)" "gen_loop 1024 (snd (fixed_source (int p) (int q) 0)) 0 = Some (int q)"
    using acc by (subst gen_loop.simps, simp only: c, simp only: fixed_source_def fst_conv snd_conv if_True)+
  have one: "1 < p" "1 < q" using p(1) q(1) by (simp_all add: is_prime_number_def)
  have unit: "\<not> int 65537 dvd int r - 1" if "r mod 65537 \<noteq> 1" for r
  proof
    assume "int 65537 dvd int r - 1"
    then have "int r mod int 65537 = 1 mod int 65537" by (simp only: mod_eq_dvd_iff)
    then have "int (r mod 65537) = int 1" by (simp add: zmod_int)
    with that show False by (simp only: of_nat_eq_iff)
  qed
  have "\<not> int 65537 dvd (int p - 1) * (int q - 1)" using prime_dvd_mult [OF prime_65537] unit [OF p(4)] unit [OF q(4)] by blast
  then show unit: "(int p - 1) * (int q - 1) mod 65537 \<noteq> 0" by (simp add: dvd_eq_mod_eq_0)
  with gen \<open>p \<noteq> q\<close> show "generate_rsa 2048 (fixed_source (int p) (int q)) = Some (rsa_params (int p) (int q))"
    by (simp add: generate_rsa_def half rsa_loop.simps [of 2048])
qed

text \<open>So there are random numbers with which \<^verbatim>\<open>generate_rsa(2048)\<close> returns a key.\<close>

lemma generate_rsa_possible:
  "\<exists>src k. (\<forall>j i. \<forall>s \<in> {fst (src j), snd (src j)}. 0 \<le> fst (s i) \<and> fst (s i) < 2 ^ 1024) \<and>
     (\<forall>j i. \<forall>s \<in> {fst (src j), snd (src j)}. is_prime (snd (s i)) (candidate 1024 s i) \<longrightarrow> is_prime_number (nat (candidate 1024 s i))) \<and>
     generate_rsa 2048 src = Some (Inr k) \<and> rsa_key_ok k"
proof -
  obtain p q where p: "is_prime_number p" "2 ^ 1023 < p" "p < 2 ^ 1024" "p mod 65537 \<noteq> 1"
    and q: "is_prime_number q" "2 ^ 1023 < q" "q < 2 ^ 1024" "q mod 65537 \<noteq> 1" and "p \<noteq> q"
    using usable_primes by blast
  note ends = generate_rsa_ends [OF p q \<open>p \<noteq> q\<close>]
  let ?src = "fixed_source (int p) (int q)"
  have r: "int p < 2 ^ 1024" "int q < 2 ^ 1024" using p(3) q(3) by (metis of_nat_less_iff of_nat_numeral of_nat_power)+
  have "\<forall>j i. \<forall>s \<in> {fst (?src j), snd (?src j)}. 0 \<le> fst (s i) \<and> fst (s i) < 2 ^ 1024"
    using r by (auto simp only: fixed_source_def fst_conv snd_conv of_nat_0_le_iff)
  moreover have "\<forall>j i. \<forall>s \<in> {fst (?src j), snd (?src j)}. is_prime (snd (s i)) (candidate 1024 s i) \<longrightarrow> is_prime_number (nat (candidate 1024 s i))"
    using p(1) q(1) ends(1,2) by (auto simp only: insert_iff empty_iff nat_int)
  moreover have "\<exists>k. rsa_params (int p) (int q) = Inr k \<and> rsa_key_ok k"
    using rsa_params_ok [of "int p" "int q"] ends(4) p(1) q(1) \<open>p \<noteq> q\<close> by (auto simp: is_prime_number_def)
  ultimately show ?thesis using ends(3) by metis
qed

section \<open>Properties\<close>

text \<open>C36. \<^verbatim>\<open>_is_prime\<close> never rejects a prime, whatever random bases are drawn; what it accepts has no prime factor up
  to 37 other than itself, and below 1681 it accepts exactly the primes.\<close>

theorem miller_rabin_correct:
  assumes "draws_ok draws n"
  shows "(is_prime_number (nat n) \<longrightarrow> is_prime draws n) \<and>
    (is_prime draws n \<and> \<not> is_prime_number (nat n) \<longrightarrow> 1681 \<le> n \<and> (\<forall>s \<in> set small_primes. n mod s \<noteq> 0))"
proof (intro conjI impI)
  assume p: "is_prime_number (nat n)"
  then have "0 \<le> n" by (auto simp: is_prime_number_def)
  with is_prime_accepts [OF p, of draws] assms show "is_prime draws n" by simp
next
  assume n: "is_prime draws n \<and> \<not> is_prime_number (nat n)"
  then show "1681 \<le> n" using is_prime_small [of draws n] by linarith
  show "\<forall>s \<in> set small_primes. n mod s \<noteq> 0"
  proof (intro ballI notI)
    fix s
    assume "s \<in> set small_primes" "n mod s = 0"
    from is_prime_no_small_factor [OF conjunct1 [OF n] this] n show False by simp
  qed
qed

lemma prime_41: "is_prime_number 41"
  unfolding prime_bounded by code_simp

theorem miller_rabin_correct_witness: "draws_ok [0, 5, 37] 41 \<and> is_prime [0, 5, 37] 41"
  using miller_rabin_correct [of "[0, 5, 37]" 41] prime_41 by (simp add: draws_ok_def)

lemma generate_rsa_ok:
  assumes range: "\<forall>k i. \<forall>s \<in> {fst (src k), snd (src k)}. 0 \<le> fst (s i) \<and> fst (s i) < 2 ^ (bits div 2)"
    and no_error: "\<forall>k i. \<forall>s \<in> {fst (src k), snd (src k)}. is_prime (snd (s i)) (candidate (bits div 2) s i) \<longrightarrow>
      is_prime_number (nat (candidate (bits div 2) s i))"
    and gen: "generate_rsa bits src = Some r"
  shows "bits < 2 \<and> r = Inl ValueError \<or>
      (\<exists>k. r = Inr k \<and> rsa_key_ok k \<and> (\<forall>x \<in> {k_p k, k_q k}. 2 ^ (bits div 2 - 1) \<le> x \<and> x < 2 ^ (bits div 2)))"
proof -
  have found: "2 ^ (bits div 2 - 1) \<le> x \<and> x < 2 ^ (bits div 2) \<and> is_prime_number (nat x)"
    if "gen_loop (bits div 2) s 0 = Some x" "s \<in> {fst (src k), snd (src k)}" "0 < bits div 2" for s x k
    using gen_loop_Some [OF that(1)] candidate_range [OF that(3), of s] range no_error that(2) by blast
  show ?thesis
  proof (cases "bits div 2 = 0")
    case True
    with gen show ?thesis by (auto simp: generate_rsa_def)
  next
    case False
    with gen obtain j p q where d: "drawn bits src p q j" "usable_pair p q" "r = rsa_params p q"
      using rsa_loop_Some [of bits src 0 r] by (auto simp: generate_rsa_def)
    have P: "2 ^ (bits div 2 - 1) \<le> p \<and> p < 2 ^ (bits div 2) \<and> is_prime_number (nat p)"
      and Q: "2 ^ (bits div 2 - 1) \<le> q \<and> q < 2 ^ (bits div 2) \<and> is_prime_number (nat q)"
      using found [of "fst (src j)" p j] found [of "snd (src j)" q j] d(1) False by (auto simp: drawn_def)
    then have "1 < p" "1 < q" by (auto simp: is_prime_number_def)
    then obtain k where "rsa_params p q = Inr k" "rsa_key_ok k" "k_p k = p" "k_q k = q"
      using rsa_params_ok [of p q] P Q d(2) by (auto simp: usable_pair_def)
    with d(3) P Q show ?thesis by auto
  qed
qed

text \<open>C35. \<^verbatim>\<open>generate_rsa\<close>: unless the primality test errs on a candidate, what it returns is a valid key of two primes of
  exactly \<^verbatim>\<open>bits // 2\<close> bits; \<^verbatim>\<open>pow(e, -1, phi)\<close> and \<^verbatim>\<open>pow(q, -1, p)\<close> never raise, and only \<^verbatim>\<open>bits < 2\<close> is an
  error. It returns as soon as a turn of the loop finds two different primes for which \<^verbatim>\<open>phi % e != 0\<close>.\<close>

theorem rsa_keys_valid:
  assumes range: "\<forall>k i. \<forall>s \<in> {fst (src k), snd (src k)}. 0 \<le> fst (s i) \<and> fst (s i) < 2 ^ (bits div 2)"
    and no_error: "\<forall>k i. \<forall>s \<in> {fst (src k), snd (src k)}. is_prime (snd (s i)) (candidate (bits div 2) s i) \<longrightarrow>
      is_prime_number (nat (candidate (bits div 2) s i))"
  shows "(\<forall>r. generate_rsa bits src = Some r \<longrightarrow> bits < 2 \<and> r = Inl ValueError \<or>
      (\<exists>k. r = Inr k \<and> rsa_key_ok k \<and> (\<forall>x \<in> {k_p k, k_q k}. 2 ^ (bits div 2 - 1) \<le> x \<and> x < 2 ^ (bits div 2)))) \<and>
    (\<forall>j p q. (\<forall>i \<le> j. \<exists>p q. drawn bits src p q i) \<and> drawn bits src p q j \<and> usable_pair p q \<longrightarrow>
      (\<exists>r. generate_rsa bits src = Some r))"
proof (intro conjI allI impI)
  show "generate_rsa bits src = Some r \<Longrightarrow> bits < 2 \<and> r = Inl ValueError \<or>
      (\<exists>k. r = Inr k \<and> rsa_key_ok k \<and> (\<forall>x \<in> {k_p k, k_q k}. 2 ^ (bits div 2 - 1) \<le> x \<and> x < 2 ^ (bits div 2)))" for r
    by (rule generate_rsa_ok [OF assms])
next
  fix j p q
  assume a: "(\<forall>i \<le> j. \<exists>p q. drawn bits src p q i) \<and> drawn bits src p q j \<and> usable_pair p q"
  then show "\<exists>r. generate_rsa bits src = Some r"
    using rsa_loop_returns [of 0 j bits src p q] by (auto simp: generate_rsa_def)
qed

text \<open>Two 4-bit primes, 11 and 13.\<close>

definition toy_source :: "nat \<Rightarrow> prime_source \<times> prime_source" where
  "toy_source k = (\<lambda>i. (11, [0]), \<lambda>i. (13, [0]))"

lemma toy_candidates:
  "candidate 4 (fst (toy_source k)) i = 11" "candidate 4 (snd (toy_source k)) i = 13" "is_prime [0] 11" "is_prime [0] 13"
proof -
  have "(11 OR push_bit 3 1) OR 1 = (11 :: int)" "(13 OR push_bit 3 1) OR 1 = (13 :: int)" by code_simp+
  then show "candidate 4 (fst (toy_source k)) i = 11" "candidate 4 (snd (toy_source k)) i = 13"
    by (simp_all add: candidate_def toy_source_def)
  show "is_prime [0] 11" "is_prime [0] 13" by (simp_all add: is_prime_def small_primes_def)
qed

lemma toy_primes: "is_prime_number 11" "is_prime_number 13"
  using small_primes_prime [of 11] small_primes_prime [of 13] by (simp_all add: small_primes_def)

theorem rsa_keys_valid_witness:
  "\<exists>k. generate_rsa 8 toy_source = Some (Inr k) \<and> rsa_key_ok k"
proof -
  have range: "\<forall>k i. \<forall>s \<in> {fst (toy_source k), snd (toy_source k)}. 0 \<le> fst (s i) \<and> fst (s i) < 2 ^ (8 div 2)"
    by (simp add: toy_source_def)
  have no_error: "\<forall>k i. \<forall>s \<in> {fst (toy_source k), snd (toy_source k)}. is_prime (snd (s i)) (candidate (8 div 2) s i) \<longrightarrow>
      is_prime_number (nat (candidate (8 div 2) s i))"
    using toy_candidates(1,2) toy_primes by simp
  note T = rsa_keys_valid [OF range no_error]
  have d: "drawn 8 toy_source 11 13 i" for i
  proof -
    have "gen_loop 4 (fst (toy_source i)) 0 = Some 11" "gen_loop 4 (snd (toy_source i)) 0 = Some 13"
      using toy_candidates by (subst gen_loop.simps, simp, simp add: toy_source_def)+
    then show ?thesis by (simp add: drawn_def)
  qed
  have u: "usable_pair 11 13" by (simp add: usable_pair_def)
  have "(\<forall>i \<le> 0. \<exists>p q. drawn 8 toy_source p q i) \<and> drawn 8 toy_source 11 13 0 \<and> usable_pair 11 13"
    using d u by metis
  from conjunct2 [OF T, rule_format, OF this] obtain r where "generate_rsa 8 toy_source = Some r" by (elim exE)
  moreover from conjunct1 [OF T, rule_format, OF this] obtain k where "r = Inr k" "rsa_key_ok k" by auto
  ultimately show ?thesis by blast
qed

end
