(* ===== verification/Der.thy ===== *)
theory Der
  imports Py_Bytes Rsa_Keygen
begin

unbundle bit_operations_syntax

text \<open>
  The DER encoder of \<^verbatim>\<open>tls_inspect.py\<close>, with a reader of the format (ITU-T X.690) as its specification. An encoder that
  can raise returns \<open>bytes res\<close>; the items of \<^verbatim>\<open>_seq\<close> and \<^verbatim>\<open>_set\<close> are results too, evaluated from left to
  right as the arguments of the Python calls are.
\<close>

section \<open>The encoder\<close>

fun bit_length :: "nat \<Rightarrow> nat" where
  "bit_length n = (if n = 0 then 0 else Suc (bit_length (n div 2)))"

declare bit_length.simps [simp del]

definition byte_length :: "int \<Rightarrow> nat" where
  "byte_length x = (bit_length (nat x) + 7) div 8"

text \<open>The first byte is exact as long as \<open>n\<close> has fewer than 256 bytes, that is for every list that fits a memory.\<close>

definition der_len :: "nat \<Rightarrow> bytes" where
  "der_len n = (if n < 0x80 then [of_nat n]
     else let b = to_be (byte_length (int n)) (int n) in (0x80 OR of_nat (length b)) # b)"

definition der :: "byte \<Rightarrow> bytes \<Rightarrow> bytes" where
  "der tag body = tag # der_len (length body) @ body"

text \<open>\<^verbatim>\<open>x.to_bytes(n, "big")\<close>.\<close>

definition to_bytes :: "int \<Rightarrow> nat \<Rightarrow> bytes res" where
  "to_bytes x n = (if 0 \<le> x \<and> x < 256 ^ n then Inr (to_be n x) else Inl OverflowError)"

definition der_int :: "int \<Rightarrow> bytes res" where
  "der_int x =
     rbind (if x = 0 then Inr [0]
            else rbind (to_bytes x (byte_length x)) (\<lambda>b. rbind (byte_at b 0) (\<lambda>b0.
              Inr (if b0 AND 0x80 \<noteq> 0 then 0 # b else b))))
       (\<lambda>b. Inr (der 0x02 b))"

definition der_wrap :: "byte \<Rightarrow> bytes res list \<Rightarrow> bytes res" where
  "der_wrap tag items = rbind (rmap id items) (\<lambda>bs. Inr (der tag (concat bs)))"

definition der_seq :: "bytes res list \<Rightarrow> bytes res" where
  "der_seq items = der_wrap 0x30 items"

definition der_set :: "bytes res list \<Rightarrow> bytes res" where
  "der_set items = der_wrap 0x31 items"

text \<open>
  \<^verbatim>\<open>_oid\<close>: the stack of base-128 digits of an arc, least significant first. The loop never ends for a negative
  arc, which \<^verbatim>\<open>p >>= 7\<close> does not bring to 0.
\<close>

function arc_stack :: "int \<Rightarrow> int list" where
  "arc_stack p = (if p \<le> 0 then [] else (p AND 0x7F) # arc_stack (drop_bit 7 p))"
  by pat_completeness auto

termination
proof (relation "measure nat", goal_cases)
  case (2 p)
  then have "p div 128 < p" by (simp add: int_div_less_self)
  with 2 show ?case by (simp add: drop_bit_eq_div nat_less_eq_zless)
qed simp

declare arc_stack.simps [simp del]

definition oid_arc :: "int \<Rightarrow> bytes res" where
  "oid_arc p =
     (if p < 0 then Inl Diverges
      else if p = 0 then Inr [0]
      else let stack = arc_stack p in
        Inr (map (\<lambda>(i, v). word_of_int (v OR (if i < length stack - 1 then 0x80 else 0))) (enumerate 0 (rev stack))))"

text \<open>\<^verbatim>\<open>bytes([x])\<close>.\<close>

definition byte_of :: "int \<Rightarrow> bytes res" where
  "byte_of x = (if 0 \<le> x \<and> x < 256 then Inr [word_of_int x] else Inl ValueError)"

definition der_oid :: "string \<Rightarrow> bytes res" where
  "der_oid dotted =
     rbind (rmap (py_int 10) (split_on CHR ''.'' dotted)) (\<lambda>parts.
     rbind (byte_at parts 0) (\<lambda>p0. rbind (byte_at parts 1) (\<lambda>p1.
     rbind (byte_of (p0 * 40 + p1)) (\<lambda>body.
     rbind (rmap oid_arc (drop 2 parts)) (\<lambda>arcs.
     Inr (der 0x06 (body @ concat arcs)))))))"

definition der_null :: bytes where
  "der_null = [0x05, 0x00]"

definition der_bitstr :: "bytes \<Rightarrow> bytes" where
  "der_bitstr b = der 0x03 (0 # b)"

definition der_utf8 :: "ustr \<Rightarrow> bytes res" where
  "der_utf8 s = rbind (utf8_encode s) (\<lambda>b. Inr (der 0x0C b))"

definition der_utctime :: "ustr \<Rightarrow> bytes res" where
  "der_utctime s = rbind (utf8_encode s) (\<lambda>b. Inr (der 0x17 b))"

section \<open>A reader of the format\<close>

text \<open>A length: the short form below 128 and above it the shortest of the long forms (X.690, 8.1.3 and 10.1).\<close>

definition read_len :: "bytes \<Rightarrow> (nat \<times> bytes) option" where
  "read_len bs = (case bs of [] \<Rightarrow> None | l # rest \<Rightarrow>
     if unat l < 128 then Some (unat l, rest)
     else let k = unat l - 128; n = nat (from_be (take k rest)) in
       if k = 0 \<or> k = 127 \<or> length rest < k \<or> hd rest = 0 \<or> n < 128 then None else Some (n, drop k rest))"

text \<open>One element: its tag, its contents and what follows it.\<close>

definition der_read :: "bytes \<Rightarrow> (byte \<times> bytes \<times> bytes) option" where
  "der_read bs = (case bs of [] \<Rightarrow> None | tag # rest \<Rightarrow>
     (case read_len rest of None \<Rightarrow> None | Some (n, rest) \<Rightarrow>
        if length rest < n then None else Some (tag, take n rest, drop n rest)))"

text \<open>An INTEGER is a two's complement number.\<close>

definition signed_be :: "bytes \<Rightarrow> int" where
  "signed_be b = (if b \<noteq> [] \<and> 128 \<le> unat (b ! 0) then from_be b - 256 ^ length b else from_be b)"

text \<open>The arcs of an OBJECT IDENTIFIER: a byte with its high bit set continues the arc.\<close>

fun read_arcs :: "int \<Rightarrow> bytes \<Rightarrow> int list" where
  "read_arcs acc [] = []"
| "read_arcs acc (b # bs) =
     (if 128 \<le> uint b then read_arcs (acc * 128 + (uint b - 128)) bs else (acc * 128 + uint b) # read_arcs 0 bs)"

section \<open>Lengths\<close>

lemma bit_length_0 [simp]: "bit_length 0 = 0"
  by (simp add: bit_length.simps [of 0])

lemma bit_length_bounds: "n < 2 ^ bit_length n \<and> (0 < n \<longrightarrow> 2 ^ (bit_length n - 1) \<le> n)"
proof (induction n rule: bit_length.induct)
  case (1 n)
  show ?case
  proof (cases "n = 0")
    case False
    have IH: "n div 2 < 2 ^ bit_length (n div 2)" "0 < n div 2 \<Longrightarrow> 2 ^ (bit_length (n div 2) - 1) \<le> n div 2" using 1 False by auto
    have "2 ^ bit_length (n div 2) \<le> n"
    proof (cases "n div 2 = 0")
      case False
      then have "bit_length (n div 2) \<noteq> 0" by (simp add: bit_length.simps [of "n div 2"])
      then have "(2::nat) ^ bit_length (n div 2) = 2 * 2 ^ (bit_length (n div 2) - 1)" by (metis power_eq_if)
      then show ?thesis using IH(2) False by linarith
    qed (use False in simp)
    then show ?thesis using IH(1) False by (simp add: bit_length.simps [of n])
  qed simp
qed

lemma bit_length_le: "n < 2 ^ k \<Longrightarrow> bit_length n \<le> k"
proof (rule ccontr)
  assume n: "n < 2 ^ k" "\<not> bit_length n \<le> k"
  then have "(2::nat) ^ k \<le> 2 ^ (bit_length n - 1)" by (intro power_increasing) auto
  moreover have "0 < n" using n(2) by (cases "n = 0") auto
  ultimately show False using bit_length_bounds [of n] n(1) by linarith
qed

lemma byte_length_bound: "0 \<le> x \<Longrightarrow> x < 256 ^ byte_length x"
proof -
  assume "0 \<le> x"
  have "int (nat x) < int (2 ^ bit_length (nat x))" using bit_length_bounds [of "nat x"] by (simp only: of_nat_less_iff)
  then have "x < 2 ^ bit_length (nat x)" using \<open>0 \<le> x\<close> by simp
  also have "\<dots> \<le> 2 ^ (8 * byte_length x)" unfolding byte_length_def by (intro power_increasing) linarith+
  finally show ?thesis by (simp add: power_mult)
qed

lemma byte_length_least: "0 < x \<Longrightarrow> 256 ^ (byte_length x - 1) \<le> x"
proof -
  assume x: "0 < x"
  have "8 * (byte_length x - 1) \<le> bit_length (nat x) - 1" unfolding byte_length_def by linarith
  then have "(2::nat) ^ (8 * (byte_length x - 1)) \<le> 2 ^ (bit_length (nat x) - 1)" by (intro power_increasing) auto
  also have "\<dots> \<le> nat x" using bit_length_bounds [of "nat x"] x by simp
  finally have "int (2 ^ (8 * (byte_length x - 1))) \<le> int (nat x)" by (simp only: of_nat_le_iff)
  then have "(2::int) ^ (8 * (byte_length x - 1)) \<le> x" using x by simp
  then show ?thesis by (simp add: power_mult)
qed

lemma byte_length_pos: "0 < x \<Longrightarrow> 0 < byte_length x"
  by (simp add: byte_length_def bit_length.simps [of "nat x"])

section \<open>Reading what was written\<close>

text \<open>Lists with fewer than \<open>256 ^ 126\<close> elements have a length that the encoding can state.\<close>

abbreviation sized :: "bytes \<Rightarrow> bool" where
  "sized bs \<equiv> length bs < 256 ^ 126"

lemma byte_length_sized: "0 \<le> x \<Longrightarrow> x < 256 ^ k \<Longrightarrow> byte_length x \<le> k"
proof -
  assume x: "0 \<le> x" "x < 256 ^ k"
  then have "nat x < 2 ^ (8 * k)" by (simp add: nat_less_iff power_mult)
  from bit_length_le [OF this] show ?thesis by (simp add: byte_length_def)
qed

lemma or_128: "0 \<le> k \<Longrightarrow> k < 128 \<Longrightarrow> k OR 128 = k + (128 :: int)"
proof -
  assume k: "0 \<le> k" "k < 128"
  have "list_all (\<lambda>k. k OR 128 = k + (128 :: int)) [0..127]" by code_simp
  moreover have "k \<in> set [0..127]" unfolding set_upto using k by simp
  ultimately show ?thesis unfolding list_all_iff by (rule bspec)
qed

lemma len_byte: "k < 128 \<Longrightarrow> unat (0x80 OR of_nat k :: byte) = 128 + k"
proof -
  assume k: "k < 128"
  then have "uint (of_nat k :: byte) = int k" by (simp add: uint_nat unat_of_nat)
  then have "uint (0x80 OR of_nat k :: byte) = int k OR 128" by (simp add: unsigned_or_eq or.commute)
  with k have "uint (0x80 OR of_nat k :: byte) = int (128 + k)" by (simp add: or_128)
  then show ?thesis by (simp add: unat_eq_nat_uint)
qed

lemma from_be_Cons: "from_be (b # bs) = uint b * 256 ^ length bs + from_be bs"
proof (induction bs rule: rev_induct)
  case (snoc c bs)
  have "from_be (b # bs @ [c]) = from_be (b # bs) * 256 + uint c" using from_be_snoc [of "b # bs" c] by simp
  with snoc show ?case by (simp add: algebra_simps)
qed (simp add: from_be_def)

lemma to_be_first: "0 < x \<Longrightarrow> \<exists>b bs. to_be (byte_length x) x = b # bs \<and> unat b \<noteq> 0"
proof -
  assume x: "0 < x"
  let ?k = "byte_length x"
  have k: "0 < ?k" and lt: "x < 256 ^ ?k" and ge: "256 ^ (?k - 1) \<le> x"
    using x byte_length_pos byte_length_bound byte_length_least by auto
  obtain b bs where b: "to_be ?k x = b # bs" using k by (metis length_0_conv length_to_be list.exhaust less_numeral_extra(3))
  then have len: "length bs = ?k - 1" by (metis length_to_be length_Cons diff_Suc_1)
  have "unat b \<noteq> 0"
  proof
    assume "unat b = 0"
    then have "from_be (to_be ?k x) = from_be bs" by (simp add: b from_be_Cons uint_nat)
    then have "x = from_be bs" using lt x by (simp add: from_be_to_be)
    with ge from_be_bounds [of bs] len show False by simp
  qed
  with b show ?thesis by blast
qed

lemma read_len_der_len: "n < 256 ^ 126 \<Longrightarrow> read_len (der_len n @ rest) = Some (n, rest)"
proof -
  assume n: "n < 256 ^ 126"
  show ?thesis
  proof (cases "n < 128")
    case True
    then have "unat (of_nat n :: byte) = n" by (simp add: unat_of_nat)
    with True show ?thesis by (simp add: der_len_def read_len_def)
  next
    case False
    let ?k = "byte_length (int n)"
    have "int n < 256 ^ 126" using n by (metis of_nat_less_iff of_nat_numeral of_nat_power)
    then have k: "?k < 127" "0 < ?k" using byte_length_sized [of "int n" 126] byte_length_pos [of "int n"] False by auto
    obtain b bs where "to_be ?k (int n) = b # bs" "unat b \<noteq> 0" using to_be_first [of "int n"] False by auto
    then have "hd (to_be ?k (int n) @ rest) \<noteq> 0" by (simp only: append_Cons list.sel) (metis unsigned_0)
    have "from_be (to_be ?k (int n)) = int n" using byte_length_bound [of "int n"] by (simp add: from_be_to_be)
    with False k \<open>hd (to_be ?k (int n) @ rest) \<noteq> 0\<close> show ?thesis by (simp add: der_len_def read_len_def len_byte Let_def)
  qed
qed

lemma der_read_der: "sized body \<Longrightarrow> der_read (der tag body @ rest) = Some (tag, body, rest)"
  by (simp add: der_read_def der_def read_len_der_len)

lemma and_128: "0 \<le> k \<Longrightarrow> k < 256 \<Longrightarrow> k AND 128 = (0 :: int) \<longleftrightarrow> k < 128"
proof -
  assume k: "0 \<le> k" "k < 256"
  have "list_all (\<lambda>k. (k AND 128 = (0 :: int)) = (k < 128)) [0..255]" by code_simp
  moreover have "k \<in> set [0..255]" unfolding set_upto using k by simp
  ultimately show ?thesis unfolding list_all_iff by (rule bspec)
qed

lemma high_bit: "(b :: byte) AND 0x80 \<noteq> 0 \<longleftrightarrow> 128 \<le> unat b"
proof -
  have "b AND 0x80 = 0 \<longleftrightarrow> uint (b AND 0x80) = 0" by (simp only: uint_0_iff)
  also have "\<dots> \<longleftrightarrow> uint b AND 128 = 0" by (simp add: unsigned_and_eq)
  also have "\<dots> \<longleftrightarrow> uint b < 128" using uint_lt2p [of b] by (intro and_128) auto
  also have "\<dots> \<longleftrightarrow> unat b < 128" by (simp only: unat_eq_nat_uint nat_less_iff [OF uint_ge_0] of_nat_numeral)
  finally show ?thesis by (simp only: not_less)
qed

text \<open>X.690, 8.3.2: the first nine bits of an INTEGER are neither all ones nor all zeros.\<close>

definition minimal_int :: "bytes \<Rightarrow> bool" where
  "minimal_int b \<longleftrightarrow> b \<noteq> [] \<and> (2 \<le> length b \<longrightarrow> \<not> (unat (b ! 0) = 0 \<and> unat (b ! 1) < 128) \<and> \<not> (unat (b ! 0) = 255 \<and> 128 \<le> unat (b ! 1)))"

lemma der_int_ok:
  assumes "0 \<le> x"
  shows "\<exists>b. der_int x = Inr (der 0x02 b) \<and> signed_be b = x \<and> minimal_int b \<and> length b \<le> Suc (byte_length x)"
proof (cases "x = 0")
  case True
  then show ?thesis by (intro exI [of _ "[0]"]) (simp add: der_int_def signed_be_def minimal_int_def from_be_def)
next
  case False
  let ?k = "byte_length x"
  let ?b = "to_be ?k x"
  have lt: "x < 256 ^ ?k" using assms byte_length_bound by auto
  have val: "from_be ?b = x" using lt assms by (simp add: from_be_to_be)
  obtain b0 bs where b: "?b = b0 # bs" and b0: "unat b0 \<noteq> 0" using to_be_first [of x] assms False by auto
  have "length ?b = ?k" by simp
  then have len: "Suc (length bs) = ?k" by (simp add: b)
  have int: "der_int x = Inr (der 0x02 (if 128 \<le> unat b0 then 0 # ?b else ?b))"
    using False assms lt by (simp add: der_int_def to_bytes_def byte_at_def b high_bit)
  show ?thesis
  proof (cases "128 \<le> unat b0")
    case True
    have "signed_be (0 # ?b) = x" using val by (simp add: signed_be_def from_be_Cons)
    with True int show ?thesis by (intro exI [of _ "0 # ?b"]) (simp add: minimal_int_def b len)
  next
    case False
    then have "signed_be ?b = x" using val by (simp add: signed_be_def b)
    with False int b0 len show ?thesis by (intro exI [of _ ?b]) (simp add: minimal_int_def b)
  qed
qed

lemma der_int_negative: "x < 0 \<Longrightarrow> der_int x = Inl OverflowError"
  by (simp add: der_int_def to_bytes_def)

section \<open>Object identifiers\<close>

lemma arc_stack_digits: "v \<in> set (arc_stack p) \<Longrightarrow> 0 \<le> v \<and> v < 128"
proof (induction p rule: arc_stack.induct)
  case (1 p)
  have "p AND 0x7F = p mod 128" using take_bit_eq_mask [of 7 p] by (simp add: take_bit_eq_mod mask_eq_exp_minus_1)
  with 1 show ?case by (auto simp: arc_stack.simps [of p] split: if_splits)
qed

lemma arc_stack_pos: "0 < p \<Longrightarrow> arc_stack p \<noteq> []"
  by (simp add: arc_stack.simps [of p])

text \<open>The value of a stack of digits, least significant first.\<close>

lemma arc_stack_value: "0 \<le> p \<Longrightarrow> foldr (\<lambda>v acc. acc * 128 + v) (arc_stack p) 0 = p"
proof (induction p rule: arc_stack.induct)
  case (1 p)
  have m: "p AND 0x7F = p mod 128" using take_bit_eq_mask [of 7 p] by (simp add: take_bit_eq_mod mask_eq_exp_minus_1)
  show ?case
  proof (cases "p \<le> 0")
    case False
    have "drop_bit 7 p = p div 128" by (simp add: drop_bit_eq_div)
    with 1 False m show ?thesis by (simp add: arc_stack.simps [of p])
  qed (use 1(2) in \<open>simp add: arc_stack.simps [of 0]\<close>)
qed

lemma read_arcs_high:
  assumes "\<forall>v \<in> set vs. 0 \<le> v \<and> v < 128"
  shows "read_arcs acc (map (\<lambda>v. word_of_int (v OR 0x80)) vs @ rest) = read_arcs (foldl (\<lambda>acc v. acc * 128 + v) acc vs) rest"
  using assms
proof (induction vs arbitrary: acc)
  case (Cons v vs)
  have "v OR 0x80 = v + 128" using Cons.prems by (simp add: or_128)
  then have "uint (word_of_int (v OR 0x80) :: byte) = v + 128"
    using Cons.prems by (simp add: uint_word_of_int del: of_int_add of_int_numeral)
  with Cons show ?case by simp
qed simp

lemma enumerate_last:
  "map (\<lambda>(i, v). f v (i < length (xs @ [y]) - 1)) (enumerate 0 (xs @ [y])) = map (\<lambda>v. f v True) xs @ [f y False]"
  by (rule nth_equalityI) (auto simp: nth_enumerate_eq nth_append)

lemma oid_arc_ok:
  assumes "0 \<le> p"
  shows "\<exists>b. oid_arc p = Inr b \<and> (\<forall>rest. read_arcs 0 (b @ rest) = p # read_arcs 0 rest)"
proof (cases "p = 0")
  case False
  then have "arc_stack p \<noteq> []" using arc_stack_pos assms by simp
  then obtain v vs where st: "arc_stack p = v # vs" by (cases "arc_stack p") auto
  have dig: "\<forall>u \<in> set (rev vs). 0 \<le> u \<and> u < 128" "0 \<le> v" "v < 128" using arc_stack_digits [of _ p] st by auto
  let ?b = "map (\<lambda>u. word_of_int (u OR 0x80)) (rev vs) @ [word_of_int v] :: bytes"
  have "oid_arc p = Inr ?b"
    using enumerate_last [of "\<lambda>u c. word_of_int (u OR (if c then 0x80 else 0)) :: byte" "rev vs" v] False assms
    by (simp add: oid_arc_def st)
  moreover have "read_arcs 0 (?b @ rest) = p # read_arcs 0 rest" for rest
  proof -
    have "uint (word_of_int v :: byte) = v" using dig by (simp add: uint_word_of_int)
    moreover have "foldl (\<lambda>acc v. acc * 128 + v) 0 (rev vs) * 128 + v = p"
      using arc_stack_value [OF assms] by (simp add: st foldr_conv_foldl)
    ultimately show ?thesis using read_arcs_high [OF dig(1), of 0 "word_of_int v # rest"] dig by simp
  qed
  ultimately show ?thesis by blast
qed (simp add: oid_arc_def)

lemma rmap_oid_arcs:
  assumes "\<forall>p \<in> set ps. 0 \<le> p"
  shows "\<exists>bs. rmap oid_arc ps = Inr bs \<and> (\<forall>rest. read_arcs 0 (concat bs @ rest) = ps @ read_arcs 0 rest)"
  using assms
proof (induction ps)
  case (Cons p ps)
  then obtain bs where bs: "rmap oid_arc ps = Inr bs" "\<forall>rest. read_arcs 0 (concat bs @ rest) = ps @ read_arcs 0 rest" by auto
  obtain b where b: "oid_arc p = Inr b" "\<forall>rest. read_arcs 0 (b @ rest) = p # read_arcs 0 rest"
    using oid_arc_ok [of p] Cons.prems by auto
  with bs show ?case by (intro exI [of _ "b # bs"]) simp
qed simp

lemma parse_dotted: "ps \<noteq> [] \<Longrightarrow> rmap (py_int 10) (split_on CHR ''.'' (join_with ''.'' (map py_str ps))) = Inr ps"
proof -
  assume "ps \<noteq> []"
  then have "split_on CHR ''.'' (join_with ''.'' (map py_str ps)) = map py_str ps"
    using split_on_join [of "map py_str ps" "CHR ''.''"] py_str_no_sep by auto
  moreover have "rmap (py_int 10) (map py_str ps) = Inr ps" by (induction ps) auto
  ultimately show ?thesis by simp
qed

lemma der_oid_ok:
  assumes "0 \<le> p0 * 40 + p1" "p0 * 40 + p1 < 128" "\<forall>p \<in> set ps. 0 \<le> p"
  shows "\<exists>b. der_oid (join_with ''.'' (map py_str (p0 # p1 # ps))) = Inr (der 0x06 b) \<and> read_arcs 0 b = (p0 * 40 + p1) # ps"
proof -
  obtain bs where bs: "rmap oid_arc ps = Inr bs" "\<forall>rest. read_arcs 0 (concat bs @ rest) = ps @ read_arcs 0 rest"
    using rmap_oid_arcs [OF assms(3)] by blast
  let ?b = "word_of_int (p0 * 40 + p1) # concat bs :: bytes"
  have "der_oid (join_with ''.'' (map py_str (p0 # p1 # ps))) = Inr (der 0x06 ?b)"
    using assms(1,2) bs(1) unfolding der_oid_def parse_dotted [of "p0 # p1 # ps", OF list.distinct(2)]
    by (simp add: byte_at_def byte_of_def del: of_int_add of_int_mult)
  moreover have "uint (word_of_int (p0 * 40 + p1) :: byte) = p0 * 40 + p1"
    using assms(1,2) by (simp add: uint_word_of_int del: of_int_add of_int_mult)
  then have "read_arcs 0 ?b = (p0 * 40 + p1) # ps" using bs(2) [rule_format, of "[]"] assms(2) by (simp del: of_int_add of_int_mult)
  ultimately show ?thesis by blast
qed

text \<open>
  A whole OBJECT IDENTIFIER (X.690, 8.19.4): the first number holds the first two arcs, the first of them 0, 1 or 2 and the second below 40
  after 0 and 1. The encoder writes that number in one byte, which is right below 128.
\<close>

definition read_oid :: "bytes \<Rightarrow> int list" where
  "read_oid b = (case read_arcs 0 b of [] \<Rightarrow> []
     | v # ps \<Rightarrow> if v < 40 then 0 # v # ps else if v < 80 then 1 # (v - 40) # ps else 2 # (v - 80) # ps)"

definition one_byte_arcs :: "int \<Rightarrow> int \<Rightarrow> bool" where
  "one_byte_arcs p0 p1 \<longleftrightarrow> 0 \<le> p1 \<and> ((p0 = 0 \<or> p0 = 1) \<and> p1 < 40 \<or> p0 = 2 \<and> p1 < 48)"

lemma der_oid_read:
  assumes "one_byte_arcs p0 p1" "\<forall>p \<in> set ps. 0 \<le> p"
  shows "\<exists>b. der_oid (join_with ''.'' (map py_str (p0 # p1 # ps))) = Inr (der 0x06 b) \<and> read_oid b = p0 # p1 # ps"
proof -
  have "0 \<le> p0 * 40 + p1" "p0 * 40 + p1 < 128" using assms(1) by (auto simp: one_byte_arcs_def)
  from der_oid_ok [OF this assms(2)] assms(1) show ?thesis by (auto simp: read_oid_def one_byte_arcs_def)
qed

text \<open>Beyond that the encoder fails: \<^verbatim>\<open>2.48\<close> is written as a byte that announces another one, and from \<^verbatim>\<open>2.176\<close> on it raises \<^verbatim>\<open>ValueError\<close>.\<close>

lemma wide_first_arc: "der_oid ''2.48'' = Inr (der 0x06 [0x80])" "read_oid [0x80] = []" "der_oid ''2.999.3'' = Inl ValueError"
  by code_simp+

section \<open>Properties\<close>

text \<open>C37. The DER encoders are inverted by a reader of the format. An element of less than \<open>256 ^ 126\<close> bytes is read back with its tag and
  contents, whatever follows it; a nonnegative INTEGER is read back and minimally encoded, a negative one raises \<^verbatim>\<open>OverflowError\<close>; an
  OBJECT IDENTIFIER whose first two arcs fit one byte (\<^verbatim>\<open>0.0\<close> to \<^verbatim>\<open>2.47\<close>) is read back arc by arc.\<close>

theorem der_round_trip:
  shows "(sized body \<longrightarrow> der_read (der tag body @ rest) = Some (tag, body, rest)) \<and>
    (if x < 0 then der_int x = Inl OverflowError
     else \<exists>b. der_int x = Inr (der 0x02 b) \<and> signed_be b = x \<and> minimal_int b) \<and>
    (one_byte_arcs p0 p1 \<and> (\<forall>p \<in> set ps. 0 \<le> p) \<longrightarrow>
      (\<exists>b. der_oid (join_with ''.'' (map py_str (p0 # p1 # ps))) = Inr (der 0x06 b) \<and> read_oid b = p0 # p1 # ps))"
  using der_read_der [of body tag rest] der_int_negative [of x] der_int_ok [of x] der_oid_read [of p0 p1 ps] by (auto simp: not_less)

theorem der_round_trip_witness:
  "der_read (der 0x04 [1, 2] @ [7]) = Some (0x04, [1, 2], [7]) \<and>
   (\<exists>b. der_int 128 = Inr (der 0x02 b) \<and> signed_be b = 128) \<and>
   (\<exists>b. der_oid (join_with ''.'' (map py_str [1, 2, 840])) = Inr (der 0x06 b) \<and> read_oid b = [1, 2, 840])"
proof -
  note T = der_round_trip [of "[1, 2]" "0x04" "[7]" 128 1 2 "[840]"]
  have "sized [1, 2]" by simp
  with T have "der_read (der 0x04 [1, 2] @ [7]) = Some (0x04, [1, 2], [7])" by blast
  moreover have "\<exists>b. der_int 128 = Inr (der 0x02 b) \<and> signed_be b = 128" using T by auto
  moreover have "\<exists>b. der_oid (join_with ''.'' (map py_str [1, 2, 840])) = Inr (der 0x06 b) \<and> read_oid b = [1, 2, 840]"
    using T by (simp add: one_byte_arcs_def)
  ultimately show ?thesis by blast
qed

end
