(* ===== verification/X509.thy ===== *)
theory X509
  imports Der Calendar
begin

text \<open>
  Keys, signatures and the self-signed certificate of \<^verbatim>\<open>tls_inspect.py\<close>. SHA-256 is a parameter, and so are
  the random serial number and the two readings of the clock. The specification is a strict verifier after RFC 5280 and RFC 8017: it
  takes the certificate apart with the DER reader, field by field with nothing left over, compares version and algorithms, and checks the
  signature with the public key inside.
\<close>

section \<open>The encoded structures\<close>

definition OID_RSA :: string where "OID_RSA = ''1.2.840.113549.1.1.1''"
definition OID_SHA256RSA :: string where "OID_SHA256RSA = ''1.2.840.113549.1.1.11''"
definition OID_SHA256 :: string where "OID_SHA256 = ''2.16.840.1.101.3.4.2.1''"
definition OID_CN :: string where "OID_CN = ''2.5.4.3''"
definition OID_O :: string where "OID_O = ''2.5.4.10''"
definition OID_SAN :: string where "OID_SAN = ''2.5.29.17''"

definition spki :: "rsa_key \<Rightarrow> bytes res" where
  "spki k =
     rbind (der_seq [der_int (k_n k), der_int (k_e k)]) (\<lambda>pubkey.
     der_seq [der_seq [der_oid OID_RSA, Inr der_null], Inr (der_bitstr pubkey)])"

definition x_name :: "ustr \<Rightarrow> ustr \<Rightarrow> bytes res" where
  "x_name cn o' = der_seq [der_set [der_seq [der_oid OID_CN, der_utf8 cn]], der_set [der_seq [der_oid OID_O, der_utf8 o']]]"

definition pkcs8_private_key :: "rsa_key \<Rightarrow> bytes res" where
  "pkcs8_private_key k =
     rbind (der_seq [der_int 0, der_int (k_n k), der_int (k_e k), der_int (k_d k), der_int (k_p k), der_int (k_q k),
                     der_int (k_dp k), der_int (k_dq k), der_int (k_qinv k)]) (\<lambda>rsa_priv.
     der_seq [der_int 0, der_seq [der_oid OID_RSA, Inr der_null], Inr (der 0x04 rsa_priv)])"

text \<open>A negative repetition count gives the empty padding, as subtraction on \<open>nat\<close> does. \<^verbatim>\<open>pow\<close> raises for modulus 0.\<close>

definition rsa_sign_sha256 :: "(bytes \<Rightarrow> bytes) \<Rightarrow> rsa_key \<Rightarrow> bytes \<Rightarrow> bytes res" where
  "rsa_sign_sha256 sha256 k message =
     (let h = sha256 message; emlen = byte_length (k_n k) in
      rbind (der_seq [der_seq [der_oid OID_SHA256, Inr der_null], Inr (der 0x04 h)]) (\<lambda>digest_info.
      let ps = replicate (emlen - length digest_info - 3) 0xFF;
          em = [0x00, 0x01] @ ps @ [0x00] @ digest_info
      in if k_n k = 0 then Inl ValueError
         else to_bytes (from_be em ^ nat (k_d k) mod k_n k) emlen))"

definition make_self_signed_cert ::
  "(bytes \<Rightarrow> bytes) \<Rightarrow> int \<Rightarrow> rat \<Rightarrow> rat \<Rightarrow> rsa_key \<Rightarrow> ustr \<Rightarrow> ustr \<Rightarrow> int \<Rightarrow> bytes res" where
  "make_self_signed_cert sha256 randbits time0 time1 k cn org days =
     (let serial = randbits OR 1 in
      rbind (gmtime (time0 - 60)) (\<lambda>tm0. let not_before = ustr_of (strftime_utc tm0) in
      rbind (gmtime (time1 + of_int days * 86400)) (\<lambda>tm1. let not_after = ustr_of (strftime_utc tm1) in
      rbind (der_seq [der_oid OID_SHA256RSA, Inr der_null]) (\<lambda>sig_alg.
      let san = der 0x30 (der 0x82 (map of_nat (ustr_of ''localhost'')) @ der 0x87 [127, 0, 0, 1]) in
      rbind (der_seq [der_seq [der_oid OID_SAN, Inr (der 0x04 san)]]) (\<lambda>exts.
      let extensions = der 0xA3 exts in
      rbind (der_seq [
          rbind (der_int 2) (\<lambda>v. Inr (der 0xA0 v)),
          der_int serial,
          Inr sig_alg,
          x_name cn org,
          der_seq [der_utctime not_before, der_utctime not_after],
          x_name cn org,
          spki k,
          Inr extensions]) (\<lambda>tbs.
      rbind (rsa_sign_sha256 sha256 k tbs) (\<lambda>signature.
      der_seq [Inr tbs, Inr sig_alg, Inr (der_bitstr signature)])))))))"

section \<open>Signatures: the specification\<close>

text \<open>EMSA-PKCS1-v1_5 (RFC 8017, 9.2): the \<open>DigestInfo\<close> of SHA-256 is this prefix followed by the hash. The padding has at least eight
  bytes, so a modulus shorter than \<open>51 + 11\<close> bytes is refused.\<close>

definition sha256_prefix :: bytes where
  "sha256_prefix = [0x30, 0x31, 0x30, 0x0D, 0x06, 0x09, 0x60, 0x86, 0x48, 0x01, 0x65, 0x03, 0x04, 0x02, 0x01, 0x05, 0x00, 0x04, 0x20]"

definition emsa_pkcs1 :: "bytes \<Rightarrow> nat \<Rightarrow> bytes" where
  "emsa_pkcs1 h emlen = [0x00, 0x01] @ replicate (emlen - 54) 0xFF @ [0x00] @ sha256_prefix @ h"

definition rsa_verify :: "int \<Rightarrow> int \<Rightarrow> bytes \<Rightarrow> bytes \<Rightarrow> bool" where
  "rsa_verify n e h sig \<longleftrightarrow> 62 \<le> byte_length n \<and> length sig = byte_length n \<and> from_be sig < n \<and>
     to_be (byte_length n) (from_be sig ^ nat e mod n) = emsa_pkcs1 h (byte_length n)"

lemma oid_bytes:
  "der_oid OID_SHA256 = Inr [0x06, 0x09, 0x60, 0x86, 0x48, 0x01, 0x65, 0x03, 0x04, 0x02, 0x01]"
  "der_oid OID_RSA = Inr [0x06, 0x09, 0x2A, 0x86, 0x48, 0x86, 0xF7, 0x0D, 0x01, 0x01, 0x01]"
  "der_oid OID_SHA256RSA = Inr [0x06, 0x09, 0x2A, 0x86, 0x48, 0x86, 0xF7, 0x0D, 0x01, 0x01, 0x0B]"
  "der_oid OID_CN = Inr [0x06, 0x03, 0x55, 0x04, 0x03]"
  "der_oid OID_O = Inr [0x06, 0x03, 0x55, 0x04, 0x0A]"
  "der_oid OID_SAN = Inr [0x06, 0x03, 0x55, 0x1D, 0x11]"
  by code_simp+

text \<open>The contents of the identifiers, and what a reader finds in them.\<close>

lemma oid_der:
  "der_oid OID_RSA = Inr (der 0x06 [0x2A, 0x86, 0x48, 0x86, 0xF7, 0x0D, 0x01, 0x01, 0x01])"
  "der_oid OID_SHA256RSA = Inr (der 0x06 [0x2A, 0x86, 0x48, 0x86, 0xF7, 0x0D, 0x01, 0x01, 0x0B])"
  "der_oid OID_CN = Inr (der 0x06 [0x55, 0x04, 0x03])"
  "der_oid OID_O = Inr (der 0x06 [0x55, 0x04, 0x0A])"
  "der_oid OID_SAN = Inr (der 0x06 [0x55, 0x1D, 0x11])"
  "der_null = der 0x05 []"
  by code_simp+

lemma oid_read:
  "read_oid [0x2A, 0x86, 0x48, 0x86, 0xF7, 0x0D, 0x01, 0x01, 0x01] = [1, 2, 840, 113549, 1, 1, 1]"
  "read_oid [0x2A, 0x86, 0x48, 0x86, 0xF7, 0x0D, 0x01, 0x01, 0x0B] = [1, 2, 840, 113549, 1, 1, 11]"
  "read_oid [0x55, 0x04, 0x03] = [2, 5, 4, 3]"
  "read_oid [0x55, 0x04, 0x0A] = [2, 5, 4, 10]"
  "read_oid [0x55, 0x1D, 0x11] = [2, 5, 29, 17]"
  by code_simp+

lemma der_short: "length body < 128 \<Longrightarrow> der tag body = tag # of_nat (length body) # body"
  by (simp add: der_def der_len_def)

lemma digest_info_bytes:
  "length h = 32 \<Longrightarrow> der_seq [der_seq [der_oid OID_SHA256, Inr der_null], Inr (der 0x04 h)] = Inr (sha256_prefix @ h)"
  by (simp add: der_seq_def der_wrap_def oid_bytes der_null_def der_short sha256_prefix_def)

lemma rsa_key_power:
  assumes "rsa_key_ok k"
  shows "((x::int) ^ nat (k_d k)) ^ nat (k_e k) mod k_n k = x mod k_n k"
proof -
  let ?p = "nat (k_p k)" and ?q = "nat (k_q k)"
  have K: "1 < k_p k" "1 < k_q k" "is_prime_number ?p" "is_prime_number ?q" "k_p k \<noteq> k_q k" "k_n k = k_p k * k_q k"
      "k_e k = 65537" "0 < k_d k" "k_e k * k_d k mod ((k_p k - 1) * (k_q k - 1)) = 1 mod ((k_p k - 1) * (k_q k - 1))"
    using assms unfolding rsa_key_ok_def Let_def by blast+
  have phi: "int ((?p - 1) * (?q - 1)) = (k_p k - 1) * (k_q k - 1)" using K(1,2) by (simp add: of_nat_diff)
  have "int (nat (k_d k) * nat (k_e k) mod ((?p - 1) * (?q - 1))) = int (1 mod ((?p - 1) * (?q - 1)))"
    unfolding zmod_int phi using K(7-9) by (simp add: mult.commute)
  then have m: "nat (k_d k) * nat (k_e k) mod ((?p - 1) * (?q - 1)) = 1 mod ((?p - 1) * (?q - 1))" by (simp only: of_nat_eq_iff)
  have ne: "?p \<noteq> ?q" using K(1,2,5) by simp
  have pos: "0 < nat (k_d k) * nat (k_e k)" using K(7,8) by simp
  have "int ?p * int ?q = k_n k" using K(1,2,6) by simp
  with rsa_power [OF K(3,4) ne m pos, of x] show ?thesis by (simp only: power_mult)
qed

lemma rsa_sign_ok:
  assumes "rsa_key_ok k" "length (sha256 m) = 32" "62 \<le> byte_length (k_n k)"
  shows "\<exists>sig. rsa_sign_sha256 sha256 k m = Inr sig \<and> rsa_verify (k_n k) (k_e k) (sha256 m) sig"
proof -
  let ?h = "sha256 m" and ?l = "byte_length (k_n k)"
  let ?em = "emsa_pkcs1 ?h ?l"
  let ?x = "from_be ?em ^ nat (k_d k) mod k_n k"
  have n0: "0 < k_n k" using assms(1) by (auto simp: rsa_key_ok_def Let_def)
  have len: "length ?em = ?l" using assms(2,3) by (simp add: emsa_pkcs1_def sha256_prefix_def)
  have em: "0 \<le> from_be ?em" "from_be ?em < k_n k"
  proof -
    obtain r where r: "?em = 0 # 1 # r" by (simp add: emsa_pkcs1_def)
    then have lr: "length r = ?l - 2" using len by simp
    have "from_be ?em = 256 ^ length r + from_be r" by (simp add: r from_be_Cons)
    also have "\<dots> < 2 * 256 ^ (?l - 2)" using from_be_bounds [of r] lr by simp
    also have "\<dots> \<le> 256 ^ Suc (?l - 2)" by simp
    also have "Suc (?l - 2) = ?l - 1" using assms(3) by simp
    also have "256 ^ (?l - 1) \<le> k_n k" using byte_length_least [OF n0] .
    finally show "from_be ?em < k_n k" .
    show "0 \<le> from_be ?em" using from_be_bounds by blast
  qed
  have x: "0 \<le> ?x" "?x < k_n k" using n0 by simp_all
  moreover have "k_n k < 256 ^ ?l" using byte_length_bound n0 by simp
  ultimately have fits: "?x < 256 ^ ?l" by linarith
  have sign: "rsa_sign_sha256 sha256 k m = Inr (to_be ?l ?x)"
    using n0 x fits assms(2) by (simp add: rsa_sign_sha256_def digest_info_bytes to_bytes_def emsa_pkcs1_def sha256_prefix_def Let_def)
  have val: "from_be (to_be ?l ?x) = ?x" using x fits by (simp add: from_be_to_be)
  have "?x ^ nat (k_e k) mod k_n k = from_be ?em"
    using rsa_key_power [OF assms(1), of "from_be ?em"] em by (simp add: power_mod)
  then have "to_be ?l (?x ^ nat (k_e k) mod k_n k) = ?em" using to_be_from_be [of ?em] len by simp
  with sign val x assms(3) show ?thesis by (simp add: rsa_verify_def)
qed

section \<open>Certificates: the specification\<close>

text \<open>All elements of a string of bytes, with nothing left over.\<close>

lemma read_len_shorter: "read_len bs = Some (n, rest) \<Longrightarrow> length rest < length bs"
  by (auto simp: read_len_def Let_def split: list.splits if_splits)

lemma der_read_shorter: "der_read bs = Some (t, body, rest) \<Longrightarrow> length rest < length bs"
  by (fastforce simp: der_read_def dest: read_len_shorter split: list.splits option.splits if_splits)

function elems :: "bytes \<Rightarrow> (byte \<times> bytes) list option" where
  "elems bs = (if bs = [] then Some []
     else case der_read bs of None \<Rightarrow> None | Some (t, body, rest) \<Rightarrow> map_option (Cons (t, body)) (elems rest))"
  by pat_completeness auto

termination
  by (relation "measure length") (auto dest: der_read_shorter)

declare elems.simps [simp del]

text \<open>Elements with exactly these tags, and any number of elements with one tag.\<close>

definition tagged :: "byte list \<Rightarrow> bytes \<Rightarrow> bytes list option" where
  "tagged tags bs = (case elems bs of None \<Rightarrow> None | Some es \<Rightarrow> if map fst es = tags then Some (map snd es) else None)"

definition parts :: "byte \<Rightarrow> bytes \<Rightarrow> bytes list option" where
  "parts tag bs = (case elems bs of None \<Rightarrow> None | Some es \<Rightarrow> if list_all (\<lambda>e. fst e = tag) es then Some (map snd es) else None)"

text \<open>The pieces of a certificate, after RFC 5280: a minimal INTEGER, a BIT STRING without unused bits, an algorithm with NULL parameters.\<close>

definition read_int :: "bytes \<Rightarrow> int option" where
  "read_int b = (if minimal_int b then Some (signed_be b) else None)"

definition bit_string :: "bytes \<Rightarrow> bytes option" where
  "bit_string b = (case b of [] \<Rightarrow> None | unused # bits \<Rightarrow> if unused = 0 then Some bits else None)"

definition alg_is :: "int list \<Rightarrow> bytes \<Rightarrow> bool" where
  "alg_is oid alg \<longleftrightarrow> (case tagged [0x06, 0x05] alg of Some [o', null] \<Rightarrow> read_oid o' = oid \<and> null = [] | _ \<Rightarrow> False)"

text \<open>A name: relative names of one attribute each, with values of 1 to 64 characters (the bounds of \<open>commonName\<close> and
  \<open>organizationName\<close> in appendix A).\<close>

definition read_attribute :: "bytes \<Rightarrow> (int list \<times> ustr) option" where
  "read_attribute rdn = (case tagged [0x30] rdn of Some [a] \<Rightarrow>
     (case tagged [0x06, 0x0C] a of Some [oid, v] \<Rightarrow>
        (case utf8_decode v of Some s \<Rightarrow> if 1 \<le> length s \<and> length s \<le> 64 then Some (read_oid oid, s) else None | None \<Rightarrow> None)
      | _ \<Rightarrow> None) | _ \<Rightarrow> None)"

definition read_rdns :: "bytes \<Rightarrow> (int list \<times> ustr) list option" where
  "read_rdns nm = (case parts 0x31 nm of None \<Rightarrow> None | Some rdns \<Rightarrow> those (map read_attribute rdns))"

text \<open>The modulus and the exponent of a \<open>SubjectPublicKeyInfo\<close> with an RSA key.\<close>

definition spki_key :: "bytes \<Rightarrow> (int \<times> int) option" where
  "spki_key info = (case tagged [0x30, 0x03] info of Some [alg, b] \<Rightarrow>
     if alg_is [1, 2, 840, 113549, 1, 1, 1] alg then
       (case Option.bind (bit_string b) (tagged [0x30]) of Some [key] \<Rightarrow>
          (case tagged [0x02, 0x02] key of Some [n, e] \<Rightarrow>
             (case (read_int n, read_int e) of (Some n, Some e) \<Rightarrow> if 0 < n \<and> 0 < e then Some (n, e) else None | _ \<Rightarrow> None)
           | _ \<Rightarrow> None) | _ \<Rightarrow> None)
     else None | _ \<Rightarrow> None)"

text \<open>The subject alternative names. The reader knows no critical extension and refuses a certificate that has one, or one extension twice.\<close>

definition read_ext :: "bytes \<Rightarrow> (int list \<times> bytes) option" where
  "read_ext e = (case tagged [0x06, 0x04] e of Some [oid, v] \<Rightarrow> Some (read_oid oid, v) | _ \<Rightarrow> None)"

definition general_name :: "byte \<times> bytes \<Rightarrow> bool" where
  "general_name = (\<lambda>(t, b). t = 0x82 \<and> b \<noteq> [] \<and> list_all (\<lambda>c. c < 128) b \<or> t = 0x87 \<and> (length b = 4 \<or> length b = 16))"

definition read_names :: "bytes \<Rightarrow> (byte \<times> bytes) list option" where
  "read_names exts = (case tagged [0x30] exts of Some [es] \<Rightarrow>
     (case Option.bind (parts 0x30 es) (\<lambda>es. those (map read_ext es)) of Some xs \<Rightarrow>
        if distinct (map fst xs) then
          (case map_of xs [2, 5, 29, 17] of None \<Rightarrow> Some []
           | Some v \<Rightarrow> (case Option.bind (tagged [0x30] v) (\<lambda>ns. elems (concat ns)) of Some ns \<Rightarrow>
                if ns \<noteq> [] \<and> list_all general_name ns then Some ns else None | None \<Rightarrow> None))
        else None | None \<Rightarrow> None) | _ \<Rightarrow> None)"

text \<open>
  The validity period as a reader of RFC 5280 (4.1.2.5.1) finds it: two times, each of six two-digit numbers and a \<open>Z\<close>, with years
  from 50 on in the last century.
\<close>

definition utc_field :: "bytes \<Rightarrow> nat \<Rightarrow> int" where
  "utc_field bs i = (uint (bs ! (2 * i)) - 48) * 10 + (uint (bs ! (2 * i + 1)) - 48)"

definition utctime_read :: "bytes \<Rightarrow> int option" where
  "utctime_read bs =
     (if length bs = 13 \<and> list_all (\<lambda>b. 48 \<le> b \<and> b \<le> 57) (take 12 bs) \<and> bs ! 12 = 0x5A then
        let yy = utc_field bs 0; y = (if 50 \<le> yy then 1900 + yy else 2000 + yy);
            m = nat (utc_field bs 1); d = utc_field bs 2; h = utc_field bs 3; mi = utc_field bs 4; s = utc_field bs 5
        in if 1 \<le> m \<and> m \<le> 12 \<and> 1 \<le> d \<and> d \<le> days_in_month y m \<and> h < 24 \<and> mi < 60 \<and> s < 60
           then Some (timegm y m d h mi s) else None
      else None)"

definition read_validity :: "bytes \<Rightarrow> (int \<times> int) option" where
  "read_validity val = (case tagged [0x17, 0x17] val of Some [nb, na] \<Rightarrow>
     (case (utctime_read nb, utctime_read na) of (Some s, Some t) \<Rightarrow> Some (s, t) | _ \<Rightarrow> None) | _ \<Rightarrow> None)"

text \<open>A whole certificate of version 3: both statements of the algorithm agree, the serial number is positive and has at most 20 bytes, and nothing is left over.\<close>

record cert_view =
  cv_signed :: bytes
  cv_serial :: int
  cv_issuer :: "(int list \<times> ustr) list"
  cv_validity :: "int \<times> int"
  cv_subject :: "(int list \<times> ustr) list"
  cv_key :: "int \<times> int"
  cv_names :: "(byte \<times> bytes) list"
  cv_signature :: bytes

definition first_elem :: "bytes \<Rightarrow> bytes" where
  "first_elem bs = (case der_read bs of None \<Rightarrow> [] | Some (_, _, rest) \<Rightarrow> take (length bs - length rest) bs)"

definition read_cert :: "bytes \<Rightarrow> cert_view option" where
  "read_cert cert =
     (case tagged [0x30] cert of Some [body] \<Rightarrow>
     (case tagged [0x30, 0x30, 0x03] body of Some [tbs, alg, sig] \<Rightarrow>
     (case tagged [0xA0, 0x02, 0x30, 0x30, 0x30, 0x30, 0x30, 0xA3] tbs of Some [v, sn, alg', issuer, val, subject, info, exts] \<Rightarrow>
       if tagged [0x02] v = Some [[2]] \<and> alg_is [1, 2, 840, 113549, 1, 1, 11] alg \<and> alg' = alg \<and> length sn \<le> 20 then
         (case (read_int sn, read_rdns issuer, read_validity val, read_rdns subject) of (Some sn, Some issuer, Some val, Some subject) \<Rightarrow>
         (case (spki_key info, read_names exts, bit_string sig) of (Some key, Some names, Some sig) \<Rightarrow>
            if 0 < sn then
              Some \<lparr>cv_signed = first_elem body, cv_serial = sn, cv_issuer = issuer, cv_validity = val, cv_subject = subject,
                cv_key = key, cv_names = names, cv_signature = sig\<rparr>
            else None
          | _ \<Rightarrow> None) | _ \<Rightarrow> None)
       else None
      | _ \<Rightarrow> None) | _ \<Rightarrow> None) | _ \<Rightarrow> None)"

text \<open>A self-signed certificate is accepted when its issuer is its subject and the key inside confirms the signature.\<close>

definition cert_verifies :: "(bytes \<Rightarrow> bytes) \<Rightarrow> bytes \<Rightarrow> bool" where
  "cert_verifies sha256 cert \<longleftrightarrow> (case read_cert cert of None \<Rightarrow> False
     | Some c \<Rightarrow> cv_issuer c = cv_subject c \<and> rsa_verify (fst (cv_key c)) (snd (cv_key c)) (sha256 (cv_signed c)) (cv_signature c))"

definition utc_bytes :: "time_fields \<Rightarrow> bytes" where
  "utc_bytes tm = map of_nat (ustr_of (strftime_utc tm))"

section \<open>Times are read back\<close>

lemma days_in_month_le: "1 \<le> m \<Longrightarrow> m \<le> 12 \<Longrightarrow> days_in_month y m \<le> 31"
proof -
  have "list_all (\<lambda>m. days_in_month y m \<le> 31) [1..<13]"
    by (simp add: upt_conv_Cons days_in_month_def numeral_eq_Suc)
  then show "1 \<le> m \<Longrightarrow> m \<le> 12 \<Longrightarrow> days_in_month y m \<le> 31" by (simp add: list_all_iff)
qed

text \<open>The numbers of a date, each below 100.\<close>

definition utc_nats :: "time_fields \<Rightarrow> nat list" where
  "utc_nats = (\<lambda>(y, m, d, h, mi, s). [nat (y mod 100), m, nat d, nat h, nat mi, nat s])"

lemma utc_nats_small: "n \<in> set (utc_nats (gm_fields t)) \<Longrightarrow> n < 100"
proof -
  assume n: "n \<in> set (utc_nats (gm_fields t))"
  obtain y m d h mi s where f: "gm_fields t = (y, m, d, h, mi, s)" by (cases "gm_fields t")
  note g = gm_fields_spec [OF f]
  have "d \<le> 31" using g(5) days_in_month_le [OF g(2,3), of y] by linarith
  with n g show "n < 100" by (auto simp: utc_nats_def f)
qed

lemma strftime_digits: "strftime_utc tm = concat (map pad2 (utc_nats tm)) @ ''Z''"
  by (cases tm) (simp add: strftime_utc_def utc_nats_def)

lemma of_char_digit_nat: "d < 10 \<Longrightarrow> (of_char (digit_char d) :: nat) = 48 + d"
  by (simp add: digit_char_def)

lemma utc_bytes_eq:
  "utc_bytes (gm_fields t) = concat (map (\<lambda>n. [of_nat (48 + n div 10), of_nat (48 + n mod 10)]) (utc_nats (gm_fields t))) @ [0x5A]"
proof -
  have "map of_nat (ustr_of (concat (map pad2 ns) @ ''Z'')) = concat (map (\<lambda>n. [of_nat (48 + n div 10), of_nat (48 + n mod 10)]) ns) @ [0x5A :: byte]"
    if "\<forall>n \<in> set ns. n < 100" for ns
    using that by (induction ns) (auto simp: ustr_of_def pad2_def of_char_digit_nat)
  with utc_nats_small show ?thesis by (simp add: utc_bytes_def strftime_digits)
qed

lemma utf8_utc: "utf8_encode (ustr_of (strftime_utc (gm_fields t))) = Inr (utc_bytes (gm_fields t))"
proof -
  have "\<forall>c \<in> set (ustr_of (concat (map pad2 ns) @ ''Z'')). c < 128" if "\<forall>n \<in> set ns. n < 100" for ns
    using that by (induction ns) (auto simp: ustr_of_def pad2_def of_char_digit_nat)
  then show ?thesis unfolding utc_bytes_def strftime_digits using utc_nats_small by (intro utf8_ascii) blast
qed

lemma digit_byte:
  assumes "n < 10"
  shows "uint (of_nat (48 + n) :: byte) = 48 + int n" "(48 :: byte) \<le> of_nat (48 + n)" "(of_nat (48 + n) :: byte) \<le> 57"
proof -
  have u: "unat (of_nat (48 + n) :: byte) = 48 + n" using assms by (simp add: unat_of_nat del: of_nat_add)
  then show "uint (of_nat (48 + n) :: byte) = 48 + int n" by (metis of_nat_add of_nat_numeral uint_nat)
  show "(48 :: byte) \<le> of_nat (48 + n)" "(of_nat (48 + n) :: byte) \<le> 57" using u assms by (simp_all add: word_le_nat_alt del: of_nat_add)
qed

lemma digits_listed:
  "\<forall>n \<in> set ns. n < 100 \<Longrightarrow>
     list_all (\<lambda>b. (48 :: byte) \<le> b \<and> b \<le> 57) (concat (map (\<lambda>n. [of_nat (48 + n div 10), of_nat (48 + n mod 10)]) ns))"
proof (induction ns)
  case (Cons n ns)
  have "n div 10 < 10" "n mod 10 < 10" using Cons.prems by auto
  with Cons digit_byte [of "n div 10"] digit_byte [of "n mod 10"] show ?case by (simp del: of_nat_add)
qed simp

lemma two_digits:
  assumes "n < 100"
  shows "(uint (of_nat (48 + n div 10) :: byte) - 48) * 10 + (uint (of_nat (48 + n mod 10) :: byte) - 48) = int n"
proof -
  have "n div 10 < 10" using assms by simp
  then have "uint (of_nat (48 + n div 10) :: byte) = 48 + int (n div 10)" "uint (of_nat (48 + n mod 10) :: byte) = 48 + int (n mod 10)"
    by (intro digit_byte(1); simp)+
  moreover have "int (n div 10) * 10 + int (n mod 10) = int n" by (metis div_mult_mod_eq of_nat_add of_nat_mult of_nat_numeral)
  ultimately show ?thesis by simp
qed

lemma utctime_round_trip:
  assumes "-631152000 \<le> t" "t < 2524608000"
  shows "utctime_read (utc_bytes (gm_fields t)) = Some t"
proof -
  obtain y m d h mi s where f: "gm_fields t = (y, m, d, h, mi, s)" by (cases "gm_fields t")
  note g = gm_fields_spec [OF f]
  have y: "1950 \<le> y" "y < 2050" using utc_years [OF f assms] .
  have small: "\<forall>n \<in> set [nat (y mod 100), m, nat d, nat h, nat mi, nat s]. n < 100" using utc_nats_small [of _ t] by (simp add: f utc_nats_def)
  define bs where "bs = utc_bytes (gm_fields t)"
  have bs: "bs = concat (map (\<lambda>n. [of_nat (48 + n div 10), of_nat (48 + n mod 10)]) [nat (y mod 100), m, nat d, nat h, nat mi, nat s]) @ [0x5A]"
    using utc_bytes_eq [of t] by (simp only: bs_def f utc_nats_def prod.case)
  have fields: "utc_field bs 0 = y mod 100" "utc_field bs 1 = int m" "utc_field bs 2 = d" "utc_field bs 3 = h" "utc_field bs 4 = mi" "utc_field bs 5 = s"
    unfolding utc_field_def bs using small g by (simp_all add: two_digits [simplified])
  have "list_all (\<lambda>b. 48 \<le> b \<and> b \<le> 57) (take 12 bs)" unfolding bs using digits_listed [OF small] by simp
  moreover have "length bs = 13" "bs ! 12 = 0x5A" unfolding bs by simp_all
  moreover have "(if 50 \<le> y mod 100 then 1900 + y mod 100 else 2000 + y mod 100) = y" using y by presburger
  ultimately show ?thesis using g unfolding bs_def [symmetric] utctime_read_def fields Let_def by simp
qed

section \<open>The certificate verifies\<close>

lemma der_seq_Inr: "der_seq (map Inr bs) = Inr (der 0x30 (concat bs))"
proof -
  have "rmap id (map Inr bs) = (Inr bs :: bytes list res)" by (induction bs) auto
  then show ?thesis by (simp add: der_seq_def der_wrap_def)
qed

text \<open>Elements written one after the other are read one after the other.\<close>

lemma elems_simps [simp]:
  "elems [] = Some []"
  "sized body \<Longrightarrow> elems (der t body @ rest) = map_option (Cons (t, body)) (elems rest)"
  "sized body \<Longrightarrow> elems (der t body) = Some [(t, body)]"
proof -
  have nil: "elems [] = Some []" by (simp add: elems.simps)
  then show "elems [] = Some []" .
  show step: "sized body \<Longrightarrow> elems (der t body @ rest) = map_option (Cons (t, body)) (elems rest)" for rest
    by (subst elems.simps) (simp add: der_read_der, simp add: der_def)
  show "sized body \<Longrightarrow> elems (der t body) = Some [(t, body)]" using step [of "[]"] nil by simp
qed

lemma first_elem_der: "sized body \<Longrightarrow> first_elem (der t body @ rest) = der t body"
  by (simp add: first_elem_def der_read_der)

text \<open>Lengths: an element adds at most 128 bytes to its contents.\<close>

abbreviation small :: "nat \<Rightarrow> bool" where
  "small n \<equiv> n \<le> 2 ^ 70"

lemma small_sized: "length b \<le> n \<Longrightarrow> small n \<Longrightarrow> sized b"
  by (rule le_less_trans [of _ "2 ^ 70"]) simp_all

lemma length_der: "length b \<le> n \<Longrightarrow> small n \<Longrightarrow> length (der t b) \<le> n + 128"
proof -
  assume n: "length b \<le> n" "small n"
  then have "int (length b) < 256 ^ 126" using small_sized [of b n] by (metis of_nat_less_iff of_nat_numeral of_nat_power)
  then have "byte_length (int (length b)) \<le> 126" by (intro byte_length_sized) auto
  with n show ?thesis by (simp add: der_def der_len_def Let_def)
qed

lemma alg_is_der: "length o' \<le> 100 \<Longrightarrow> read_oid o' = oid \<Longrightarrow> alg_is oid (der 0x06 o' @ der 0x05 [])"
  by (simp add: alg_is_def tagged_def small_sized [of o' 100])

section \<open>The pieces of the certificate are read back\<close>

lemma name_ok:
  assumes "list_all scalar cn" "list_all scalar o'" "1 \<le> length cn" "length cn \<le> 64" "1 \<le> length o'" "length o' \<le> 64"
  shows "\<exists>b. x_name cn o' = Inr (der 0x30 b) \<and> read_rdns b = Some [([2, 5, 4, 3], cn), ([2, 5, 4, 10], o')] \<and> length b \<le> 2000"
proof -
  obtain cb ob where enc: "utf8_encode cn = Inr cb" "utf8_encode o' = Inr ob" using assms(1,2) by (simp add: utf8_encode_def)
  have len: "length cb \<le> 256" "length ob \<le> 256" using utf8_round_trip(2) [OF enc(1)] utf8_round_trip(2) [OF enc(2)] assms(4,6) by linarith+
  have dec: "utf8_decode cb = Some cn" "utf8_decode ob = Some o'" using utf8_round_trip(1) enc by blast+
  have one: "read_attribute (der 0x30 (der 0x06 i @ der 0x0C b)) = Some (read_oid i, s) \<and> length (der 0x30 (der 0x06 i @ der 0x0C b)) \<le> 700"
    if "length i = 3" "length b \<le> 256" "utf8_decode b = Some s" "1 \<le> length s" "length s \<le> 64" for i b :: bytes and s
  proof -
    have "length (der 0x06 i @ der 0x0C b) \<le> 572" using length_der [of i 3 "0x06"] length_der [of b 256 "0x0C"] that(1,2) by simp
    with length_der [OF this, of "0x30"] that show ?thesis
      by (simp add: read_attribute_def tagged_def small_sized [of i 3] small_sized [of b 256] small_sized [of _ 572])
  qed
  let ?c = "der 0x30 (der 0x06 [0x55, 0x04, 0x03] @ der 0x0C cb)" and ?o = "der 0x30 (der 0x06 [0x55, 0x04, 0x0A] @ der 0x0C ob)"
  have c: "read_attribute ?c = Some ([2, 5, 4, 3], cn)" "length ?c \<le> 700" using one [OF _ len(1) dec(1) assms(3,4), of "[0x55, 0x04, 0x03]"] oid_read by simp_all
  have o: "read_attribute ?o = Some ([2, 5, 4, 10], o')" "length ?o \<le> 700" using one [OF _ len(2) dec(2) assms(5,6), of "[0x55, 0x04, 0x0A]"] oid_read by simp_all
  have "x_name cn o' = Inr (der 0x30 (der 0x31 ?c @ der 0x31 ?o))"
    by (simp add: x_name_def der_seq_def der_set_def der_wrap_def oid_der der_utf8_def enc)
  moreover have "read_rdns (der 0x31 ?c @ der 0x31 ?o) = Some [([2, 5, 4, 3], cn), ([2, 5, 4, 10], o')]"
    using c o by (simp add: read_rdns_def parts_def small_sized [of _ 700])
  moreover have "length (der 0x31 ?c @ der 0x31 ?o) \<le> 2000" using length_der [OF c(2), of "0x31"] length_der [OF o(2), of "0x31"] by simp
  ultimately show ?thesis by blast
qed

lemma spki_ok:
  assumes "0 < k_n k" "k_e k = 65537" "byte_length (k_n k) \<le> 2 ^ 64"
  shows "\<exists>b. spki k = Inr (der 0x30 b) \<and> spki_key b = Some (k_n k, k_e k) \<and> length b \<le> 2 ^ 64 + 1000"
proof -
  obtain nb where nb: "der_int (k_n k) = Inr (der 0x02 nb)" "signed_be nb = k_n k" "minimal_int nb" "length nb \<le> 2 ^ 64 + 1"
    using der_int_ok [of "k_n k"] assms(1,3) by fastforce
  have "byte_length 65537 \<le> 3" by (rule byte_length_sized) simp_all
  then obtain eb where eb: "der_int (k_e k) = Inr (der 0x02 eb)" "signed_be eb = k_e k" "minimal_int eb" "length eb \<le> 4"
    using der_int_ok [of "k_e k"] assms(2) by fastforce
  let ?key = "der 0x02 nb @ der 0x02 eb" and ?alg = "der 0x06 [0x2A, 0x86, 0x48, 0x86, 0xF7, 0x0D, 0x01, 0x01, 0x01] @ der 0x05 []"
  have len: "length ?key \<le> 2 ^ 64 + 300" using length_der [OF nb(4), of "0x02"] length_der [OF eb(4), of "0x02"] by simp
  have len2: "length (0 # der 0x30 ?key) \<le> 2 ^ 64 + 500" using length_der [OF len, of "0x30"] by simp
  have len3: "length (der_bitstr (der 0x30 ?key)) \<le> 2 ^ 64 + 700" using length_der [OF len2, of "0x03"] by (simp add: der_bitstr_def)
  have alg: "length ?alg \<le> 20" by (simp add: der_def der_len_def)
  have "spki k = Inr (der 0x30 (der 0x30 ?alg @ der_bitstr (der 0x30 ?key)))"
    by (simp add: spki_def der_seq_def der_wrap_def oid_der nb(1) eb(1))
  moreover have "alg_is [1, 2, 840, 113549, 1, 1, 1] ?alg" using oid_read by (intro alg_is_der) simp_all
  then have "spki_key (der 0x30 ?alg @ der_bitstr (der 0x30 ?key)) = Some (k_n k, k_e k)"
    using nb eb assms(1,2) small_sized [OF alg] small_sized [OF len] small_sized [OF len2] small_sized [OF nb(4)] small_sized [OF eb(4)]
    by (simp add: spki_key_def tagged_def der_bitstr_def bit_string_def read_int_def)
  moreover have "length (der 0x30 ?alg @ der_bitstr (der 0x30 ?key)) \<le> 2 ^ 64 + 1000" using length_der [OF alg, of "0x30"] len3 by simp
  ultimately show ?thesis by blast
qed

lemma validity_ok:
  assumes "-631152000 \<le> s" "s < 2524608000" "-631152000 \<le> t" "t < 2524608000"
  shows "\<exists>b. der_seq [der_utctime (ustr_of (strftime_utc (gm_fields s))), der_utctime (ustr_of (strftime_utc (gm_fields t)))] = Inr (der 0x30 b) \<and>
    read_validity b = Some (s, t) \<and> length b \<le> 300"
proof -
  have len: "length (utc_bytes (gm_fields u)) \<le> 13" for u
    unfolding utc_bytes_eq by (cases "gm_fields u") (simp add: utc_nats_def)
  have "length (der 0x17 (utc_bytes (gm_fields s)) @ der 0x17 (utc_bytes (gm_fields t))) \<le> 300"
    using length_der [OF len, of "0x17" s] length_der [OF len, of "0x17" t] by simp
  then show ?thesis using utctime_round_trip [OF assms(1,2)] utctime_round_trip [OF assms(3,4)] small_sized [OF len]
    by (intro exI [of _ "der 0x17 (utc_bytes (gm_fields s)) @ der 0x17 (utc_bytes (gm_fields t))"]) (simp add: der_seq_def der_wrap_def der_utctime_def utf8_utc read_validity_def tagged_def)
qed

text \<open>The extension is constant.\<close>

definition san_names :: "(byte \<times> bytes) list" where
  "san_names = [(0x82, map of_nat (ustr_of ''localhost'')), (0x87, [127, 0, 0, 1])]"

definition san_ext :: bytes where
  "san_ext = der 0x06 [0x55, 0x1D, 0x11] @ der 0x04 (der 0x30 (concat (map (\<lambda>(t, b). der t b) san_names)))"

lemma extension_ok:
  "der_seq [der_seq [der_oid OID_SAN, Inr (der 0x04 (der 0x30 (der 0x82 (map of_nat (ustr_of ''localhost'')) @ der 0x87 [127, 0, 0, 1])))]] =
     Inr (der 0x30 (der 0x30 san_ext))"
  "read_names (der 0x30 (der 0x30 san_ext)) = Some san_names" "length (der 0x30 (der 0x30 san_ext)) \<le> 200"
  by (simp add: der_seq_def der_wrap_def oid_der san_ext_def san_names_def) code_simp+

section \<open>The certificate verifies\<close>

text \<open>The shape of the certificate, once all its parts have been encoded.\<close>

definition sha256_rsa_alg :: bytes where
  "sha256_rsa_alg = der 0x06 [0x2A, 0x86, 0x48, 0x86, 0xF7, 0x0D, 0x01, 0x01, 0x0B] @ der 0x05 []"

lemma sha256_rsa_alg_ok: "alg_is [1, 2, 840, 113549, 1, 1, 11] sha256_rsa_alg" "length sha256_rsa_alg \<le> 20"
proof -
  show "alg_is [1, 2, 840, 113549, 1, 1, 11] sha256_rsa_alg" unfolding sha256_rsa_alg_def by (rule alg_is_der [OF _ oid_read(2)]) simp
  show "length sha256_rsa_alg \<le> 20" by (simp add: sha256_rsa_alg_def der_def der_len_def)
qed

definition tbs_of :: "bytes \<Rightarrow> bytes \<Rightarrow> bytes \<Rightarrow> bytes \<Rightarrow> bytes" where
  "tbs_of sn nm val info = der 0xA0 (der 0x02 [2]) @ der 0x02 sn @ der 0x30 sha256_rsa_alg @ der 0x30 nm @ der 0x30 val @ der 0x30 nm @
     der 0x30 info @ der 0xA3 (der 0x30 (der 0x30 san_ext))"

definition cert_of :: "bytes \<Rightarrow> bytes \<Rightarrow> bytes" where
  "cert_of tbs sig = der 0x30 (der 0x30 tbs @ der 0x30 sha256_rsa_alg @ der_bitstr sig)"

lemma make_cert_shape:
  assumes "gmtime (time0 - 60) = Inr tm0" "gmtime (time1 + of_int days * 86400) = Inr tm1"
    and "der_int (randbits OR 1) = Inr (der 0x02 sn)" "x_name cn org = Inr (der 0x30 nm)"
    and "der_seq [der_utctime (ustr_of (strftime_utc tm0)), der_utctime (ustr_of (strftime_utc tm1))] = Inr (der 0x30 val)"
    and "spki k = Inr (der 0x30 info)"
    and "rsa_sign_sha256 sha256 k (der 0x30 (tbs_of sn nm val info)) = Inr sig"
  shows "make_self_signed_cert sha256 randbits time0 time1 k cn org days = Inr (cert_of (tbs_of sn nm val info) sig)"
proof -
  let ?tbs = "tbs_of sn nm val info"
  have v: "der_int 2 = Inr (der 0x02 [2])" by code_simp
  have alg: "der_seq [der_oid OID_SHA256RSA, Inr der_null] = Inr (der 0x30 sha256_rsa_alg)"
    by (simp add: der_seq_def der_wrap_def oid_der sha256_rsa_alg_def)
  have tbs: "der_seq [rbind (der_int 2) (\<lambda>v. Inr (der 0xA0 v)), der_int (randbits OR 1), Inr (der 0x30 sha256_rsa_alg), x_name cn org,
      der_seq [der_utctime (ustr_of (strftime_utc tm0)), der_utctime (ustr_of (strftime_utc tm1))], x_name cn org, spki k,
      Inr (der 0xA3 (der 0x30 (der 0x30 san_ext)))] = Inr (der 0x30 ?tbs)"
    unfolding v assms rbind.simps
    using der_seq_Inr [of "[der 0xA0 (der 0x02 [2]), der 0x02 sn, der 0x30 sha256_rsa_alg, der 0x30 nm, der 0x30 val, der 0x30 nm, der 0x30 info,
      der 0xA3 (der 0x30 (der 0x30 san_ext))]"]
    by (simp add: tbs_of_def)
  show ?thesis
    unfolding make_self_signed_cert_def Let_def assms(1,2) rbind.simps alg extension_ok(1) tbs assms(7)
    using der_seq_Inr [of "[der 0x30 ?tbs, der 0x30 sha256_rsa_alg, der_bitstr sig]"] by (simp add: cert_of_def)
qed

lemma read_cert_of:
  assumes "minimal_int sn" "0 < signed_be sn" "length sn \<le> 20" "read_rdns nm = Some name" "length nm \<le> 2000"
    and "read_validity val = Some period" "length val \<le> 300" "spki_key info = Some key" "length info \<le> 2 ^ 64 + 1000" "length sig \<le> 2 ^ 64"
  shows "read_cert (cert_of (tbs_of sn nm val info) sig) = Some \<lparr>cv_signed = der 0x30 (tbs_of sn nm val info), cv_serial = signed_be sn,
    cv_issuer = name, cv_validity = period, cv_subject = name, cv_key = key, cv_names = san_names, cv_signature = sig\<rparr>"
proof -
  let ?tbs = "tbs_of sn nm val info" and ?exts = "der 0x30 (der 0x30 san_ext)"
  have two: "length (der 0x02 [2]) \<le> 3" by (simp add: der_def der_len_def)
  note alg = sha256_rsa_alg_ok and ext = extension_ok(2,3)
  have tbs: "length ?tbs \<le> 2 ^ 64 + 8000"
    using length_der [OF two, of "0xA0"] length_der [OF assms(3), of "0x02"] length_der [OF alg(2), of "0x30"] length_der [OF assms(5), of "0x30"]
      length_der [OF assms(7), of "0x30"] length_der [OF assms(9), of "0x30"] length_der [OF ext(2), of "0xA3"] by (simp add: tbs_of_def)
  have bits: "length (0 # sig) \<le> 2 ^ 64 + 1" using assms(10) by simp
  let ?body = "der 0x30 ?tbs @ der 0x30 sha256_rsa_alg @ der_bitstr sig"
  have body: "length ?body \<le> 2 ^ 65 + 9000"
    using length_der [OF tbs, of "0x30"] length_der [OF alg(2), of "0x30"] length_der [OF bits, of "0x03"] by (simp add: der_bitstr_def)
  have "tagged [0x30] (cert_of ?tbs sig) = Some [?body]" using small_sized [OF body] by (simp add: cert_of_def tagged_def)
  moreover have "tagged [0x30, 0x30, 0x03] ?body = Some [?tbs, sha256_rsa_alg, 0 # sig]"
    using small_sized [OF tbs] small_sized [OF alg(2)] small_sized [OF bits] by (simp add: tagged_def der_bitstr_def)
  moreover have "tagged [0xA0, 0x02, 0x30, 0x30, 0x30, 0x30, 0x30, 0xA3] ?tbs =
      Some [der 0x02 [2], sn, sha256_rsa_alg, nm, val, nm, info, ?exts]"
    using small_sized [OF two] small_sized [OF assms(3)] small_sized [OF alg(2)] small_sized [OF assms(5)] small_sized [OF assms(7)]
      small_sized [OF assms(9)] small_sized [OF ext(2)] by (simp add: tagged_def tbs_of_def)
  moreover have "tagged [0x02] (der 0x02 [2]) = Some [[2]]" by (simp add: tagged_def)
  ultimately show ?thesis
    using assms alg ext first_elem_der [of ?tbs] small_sized [OF tbs] by (simp add: read_cert_def read_int_def bit_string_def)
qed

lemma latin_scalar: "list_all scalar (ustr_of s)"
proof -
  have "scalar (of_char c)" for c :: char using nat_of_char_less_256 [of c] by linarith
  then show ?thesis by (simp add: list_all_iff ustr_of_def)
qed

text \<open>What a reader must find in the certificate.\<close>

definition cert_shows :: "int \<Rightarrow> rsa_key \<Rightarrow> ustr \<Rightarrow> ustr \<Rightarrow> int \<times> int \<Rightarrow> cert_view \<Rightarrow> bool" where
  "cert_shows randbits k cn org period c \<longleftrightarrow> cv_serial c = randbits OR 1 \<and> cv_key c = (k_n k, k_e k) \<and>
     cv_subject c = [([2, 5, 4, 3], cn), ([2, 5, 4, 10], org)] \<and> cv_issuer c = cv_subject c \<and> cv_validity c = period \<and>
     cv_names c = [(0x82, map of_nat (ustr_of ''localhost'')), (0x87, [127, 0, 0, 1])]"

lemma serial_ok:
  assumes "0 \<le> randbits" "randbits < 2 ^ 64"
  shows "\<exists>b. der_int (randbits OR 1) = Inr (der 0x02 b) \<and> minimal_int b \<and> signed_be b = randbits OR 1 \<and> 0 < signed_be b \<and> length b \<le> 20"
proof -
  have lt: "randbits OR 1 < 2 ^ 64" using assms by (intro OR_upper) simp_all
  have "(1 :: int) \<le> 1 OR randbits" by (rule or_greater_eq) (rule assms(1))
  then have pos: "0 < randbits OR 1" by (simp add: or.commute)
  have "byte_length (randbits OR 1) \<le> 8" using lt by (intro byte_length_sized less_imp_le [OF pos]) simp
  with der_int_ok [OF less_imp_le [OF pos]] pos show ?thesis by fastforce
qed

lemma certificate_ok:
  assumes key: "rsa_key_ok k" "62 \<le> byte_length (k_n k)" "byte_length (k_n k) \<le> 2 ^ 64" and hash: "\<forall>m. length (sha256 m) = 32"
    and clock: "0 \<le> time0" "time0 \<le> time1" "0 \<le> days" "time1 + of_int days * 86400 < 2524608000"
    and name: "list_all scalar cn" "list_all scalar org" "1 \<le> length cn" "length cn \<le> 64" "1 \<le> length org" "length org \<le> 64"
    and rnd: "0 \<le> randbits" "randbits < 2 ^ 64"
  shows "\<exists>cert c. make_self_signed_cert sha256 randbits time0 time1 k cn org days = Inr cert \<and> cert_verifies sha256 cert \<and>
    read_cert cert = Some c \<and> cert_shows randbits k cn org (\<lfloor>time0\<rfloor> - 60, \<lfloor>time1\<rfloor> + days * 86400) c"
proof -
  have n: "0 < k_n k" "k_e k = 65537" using key(1) by (auto simp: rsa_key_ok_def Let_def)
  obtain sn where sn: "der_int (randbits OR 1) = Inr (der 0x02 sn)" "minimal_int sn" "signed_be sn = randbits OR 1" "0 < signed_be sn" "length sn \<le> 20"
    using serial_ok [OF rnd] by blast
  obtain nm where nm: "x_name cn org = Inr (der 0x30 nm)" "read_rdns nm = Some [([2, 5, 4, 3], cn), ([2, 5, 4, 10], org)]" "length nm \<le> 2000"
    using name_ok [OF name] by blast
  obtain info where info: "spki k = Inr (der 0x30 info)" "spki_key info = Some (k_n k, k_e k)" "length info \<le> 2 ^ 64 + 1000"
    using spki_ok [OF n key(3)] by blast
  let ?t0 = "\<lfloor>time0\<rfloor> - 60" and ?t1 = "\<lfloor>time1\<rfloor> + days * 86400"
  have fl: "\<lfloor>time0 - 60\<rfloor> = ?t0" "\<lfloor>time1 + of_int days * 86400\<rfloor> = ?t1"
    using floor_diff_of_int [of time0 60] floor_add_int [of time1 "days * 86400"] by simp_all
  have late: "0 \<le> time1 + of_int days * 86400" using clock by simp
  then have tm: "gmtime (time0 - 60) = Inr (gm_fields ?t0)" "gmtime (time1 + of_int days * 86400) = Inr (gm_fields ?t1)"
    using gmtime_returns [of "time0 - 60"] gmtime_returns [of "time1 + of_int days * 86400"] clock fl by simp_all
  have range: "-631152000 \<le> \<lfloor>x\<rfloor> \<and> \<lfloor>x\<rfloor> < 2524608000" if "-60 \<le> x" "x < 2524608000" for x :: rat
    using that by (simp add: le_floor_iff floor_less_iff)
  have "time1 \<le> time1 + of_int days * 86400" using clock(3) by simp
  then have "-60 \<le> time0 - 60" "time0 - 60 < 2524608000" "-60 \<le> time1 + of_int days * 86400" using clock late by linarith+
  then have "-631152000 \<le> ?t0" "?t0 < 2524608000" "-631152000 \<le> ?t1" "?t1 < 2524608000" unfolding fl [symmetric] using range clock(4) by blast+
  then obtain val where val: "der_seq [der_utctime (ustr_of (strftime_utc (gm_fields ?t0))), der_utctime (ustr_of (strftime_utc (gm_fields ?t1)))] = Inr (der 0x30 val)"
    "read_validity val = Some (?t0, ?t1)" "length val \<le> 300" using validity_ok by blast
  let ?tbs = "tbs_of sn nm val info"
  obtain sig where sig: "rsa_sign_sha256 sha256 k (der 0x30 ?tbs) = Inr sig" "rsa_verify (k_n k) (k_e k) (sha256 (der 0x30 ?tbs)) sig"
    using rsa_sign_ok [of k sha256 "der 0x30 ?tbs"] key hash by blast
  have len: "length sig \<le> 2 ^ 64" using sig(2) key(3) by (simp add: rsa_verify_def)
  note shape = make_cert_shape [OF tm sn(1) nm(1) val(1) info(1) sig(1)]
    and view = read_cert_of [OF sn(2,4,5) nm(2,3) val(2,3) info(2,3) len]
  have "cert_verifies sha256 (cert_of ?tbs sig)" using sig(2) by (simp add: cert_verifies_def view)
  with shape view show ?thesis by (auto simp: cert_shows_def san_names_def sn(3))
qed

text \<open>The numbers of a key that \<^verbatim>\<open>generate_rsa(2048)\<close> returns, unless the primality test errs: the modulus is long enough for the
  signature and nothing is longer than 256 bytes.\<close>

definition numbers_of :: "rsa_key \<Rightarrow> int list" where
  "numbers_of k = [0, k_n k, k_e k, k_d k, k_p k, k_q k, k_dp k, k_dq k, k_qinv k]"

lemma modulus_length:
  assumes "2 ^ 1023 \<le> p" "p < 2 ^ 1024" "2 ^ 1023 \<le> q" "q < 2 ^ 1024" "n = p * (q :: int)"
  shows "62 \<le> byte_length n" "n < 256 ^ 256"
proof -
  have one: "(1 :: int) \<le> 2 ^ 1023" by (rule one_le_power) simp
  have "(2 :: int) ^ 1023 * 1 \<le> p * q" using assms(1,3) one by (intro mult_mono) linarith+
  then have low: "2 ^ 1023 \<le> n" using assms(5) by simp
  have "p * q < 2 ^ 1024 * 2 ^ 1024" using assms(1-4) one by (intro mult_strict_mono) linarith+
  also have "(2 :: int) ^ 1024 * 2 ^ 1024 = (2 ^ 8) ^ 256" unfolding power_mult [symmetric] power_add [symmetric] by simp
  finally show "n < 256 ^ 256" using assms(5) by simp
  show "62 \<le> byte_length n"
  proof (rule ccontr)
    assume "\<not> 62 \<le> byte_length n"
    then have "(256 :: int) ^ byte_length n \<le> 256 ^ 61" by (intro power_increasing) auto
    moreover have "n < 256 ^ byte_length n" using low one by (intro byte_length_bound) linarith
    moreover have "(256 :: int) ^ 61 = 2 ^ 488" using power_mult [of "2 :: int" 8 61] by simp
    moreover have "(2 :: int) ^ 488 \<le> 2 ^ 1023" by (rule power_increasing) simp_all
    ultimately show False using low by linarith
  qed
qed

lemma key_numbers_small:
  assumes "rsa_key_ok k" "k_n k < 256 ^ m" "3 \<le> m" "x \<in> set (numbers_of k)"
  shows "0 \<le> x \<and> byte_length x \<le> m"
proof -
  let ?p = "k_p k" and ?q = "k_q k"
  have K: "1 < ?p" "1 < ?q" "k_n k = ?p * ?q" "k_e k = 65537" "0 < k_d k" "k_d k < (?p - 1) * (?q - 1)" "0 \<le> k_dp k" "k_dp k < ?p - 1"
      "0 \<le> k_dq k" "k_dq k < ?q - 1" "0 \<le> k_qinv k" "k_qinv k < ?p"
    using assms(1) by (simp_all add: rsa_key_ok_def Let_def)
  have "?p * 1 \<le> ?p * ?q" "1 * ?q \<le> ?p * ?q" using K(1,2) by (intro mult_mono; simp)+
  moreover have "(?p - 1) * (?q - 1) \<le> ?p * ?q" using K(1,2) by (intro mult_mono) auto
  moreover have "(256 :: int) ^ 3 \<le> 256 ^ m" using assms(3) by (rule power_increasing) simp
  then have "65537 < (256 :: int) ^ m" by simp
  ultimately have "?p < 256 ^ m" "?q < 256 ^ m" "k_d k < 256 ^ m" "65537 < (256 :: int) ^ m" "0 < k_n k" using assms(2) K by linarith+
  moreover from this have "0 \<le> x \<and> x < 256 ^ m" if "x = y" "0 \<le> y" "y < 256 ^ m" for y using that by simp
  ultimately have "0 \<le> x \<and> x < 256 ^ m" using assms(2,4) K by (auto simp: numbers_of_def simp del: mult_eq_0_iff intro: less_trans)
  then show ?thesis using byte_length_sized by blast
qed

lemma generated_key:
  assumes range: "\<forall>k i. \<forall>s \<in> {fst (src k), snd (src k)}. 0 \<le> fst (s i) \<and> fst (s i) < 2 ^ 1024"
    and no_error: "\<forall>k i. \<forall>s \<in> {fst (src k), snd (src k)}. is_prime (snd (s i)) (candidate 1024 s i) \<longrightarrow>
      is_prime_number (nat (candidate 1024 s i))"
    and ends: "generate_rsa 2048 src = Some r"
  shows "\<exists>k. r = Inr k \<and> rsa_key_ok k \<and> 62 \<le> byte_length (k_n k) \<and> k_n k < 256 ^ 256"
proof -
  have half: "2048 div 2 = (1024::nat)" "1024 - 1 = (1023::nat)" by simp_all
  have big: "\<not> 2048 < (2::nat)" by simp
  from generate_rsa_ok [OF _ _ ends, unfolded half, OF range no_error] have
    "\<exists>k. r = Inr k \<and> rsa_key_ok k \<and> (\<forall>x \<in> {k_p k, k_q k}. 2 ^ 1023 \<le> x \<and> x < 2 ^ 1024)"
    by (elim disjE conjE) (rule notE [OF big])
  then obtain k where k: "r = Inr k" "rsa_key_ok k" "\<forall>x \<in> {k_p k, k_q k}. 2 ^ 1023 \<le> x \<and> x < 2 ^ 1024"
    by (elim exE conjE)
  have "k_n k = k_p k * k_q k" using k(2) by (simp add: rsa_key_ok_def Let_def)
  with k show ?thesis using modulus_length [of "k_p k" "k_q k" "k_n k"] by blast
qed

section \<open>The private key\<close>

text \<open>The numbers of an unencrypted \<open>PrivateKeyInfo\<close> (RFC 5958) that holds an \<open>RSAPrivateKey\<close> (RFC 8017, A.1.2).\<close>

definition pkcs8_numbers :: "bytes \<Rightarrow> int list option" where
  "pkcs8_numbers bs = (case tagged [0x30] bs of Some [body] \<Rightarrow>
     (case tagged [0x02, 0x30, 0x04] body of Some [v, alg, priv] \<Rightarrow>
        if v = [0] \<and> alg_is [1, 2, 840, 113549, 1, 1, 1] alg then
          (case tagged [0x30] priv of Some [ints] \<Rightarrow>
             (case Option.bind (parts 0x02 ints) (\<lambda>xs. those (map read_int xs)) of
                Some xs \<Rightarrow> if length xs = 9 \<and> hd xs = 0 then Some xs else None
              | None \<Rightarrow> None) | _ \<Rightarrow> None)
        else None | _ \<Rightarrow> None) | _ \<Rightarrow> None)"

lemma ints_written:
  assumes "\<forall>x \<in> set xs. 0 \<le> x \<and> byte_length x \<le> 2 ^ 60"
  shows "\<exists>bs. rmap id (map der_int xs) = Inr (map (der 0x02) bs) \<and> those (map read_int bs) = Some xs \<and>
    (\<forall>b \<in> set bs. length b \<le> 2 ^ 60 + 1)"
  using assms
proof (induction xs)
  case (Cons x xs)
  then obtain bs where bs: "rmap id (map der_int xs) = Inr (map (der 0x02) bs)" "those (map read_int bs) = Some xs" "\<forall>b \<in> set bs. length b \<le> 2 ^ 60 + 1"
    using Cons.IH by (metis list.set_intros(2))
  obtain b where "der_int x = Inr (der 0x02 b)" "signed_be b = x" "minimal_int b" "length b \<le> Suc (byte_length x)"
    using der_int_ok [of x] Cons.prems by auto
  moreover from this have "read_int b = Some x" by (simp add: read_int_def)
  moreover have "byte_length x \<le> 2 ^ 60" using Cons.prems by simp
  ultimately show ?case using bs by (intro exI [of _ "b # bs"]) (auto simp: id_def)
qed simp

lemma elems_map: "\<forall>b \<in> set bs. sized b \<Longrightarrow> elems (concat (map (der t) bs)) = Some (map (Pair t) bs)"
  by (induction bs) simp_all

lemma concat_length: "\<forall>b \<in> set bs. length b \<le> n \<Longrightarrow> length (concat bs) \<le> length bs * n"
  by (induction bs) (auto simp: add_mono)

lemma those_length: "those xs = Some ys \<Longrightarrow> length ys = length xs"
  by (induction xs arbitrary: ys) (auto split: option.splits)

text \<open>\<^verbatim>\<open>pkcs8_private_key\<close>: the version and the eight numbers of a key are read back from its encoding.\<close>

lemma pkcs8_round_trip:
  assumes "\<forall>x \<in> set (numbers_of k). 0 \<le> x \<and> byte_length x \<le> 2 ^ 60"
  shows "\<exists>b. pkcs8_private_key k = Inr b \<and> pkcs8_numbers b = Some (numbers_of k)"
proof -
  obtain bs where bs: "rmap id (map der_int (numbers_of k)) = Inr (map (der 0x02) bs)" "those (map read_int bs) = Some (numbers_of k)"
      "\<forall>b \<in> set bs. length b \<le> 2 ^ 60 + 1"
    using ints_written [OF assms] by blast
  let ?ints = "concat (map (der 0x02) bs)" and ?alg = "der 0x06 [0x2A, 0x86, 0x48, 0x86, 0xF7, 0x0D, 0x01, 0x01, 0x01] @ der 0x05 []"
  have "length bs = length (numbers_of k)" using those_length [OF bs(2)] by simp
  then have nine: "length bs = 9" by (simp add: numbers_of_def)
  have "length (der 0x02 b) \<le> 2 ^ 60 + 129" if "b \<in> set bs" for b using length_der [OF bspec [OF bs(3) that], of "0x02"] by simp
  then have "length ?ints \<le> 9 * (2 ^ 60 + 129)" using concat_length [of "map (der 0x02) bs" "2 ^ 60 + 129"] nine by simp
  then have ints: "length ?ints \<le> 2 ^ 64" by simp
  have priv: "length (der 0x30 ?ints) \<le> 2 ^ 64 + 128" using length_der [OF ints] by simp
  have alg: "length ?alg \<le> 20" by (simp add: der_def der_len_def)
  let ?body = "der 0x02 [0] @ der 0x30 ?alg @ der 0x04 (der 0x30 ?ints)"
  have "length (der 0x02 [0]) \<le> 3" by (simp add: der_def der_len_def)
  then have body: "length ?body \<le> 2 ^ 64 + 500" using length_der [OF alg, of "0x30"] length_der [OF priv, of "0x04"] by simp
  have v: "der_int 0 = Inr (der 0x02 [0])" by (simp add: der_int_def)
  have a: "der_seq [der_oid OID_RSA, Inr der_null] = Inr (der 0x30 ?alg)" by (simp add: der_seq_def der_wrap_def oid_der)
  have "der_seq (map der_int (numbers_of k)) = Inr (der 0x30 ?ints)" unfolding der_seq_def der_wrap_def bs(1) by simp
  then have enc: "pkcs8_private_key k = Inr (der 0x30 ?body)"
    using der_seq_Inr [of "[der 0x02 [0], der 0x30 ?alg, der 0x04 (der 0x30 ?ints)]"] by (simp add: pkcs8_private_key_def numbers_of_def v a)
  have "elems ?ints = Some (map (Pair 0x02) bs)" using bs(3) by (intro elems_map) (auto intro: small_sized)
  then have "parts 0x02 ?ints = Some bs" by (simp add: parts_def list_all_iff o_def)
  moreover have "alg_is [1, 2, 840, 113549, 1, 1, 1] ?alg" by (rule alg_is_der [OF _ oid_read(1)]) simp
  ultimately have "pkcs8_numbers (der 0x30 ?body) = Some (numbers_of k)"
    using bs(2) small_sized [OF body] small_sized [OF alg] small_sized [OF priv] small_sized [OF ints]
    by (simp add: pkcs8_numbers_def tagged_def) (simp add: numbers_of_def)
  with enc show ?thesis by blast
qed

section \<open>Properties\<close>

text \<open>C5. Cross-check of key generation, DER, the calendar and signing: for every valid key of 62 to \<open>2 ^ 64\<close> bytes, every subject whose
  names have 1 to 64 encodable characters, every serial number of 64 bits and a clock from 1970 on that does not go back and leaves the
  validity before 2050, \<^verbatim>\<open>make_self_signed_cert\<close> returns a certificate that a strict verifier, reading the public key out of the
  certificate itself, accepts: version 3, both algorithm fields sha256WithRSAEncryption, a positive serial number, nothing left over. The
  verifier finds in it the serial number drawn, the key, the subject (equal to the issuer), the period from a minute before the first
  reading of the clock to the given number of days after the second, and the names \<^verbatim>\<open>localhost\<close> and \<^verbatim>\<open>127.0.0.1\<close>.\<close>

theorem certificate_verifies:
  assumes key: "rsa_key_ok k" "62 \<le> byte_length (k_n k)" "byte_length (k_n k) \<le> 2 ^ 64" and hash: "\<forall>m. length (sha256 m) = 32"
    and clock: "0 \<le> time0" "time0 \<le> time1" "0 \<le> days" "time1 + of_int days * 86400 < 2524608000"
    and name: "list_all scalar cn" "list_all scalar org" "1 \<le> length cn" "length cn \<le> 64" "1 \<le> length org" "length org \<le> 64"
    and rnd: "0 \<le> randbits" "randbits < 2 ^ 64"
  shows "\<exists>cert c. make_self_signed_cert sha256 randbits time0 time1 k cn org days = Inr cert \<and> cert_verifies sha256 cert \<and>
    read_cert cert = Some c \<and> cert_shows randbits k cn org (\<lfloor>time0\<rfloor> - 60, \<lfloor>time1\<rfloor> + days * 86400) c"
  by (rule certificate_ok [OF assms])

theorem certificate_verifies_witness:
  "\<exists>k cert c. rsa_key_ok k \<and>
     make_self_signed_cert (\<lambda>m. replicate 32 0) 5 1767225600 1767225601 k (ustr_of ''localhost'') (ustr_of ''Example'') 3650 = Inr cert \<and>
     cert_verifies (\<lambda>m. replicate 32 0) cert \<and> read_cert cert = Some c \<and> cv_serial c = 5 \<and> cv_validity c = (1767225540, 2082585601)"
proof -
  obtain src k where src: "\<forall>j i. \<forall>s \<in> {fst (src j), snd (src j)}. 0 \<le> fst (s i) \<and> fst (s i) < 2 ^ 1024"
      "\<forall>j i. \<forall>s \<in> {fst (src j), snd (src j)}. is_prime (snd (s i)) (candidate 1024 s i) \<longrightarrow> is_prime_number (nat (candidate 1024 s i))"
      "generate_rsa 2048 src = Some (Inr k)"
    using generate_rsa_possible by blast
  from generated_key [OF this] have k: "rsa_key_ok k" "62 \<le> byte_length (k_n k)" "k_n k < 256 ^ 256" by auto
  have "0 \<le> k_n k" using k(1) by (auto simp: rsa_key_ok_def Let_def)
  from byte_length_sized [OF this k(3)] have "byte_length (k_n k) \<le> 256" .
  then have top: "byte_length (k_n k) \<le> 2 ^ 64" by (rule order_trans) simp
  have hash: "\<forall>m. length ((\<lambda>m. replicate 32 0 :: bytes) m) = 32" by simp
  have "\<exists>cert c. make_self_signed_cert (\<lambda>m. replicate 32 0) 5 1767225600 1767225601 k (ustr_of ''localhost'') (ustr_of ''Example'') 3650 = Inr cert \<and>
      cert_verifies (\<lambda>m. replicate 32 0) cert \<and> read_cert cert = Some c \<and>
      cert_shows 5 k (ustr_of ''localhost'') (ustr_of ''Example'') (\<lfloor>1767225600 :: rat\<rfloor> - 60, \<lfloor>1767225601 :: rat\<rfloor> + 3650 * 86400) c"
    by (rule certificate_verifies [OF k(1,2) top hash _ _ _ _ latin_scalar latin_scalar]) (simp_all add: ustr_of_def)
  moreover have "(5 :: int) OR 1 = 5" by simp
  ultimately show ?thesis using k(1) by (auto simp: cert_shows_def)
qed

text \<open>From 2050 on the two digits mean another century: a certificate made in 2040 with the default of ten years is read as one that
  ended a hundred years before.\<close>

lemma validity_after_2049: "utctime_read (utc_bytes (gm_fields (2524608000 + 86400))) = Some (-631152000 + 86400)"
  by code_simp

text \<open>A wrong algorithm identifier is noticed.\<close>

lemma other_algorithm: "\<not> alg_is [1, 2, 840, 113549, 1, 1, 11] (der 0x06 [0x2A, 0x86, 0x48, 0x86, 0xF7, 0x0D, 0x01, 0x01, 0x01] @ der 0x05 [])"
  by code_simp

end
