(* ===== verification/Echo_Server.thy ===== *)
theory Echo_Server
  imports Py_Str
begin

text \<open>
  \<^verbatim>\<open>epoll_echo_server.py\<close>: the single-threaded event loop and its blocking clients. The operations of the server take the
  answers of the system calls they make; the step relation runs the server against the kernel's byte streams and any
  number of clients, in every order.
\<close>

section \<open>The server\<close>

text \<open>Connections are numbered; \<open>registered\<close> holds those in the selector (the listener always is).\<close>

record server =
  registered :: "nat set"
  connections_served :: int
  bytes_echoed :: int
  running :: bool

definition new_server :: server where
  "new_server = \<lparr>registered = {}, connections_served = 0, bytes_echoed = 0, running = False\<rparr>"

text \<open>Answers of \<^verbatim>\<open>accept\<close>: a connection, \<^verbatim>\<open>BlockingIOError\<close>, or another \<^verbatim>\<open>OSError\<close>, which is not caught.\<close>

datatype accepted = Conn nat | Accept_Blocks | Accept_Fails

text \<open>\<^verbatim>\<open>_accept\<close>, over the answers to come; none left means none pending.\<close>

fun accept_all :: "accepted list \<Rightarrow> server \<Rightarrow> server res" where
  "accept_all [] srv = Inr srv"
| "accept_all (Accept_Blocks # _) srv = Inr srv"
| "accept_all (Accept_Fails # _) srv = Inl OSError"
| "accept_all (Conn c # answers) srv = accept_all answers (srv\<lparr>registered := insert c (registered srv)\<rparr>)"

definition close_conn :: "nat \<Rightarrow> server \<Rightarrow> server" where
  "close_conn c srv = srv\<lparr>registered := registered srv - {c}, connections_served := connections_served srv + 1\<rparr>"

text \<open>Answers of \<^verbatim>\<open>recv\<close>: bytes (none at the end of the stream), \<^verbatim>\<open>BlockingIOError\<close>, \<^verbatim>\<open>ConnectionResetError\<close>, another \<^verbatim>\<open>OSError\<close>.\<close>

datatype received = Data string | Recv_Blocks | Recv_Reset | Recv_Fails

fun recv_data :: "received \<Rightarrow> string res" where
  "recv_data (Data d) = Inr d"
| "recv_data Recv_Blocks = Inr []"
| "recv_data Recv_Reset = Inr []"
| "recv_data Recv_Fails = Inl OSError"

text \<open>\<open>sendall_ok\<close>: whether \<^verbatim>\<open>sendall\<close> returns; otherwise it raises an \<^verbatim>\<open>OSError\<close>, which is caught.\<close>

definition service :: "nat \<Rightarrow> received \<Rightarrow> bool \<Rightarrow> server \<Rightarrow> server res" where
  "service c answer sendall_ok srv =
     rbind (recv_data answer) (\<lambda>data.
       if data \<noteq> [] then
         if sendall_ok then Inr (srv\<lparr>bytes_echoed := bytes_echoed srv + int (length data)\<rparr>)
         else Inr (close_conn c srv)
       else Inr (close_conn c srv))"

text \<open>A selected key with the answers its handler gets, and the loop over the keys of one \<^verbatim>\<open>select\<close>.\<close>

datatype event = Listener "accepted list" | Client nat received bool

fun handle_event :: "event \<Rightarrow> server \<Rightarrow> server res" where
  "handle_event (Listener answers) srv = accept_all answers srv"
| "handle_event (Client c answer sendall_ok) srv = service c answer sendall_ok srv"

fun serve_round :: "event list \<Rightarrow> server \<Rightarrow> server res" where
  "serve_round [] srv = Inr srv"
| "serve_round (e # es) srv = rbind (handle_event e srv) (serve_round es)"

definition stop :: "server \<Rightarrow> server" where
  "stop srv = srv\<lparr>running := False\<rparr>"

text \<open>\<^verbatim>\<open>serve_forever\<close>, with what each \<^verbatim>\<open>select\<close> returns until \<^verbatim>\<open>stop\<close> is called.\<close>

fun serve_rounds :: "event list list \<Rightarrow> server \<Rightarrow> server res" where
  "serve_rounds [] srv = Inr (stop srv)"
| "serve_rounds (es # rounds) srv = rbind (serve_round es srv) (serve_rounds rounds)"

definition serve_forever :: "event list list \<Rightarrow> server \<Rightarrow> server res" where
  "serve_forever rounds srv = serve_rounds rounds (srv\<lparr>running := True\<rparr>)"

section \<open>Clients and network\<close>

text \<open>\<^verbatim>\<open>_client_roundtrip\<close>: before the connection, in the receive loop with the bytes so far, returned.\<close>

datatype client = Start | Reading string | Got string

text \<open>The test of the receive loop.\<close>

definition client_next :: "string \<Rightarrow> string \<Rightarrow> client" where
  "client_next message chunks = (if length chunks < length message then Reading chunks else Got chunks)"

fun is_got :: "client \<Rightarrow> bool" where
  "is_got (Got _) = True"
| "is_got _ = False"

text \<open>
  The connections: those waiting to be accepted, the bytes on the way to the server and back, whether the client has
  closed its end, and the connections the server has closed.
\<close>

record network =
  srv :: server
  backlog :: "nat list"
  inbuf :: "nat \<Rightarrow> string"
  outbuf :: "nat \<Rightarrow> string"
  eof :: "nat \<Rightarrow> bool"
  shut :: "nat set"
  clients :: "client list"

definition client_moves :: "nat \<Rightarrow> client \<Rightarrow> network \<Rightarrow> network" where
  "client_moves i c s = s\<lparr>clients := (clients s)[i := c], eof := (eof s)(i := is_got c)\<rparr>"

text \<open>
  \<open>sndbuf\<close> is the room of a connection's send buffer: \<^verbatim>\<open>sendall\<close> on the non-blocking socket stores what fits and raises if
  that is not everything. A receive returns any non-empty part of what has arrived, up to 4096 bytes.
\<close>

inductive echo_step :: "string list \<Rightarrow> nat \<Rightarrow> network \<Rightarrow> network \<Rightarrow> bool" for msgs sndbuf where
  connect: "i < length (clients s) \<Longrightarrow> clients s ! i = Start \<Longrightarrow>
    echo_step msgs sndbuf s
      ((client_moves i (client_next (msgs ! i) []) s)\<lparr>backlog := backlog s @ [i], inbuf := (inbuf s)(i := msgs ! i)\<rparr>)"
| client_recv: "i < length (clients s) \<Longrightarrow> clients s ! i = Reading chunks \<Longrightarrow> outbuf s i \<noteq> [] \<Longrightarrow> 0 < k \<Longrightarrow> k \<le> 4096 \<Longrightarrow>
    echo_step msgs sndbuf s
      ((client_moves i (client_next (msgs ! i) (chunks @ take k (outbuf s i))) s)\<lparr>outbuf := (outbuf s)(i := drop k (outbuf s i))\<rparr>)"
| client_fin: "i < length (clients s) \<Longrightarrow> clients s ! i = Reading chunks \<Longrightarrow> outbuf s i = [] \<Longrightarrow> i \<in> shut s \<Longrightarrow>
    echo_step msgs sndbuf s (client_moves i (Got chunks) s)"
| accept: "running (srv s) \<Longrightarrow> backlog s \<noteq> [] \<Longrightarrow>
    handle_event (Listener (map Conn (backlog s) @ [Accept_Blocks])) (srv s) = Inr srv' \<Longrightarrow>
    echo_step msgs sndbuf s (s\<lparr>srv := srv', backlog := []\<rparr>)"
| serve: "running (srv s) \<Longrightarrow> c \<in> registered (srv s) \<Longrightarrow> inbuf s c \<noteq> [] \<or> eof s c \<Longrightarrow> 0 < k \<Longrightarrow> k \<le> 4096 \<Longrightarrow>
    d = take k (inbuf s c) \<Longrightarrow> room = sndbuf - length (outbuf s c) \<Longrightarrow>
    handle_event (Client c (Data d) (length d \<le> room)) (srv s) = Inr srv' \<Longrightarrow>
    echo_step msgs sndbuf s (s\<lparr>srv := srv', inbuf := (inbuf s)(c := drop k (inbuf s c)),
      outbuf := (outbuf s)(c := outbuf s c @ take room d), shut := (if c \<in> registered srv' then shut s else insert c (shut s))\<rparr>)"

definition echo_init :: "string list \<Rightarrow> network" where
  "echo_init msgs = \<lparr>srv = new_server\<lparr>running := True\<rparr>, backlog = [], inbuf = (\<lambda>_. []), outbuf = (\<lambda>_. []), eof = (\<lambda>_. False),
     shut = {}, clients = replicate (length msgs) Start\<rparr>"

text \<open>The main block: its messages, and its asserts on the results of the clients and the counter of the server.\<close>

definition client_message :: "nat \<Rightarrow> string" where
  "client_message i = ''hello-from-client-'' @ replicate (3 - length (str_nat i)) CHR ''0'' @ str_nat i"

fun result_of :: "client \<Rightarrow> string option" where
  "result_of (Got chunks) = Some chunks"
| "result_of _ = None"

definition results :: "string list \<Rightarrow> network \<Rightarrow> (string \<times> string) list" where
  "results msgs s = List.map_filter (\<lambda>(msg, c). map_option (\<lambda>got. (msg, got)) (result_of c)) (zip msgs (clients s))"

definition echo_checks :: "string list \<Rightarrow> network \<Rightarrow> unit res" where
  "echo_checks msgs s =
     rbind (py_assert (list_all (\<lambda>(sent, got). sent = got) (results msgs s))) (\<lambda>_.
     rbind (py_assert (connections_served (stop (srv s)) \<ge> int (length msgs))) (\<lambda>_.
     py_assert (length (results msgs s) = length msgs)))"


section \<open>The invariant\<close>

text \<open>What connects the two ends of connection \<open>i\<close>: the bytes read, on the way back and on the way there are the message.\<close>

definition link_ok :: "string list \<Rightarrow> network \<Rightarrow> nat \<Rightarrow> bool" where
  "link_ok msgs s i = (case clients s ! i of
     Start \<Rightarrow> i \<notin> set (backlog s) \<union> registered (srv s) \<union> shut s \<and> inbuf s i = [] \<and> outbuf s i = []
   | Reading chunks \<Rightarrow> chunks @ outbuf s i @ inbuf s i = msgs ! i \<and> length chunks < length (msgs ! i) \<and> \<not> eof s i \<and>
       i \<notin> shut s \<and> i \<in> set (backlog s) \<union> registered (srv s)
   | Got chunks \<Rightarrow> chunks = msgs ! i \<and> inbuf s i = [] \<and> outbuf s i = [] \<and> eof s i \<and>
       i \<in> set (backlog s) \<union> registered (srv s) \<union> shut s)"

text \<open>Bytes of connection \<open>i\<close> that are still to be echoed.\<close>

definition unsent :: "string list \<Rightarrow> network \<Rightarrow> nat \<Rightarrow> int" where
  "unsent msgs s i = int (if clients s ! i = Start then length (msgs ! i) else length (inbuf s i))"

definition places_ok :: "string list \<Rightarrow> network \<Rightarrow> bool" where
  "places_ok msgs s \<longleftrightarrow> length (clients s) = length msgs \<and> running (srv s) \<and> distinct (backlog s) \<and>
     set (backlog s) \<union> registered (srv s) \<union> shut s \<subseteq> {..<length msgs} \<and>
     set (backlog s) \<inter> registered (srv s) = {} \<and> shut s \<inter> (set (backlog s) \<union> registered (srv s)) = {}"

definition echo_inv :: "string list \<Rightarrow> network \<Rightarrow> bool" where
  "echo_inv msgs s \<longleftrightarrow> places_ok msgs s \<and> (\<forall>i < length msgs. link_ok msgs s i) \<and>
     connections_served (srv s) = int (card (shut s)) \<and>
     bytes_echoed (srv s) + (\<Sum>i < length msgs. unsent msgs s i) = (\<Sum>i < length msgs. int (length (msgs ! i)))"

lemma accept_conns:
  "accept_all (map Conn cs @ [Accept_Blocks]) sv = Inr (sv\<lparr>registered := registered sv \<union> set cs\<rparr>)"
  by (induction cs arbitrary: sv) simp_all

lemma echo_inv_link: "echo_inv msgs s \<Longrightarrow> i < length msgs \<Longrightarrow> link_ok msgs s i"
  by (simp add: echo_inv_def)

lemma echo_init_inv: "echo_inv msgs (echo_init msgs)"
  by (simp add: echo_inv_def places_ok_def link_ok_def unsent_def echo_init_def new_server_def)

lemma connect_inv:
  assumes "echo_inv msgs s" "i < length (clients s)" "clients s ! i = Start"
  shows "echo_inv msgs ((client_moves i (client_next (msgs ! i) []) s)\<lparr>backlog := backlog s @ [i], inbuf := (inbuf s)(i := msgs ! i)\<rparr>)"
    (is "echo_inv msgs ?s")
proof -
  have i: "i < length msgs" "i \<notin> set (backlog s) \<union> registered (srv s) \<union> shut s" "outbuf s i = []"
    using assms by (auto simp: echo_inv_def places_ok_def link_ok_def)
  have "places_ok msgs ?s" using assms i by (auto simp: echo_inv_def places_ok_def client_moves_def)
  moreover have "link_ok msgs ?s j" if "j < length msgs" for j
    using assms i that
    by (cases "j = i") (auto simp: echo_inv_def places_ok_def link_ok_def client_moves_def client_next_def split: client.splits)
  moreover have "unsent msgs ?s j = unsent msgs s j" if "j < length msgs" for j
    using assms that by (auto simp: unsent_def client_moves_def client_next_def echo_inv_def places_ok_def nth_list_update)
  ultimately show ?thesis using assms(1) by (simp add: echo_inv_def client_moves_def)
qed

lemma client_recv_inv:
  assumes "echo_inv msgs s" "i < length (clients s)" "clients s ! i = Reading chunks"
  shows "echo_inv msgs ((client_moves i (client_next (msgs ! i) (chunks @ take k (outbuf s i))) s)
    \<lparr>outbuf := (outbuf s)(i := drop k (outbuf s i))\<rparr>)" (is "echo_inv msgs ?s")
proof -
  have i: "i < length msgs" "chunks @ outbuf s i @ inbuf s i = msgs ! i" "i \<notin> shut s" "i \<in> set (backlog s) \<union> registered (srv s)"
    using assms by (auto simp: echo_inv_def places_ok_def link_ok_def)
  have split: "chunks @ take k (outbuf s i) @ drop k (outbuf s i) @ inbuf s i = msgs ! i"
    using i(2) append_take_drop_id [of k "outbuf s i"] by (metis append.assoc)
  then have len: "length chunks + length (take k (outbuf s i)) + length (drop k (outbuf s i)) + length (inbuf s i) = length (msgs ! i)"
    by (metis add.assoc length_append)
  have "places_ok msgs ?s" using assms by (auto simp: echo_inv_def places_ok_def client_moves_def)
  moreover have "link_ok msgs ?s i"
  proof (cases "length chunks + length (take k (outbuf s i)) < length (msgs ! i)")
    case True
    then show ?thesis using assms(2) i split by (simp add: link_ok_def client_moves_def client_next_def)
  next
    case False
    then have "drop k (outbuf s i) = []" "inbuf s i = []" using len by (simp_all flip: length_0_conv)
    then show ?thesis using assms(2) i split False by (simp add: link_ok_def client_moves_def client_next_def)
  qed
  moreover have "link_ok msgs ?s j" if "j < length msgs" "j \<noteq> i" for j
    using assms that by (auto simp: echo_inv_def link_ok_def client_moves_def split: client.splits)
  moreover have "unsent msgs ?s j = unsent msgs s j" for j
    using assms by (auto simp: unsent_def client_moves_def client_next_def nth_list_update)
  ultimately show ?thesis using assms(1) by (auto simp: echo_inv_def client_moves_def)
qed

lemma accept_inv:
  assumes "echo_inv msgs s"
  shows "echo_inv msgs (s\<lparr>srv := (srv s)\<lparr>registered := registered (srv s) \<union> set (backlog s)\<rparr>, backlog := []\<rparr>)" (is "echo_inv msgs ?s")
proof -
  have "places_ok msgs ?s" using assms by (auto simp: echo_inv_def places_ok_def)
  moreover have "link_ok msgs ?s j" if "j < length msgs" for j
    using assms that by (auto simp: echo_inv_def link_ok_def split: client.splits)
  moreover have "unsent msgs ?s j = unsent msgs s j" for j by (simp add: unsent_def)
  ultimately show ?thesis using assms by (simp add: echo_inv_def)
qed

lemma serve_data_inv:
  assumes inv: "echo_inv msgs s" and c: "c \<in> registered (srv s)" and d: "d = take k (inbuf s c)"
  shows "echo_inv msgs (s\<lparr>srv := (srv s)\<lparr>bytes_echoed := bytes_echoed (srv s) + int (length d)\<rparr>,
    inbuf := (inbuf s)(c := drop k (inbuf s c)), outbuf := (outbuf s)(c := outbuf s c @ d)\<rparr>)" (is "echo_inv msgs ?s")
proof -
  have cN: "c < length msgs" "clients s ! c \<noteq> Start" using inv c by (auto simp: echo_inv_def places_ok_def link_ok_def)
  have "places_ok msgs ?s" using inv by (simp add: echo_inv_def places_ok_def)
  moreover have "link_ok msgs ?s j" if "j < length msgs" for j
    using inv c that unfolding d
    by (cases "j = c") (auto simp: echo_inv_def link_ok_def split: client.splits)
  moreover have "(\<Sum>j < length msgs. unsent msgs s j) = (\<Sum>j < length msgs. unsent msgs ?s j) + int (length d)"
  proof -
    have "(\<Sum>j < length msgs. unsent msgs s j) = unsent msgs s c + (\<Sum>j \<in> {..<length msgs} - {c}. unsent msgs s j)" for s
      using cN(1) by (intro sum.remove) auto
    moreover have "unsent msgs ?s j = unsent msgs s j" if "j \<noteq> c" for j using that by (simp add: unsent_def)
    moreover have "unsent msgs s c = unsent msgs ?s c + int (length d)" using cN(2) by (auto simp: unsent_def d of_nat_diff min_def)
    ultimately show ?thesis by simp
  qed
  ultimately show ?thesis using inv by (simp add: echo_inv_def)
qed

lemma serve_close_inv:
  assumes inv: "echo_inv msgs s" and c: "c \<in> registered (srv s)" and eof: "eof s c"
  shows "echo_inv msgs (s\<lparr>srv := close_conn c (srv s), inbuf := (inbuf s)(c := drop k (inbuf s c)), shut := insert c (shut s)\<rparr>)"
    (is "echo_inv msgs ?s")
proof -
  have cN: "c < length msgs" "c \<notin> shut s" "finite (shut s)" "shut s \<subseteq> {..<length msgs}"
    using inv c by (auto simp: echo_inv_def places_ok_def dest: finite_subset)
  have got: "clients s ! c = Got (msgs ! c)" "inbuf s c = []"
    using echo_inv_link [OF inv cN(1)] c eof by (auto simp: link_ok_def split: client.splits)
  have "places_ok msgs ?s" using inv cN c by (auto simp: echo_inv_def places_ok_def close_conn_def)
  moreover have "link_ok msgs ?s j" if "j < length msgs" for j
  proof (cases "j = c")
    case True
    then show ?thesis using got echo_inv_link [OF inv that] by (simp add: link_ok_def)
  next
    case False
    then show ?thesis using echo_inv_link [OF inv that] by (cases "clients s ! j") (simp_all add: link_ok_def close_conn_def)
  qed
  moreover have "unsent msgs ?s j = unsent msgs s j" for j using got by (simp add: unsent_def)
  ultimately show ?thesis using inv cN by (simp add: echo_inv_def close_conn_def)
qed


text \<open>In a reachable state the echoed data fits into the send buffer.\<close>

lemma serve_room:
  assumes "echo_inv msgs s" "c \<in> registered (srv s)" "\<forall>m \<in> set msgs. length m \<le> sndbuf"
  shows "length (take k (inbuf s c)) \<le> sndbuf - length (outbuf s c)"
proof -
  have c: "c < length msgs" using assms(1,2) by (auto simp: echo_inv_def places_ok_def)
  have "length (outbuf s c) + length (inbuf s c) \<le> length (msgs ! c)"
  proof (cases "clients s ! c")
    case (Reading chunks)
    then have "chunks @ outbuf s c @ inbuf s c = msgs ! c" using echo_inv_link [OF assms(1) c] by (simp add: link_ok_def)
    then have "length (chunks @ outbuf s c @ inbuf s c) = length (msgs ! c)" by (rule arg_cong)
    then show ?thesis by simp
  qed (use echo_inv_link [OF assms(1) c] in \<open>simp_all add: link_ok_def\<close>)
  also have "\<dots> \<le> sndbuf" using assms(3) c by simp
  finally show ?thesis by auto
qed

lemma echo_step_inv:
  assumes step: "echo_step msgs sndbuf s s'" and inv: "echo_inv msgs s" and small: "\<forall>m \<in> set msgs. length m \<le> sndbuf"
  shows "echo_inv msgs s'"
  using step
proof cases
  case (connect i)
  then show ?thesis using connect_inv inv by simp
next
  case (client_recv i chunks k)
  then show ?thesis using client_recv_inv inv by simp
next
  case (client_fin i chunks)
  then have "i < length msgs" using inv by (simp add: echo_inv_def places_ok_def)
  with echo_inv_link [OF inv this] client_fin show ?thesis by (simp add: link_ok_def)
next
  case (accept srv')
  then show ?thesis using accept_inv [OF inv] by (simp add: accept_conns)
next
  case (serve c k d room srv')
  have fits: "length d \<le> room" using serve_room [OF inv serve(3) small] serve(7,8) by simp
  then have all: "take room d = d" by simp
  show ?thesis
  proof (cases "d = []")
    case True
    then have "eof s c" "inbuf s c = []" using serve by auto
    moreover have "srv' = close_conn c (srv s)" using serve(9) True by (simp add: service_def)
    moreover from this have "c \<notin> registered srv'" by (simp add: close_conn_def)
    ultimately show ?thesis using serve_close_inv [OF inv serve(3), of k] serve(1) True by simp
  next
    case False
    then have "srv' = (srv s)\<lparr>bytes_echoed := bytes_echoed (srv s) + int (length d)\<rparr>" using serve(9) fits by (simp add: service_def)
    then show ?thesis using serve_data_inv [OF inv serve(3,7)] serve(1,3) all by simp
  qed
qed

section \<open>Progress and termination\<close>

lemma backlog_moves:
  assumes "echo_inv msgs s" "backlog s \<noteq> []"
  shows "\<exists>s'. echo_step msgs sndbuf s s'"
proof -
  have "running (srv s)" using assms(1) by (simp add: echo_inv_def places_ok_def)
  then show ?thesis using echo_step.accept [OF _ assms(2), where msgs = msgs and sndbuf = sndbuf] by (auto simp: accept_conns)
qed

lemma ready_moves:
  assumes "echo_inv msgs s" "c \<in> registered (srv s)" "inbuf s c \<noteq> [] \<or> eof s c"
  shows "\<exists>s'. echo_step msgs sndbuf s s'"
proof -
  have run: "running (srv s)" using assms(1) by (simp add: echo_inv_def places_ok_def)
  have "\<exists>srv'. handle_event (Client c (Data d) ok) (srv s) = Inr srv'" for d ok by (simp add: service_def)
  then show ?thesis using echo_step.serve [OF run assms(2,3), of 1 _ _ sndbuf _ msgs] by (meson one_le_numeral zero_less_one)
qed

text \<open>Where nothing can move, every client has its message and every connection is closed.\<close>

lemma stuck_done:
  assumes inv: "echo_inv msgs s" and stuck: "\<nexists>s'. echo_step msgs sndbuf s s'" and i: "i < length msgs"
  shows "clients s ! i = Got (msgs ! i) \<and> i \<in> shut s"
proof -
  have len: "i < length (clients s)" using inv i by (simp add: echo_inv_def places_ok_def)
  have none: "backlog s = []" using backlog_moves [OF inv] stuck by blast
  note link = echo_inv_link [OF inv i]
  show ?thesis
  proof (cases "clients s ! i")
    case Start
    then show ?thesis using stuck echo_step.connect [OF len] by blast
  next
    case (Reading chunks)
    then have "outbuf s i = []" using stuck echo_step.client_recv [OF len Reading, of 1 msgs sndbuf] by force
    with link Reading none have "inbuf s i \<noteq> []" "i \<in> registered (srv s)" by (auto simp: link_ok_def)
    with ready_moves [OF inv] stuck show ?thesis by blast
  next
    case (Got chunks)
    with link none have "eof s i" "i \<in> registered (srv s) \<union> shut s" "chunks = msgs ! i" by (auto simp: link_ok_def)
    with ready_moves [OF inv] stuck Got show ?thesis by blast
  qed
qed

text \<open>What is left to do on a connection.\<close>

definition link_work :: "string list \<Rightarrow> network \<Rightarrow> nat \<Rightarrow> nat" where
  "link_work msgs s i =
     (if clients s ! i = Start then 2 * length (msgs ! i) + 4
      else 2 * length (inbuf s i) + length (outbuf s i) + (if is_got (clients s ! i) then 0 else 1)) +
     (if i \<in> set (backlog s) then 2 else if i \<in> registered (srv s) then 1 else 0)"

definition echo_work :: "string list \<Rightarrow> network \<Rightarrow> nat" where
  "echo_work msgs s = (\<Sum>i < length msgs. link_work msgs s i)"

lemma echo_work_less:
  assumes "\<And>j. j < length msgs \<Longrightarrow> link_work msgs s' j \<le> link_work msgs s j" "i < length msgs" "link_work msgs s' i < link_work msgs s i"
  shows "echo_work msgs s' < echo_work msgs s"
  unfolding echo_work_def by (rule sum_strict_mono_ex1) (use assms in auto)


lemma echo_step_work:
  assumes step: "echo_step msgs sndbuf s s'" and inv: "echo_inv msgs s"
  shows "echo_work msgs s' < echo_work msgs s"
  using step
proof cases
  case (connect i)
  have i: "i < length msgs" "i \<notin> registered (srv s)" "i \<notin> set (backlog s)" "outbuf s i = []"
    using inv connect echo_inv_link [OF inv, of i] by (auto simp: echo_inv_def places_ok_def link_ok_def)
  show ?thesis
    by (rule echo_work_less [OF _ i(1)])
      (use connect i in \<open>auto simp: link_work_def client_moves_def client_next_def nth_list_update\<close>)
next
  case (client_recv i chunks k)
  have i: "i < length msgs" using inv client_recv by (simp add: echo_inv_def places_ok_def)
  show ?thesis
    by (rule echo_work_less [OF _ i])
      (use client_recv i in \<open>auto simp: link_work_def client_moves_def client_next_def nth_list_update\<close>)
next
  case (client_fin i chunks)
  have i: "i < length msgs" using inv client_fin by (simp add: echo_inv_def places_ok_def)
  show ?thesis
    by (rule echo_work_less [OF _ i]) (use client_fin in \<open>auto simp: link_work_def client_moves_def nth_list_update\<close>)
next
  case (accept srv')
  have i: "hd (backlog s) \<in> set (backlog s)" using accept(3) by simp
  moreover have "set (backlog s) \<subseteq> {..<length msgs}" using inv by (simp add: echo_inv_def places_ok_def)
  ultimately have N: "hd (backlog s) < length msgs" by blast
  show ?thesis
    by (rule echo_work_less [OF _ N]) (use accept i in \<open>auto simp: link_work_def accept_conns\<close>)
next
  case (serve c k d room srv')
  have c: "c < length msgs" "c \<notin> set (backlog s)" "clients s ! c \<noteq> Start"
    using inv serve(3) echo_inv_link [OF inv, of c] by (auto simp: echo_inv_def places_ok_def link_ok_def)
  have other: "link_work msgs s' j = link_work msgs s j" if "j \<noteq> c" for j
    using serve that by (auto simp: link_work_def service_def close_conn_def split: if_splits)
  have bytes: "2 * length (drop k (inbuf s c)) + length (outbuf s c @ take room d) \<le> 2 * length (inbuf s c) + length (outbuf s c)"
    using serve(7) by auto
  have less: "2 * length (drop k (inbuf s c)) + length (outbuf s c @ take room d) < 2 * length (inbuf s c) + length (outbuf s c)"
    if "d \<noteq> []"
  proof -
    have "0 < k" "inbuf s c \<noteq> []" using that serve(5,7) by auto
    then have "2 * (length (inbuf s c) - k) + min k (length (inbuf s c)) < 2 * length (inbuf s c)"
      by (cases "k \<le> length (inbuf s c)") (simp_all add: min_def)
    moreover have "length (take room d) \<le> min k (length (inbuf s c))" using serve(7) by simp
    ultimately have "2 * (length (inbuf s c) - k) + length (take room d) < 2 * length (inbuf s c)" by linarith
    then show ?thesis by simp
  qed
  have "link_work msgs s' c < link_work msgs s c"
  proof (cases "d = []")
    case True
    then have "c \<notin> registered srv'" using serve(9) by (auto simp: service_def close_conn_def)
    then show ?thesis using serve(1,3) c bytes by (simp add: link_work_def)
  next
    case False
    then have "registered srv' \<subseteq> registered (srv s)" using serve(9) by (auto simp: service_def close_conn_def split: if_splits)
    then show ?thesis using serve(1,3) c less [OF False] by (auto simp: link_work_def)
  qed
  with other show ?thesis by (intro echo_work_less [OF _ c(1)]) (metis order_refl less_imp_le)
qed

text \<open>The invariant of a run whose messages fit.\<close>

definition echo_good :: "string list \<Rightarrow> nat \<Rightarrow> network \<Rightarrow> bool" where
  "echo_good msgs sndbuf s \<longleftrightarrow> (\<forall>m \<in> set msgs. length m \<le> sndbuf) \<and> echo_inv msgs s"

interpretation echo: step_progress "echo_step msgs sndbuf" "echo_good msgs sndbuf" "echo_work msgs"
  by unfold_locales (auto simp: echo_good_def intro: echo_step_inv echo_step_work)

lemma echo_init_good: "\<forall>m \<in> set msgs. length m \<le> sndbuf \<Longrightarrow> echo_good msgs sndbuf (echo_init msgs)"
  by (simp add: echo_good_def echo_init_inv)

lemma results_done:
  assumes "length (clients s) = length msgs" "\<And>i. i < length msgs \<Longrightarrow> clients s ! i = Got (msgs ! i)"
  shows "results msgs s = map (\<lambda>m. (m, m)) msgs"
proof -
  have "clients s = map Got msgs" using assms by (intro nth_equalityI) simp_all
  moreover have "List.map_filter (\<lambda>(msg, c). map_option (\<lambda>got. (msg, got)) (result_of c)) (zip ms (map Got ms)) = map (\<lambda>m. (m, m)) ms" for ms
    by (induction ms) (simp_all add: List.map_filter_simps)
  ultimately show ?thesis by (simp add: results_def)
qed

section \<open>Properties\<close>

text \<open>C9. The event loop and any number of clients, for messages that fit into a send buffer, in every interleaving and for every
  way TCP cuts the streams: a client that returns got its own message back; whenever nothing can move, the asserts of
  the main block succeed, every connection was served exactly once and every byte was echoed exactly once; and no run
  is infinite.\<close>

theorem echo_server_exact:
  assumes "\<forall>m \<in> set msgs. length m \<le> sndbuf"
  shows "((echo_step msgs sndbuf)\<^sup>*\<^sup>* (echo_init msgs) s \<longrightarrow>
      (\<forall>i < length msgs. \<forall>got. clients s ! i = Got got \<longrightarrow> got = msgs ! i) \<and>
      ((\<exists>s'. echo_step msgs sndbuf s s') \<or>
       echo_checks msgs s = Inr () \<and> connections_served (srv s) = int (length msgs) \<and>
       bytes_echoed (srv s) = int (sum_list (map length msgs)))) \<and>
    wfp (\<lambda>s' s. (echo_step msgs sndbuf)\<^sup>*\<^sup>* (echo_init msgs) s \<and> echo_step msgs sndbuf s s')"
proof (intro conjI impI)
  assume run: "(echo_step msgs sndbuf)\<^sup>*\<^sup>* (echo_init msgs) s"
  have inv: "echo_inv msgs s" using echo.reach_inv [OF run echo_init_good [OF assms]] by (simp add: echo_good_def)
  show "\<forall>i < length msgs. \<forall>got. clients s ! i = Got got \<longrightarrow> got = msgs ! i"
    using echo_inv_link [OF inv] by (fastforce simp: link_ok_def)
  show "(\<exists>s'. echo_step msgs sndbuf s s') \<or>
       echo_checks msgs s = Inr () \<and> connections_served (srv s) = int (length msgs) \<and>
       bytes_echoed (srv s) = int (sum_list (map length msgs))"
  proof (cases "\<exists>s'. echo_step msgs sndbuf s s'")
    case False
    then have stuck: "\<nexists>s'. echo_step msgs sndbuf s s'" .
    note fin = stuck_done [OF inv stuck]
    have "shut s = {..<length msgs}" using fin inv by (auto simp: echo_inv_def places_ok_def)
    then have served: "connections_served (srv s) = int (length msgs)" using inv by (simp add: echo_inv_def)
    have "length (clients s) = length msgs" using inv by (simp add: echo_inv_def places_ok_def)
    then have res: "results msgs s = map (\<lambda>m. (m, m)) msgs" using fin by (intro results_done) auto
    have "unsent msgs s i = 0" if "i < length msgs" for i
      using fin [OF that] echo_inv_link [OF inv that] by (simp add: unsent_def link_ok_def)
    then have "bytes_echoed (srv s) = (\<Sum>i < length msgs. int (length (msgs ! i)))" using inv by (simp add: echo_inv_def)
    also have "\<dots> = int (sum_list (map length msgs))" by (simp add: sum_list_sum_nth atLeast0LessThan)
    finally show ?thesis
      using served res by (intro disjI2) (simp add: echo_checks_def py_assert_def stop_def list_all_iff)
  qed simp
next
  show "wfp (\<lambda>s' s. (echo_step msgs sndbuf)\<^sup>*\<^sup>* (echo_init msgs) s \<and> echo_step msgs sndbuf s s')"
    by (rule echo.terminates [OF echo_init_good [OF assms]])
qed


lemma client_messages_small: "\<forall>m \<in> set (map client_message [0..<50]). length m \<le> 4096"
proof -
  have "list_all (\<lambda>m. length m \<le> 4096) (map client_message [0..<50])" by code_simp
  then show ?thesis by (simp only: list_all_iff)
qed

text \<open>The run of the main block, with its fifty clients.\<close>

theorem echo_server_exact_witness:
  "\<exists>s. (echo_step (map client_message [0..<50]) 4096)\<^sup>*\<^sup>* (echo_init (map client_message [0..<50])) s \<and>
     echo_checks (map client_message [0..<50]) s = Inr () \<and> connections_served (srv s) = 50"
proof -
  let ?m = "map client_message [0..<50]"
  let ?R = "echo_step ?m 4096"
  note E = echo_server_exact [OF client_messages_small]
  obtain s where s: "?R\<^sup>*\<^sup>* (echo_init ?m) s" "\<nexists>s'. ?R s s'"
    using echo.reaches_end [OF echo_init_good [OF client_messages_small]] by blast
  with s E show ?thesis by (intro exI [of _ s]) auto
qed

text \<open>A message larger than the send buffer comes back truncated: \<^verbatim>\<open>sendall\<close> raises on the full buffer, and the connection is closed.\<close>

definition truncated_end :: network where
  "truncated_end = \<lparr>srv = \<lparr>registered = {}, connections_served = 1, bytes_echoed = 0, running = True\<rparr>, backlog = [], inbuf = (\<lambda>_. []),
     outbuf = (\<lambda>_. []), eof = (\<lambda>_. False)(0 := True), shut = {0}, clients = [Got ''a'']\<rparr>"

lemma large_message_truncated:
  "(echo_step [''ab''] 1)\<^sup>*\<^sup>* (echo_init [''ab'']) truncated_end \<and> echo_checks [''ab''] truncated_end = Inl AssertionError"
proof
  let ?R = "echo_step [''ab''] 1"
  let ?s1 = "(client_moves 0 (Reading []) (echo_init [''ab'']))\<lparr>backlog := [0], inbuf := (\<lambda>_. [])(0 := ''ab'')\<rparr>"
  let ?s2 = "?s1\<lparr>srv := (srv ?s1)\<lparr>registered := {0}\<rparr>, backlog := []\<rparr>"
  let ?s3 = "?s2\<lparr>srv := close_conn 0 (srv ?s2), inbuf := (inbuf ?s2)(0 := []), outbuf := (\<lambda>_. [])(0 := ''a''), shut := {0}\<rparr>"
  let ?s4 = "(client_moves 0 (Reading ''a'') ?s3)\<lparr>outbuf := (outbuf ?s3)(0 := [])\<rparr>"
  have r1: "?R (echo_init [''ab'']) ?s1"
    using echo_step.connect [of 0 "echo_init [''ab'']" "[''ab'']" 1] by (simp add: echo_init_def client_next_def)
  have r2: "?R ?s1 ?s2"
    using echo_step.accept [of ?s1 "(srv ?s1)\<lparr>registered := {0}\<rparr>" "[''ab'']" 1]
    by (simp add: echo_init_def client_moves_def new_server_def)
  have r3: "?R ?s2 ?s3"
    using echo_step.serve [of ?s2 0 2 "''ab''" 1 1 "close_conn 0 (srv ?s2)" "[''ab'']"]
    by (simp add: echo_init_def client_moves_def new_server_def service_def close_conn_def fun_upd_def)
  have r4: "?R ?s3 ?s4"
    using echo_step.client_recv [of 0 ?s3 "[]" 1 "[''ab'']" 1] by (simp add: echo_init_def client_moves_def client_next_def fun_upd_def)
  have "truncated_end = client_moves 0 (Got ''a'') ?s4"
    by (auto simp: truncated_end_def echo_init_def client_moves_def new_server_def close_conn_def fun_upd_def)
  then have r5: "?R ?s4 truncated_end"
    using echo_step.client_fin [of 0 ?s4 "''a''" "[''ab'']" 1] by (simp add: echo_init_def client_moves_def)
  note C = converse_rtranclp_into_rtranclp [of ?R]
  show "?R\<^sup>*\<^sup>* (echo_init [''ab'']) truncated_end" by (rule C [OF r1 C [OF r2 C [OF r3 C [OF r4 r_into_rtranclp [of ?R, OF r5]]]]])
  show "echo_checks [''ab''] truncated_end = Inl AssertionError"
    by (simp add: echo_checks_def results_def truncated_end_def List.map_filter_simps py_assert_def)
qed

text \<open>One failing \<^verbatim>\<open>accept\<close> or an unexpected error of \<^verbatim>\<open>recv\<close> ends the loop for every connection; a receive that would block closes a live one.\<close>

lemma uncaught_errors_stop_loop:
  "serve_round (Listener (map Conn cs @ Accept_Fails # answers) # es) sv = Inl OSError"
  "serve_round (Client c Recv_Fails ok # es) sv = Inl OSError"
  "handle_event (Client c Recv_Blocks ok) sv = Inr (close_conn c sv)"
proof -
  have "accept_all (map Conn cs @ Accept_Fails # answers) sv = Inl OSError" by (induction cs arbitrary: sv) simp_all
  then show "serve_round (Listener (map Conn cs @ Accept_Fails # answers) # es) sv = Inl OSError" by simp
qed (simp_all add: service_def)

end
