(* ===== verification/Proc_Text.thy ===== *)
theory Proc_Text
  imports Py_Str
begin

text \<open>
  The string operations of the scripts that read \<^verbatim>\<open>/proc\<close> and \<^verbatim>\<open>/sys\<close>: \<^verbatim>\<open>splitlines\<close>, \<^verbatim>\<open>split\<close> without an argument,
  \<^verbatim>\<open>rstrip\<close>/\<^verbatim>\<open>lstrip\<close> of one character, \<^verbatim>\<open>isdigit\<close> and \<^verbatim>\<open>upper\<close>, for the ASCII text the kernel writes there; and counting
  in a dictionary, which several of them do.
\<close>

section \<open>Lines and words\<close>

definition is_break :: "char \<Rightarrow> bool" where
  "is_break c \<longleftrightarrow> (let n = of_char c :: int in (10 \<le> n \<and> n \<le> 13) \<or> (28 \<le> n \<and> n \<le> 30) \<or> n = 133)"

text \<open>A carriage return followed by a line feed is one break; the last line needs none.\<close>

definition after_break :: "string \<Rightarrow> string" where
  "after_break s = (case s of [] \<Rightarrow> [] | c # cs \<Rightarrow>
     (case cs of [] \<Rightarrow> [] | d # ds \<Rightarrow> if c = CHR 0x0D \<and> d = CHR 0x0A then ds else cs))"

lemma after_break_length: "s \<noteq> [] \<Longrightarrow> length (after_break s) < length s"
  by (auto simp: after_break_def split: list.splits)

function splitlines :: "string \<Rightarrow> string list" where
  "splitlines s = (if s = [] then []
     else takeWhile (\<lambda>c. \<not> is_break c) s # splitlines (after_break (dropWhile (\<lambda>c. \<not> is_break c) s)))"
  by pat_completeness auto

termination
proof (relation "measure length", goal_cases)
  case (2 s)
  let ?r = "dropWhile (\<lambda>c. \<not> is_break c) s"
  have "length (after_break ?r) < length s"
  proof (cases "?r = []")
    case True
    then have "after_break ?r = []" by (simp only: after_break_def list.case)
    with 2 show ?thesis by simp
  next
    case False
    have "length ?r \<le> length s" by (rule length_dropWhile_le)
    with after_break_length [OF False] show ?thesis by linarith
  qed
  then show ?case by simp
qed simp

declare splitlines.simps [simp del]

function split_ws :: "string \<Rightarrow> string list" where
  "split_ws s = (case dropWhile is_space s of [] \<Rightarrow> []
     | c # cs \<Rightarrow> (c # takeWhile (\<lambda>c. \<not> is_space c) cs) # split_ws (dropWhile (\<lambda>c. \<not> is_space c) cs))"
  by pat_completeness auto

termination
proof (relation "measure length", goal_cases)
  case (2 s c cs)
  have "length (c # cs) \<le> length s" using 2 length_dropWhile_le [of is_space s] by simp
  moreover have "length (dropWhile (\<lambda>c. \<not> is_space c) cs) \<le> length cs" by (rule length_dropWhile_le)
  ultimately show ?case by simp
qed simp

declare split_ws.simps [simp del]

definition rstrip_char :: "char \<Rightarrow> string \<Rightarrow> string" where
  "rstrip_char c s = rev (dropWhile (\<lambda>x. x = c) (rev s))"

definition lstrip_char :: "char \<Rightarrow> string \<Rightarrow> string" where
  "lstrip_char c s = dropWhile (\<lambda>x. x = c) s"

text \<open>\<^verbatim>\<open>str.isdigit\<close>: the superscripts two, three and one count as digits too, although \<^verbatim>\<open>int\<close> refuses them.\<close>

definition isdigit :: "string \<Rightarrow> bool" where
  "isdigit s \<longleftrightarrow> s \<noteq> [] \<and>
     list_all (\<lambda>c. let n = of_char c :: int in (48 \<le> n \<and> n \<le> 57) \<or> n = 178 \<or> n = 179 \<or> n = 185) s"

definition upper_ascii :: "string \<Rightarrow> string" where
  "upper_ascii s = map (\<lambda>c. if 97 \<le> (of_char c :: int) \<and> (of_char c :: int) \<le> 122 then char_of (of_char c - 32 :: int) else c) s"

definition startswith :: "string \<Rightarrow> string \<Rightarrow> bool" where
  "startswith p s \<longleftrightarrow> take (length p) s = p"

section \<open>What splitting inverts\<close>

lemma splitlines_Cons:
  assumes "\<forall>c \<in> set l. \<not> is_break c"
  shows "splitlines (l @ CHR 0x0A # s) = l # splitlines s"
proof -
  have brk: "is_break CHR 0x0A" by (simp add: is_break_def)
  have "takeWhile (\<lambda>c. \<not> is_break c) (l @ CHR 0x0A # s) = l" "dropWhile (\<lambda>c. \<not> is_break c) (l @ CHR 0x0A # s) = CHR 0x0A # s"
    using assms brk by (simp_all add: takeWhile_append2 dropWhile_append2)
  moreover have "after_break (CHR 0x0A # s) = s" by (simp add: after_break_def split: list.splits)
  ultimately show ?thesis by (simp add: splitlines.simps [of "l @ CHR 0x0A # s"])
qed

lemma splitlines_Nil [simp]: "splitlines [] = []"
  by (simp add: splitlines.simps)

lemma splitlines_unlines:
  assumes "\<And>l. l \<in> set ls \<Longrightarrow> \<forall>c \<in> set l. \<not> is_break c"
  shows "splitlines (concat (map (\<lambda>l. l @ [CHR 0x0A]) ls)) = ls"
  using assms
proof (induction ls)
  case (Cons l ls)
  have "splitlines (concat (map (\<lambda>l. l @ [CHR 0x0A]) ls)) = ls"
    by (rule Cons.IH) (rule Cons.prems, simp)
  moreover have "\<forall>c \<in> set l. \<not> is_break c" using Cons.prems [of l] by simp
  ultimately show ?case by (simp add: splitlines_Cons)
qed simp

definition is_word :: "string \<Rightarrow> bool" where
  "is_word w \<longleftrightarrow> w \<noteq> [] \<and> (\<forall>c \<in> set w. \<not> is_space c)"

lemma split_ws_word: "is_word w \<Longrightarrow> split_ws w = [w]"
proof -
  assume w: "is_word w"
  then obtain c cs where "w = c # cs" by (cases w) (auto simp: is_word_def)
  moreover from this w have "dropWhile (\<lambda>c. \<not> is_space c) cs = []" "takeWhile (\<lambda>c. \<not> is_space c) cs = cs"
    by (simp_all add: is_word_def takeWhile_eq_all_conv)
  moreover have "\<not> is_space c" using w calculation(1) by (simp add: is_word_def)
  ultimately show ?thesis
    unfolding split_ws.simps [of w] by (simp add: split_ws.simps [of "[]"] del: dropWhile_eq_Nil_conv takeWhile_eq_all_conv)
qed

lemma split_ws_lead [simp]: "is_space b \<Longrightarrow> split_ws (b # s) = split_ws s"
  by (simp add: split_ws.simps [of "b # s"] split_ws.simps [of s])

lemma split_ws_Cons: "is_word w \<Longrightarrow> is_space b \<Longrightarrow> split_ws (w @ b # s) = w # split_ws s"
proof -
  assume w: "is_word w" "is_space b"
  then obtain c cs where c: "w = c # cs" "\<not> is_space c" "\<forall>x \<in> set cs. \<not> is_space x" by (cases w) (auto simp: is_word_def)
  have "takeWhile (\<lambda>c. \<not> is_space c) (cs @ b # s) = cs" "dropWhile (\<lambda>c. \<not> is_space c) (cs @ b # s) = b # s"
    using c w by (simp_all add: takeWhile_append2 dropWhile_append2)
  then show ?thesis using c(1,2) w(2) by (simp add: split_ws.simps [of "c # cs @ b # s"])
qed

lemma split_ws_join: "ws \<noteq> [] \<Longrightarrow> (\<And>w. w \<in> set ws \<Longrightarrow> is_word w) \<Longrightarrow> split_ws (join_with '' '' ws) = ws"
proof (induction ws rule: induct_list012)
  case (3 w v ws)
  have "is_space CHR '' ''" by (simp add: is_space_def)
  with 3 show ?case by (simp add: split_ws_Cons)
qed (simp_all add: split_ws_word)

lemma split_ws_words: "w \<in> set (split_ws s) \<Longrightarrow> is_word w"
proof (induction s rule: split_ws.induct)
  case (1 s)
  show ?case
  proof (cases "dropWhile is_space s")
    case (Cons c cs)
    then have "\<not> is_space c" by (metis hd_dropWhile list.distinct(1) list.sel(1))
    then have first: "is_word (c # takeWhile (\<lambda>c. \<not> is_space c) cs)" by (auto simp: is_word_def dest: set_takeWhileD)
    have "split_ws s = (c # takeWhile (\<lambda>c. \<not> is_space c) cs) # split_ws (dropWhile (\<lambda>c. \<not> is_space c) cs)"
      by (simp add: split_ws.simps [of s] Cons)
    with 1(2) 1(1) [OF Cons] first show ?thesis by auto
  next
    case Nil
    then have "split_ws s = []" unfolding split_ws.simps [of s] by (simp only: list.case)
    with 1(2) show ?thesis by simp
  qed
qed

lemma is_break_space: "is_break c \<Longrightarrow> is_space c"
  by (auto simp: is_break_def is_space_int Let_def)

lemma py_str_word: "is_word (py_str n)"
proof -
  have digit: "\<not> is_space (digit_char d)" if "d < 10" for d
    using that digit_char_facts by (auto simp: is_space_int of_char_digit Let_def)
  have "\<not> is_space c" if "c \<in> set (str_nat m)" for c m using str_nat_digits [OF that] digit by blast
  then show ?thesis by (auto simp: is_word_def py_str_def minus_no_space)
qed

lemma isdigit_py_str: "isdigit (lstrip_char CHR ''-'' (py_str n))"
proof -
  have digit: "48 \<le> (of_char c :: int) \<and> (of_char c :: int) \<le> 57" if "c \<in> set (str_nat m)" for c m
    using str_nat_digits [OF that] by (auto simp: of_char_digit)
  have "c \<noteq> CHR ''-''" if "str_nat m = c # cs" for m c cs using str_nat_chars(4) [of c m] that by simp
  then have "lstrip_char CHR ''-'' (str_nat m) = str_nat m" for m by (cases "str_nat m") (auto simp: lstrip_char_def)
  moreover have "isdigit (str_nat m)" for m using digit [of _ m] by (simp add: isdigit_def list_all_iff)
  ultimately show ?thesis by (simp add: py_str_def lstrip_char_def)
qed

lemma splitlines_single: "l \<noteq> [] \<Longrightarrow> \<forall>c \<in> set l. \<not> is_break c \<Longrightarrow> splitlines l = [l]"
proof -
  assume l: "l \<noteq> []" "\<forall>c \<in> set l. \<not> is_break c"
  then have "takeWhile (\<lambda>c. \<not> is_break c) l = l" "dropWhile (\<lambda>c. \<not> is_break c) l = []"
    by (simp_all add: takeWhile_eq_all_conv)
  with l show ?thesis
    by (simp add: splitlines.simps [of l] after_break_def del: dropWhile_eq_Nil_conv takeWhile_eq_all_conv)
qed

lemma splitlines_last:
  assumes "\<forall>l \<in> set (ms @ [m]). \<forall>c \<in> set l. \<not> is_break c" "m \<noteq> []"
  shows "splitlines (concat (map (\<lambda>l. l @ [CHR 0x0A]) ms) @ m) = ms @ [m]"
  using assms by (induction ms) (auto simp: splitlines_Cons splitlines_single)

text \<open>\<^verbatim>\<open>text.strip().splitlines()\<close> on lines that neither begin nor end in a space.\<close>

lemma splitlines_strip:
  assumes ls: "ls \<noteq> []" "\<forall>l \<in> set ls. l \<noteq> [] \<and> \<not> is_space (hd l) \<and> \<not> is_space (last l) \<and> (\<forall>c \<in> set l. \<not> is_break c)"
  shows "splitlines (strip (concat (map (\<lambda>l. l @ [CHR 0x0A]) ls))) = ls"
proof -
  obtain ms m where ms: "ls = ms @ [m]" using ls(1) by (cases ls rule: rev_cases) auto
  let ?j = "concat (map (\<lambda>l. l @ [CHR 0x0A]) ms) @ m"
  have m: "m \<noteq> []" "\<not> is_space (last m)" using ls(2) ms by auto
  have hd: "\<not> is_space (hd ?j)" using ls(2) ms by (cases ms) auto
  have "dropWhile is_space (?j @ [CHR 0x0A]) = ?j @ [CHR 0x0A]"
    using hd m by (cases ?j) auto
  moreover have "is_space CHR 0x0A" by (simp add: is_space_int)
  moreover have "dropWhile is_space (rev ?j) = rev ?j" using m by (cases m rule: rev_cases) auto
  ultimately have "strip (?j @ [CHR 0x0A]) = ?j" by (simp add: strip_by_def)
  then show ?thesis using splitlines_last [of ms m] ls(2) m ms by auto
qed

lemma join_words_chars: "c \<in> set (join_with '' '' ws) \<Longrightarrow> c = CHR '' '' \<or> (\<exists>w \<in> set ws. c \<in> set w)"
  by (induction ws rule: induct_list012) auto

lemma join_words_no_break:
  assumes "\<forall>w \<in> set ws. is_word w" "c \<in> set (join_with '' '' ws)"
  shows "\<not> is_break c"
proof
  assume b: "is_break c"
  have "c \<noteq> CHR '' ''" using b by (auto simp: is_break_def Let_def)
  with join_words_chars [OF assms(2)] obtain w where "w \<in> set ws" "c \<in> set w" by blast
  with assms(1) is_break_space [OF b] show False by (auto simp: is_word_def)
qed

text \<open>A line of words is as \<open>splitlines_strip\<close> needs it.\<close>

lemma words_line:
  assumes "ws \<noteq> []" "\<forall>w \<in> set ws. is_word w"
  defines "l \<equiv> join_with '' '' ws"
  shows "l \<noteq> [] \<and> \<not> is_space (hd l) \<and> \<not> is_space (last l) \<and> (\<forall>c \<in> set l. \<not> is_break c)"
proof -
  have "\<not> is_space (hd l) \<and> \<not> is_space (last l) \<and> l \<noteq> []"
    using assms(1,2) unfolding l_def
  proof (induction ws rule: induct_list012)
    case (3 w v ws)
    then have "w \<noteq> []" "\<not> is_space (hd w)" by (auto simp: is_word_def)
    with 3 show ?case by auto
  qed (auto simp: is_word_def)
  moreover have "\<forall>c \<in> set l. \<not> is_break c" unfolding l_def using join_words_no_break [OF assms(2)] by blast
  ultimately show ?thesis by blast
qed

lemma parse_lines:
  assumes "rows \<noteq> []" "\<And>r. r \<in> set rows \<Longrightarrow> r \<noteq> [] \<and> (\<forall>w \<in> set r. is_word w)"
  shows "splitlines (strip (concat (map (\<lambda>r. join_with '' '' r @ [CHR 0x0A]) rows))) = map (join_with '' '') rows"
proof -
  have "concat (map (\<lambda>r. join_with '' '' r @ [CHR 0x0A]) rows) = concat (map (\<lambda>l. l @ [CHR 0x0A]) (map (join_with '' '') rows))"
    by (simp add: comp_def)
  moreover have "splitlines (strip (concat (map (\<lambda>l. l @ [CHR 0x0A]) (map (join_with '' '') rows)))) = map (join_with '' '') rows"
  proof (rule splitlines_strip)
    show "\<forall>l \<in> set (map (join_with '' '') rows). l \<noteq> [] \<and> \<not> is_space (hd l) \<and> \<not> is_space (last l) \<and> (\<forall>c \<in> set l. \<not> is_break c)"
    proof
      fix l
      assume "l \<in> set (map (join_with '' '') rows)"
      then obtain r where r: "r \<in> set rows" "l = join_with '' '' r" by auto
      show "l \<noteq> [] \<and> \<not> is_space (hd l) \<and> \<not> is_space (last l) \<and> (\<forall>c \<in> set l. \<not> is_break c)"
        unfolding r(2) by (rule words_line) (use assms(2) [OF r(1)] in auto)
    qed
  qed (use assms(1) in simp)
  ultimately show ?thesis by simp
qed

text \<open>Numerals as text, for evaluation.\<close>

lemma str_nat_eval: "n < 10 \<Longrightarrow> str_nat n = [digit_char n]" "10 \<le> n \<Longrightarrow> str_nat n = str_nat (n div 10) @ [digit_char (n mod 10)]"
  by (subst str_nat.simps, simp)+

lemma digit_chars:
  "digit_char 0 = CHR ''0''" "digit_char (Suc 0) = CHR ''1''" "digit_char 2 = CHR ''2''" "digit_char 3 = CHR ''3''" "digit_char 4 = CHR ''4''"
  "digit_char 5 = CHR ''5''" "digit_char 6 = CHR ''6''" "digit_char 7 = CHR ''7''" "digit_char 8 = CHR ''8''" "digit_char 9 = CHR ''9''"
  by code_simp+

section \<open>Counting in a dictionary\<close>

text \<open>\<^verbatim>\<open>d[k] = d.get(k, 0) + n\<close>.\<close>

definition bump :: "'k \<Rightarrow> int \<Rightarrow> ('k, int) dict \<Rightarrow> ('k, int) dict" where
  "bump k n d = AList.update k (dict_get d k 0 + n) d"

lemma bump_get [simp]: "dict_get (bump k n d) k' 0 = dict_get d k' 0 + (if k' = k then n else 0)"
  by (simp add: bump_def)

lemma bump_wf [simp]: "dict_wf d \<Longrightarrow> dict_wf (bump k n d)"
  by (simp add: bump_def distinct_update)

lemma update_keys: "fst ` set (AList.update k v d) = insert k (fst ` set d)"
  by (induction d) auto

lemma bump_keys: "fst ` set (bump k n d) = insert k (fst ` set d)"
  by (simp add: bump_def update_keys)

definition dict_total :: "('k, int) dict \<Rightarrow> int" where
  "dict_total d = sum_list (map snd d)"

lemma bump_total: "dict_wf d \<Longrightarrow> dict_total (bump k n d) = dict_total d + n"
  unfolding bump_def by (induction d) (auto simp: dict_total_def dict_get_def update_notin split: if_splits)

definition count_keys :: "'k list \<Rightarrow> ('k, int) dict \<Rightarrow> ('k, int) dict" where
  "count_keys ks d = fold (\<lambda>k. bump k 1) ks d"

lemma count_keys_get: "dict_get (count_keys ks d) k 0 = dict_get d k 0 + int (count_list ks k)"
  by (induction ks arbitrary: d) (auto simp: count_keys_def)

lemma count_keys_wf: "dict_wf d \<Longrightarrow> dict_wf (count_keys ks d)"
  by (induction ks arbitrary: d) (auto simp: count_keys_def)

lemma count_keys_keys: "set (dict_keys (count_keys ks d)) = set (dict_keys d) \<union> set ks"
  unfolding count_keys_def by (induction ks arbitrary: d) (auto simp: bump_keys)

lemma count_keys_total: "dict_wf d \<Longrightarrow> dict_total (count_keys ks d) = dict_total d + int (length ks)"
  unfolding count_keys_def by (induction ks arbitrary: d) (auto simp: bump_total)

end
