(* ===== verification/Net_Probes.thy ===== *)
theory Net_Probes
  imports Complex_Main Proc_Text Py_Bytes
begin

text \<open>
  The scripts that read the kernel's network tables: \<^verbatim>\<open>socket_state_summary.py\<close>, \<^verbatim>\<open>port_exhaustion_probe.py\<close> and
  \<^verbatim>\<open>tcp_retrans_monitor.py\<close>. A file is its text, or \<open>None\<close> when it cannot be opened or read; ratios are rationals.
\<close>

section \<open>Socket states\<close>

definition TCP_STATES :: "(string, string) dict" where
  "TCP_STATES = [(''01'', ''ESTABLISHED''), (''02'', ''SYN_SENT''), (''03'', ''SYN_RECV''), (''04'', ''FIN_WAIT1''),
    (''05'', ''FIN_WAIT2''), (''06'', ''TIME_WAIT''), (''07'', ''CLOSE''), (''08'', ''CLOSE_WAIT''),
    (''09'', ''LAST_ACK''), (''0A'', ''LISTEN''), (''0B'', ''CLOSING''), (''0C'', ''NEW_SYN_RECV'')]"

definition WARN :: "(string, int) dict" where
  "WARN = [(''TIME_WAIT'', 10000), (''CLOSE_WAIT'', 500), (''SYN_RECV'', 500)]"

definition state_name :: "string \<Rightarrow> string" where
  "state_name st = dict_get TCP_STATES st (''UNKNOWN('' @ st @ '')'')"

text \<open>The guard of the loop: \<open>True\<close> for the lines that are not skipped.\<close>

definition state_row :: "string list \<Rightarrow> bool" where
  "state_row parts \<longleftrightarrow> parts \<noteq> [] \<and> parts ! 0 \<noteq> ''sl'' \<and> isdigit (rstrip_char CHR '':'' (parts ! 0))"

fun states_loop :: "string list \<Rightarrow> (string, int) dict \<Rightarrow> (string, int) dict res" where
  "states_loop [] counts = Inr counts"
| "states_loop (line # lines) counts =
     (let parts = split_ws line in
      if \<not> state_row parts then states_loop lines counts
      else rbind (byte_at parts 3) (\<lambda>st. states_loop lines (bump (state_name (upper_ascii st)) 1 counts)))"

definition parse_states :: "string \<Rightarrow> (string, int) dict res" where
  "parse_states body = states_loop (splitlines (strip body)) []"

fun merge_states :: "string option list \<Rightarrow> (string, int) dict \<Rightarrow> bool \<Rightarrow> (string, int) dict option res" where
  "merge_states [] tot found = Inr (if found then Some tot else None)"
| "merge_states (None # files) tot found = merge_states files tot found"
| "merge_states (Some body # files) tot found =
     rbind (parse_states body) (\<lambda>counts. merge_states files (fold (\<lambda>(k, v). bump k v) counts tot) True)"

text \<open>\<open>tcp\<close> and \<open>tcp6\<close> are \<^verbatim>\<open>/proc/net/tcp\<close> and \<^verbatim>\<open>/proc/net/tcp6\<close>.\<close>

definition read_proc_states :: "string option \<Rightarrow> string option \<Rightarrow> (string, int) dict option res" where
  "read_proc_states tcp tcp6 = merge_states [tcp, tcp6] [] False"

definition ljust :: "nat \<Rightarrow> string \<Rightarrow> string" where
  "ljust w s = s @ replicate (w - length s) CHR '' ''"

definition rjust :: "nat \<Rightarrow> string \<Rightarrow> string" where
  "rjust w s = replicate (w - length s) CHR '' '' @ s"

definition summary_line :: "(string, int) dict \<Rightarrow> string \<Rightarrow> string" where
  "summary_line counts name =
     (let n = dict_get counts name 0;
          flag = (case map_of WARN name of None \<Rightarrow> '''' | Some w \<Rightarrow> if n \<ge> w then ''  <== HIGH'' else '''')
      in ''  '' @ ljust 14 name @ '' '' @ rjust 8 (py_str n) @ flag)"

definition format_summary :: "(string, int) dict \<Rightarrow> string" where
  "format_summary counts =
     join_with [CHR 0x0A] (map (summary_line counts) (sort_key (\<lambda>k. - dict_get counts k 0) (dict_keys counts)) @
       [''  '' @ ljust 14 ''TOTAL'' @ '' '' @ rjust 8 (py_str (dict_total counts))])"

section \<open>Ephemeral ports\<close>

definition port_row :: "string list \<Rightarrow> bool" where
  "port_row parts \<longleftrightarrow> \<not> length parts < 4 \<and> isdigit (rstrip_char CHR '':'' (parts ! 0))"

text \<open>\<^verbatim>\<open>int(local.split(":")[1], 16)\<close>; both exceptions it can raise are caught.\<close>

definition local_port :: "string \<Rightarrow> int res" where
  "local_port local = rbind (byte_at (split_on CHR '':'' local) 1) (\<lambda>p. py_int 16 p)"

fun ports_loop :: "string list \<Rightarrow> int \<Rightarrow> int \<Rightarrow> int set \<Rightarrow> (string, int) dict \<Rightarrow> int set \<times> (string, int) dict" where
  "ports_loop [] lo hi used per_remote = (used, per_remote)"
| "ports_loop (line # lines) lo hi used per_remote =
     (let parts = split_ws line in
      if \<not> port_row parts then ports_loop lines lo hi used per_remote
      else if upper_ascii (parts ! 3) = ''0A'' then ports_loop lines lo hi used per_remote
      else case local_port (parts ! 1) of
          Inl _ \<Rightarrow> ports_loop lines lo hi used per_remote
        | Inr lport \<Rightarrow> if lo \<le> lport \<and> lport \<le> hi
            then ports_loop lines lo hi (insert lport used) (bump (parts ! 2) 1 per_remote)
            else ports_loop lines lo hi used per_remote)"

definition ephemeral_ports_in_use :: "string \<Rightarrow> int \<Rightarrow> int \<Rightarrow> nat \<times> (string, int) dict" where
  "ephemeral_ports_in_use body lo hi =
     (case ports_loop (splitlines (strip body)) lo hi {} [] of (used, per_remote) \<Rightarrow> (card used, per_remote))"

text \<open>\<^verbatim>\<open>read_port_range\<close>: unpacking other than two words raises.\<close>

definition read_port_range :: "string option \<Rightarrow> (int \<times> int) res" where
  "read_port_range file = (case file of None \<Rightarrow> Inr (32768, 60999)
     | Some s \<Rightarrow> (case split_ws s of [lo, hi] \<Rightarrow> rbind (py_int 10 lo) (\<lambda>lo. rbind (py_int 10 hi) (\<lambda>hi. Inr (lo, hi)))
                 | _ \<Rightarrow> Inl ValueError))"

text \<open>The numbers \<^verbatim>\<open>report\<close> prints: pool size, ports in use, utilisation, whether it warns, the three busiest peers.\<close>

definition port_report :: "string \<Rightarrow> int \<Rightarrow> int \<Rightarrow> int \<times> nat \<times> rat \<times> bool \<times> (string \<times> int) list" where
  "port_report body lo hi =
     (let pool = hi - lo + 1;
          (used, per_remote) = ephemeral_ports_in_use body lo hi;
          util = (if pool \<noteq> 0 then of_nat used / of_int pool else 0)
      in (pool, used, util, util \<ge> 8/10, take 3 (sort_key (\<lambda>kv. - snd kv) per_remote)))"

section \<open>Retransmissions\<close>

text \<open>A value that is not a number is left out.\<close>

definition add_counter :: "string \<times> string \<Rightarrow> (string, int) dict \<Rightarrow> (string, int) dict" where
  "add_counter hv out = (case py_int 10 (snd hv) of Inl _ \<Rightarrow> out | Inr n \<Rightarrow> AList.update (fst hv) n out)"

definition parse_snmp_tcp :: "string \<Rightarrow> (string, int) dict" where
  "parse_snmp_tcp body =
     (case filter (startswith ''Tcp:'') (splitlines body) of
        l0 # l1 # _ \<Rightarrow> fold add_counter (zip (drop 1 (split_ws l0)) (drop 1 (split_ws l1))) []
      | _ \<Rightarrow> [])"

definition retrans_rate :: "(string, int) dict \<Rightarrow> (string, int) dict \<Rightarrow> int \<times> int \<times> rat" where
  "retrans_rate prev cur =
     (let d_out = dict_get cur ''OutSegs'' 0 - dict_get prev ''OutSegs'' 0;
          d_re = dict_get cur ''RetransSegs'' 0 - dict_get prev ''RetransSegs'' 0
      in (d_re, d_out, if d_out > 0 then of_int d_re / of_int d_out else 0))"

text \<open>
  The loop of \<^verbatim>\<open>monitor\<close>: one reading per turn (\<open>None\<close> when the file cannot be read, which is taken as no counters),
  one report of rate and warning per turn.
\<close>

fun monitor_loop :: "(string, int) dict \<Rightarrow> string option list \<Rightarrow> (int \<times> int \<times> rat \<times> bool) list" where
  "monitor_loop prev [] = []"
| "monitor_loop prev (file # files) =
     (let cur = (case file of None \<Rightarrow> [] | Some s \<Rightarrow> parse_snmp_tcp s);
          (d_re, d_out, rate) = retrans_rate prev cur
      in (d_re, d_out, rate, rate \<ge> 1/100) # monitor_loop cur files)"

section \<open>Counting rows\<close>

definition state_rows :: "string \<Rightarrow> string list list" where
  "state_rows body = filter state_row (map split_ws (splitlines (strip body)))"

definition row_name :: "string list \<Rightarrow> string" where
  "row_name parts = state_name (upper_ascii (parts ! 3))"

lemma states_loop_rows:
  "states_loop lines counts =
     (let rows = filter state_row (map split_ws lines) in
      if \<exists>r \<in> set rows. length r < 4 then Inl IndexError else Inr (count_keys (map row_name rows) counts))"
  by (induction lines counts rule: states_loop.induct)
    (auto simp: Let_def byte_at_def row_name_def count_keys_def)

text \<open>Rows of \<open>/proc/net/tcp\<close> that use an ephemeral port: peer and port.\<close>

definition used_row :: "int \<Rightarrow> int \<Rightarrow> string list \<Rightarrow> (string \<times> int) option" where
  "used_row lo hi parts =
     (if port_row parts \<and> upper_ascii (parts ! 3) \<noteq> ''0A'' then
        (case local_port (parts ! 1) of Inl _ \<Rightarrow> None | Inr p \<Rightarrow> if lo \<le> p \<and> p \<le> hi then Some (parts ! 2, p) else None)
      else None)"

definition used_rows :: "string \<Rightarrow> int \<Rightarrow> int \<Rightarrow> (string \<times> int) list" where
  "used_rows body lo hi = List.map_filter (\<lambda>l. used_row lo hi (split_ws l)) (splitlines (strip body))"

lemma ports_loop_rows:
  "ports_loop lines lo hi used per_remote =
     (let rows = List.map_filter (\<lambda>l. used_row lo hi (split_ws l)) lines in
      (used \<union> snd ` set rows, count_keys (map fst rows) per_remote))"
  by (induction lines lo hi used per_remote rule: ports_loop.induct)
    (auto simp: Let_def List.map_filter_simps used_row_def count_keys_def split: sum.splits)

lemma used_rows_range: "(r, p) \<in> set (used_rows body lo hi) \<Longrightarrow> lo \<le> p \<and> p \<le> hi"
  by (auto simp: used_rows_def List.map_filter_def used_row_def split: if_splits sum.splits)

section \<open>Properties\<close>

text \<open>A line that starts with a number but has fewer than four columns is not skipped, as the source's comment says: it raises.\<close>

lemma short_row_raises: "\<exists>r \<in> set (state_rows body). length r < 4 \<Longrightarrow> parse_states body = Inl IndexError"
  by (simp add: parse_states_def states_loop_rows state_rows_def Let_def)


text \<open>\<^verbatim>\<open>ephemeral_ports_in_use\<close> never raises: it reports the number of different local ports in the range among the
  well-formed rows that are not listening, at most the size of the pool, and for each peer the number of its rows; so
  the utilisation \<^verbatim>\<open>report\<close> prints lies between 0 and 1.\<close>

theorem ephemeral_ports_counted:
  "ephemeral_ports_in_use body lo hi = (card (snd ` set (used_rows body lo hi)), count_keys (map fst (used_rows body lo hi)) []) \<and>
   int (fst (ephemeral_ports_in_use body lo hi)) \<le> max 0 (hi - lo + 1) \<and>
   (\<forall>peer. dict_get (snd (ephemeral_ports_in_use body lo hi)) peer 0 = int (count_list (map fst (used_rows body lo hi)) peer)) \<and>
   (case port_report body lo hi of (pool, used, util, warn, busiest) \<Rightarrow> 0 \<le> util \<and> util \<le> 1 \<and> (warn \<longleftrightarrow> 8/10 \<le> util))"
proof -
  let ?rows = "used_rows body lo hi"
  have eq: "ephemeral_ports_in_use body lo hi = (card (snd ` set ?rows), count_keys (map fst ?rows) [])"
    by (simp add: ephemeral_ports_in_use_def ports_loop_rows used_rows_def Let_def)
  have "snd ` set ?rows \<subseteq> {lo..hi}" using used_rows_range by auto
  then have "card (snd ` set ?rows) \<le> card {lo..hi}" by (intro card_mono) auto
  then have le: "int (card (snd ` set ?rows)) \<le> max 0 (hi - lo + 1)" by auto
  have util: "0 \<le> u \<and> u \<le> 1" if "u = (if hi - lo + 1 \<noteq> 0 then of_nat (card (snd ` set ?rows)) / of_int (hi - lo + 1) else 0)" for u :: rat
  proof (cases "0 < hi - lo + 1")
    case True
    then have "int (card (snd ` set ?rows)) \<le> hi - lo + 1" using le by simp
    then have "(of_int (int (card (snd ` set ?rows))) :: rat) \<le> of_int (hi - lo + 1)" by (simp only: of_int_le_iff)
    with True that show ?thesis by (simp add: divide_le_eq)
  next
    case False
    with le have "card (snd ` set ?rows) = 0" by simp
    with that show ?thesis by simp
  qed
  have "dict_get (count_keys (map fst ?rows) []) peer 0 = int (count_list (map fst ?rows) peer)" for peer
    by (simp only: count_keys_get) (simp add: dict_get_def)
  with eq le util show ?thesis by (simp add: port_report_def Let_def)
qed

text \<open>The samples of the scripts' self-tests.\<close>

definition line :: "string \<Rightarrow> string" where
  "line s = s @ [CHR 0x0A]"

definition STATES_SAMPLE :: string where
  "STATES_SAMPLE = concat (map line [
     ''  sl  local_address rem_address   st tx_queue rx_queue tr tm->when retrnsmt   uid'',
     ''   0: 0100007F:1538 00000000:0000 0A 00000000:00000000 00:00000000 00000000     0'',
     ''   1: 0100007F:E1F2 0100007F:1538 01 00000000:00000000 00:00000000 00000000  1000'',
     ''   2: 0100007F:E1F3 0100007F:1538 06 00000000:00000000 03:00000ABC 00000000     0'',
     ''   3: 0100007F:E1F4 0100007F:1538 06 00000000:00000000 03:00000ABC 00000000     0'',
     ''   4: 0100007F:E1F5 0A00020F:01BB 08 00000000:00000000 00:00000000 00000000  1000''])"

definition states_selftest :: "unit res" where
  "states_selftest =
     rbind (parse_states STATES_SAMPLE) (\<lambda>counts.
     rbind (dict_lookup counts ''LISTEN'') (\<lambda>n. rbind (py_assert (n = 1)) (\<lambda>_.
     rbind (dict_lookup counts ''ESTABLISHED'') (\<lambda>n. rbind (py_assert (n = 1)) (\<lambda>_.
     rbind (dict_lookup counts ''TIME_WAIT'') (\<lambda>n. rbind (py_assert (n = 2)) (\<lambda>_.
     rbind (dict_lookup counts ''CLOSE_WAIT'') (\<lambda>n. rbind (py_assert (n = 1)) (\<lambda>_.
     rbind (py_assert (dict_total counts = 5)) (\<lambda>_.
     rbind (dict_lookup WARN ''CLOSE_WAIT'') (\<lambda>w. py_assert (600 \<ge> w))))))))))))"

lemma states_selftest_passes: "states_selftest = Inr ()"
  by code_simp


section \<open>The retransmission monitor\<close>

text \<open>How the kernel writes the \<open>Tcp\<close> part of \<^verbatim>\<open>/proc/net/snmp\<close>: the names, then the values.\<close>

definition snmp_text :: "string list \<Rightarrow> int list \<Rightarrow> string" where
  "snmp_text names vals =
     line (join_with '' '' (''Tcp:'' # names)) @ line (join_with '' '' (''Tcp:'' # map py_str vals))"

lemma snmp_lines:
  assumes "\<forall>w \<in> set names. is_word w"
  shows "filter (startswith ''Tcp:'') (splitlines (snmp_text names vals)) =
    [join_with '' '' (''Tcp:'' # names), join_with '' '' (''Tcp:'' # map py_str vals)]"
proof -
  have tcp: "is_word ''Tcp:''" by (simp add: is_word_def is_space_int)
  have w: "\<forall>w \<in> set (''Tcp:'' # names). is_word w" "\<forall>w \<in> set (''Tcp:'' # map py_str vals). is_word w"
    using assms tcp py_str_word by auto
  have "splitlines (snmp_text names vals) = [join_with '' '' (''Tcp:'' # names), join_with '' '' (''Tcp:'' # map py_str vals)]"
    using splitlines_Cons [of "join_with '' '' (''Tcp:'' # names)"] splitlines_Cons [of "join_with '' '' (''Tcp:'' # map py_str vals)" "[]"]
      join_words_no_break [OF w(1)] join_words_no_break [OF w(2)] by (simp add: snmp_text_def line_def)
  moreover have "startswith ''Tcp:'' (join_with '' '' (''Tcp:'' # ws))" for ws by (cases ws) (simp_all add: startswith_def)
  ultimately show ?thesis by simp
qed

lemma parse_snmp_text:
  assumes "\<forall>w \<in> set names. is_word w" "distinct names" "length vals = length names"
  shows "parse_snmp_tcp (snmp_text names vals) = zip names vals"
proof -
  have tcp: "is_word ''Tcp:''" by (simp add: is_word_def is_space_int)
  have "split_ws (join_with '' '' (''Tcp:'' # names)) = ''Tcp:'' # names"
    by (rule split_ws_join) (use assms(1) tcp in auto)
  moreover have "split_ws (join_with '' '' (''Tcp:'' # map py_str vals)) = ''Tcp:'' # map py_str vals"
    by (rule split_ws_join) (use tcp py_str_word in auto)
  moreover have "fold add_counter (zip ns (map py_str vs)) d = d @ zip ns vs"
    if "distinct (dict_keys d @ ns)" "length vs = length ns" for ns vs d
    using that(2,1)
  proof (induction vs ns arbitrary: d rule: list_induct2)
    case (Cons v vs n ns)
    then have "add_counter (n, py_str v) d = d @ [(n, v)]" by (simp add: add_counter_def update_notin)
    with Cons show ?case by simp
  qed simp
  ultimately show ?thesis using snmp_lines [OF assms(1)] assms(2,3) by (simp add: parse_snmp_tcp_def)
qed

text \<open>\<^verbatim>\<open>tcp_retrans_monitor.py\<close>: \<^verbatim>\<open>parse_snmp_tcp\<close> reads back the counters the kernel writes, and each report of the monitor
  holds the increments of both counters since the previous reading and their quotient. After a reading that failed
  the previous counters are lost: the next report is about everything since boot instead of one interval.\<close>

theorem retrans_monitor:
  assumes "\<forall>w \<in> set names. is_word w" "distinct names" "length vals = length names"
  shows "parse_snmp_tcp (snmp_text names vals) = zip names vals \<and>
    (let cur = zip names vals; out = dict_get cur ''OutSegs'' 0; re = dict_get cur ''RetransSegs'' 0;
         rate = (\<lambda>r n. if n > 0 then of_int r / of_int n else (0::rat)) in
     monitor_loop prev (Some (snmp_text names vals) # files) =
       (let r = re - dict_get prev ''RetransSegs'' 0; n = out - dict_get prev ''OutSegs'' 0 in (r, n, rate r n, 1/100 \<le> rate r n)) #
       monitor_loop cur files \<and>
     tl (monitor_loop prev (None # Some (snmp_text names vals) # files)) = (re, out, rate re out, 1/100 \<le> rate re out) # monitor_loop cur files)"
proof -
  have parse: "parse_snmp_tcp (snmp_text names vals) = zip names vals" by (rule parse_snmp_text [OF assms])
  then show ?thesis by (simp add: retrans_rate_def Let_def dict_get_def)
qed

theorem retrans_monitor_witness:
  "parse_snmp_tcp (snmp_text [''OutSegs'', ''RetransSegs''] [8500000, 33000]) = [(''OutSegs'', 8500000), (''RetransSegs'', 33000)]"
  using retrans_monitor [of "[''OutSegs'', ''RetransSegs'']" "[8500000, 33000]" "[]" "[]"]
  by (simp add: is_word_def is_space_int)


section \<open>The self-test of the monitor\<close>

definition SNMP_NAMES :: "string list" where
  "SNMP_NAMES = [''RtoAlgorithm'', ''RtoMin'', ''RtoMax'', ''MaxConn'', ''ActiveOpens'', ''PassiveOpens'', ''AttemptFails'', ''EstabResets'',
     ''CurrEstab'', ''InSegs'', ''OutSegs'', ''RetransSegs'', ''InErrs'', ''OutRsts'']"

definition SAMPLE_T0 :: string where
  "SAMPLE_T0 = line (join_with '' '' (''Tcp:'' # SNMP_NAMES)) @
     line ''Tcp: 1 200 120000 -1 50 40 0 5 12 9000000 8000000 8000 0 100''"

definition SAMPLE_T1 :: string where
  "SAMPLE_T1 = line (join_with '' '' (''Tcp:'' # SNMP_NAMES)) @
     line ''Tcp: 1 200 120000 -1 52 41 0 5 14 9400000 8500000 33000 0 100''"

text \<open>\<^verbatim>\<open>d[k] += n\<close> raises when the key is missing.\<close>

definition dict_incr :: "string \<Rightarrow> int \<Rightarrow> (string, int) dict \<Rightarrow> (string, int) dict res" where
  "dict_incr k n d = rbind (dict_lookup d k) (\<lambda>v. Inr (AList.update k (v + n) d))"

definition retrans_selftest :: "unit res" where
  "retrans_selftest =
     (let t0 = parse_snmp_tcp SAMPLE_T0; t1 = parse_snmp_tcp SAMPLE_T1 in
      rbind (dict_lookup t0 ''OutSegs'') (\<lambda>n. rbind (dict_lookup t0 ''RetransSegs'') (\<lambda>r.
      rbind (py_assert (n = 8000000 \<and> r = 8000)) (\<lambda>_.
      let (d_re, d_out, rate) = retrans_rate t0 t1 in
      rbind (py_assert (d_out = 500000 \<and> d_re = 25000)) (\<lambda>_.
      rbind (py_assert (\<bar>rate - 5/100\<bar> < 1 / 10 ^ 9)) (\<lambda>_.
      rbind (py_assert (rate \<ge> 1/100)) (\<lambda>_.
      rbind (dict_incr ''OutSegs'' 1000000 t0) (\<lambda>healthy. rbind (dict_incr ''RetransSegs'' 200 healthy) (\<lambda>healthy.
      let (_, _, hr) = retrans_rate t0 healthy in py_assert (hr < 1/100))))))))))"

lemma retrans_selftest_passes: "retrans_selftest = Inr ()"
  by code_simp

end
