(* ===== verification/Host_Probes.thy ===== *)
theory Host_Probes
  imports Complex_Main Proc_Text Py_Bytes
begin

text \<open>
  Probes of the host: \<^verbatim>\<open>rss_leak_detector.py\<close>, \<^verbatim>\<open>cgroup_throttle_watch.py\<close> and the page arithmetic of
  \<^verbatim>\<open>fork_cost_probe.py\<close>. Floats are rationals; a file is its text, or \<open>None\<close> when it cannot be read.
\<close>

section \<open>Memory growth\<close>

text \<open>\<^verbatim>\<open>for line in f\<close> with its early return; the line feeds that Python keeps are ignored by \<^verbatim>\<open>split\<close>.\<close>

fun find_rss :: "string list \<Rightarrow> int option res" where
  "find_rss [] = Inr None"
| "find_rss (l # ls) = (if startswith ''VmRSS:'' l
     then rbind (byte_at (split_ws l) 1) (\<lambda>v. rbind (py_int 10 v) (\<lambda>n. Inr (Some n)))
     else find_rss ls)"

definition read_rss_kb :: "string option \<Rightarrow> int option res" where
  "read_rss_kb file = (case file of None \<Rightarrow> Inr None | Some s \<Rightarrow> find_rss (split_on CHR 0x0A s))"

definition linfit :: "rat list \<Rightarrow> rat list \<Rightarrow> (rat \<times> rat) res" where
  "linfit xs ys =
     (let n = of_nat (length xs) in
      if n = 0 then Inl ZeroDivisionError
      else let mx = sum_list xs / n;
               my = sum_list ys / n;
               num = sum_list (map (\<lambda>(x, y). (x - mx) * (y - my)) (zip xs ys));
               s = sum_list (map (\<lambda>x. (x - mx) ^ 2) xs);
               den = (if s \<noteq> 0 then s else 1 / 10 ^ 9);
               slope = num / den
           in Inr (slope, my - slope * mx))"

record trend =
  mb_per_min :: rat
  slope_first_half :: rat
  slope_second_half :: rat
  range_mb :: rat
  verdict :: string

text \<open>\<^verbatim>\<open>xs[:half] or xs\<close>.\<close>

definition or_all :: "rat list \<Rightarrow> rat list \<Rightarrow> rat list" where
  "or_all part xs = (if part = [] then xs else part)"

fun list_max :: "rat list \<Rightarrow> rat res" where
  "list_max [] = Inl ValueError"
| "list_max (x # xs) = Inr (fold max xs x)"

fun list_min :: "rat list \<Rightarrow> rat res" where
  "list_min [] = Inl ValueError"
| "list_min (x # xs) = Inr (fold min xs x)"

definition classify :: "rat list \<Rightarrow> rat list \<Rightarrow> trend res" where
  "classify times_s rss_mb =
     rbind (linfit times_s rss_mb) (\<lambda>(slope_all, _).
     let half = length times_s div 2 in
     rbind (linfit (or_all (take half times_s) times_s) (or_all (take half rss_mb) rss_mb)) (\<lambda>(slope_first, _).
     rbind (linfit (or_all (drop half times_s) times_s) (or_all (drop half rss_mb) rss_mb)) (\<lambda>(slope_second, _).
     rbind (list_max rss_mb) (\<lambda>hi. rbind (list_min rss_mb) (\<lambda>lo.
     let rng = hi - lo;
         v = (if rng < 1 then ''STABLE (flat)''
              else if slope_second \<le> slope_first * (3/10) then ''GROWTH then PLATEAU (likely legit working set)''
              else ''LEAK SUSPECTED (sustained growth)'')
     in Inr \<lparr>mb_per_min = slope_all * 60, slope_first_half = slope_first * 60, slope_second_half = slope_second * 60,
             range_mb = rng, verdict = v\<rparr>)))))"

text \<open>The sampling loop of \<^verbatim>\<open>monitor\<close>: \<open>samples\<close> are the clock and the file at each turn; \<open>None\<close> when it stops early.\<close>

fun sample_loop :: "(rat \<times> string option) list \<Rightarrow> rat list \<Rightarrow> rat list \<Rightarrow> (rat list \<times> rat list) option res" where
  "sample_loop [] times_s rss_mb = Inr (Some (times_s, rss_mb))"
| "sample_loop ((t, file) # samples) times_s rss_mb =
     rbind (read_rss_kb file) (\<lambda>kb. case kb of None \<Rightarrow> Inr None
       | Some kb \<Rightarrow> sample_loop samples (times_s @ [t]) (rss_mb @ [of_int kb / 1024]))"

definition rss_monitor :: "(rat \<times> string option) list \<Rightarrow> trend option res" where
  "rss_monitor samples = rbind (sample_loop samples [] []) (\<lambda>r. case r of None \<Rightarrow> Inr None
     | Some (times_s, rss_mb) \<Rightarrow> rbind (classify times_s rss_mb) (\<lambda>v. Inr (Some v)))"

section \<open>Throttling\<close>

text \<open>\<^verbatim>\<open>int\<close> can still raise after the guard, for a value with several minus signs.\<close>

fun kv_loop :: "string list \<Rightarrow> (string, int) dict \<Rightarrow> (string, int) dict res" where
  "kv_loop [] out = Inr out"
| "kv_loop (l # ls) out =
     (case split_ws l of [k, v] \<Rightarrow>
        if isdigit (lstrip_char CHR ''-'' v) then rbind (py_int 10 v) (\<lambda>n. kv_loop ls (AList.update k n out)) else kv_loop ls out
      | _ \<Rightarrow> kv_loop ls out)"

definition parse_kv :: "string \<Rightarrow> (string, int) dict res" where
  "parse_kv body = kv_loop (splitlines (strip body)) []"

definition throttle_ratio :: "(string, int) dict \<Rightarrow> rat" where
  "throttle_ratio cpu_stat =
     (let periods = dict_get cpu_stat ''nr_periods'' 0 in
      if periods \<noteq> 0 then of_int (dict_get cpu_stat ''nr_throttled'' 0) / of_int periods else 0)"

text \<open>What \<^verbatim>\<open>report_once\<close> prints about the CPU: lifetime and interval ratio, or the lifetime ratio alone.\<close>

datatype cpu_report = Unavailable | Lifetime rat bool | Interval rat rat bool

definition optional_file :: "string option \<Rightarrow> (string, int) dict res" where
  "optional_file file = (case file of None \<Rightarrow> Inr [] | Some s \<Rightarrow> if s = [] then Inr [] else parse_kv s)"

definition cpu_line :: "(string, int) dict \<Rightarrow> (string, int) dict option \<Rightarrow> cpu_report res" where
  "cpu_line cpu prev_cpu =
     (if cpu = [] then Inr Unavailable
      else let ratio = throttle_ratio cpu; flag = ratio > 1/100 in
        case prev_cpu of
          Some prev \<Rightarrow>
            if dict_get prev ''nr_periods'' 0 \<noteq> 0 then
              rbind (dict_lookup prev ''nr_periods'') (\<lambda>p. rbind (dict_lookup prev ''nr_throttled'') (\<lambda>t.
              let d_periods = dict_get cpu ''nr_periods'' 0 - p; d_throttled = dict_get cpu ''nr_throttled'' 0 - t in
              Inr (Interval ratio (if d_periods \<noteq> 0 then of_int d_throttled / of_int d_periods else 0) flag)))
            else Inr (Lifetime ratio flag)
        | None \<Rightarrow> Inr (Lifetime ratio flag))"

text \<open>The memory line: \<open>oom_kill\<close>, \<open>high\<close> and the flag.\<close>

definition mem_line :: "(string, int) dict \<Rightarrow> (int \<times> int \<times> string) option" where
  "mem_line mem = (if mem = [] then None else
     let oom = dict_get mem ''oom_kill'' 0; high = dict_get mem ''high'' 0 in
     Some (oom, high, if oom \<noteq> 0 then ''  <== OOM-KILLED'' else if high \<noteq> 0 then ''  <== mem.high throttling'' else ''''))"

definition report_once :: "string option \<Rightarrow> string option \<Rightarrow> (string, int) dict option \<Rightarrow>
    (cpu_report \<times> (int \<times> int \<times> string) option \<times> (string, int) dict) res" where
  "report_once cpu_raw mem_raw prev_cpu =
     rbind (optional_file cpu_raw) (\<lambda>cpu.
     rbind (cpu_line cpu prev_cpu) (\<lambda>c.
     rbind (optional_file mem_raw) (\<lambda>mem.
     Inr (c, mem_line mem, cpu))))"

section \<open>Pages touched before a fork\<close>

text \<open>The touching loop: \<^verbatim>\<open>range(0, len(buf), 4096)\<close>.\<close>

function touch_loop :: "nat \<Rightarrow> nat \<Rightarrow> nat \<Rightarrow> nat" where
  "touch_loop i len touched = (if i < len then touch_loop (i + 4096) len (touched + 1) else touched)"
  by pat_completeness auto

termination
  by (relation "measure (\<lambda>(i, len, _). len - i)") auto

declare touch_loop.simps [simp del]

definition pte_bytes :: "nat \<Rightarrow> nat" where
  "pte_bytes mb = mb * 1024 * 1024 div 4096 * 8"

section \<open>The fitted line\<close>

text \<open>Sums over the samples \<open>zs = zip xs ys\<close>.\<close>

abbreviation psum :: "(rat \<times> rat \<Rightarrow> rat) \<Rightarrow> (rat \<times> rat) list \<Rightarrow> rat" where
  "psum f zs \<equiv> sum_list (map f zs)"

lemma psum_residual: "psum (\<lambda>(x, y). y - s * x - i) zs = psum snd zs - s * psum fst zs - of_nat (length zs) * i"
  by (induction zs) (auto simp: algebra_simps)

lemma psum_residual_x:
  "psum (\<lambda>(x, y). (y - s * x - i) * x) zs = psum (\<lambda>(x, y). x * y) zs - s * psum (\<lambda>(x, y). x ^ 2) zs - i * psum fst zs"
  by (induction zs) (auto simp: algebra_simps power2_eq_square)

lemma psum_var: "psum (\<lambda>(x, y). (x - m) ^ 2) zs = psum (\<lambda>(x, y). x ^ 2) zs - 2 * m * psum fst zs + of_nat (length zs) * m ^ 2"
  by (induction zs) (auto simp: algebra_simps power2_eq_square)

lemma psum_cov:
  "psum (\<lambda>(x, y). (x - m) * (y - k)) zs = psum (\<lambda>(x, y). x * y) zs - k * psum fst zs - m * psum snd zs + of_nat (length zs) * m * k"
  by (induction zs) (auto simp: algebra_simps)

lemma psum_split:
  "psum (\<lambda>(x, y). (y - a * x - b) ^ 2) zs = psum (\<lambda>(x, y). (y - s * x - i) ^ 2) zs +
     2 * ((s - a) * psum (\<lambda>(x, y). (y - s * x - i) * x) zs + (i - b) * psum (\<lambda>(x, y). y - s * x - i) zs) +
     psum (\<lambda>(x, y). ((s - a) * x + (i - b)) ^ 2) zs"
  by (induction zs) (auto simp: algebra_simps power2_eq_square)

lemma psum_nonneg: "(\<And>p. 0 \<le> f p) \<Longrightarrow> 0 \<le> psum f zs"
  by (induction zs) auto

lemma sum_fst_zip: "length ys = length xs \<Longrightarrow> sum_list (map f xs) = psum (\<lambda>(x, y). f x) (zip xs ys)"
  by (induction ys xs rule: list_induct2) auto

lemma linfit_zip:
  assumes "length ys = length xs" "xs \<noteq> []"
  defines "zs \<equiv> zip xs ys" and "n \<equiv> (of_nat (length xs) :: rat)"
  defines "mx \<equiv> psum fst zs / n" and "my \<equiv> psum snd zs / n"
  defines "s \<equiv> psum (\<lambda>(x, y). (x - mx) ^ 2) zs"
  defines "slope \<equiv> psum (\<lambda>(x, y). (x - mx) * (y - my)) zs / (if s \<noteq> 0 then s else 1 / 10 ^ 9)"
  shows "linfit xs ys = Inr (slope, my - slope * mx)"
proof -
  have "map fst zs = xs" "map snd zs = ys" using assms(1) by (simp_all add: zs_def)
  then have "sum_list xs = psum fst zs" "sum_list ys = psum snd zs" by simp_all
  moreover have "sum_list (map (\<lambda>x. (x - m) ^ 2) xs) = psum (\<lambda>(x, y). (x - m) ^ 2) zs" for m
    using sum_fst_zip [OF assms(1)] by (simp add: zs_def)
  ultimately show ?thesis
    using assms(2) by (simp add: linfit_def Let_def n_def mx_def my_def s_def slope_def zs_def)
qed

text \<open>The normal equations, and with them the least sum of squares.\<close>

lemma linfit_normal:
  assumes "length ys = length xs" "linfit xs ys = Inr (slope, icept)" "\<exists>x \<in> set xs. \<exists>x' \<in> set xs. x \<noteq> x'"
  shows "psum (\<lambda>(x, y). y - slope * x - icept) (zip xs ys) = 0" "psum (\<lambda>(x, y). (y - slope * x - icept) * x) (zip xs ys) = 0"
proof -
  let ?zs = "zip xs ys" and ?n = "of_nat (length xs) :: rat"
  define mx where "mx = psum fst ?zs / ?n"
  define my where "my = psum snd ?zs / ?n"
  let ?s = "psum (\<lambda>(x, y). (x - mx) ^ 2) ?zs"
  have ne: "xs \<noteq> []" using assms(3) by auto
  then have n: "?n \<noteq> 0" by simp
  have len: "length ?zs = length xs" using assms(1) by simp
  have mx: "psum fst ?zs = ?n * mx" and my: "psum snd ?zs = ?n * my" using n by (simp_all add: mx_def my_def)
  have s0: "?s \<noteq> 0"
  proof
    assume "?s = 0"
    then have "\<forall>p \<in> set ?zs. (\<lambda>(x, y). (x - mx) ^ 2) p = 0" by (subst (asm) sum_list_nonneg_eq_0_iff) auto
    then have "x = mx" if "x \<in> set xs" for x
      using that assms(1) by (fastforce simp: in_set_conv_nth set_zip)
    with assms(3) show False by metis
  qed
  have fit: "slope = psum (\<lambda>(x, y). (x - mx) * (y - my)) ?zs / ?s" "icept = my - slope * mx"
    using linfit_zip [OF assms(1) ne] assms(2) s0 by (auto simp: mx_def my_def)
  show "psum (\<lambda>(x, y). y - slope * x - icept) ?zs = 0"
    unfolding psum_residual len mx my fit(2) by (simp add: algebra_simps)
  have "slope * ?s = psum (\<lambda>(x, y). (x - mx) * (y - my)) ?zs" using fit(1) s0 by simp
  then have "slope * (psum (\<lambda>(x, y). x ^ 2) ?zs - ?n * mx ^ 2) = psum (\<lambda>(x, y). x * y) ?zs - ?n * mx * my"
    unfolding psum_var psum_cov len using mx my by (simp add: algebra_simps power2_eq_square)
  then show "psum (\<lambda>(x, y). (y - slope * x - icept) * x) ?zs = 0"
    unfolding psum_residual_x fit(2) mx by (simp add: algebra_simps power2_eq_square)
qed

lemma linfit_returns: "length ys = length xs \<Longrightarrow> xs \<noteq> [] \<Longrightarrow> \<exists>slope icept. linfit xs ys = Inr (slope, icept)"
  using linfit_zip [of ys xs] by blast

lemma linfit_line:
  assumes "\<exists>x \<in> set xs. \<exists>x' \<in> set xs. x \<noteq> x'"
  shows "linfit xs (map (\<lambda>x. a * x + b) xs) = Inr (a, b)"
proof -
  let ?ys = "map (\<lambda>x. a * x + b) xs"
  let ?zs = "zip xs ?ys"
  have len: "length ?ys = length xs" by simp
  have "xs \<noteq> []" using assms by auto
  then obtain s i where fit: "linfit xs ?ys = Inr (s, i)" using linfit_returns [OF len] by blast
  note N = linfit_normal [OF len fit assms]
  have zs: "?zs = map (\<lambda>x. (x, a * x + b)) xs" by (simp add: zip_map2 zip_same_conv_map)
  have "psum (\<lambda>(x, y). (y - a * x - b) ^ 2) ?zs = 0" unfolding zs by (induction xs) auto
  then have "psum (\<lambda>(x, y). (y - s * x - i) ^ 2) ?zs + psum (\<lambda>(x, y). ((s - a) * x + (i - b)) ^ 2) ?zs = 0"
    using psum_split [of a b ?zs s i] N by simp
  moreover have "0 \<le> psum (\<lambda>(x, y). (y - s * x - i) ^ 2) ?zs" "0 \<le> psum (\<lambda>(x, y). ((s - a) * x + (i - b)) ^ 2) ?zs"
    by (rule psum_nonneg, auto)+
  ultimately have "psum (\<lambda>(x, y). ((s - a) * x + (i - b)) ^ 2) ?zs = 0" by linarith
  then have "\<forall>p \<in> set ?zs. (\<lambda>(x, y). ((s - a) * x + (i - b)) ^ 2) p = 0" by (subst (asm) sum_list_nonneg_eq_0_iff) auto
  then have zero: "(s - a) * x + (i - b) = 0" if "x \<in> set xs" for x using that by (auto simp: zs)
  obtain x x' where x: "x \<in> set xs" "x' \<in> set xs" "x \<noteq> x'" using assms by blast
  have "(s - a) * (x - x') = 0" using zero [OF x(1)] zero [OF x(2)] by (simp add: algebra_simps)
  then have "s = a" using x(3) by simp
  moreover from this have "i = b" using zero [OF x(1)] by simp
  ultimately show ?thesis using fit by simp
qed

lemma two_distinct: "distinct xs \<Longrightarrow> 2 \<le> length xs \<Longrightarrow> \<exists>x \<in> set xs. \<exists>x' \<in> set xs. x \<noteq> x'"
  by (cases xs; cases "tl xs") auto

lemma list_max_min: "xs \<noteq> [] \<Longrightarrow> \<exists>hi lo. list_max xs = Inr hi \<and> list_min xs = Inr lo"
  by (cases xs) auto

section \<open>Properties\<close>

text \<open>\<^verbatim>\<open>linfit\<close> returns the line with the least sum of squared distances, for samples at more than one moment; only an empty
  list of samples raises.\<close>

theorem linfit_least_squares:
  assumes "length ys = length xs"
  shows "(xs = [] \<longrightarrow> linfit xs ys = Inl ZeroDivisionError) \<and>
    ((\<exists>x \<in> set xs. \<exists>x' \<in> set xs. x \<noteq> x') \<longrightarrow> (\<exists>slope icept. linfit xs ys = Inr (slope, icept) \<and>
      (\<forall>a b. psum (\<lambda>(x, y). (y - slope * x - icept) ^ 2) (zip xs ys) \<le> psum (\<lambda>(x, y). (y - a * x - b) ^ 2) (zip xs ys))))"
proof (intro conjI impI)
  show "xs = [] \<Longrightarrow> linfit xs ys = Inl ZeroDivisionError" by (simp add: linfit_def)
  assume two: "\<exists>x \<in> set xs. \<exists>x' \<in> set xs. x \<noteq> x'"
  then have "xs \<noteq> []" by auto
  then obtain s i where fit: "linfit xs ys = Inr (s, i)" using linfit_returns [OF assms] by blast
  have "psum (\<lambda>(x, y). (y - s * x - i) ^ 2) (zip xs ys) \<le> psum (\<lambda>(x, y). (y - a * x - b) ^ 2) (zip xs ys)" for a b
    using psum_split [of a b "zip xs ys" s i] linfit_normal [OF assms fit two]
      psum_nonneg [of "\<lambda>(x, y). ((s - a) * x + (i - b)) ^ 2" "zip xs ys"] by auto
  with fit show "\<exists>slope icept. linfit xs ys = Inr (slope, icept) \<and>
      (\<forall>a b. psum (\<lambda>(x, y). (y - slope * x - icept) ^ 2) (zip xs ys) \<le> psum (\<lambda>(x, y). (y - a * x - b) ^ 2) (zip xs ys))"
    by blast
qed

theorem linfit_least_squares_witness:
  "\<exists>slope icept. linfit [0, 1, 2] [1, 3, 4] = Inr (slope, icept) \<and>
     psum (\<lambda>(x, y). (y - slope * x - icept) ^ 2) (zip [0, 1, 2] [1, 3, 4]) \<le> psum (\<lambda>(x, y). (y - 2 * x - 1) ^ 2) (zip [0, 1, 2] [1, 3, 4])"
proof -
  have "length [1, 3, 4::rat] = length [0, 1, 2::rat]" by simp
  moreover have "\<exists>x \<in> set [0, 1, 2::rat]. \<exists>x' \<in> set [0, 1, 2]. x \<noteq> x'" by (rule two_distinct) simp_all
  ultimately show ?thesis using linfit_least_squares [of "[1, 3, 4]" "[0, 1, 2]"] by blast
qed

text \<open>\<^verbatim>\<open>classify\<close>, for at least four samples at different times: memory that grows along a line is reported as a leak with
  the slope of that line, unless the range is below 1 MB; memory that grows along a line in the first half and stays
  constant in the second is never reported as a leak.\<close>

theorem rss_verdicts:
  assumes "distinct times_s" "4 \<le> length times_s" "0 < a"
  shows "(\<exists>r. classify times_s (map (\<lambda>x. a * x + b) times_s) = Inr r \<and> mb_per_min r = a * 60 \<and>
      verdict r = (if range_mb r < 1 then ''STABLE (flat)'' else ''LEAK SUSPECTED (sustained growth)'')) \<and>
    (let half = length times_s div 2 in
     \<exists>r. classify times_s (map (\<lambda>x. a * x + b) (take half times_s) @ map (\<lambda>x. c) (drop half times_s)) = Inr r \<and>
      verdict r = (if range_mb r < 1 then ''STABLE (flat)'' else ''GROWTH then PLATEAU (likely legit working set)''))"
proof -
  let ?half = "length times_s div 2"
  let ?t = "take ?half times_s" and ?d = "drop ?half times_s"
  have two: "\<exists>x \<in> set xs. \<exists>x' \<in> set xs. x \<noteq> x'" if "xs \<in> {times_s, ?t, ?d}" for xs
    using that assms(1,2) by (intro two_distinct) auto
  have ne: "?t \<noteq> []" "?d \<noteq> []" "times_s \<noteq> []" using assms(2) by auto
  note L = linfit_line [OF two]
  have flat: "linfit ?d (map (\<lambda>x. c) ?d) = Inr (0, c)" using L [of ?d 0 c] by simp
  have whole: "linfit times_s (map (\<lambda>x. a * x + b) times_s) = Inr (a, b)" by (rule L) simp
  have first: "linfit ?t (map (\<lambda>x. a * x + b) ?t) = Inr (a, b)" by (rule L) simp
  have second: "linfit ?d (map (\<lambda>x. a * x + b) ?d) = Inr (a, b)" by (rule L) simp
  let ?ys = "map (\<lambda>x. a * x + b) times_s"
  obtain hi lo where mm: "list_max ?ys = Inr hi" "list_min ?ys = Inr lo" using list_max_min [of ?ys] ne by auto
  have one: "\<exists>r. classify times_s ?ys = Inr r \<and> mb_per_min r = a * 60 \<and>
      verdict r = (if range_mb r < 1 then ''STABLE (flat)'' else ''LEAK SUSPECTED (sustained growth)'')"
    using whole first second mm ne assms(3) by (simp add: classify_def or_all_def Let_def take_map drop_map)
  let ?zs = "map (\<lambda>x. a * x + b) ?t @ map (\<lambda>x. c) ?d"
  obtain hi' lo' where mm': "list_max ?zs = Inr hi'" "list_min ?zs = Inr lo'" using list_max_min [of ?zs] ne by auto
  obtain s i where all: "linfit times_s ?zs = Inr (s, i)" using linfit_returns [of ?zs times_s] ne by auto
  have lt: "length ?t = ?half" by simp
  have parts: "take ?half ?zs = map (\<lambda>x. a * x + b) ?t" "drop ?half ?zs = map (\<lambda>x. c) ?d" using lt by simp_all
  have "\<exists>r. classify times_s ?zs = Inr r \<and>
      verdict r = (if range_mb r < 1 then ''STABLE (flat)'' else ''GROWTH then PLATEAU (likely legit working set)'')"
    unfolding classify_def Let_def all parts rbind.simps or_all_def using first flat mm' ne assms(3) by simp
  with one show ?thesis by (simp add: Let_def)
qed

theorem rss_verdicts_witness:
  "\<exists>r. classify [0, 1, 2, 3] (map (\<lambda>x. 5 * x + 100) [0, 1, 2, 3]) = Inr r \<and> mb_per_min r = 300"
proof -
  have "distinct [0, 1, 2, 3::rat]" "4 \<le> length [0, 1, 2, 3::rat]" "0 < (5::rat)" by simp_all
  from rss_verdicts [OF this, of 100 0] obtain r where
    "classify [0, 1, 2, 3] (map (\<lambda>x. 5 * x + 100) [0, 1, 2, 3]) = Inr r" "mb_per_min r = 5 * 60" by blast
  then show ?thesis by auto
qed

section \<open>Throttling, pages and expiry\<close>

lemma throttle_ratio_bounds:
  assumes "0 \<le> dict_get cpu ''nr_throttled'' 0" "dict_get cpu ''nr_throttled'' 0 \<le> dict_get cpu ''nr_periods'' 0"
  shows "0 \<le> throttle_ratio cpu \<and> throttle_ratio cpu \<le> 1"
proof (cases "dict_get cpu ''nr_periods'' 0 = 0")
  case False
  then have "0 < dict_get cpu ''nr_periods'' 0" using assms by linarith
  with assms show ?thesis by (simp add: throttle_ratio_def Let_def divide_le_eq)
qed (simp add: throttle_ratio_def)

text \<open>The interval ratio is the throttled share of the periods since the previous sample; a previous sample without
  \<^verbatim>\<open>nr_throttled\<close> raises \<^verbatim>\<open>KeyError\<close>.\<close>

lemma cpu_line_interval:
  assumes "cpu \<noteq> []" "dict_get prev ''nr_periods'' 0 \<noteq> 0"
  shows "cpu_line cpu (Some prev) = (case map_of prev ''nr_throttled'' of None \<Rightarrow> Inl KeyError
    | Some t \<Rightarrow> let d = dict_get cpu ''nr_periods'' 0 - dict_get prev ''nr_periods'' 0 in
        Inr (Interval (throttle_ratio cpu) (if d \<noteq> 0 then of_int (dict_get cpu ''nr_throttled'' 0 - t) / of_int d else 0)
          (1/100 < throttle_ratio cpu)))"
  using assms by (auto simp: cpu_line_def dict_get_def dict_lookup_def Let_def split: option.splits)

lemma touch_loop_count: "touch_loop i len touched = touched + (len - i + 4095) div 4096"
proof (induction i len touched rule: touch_loop.induct)
  case (1 i len touched)
  show ?case
  proof (cases "i < len")
    case True
    have "(len - i + 4095) div 4096 = 1 + (len - (i + 4096) + 4095) div 4096"
    proof (cases "len \<le> i + 4096")
      case False
      then obtain m where m: "len = i + 4096 + m" using le_Suc_ex [of "i + 4096" len] by auto
      have "len - i + 4095 = (m + 4095) + 4096" "len - (i + 4096) + 4095 = m + 4095" unfolding m by simp_all
      then show ?thesis by simp
    next
      case True
      then obtain k where k: "len - i = Suc k" "k < 4096" using \<open>i < len\<close> by (cases "len - i") auto
      then have "len - i + 4095 = 4096 + k" by simp
      then show ?thesis using k True by simp
    qed
    moreover have "touch_loop i len touched = touch_loop (i + 4096) len (touched + 1)"
      using True by (subst touch_loop.simps) simp
    ultimately show ?thesis using 1 True by simp
  qed (simp add: touch_loop.simps [of i])
qed

lemma touched_pages: "touch_loop 0 (mb * 1024 * 1024) 0 * 8 = pte_bytes mb"
proof -
  have "mb * 1024 * 1024 = 4096 * (mb * 256)" by simp
  then have "(mb * 1024 * 1024 + 4095) div 4096 = mb * 256" "mb * 1024 * 1024 div 4096 = mb * 256" by simp_all
  then show ?thesis by (simp add: touch_loop_count pte_bytes_def)
qed


section \<open>The self-tests\<close>

text \<open>\<^verbatim>\<open>needle in s\<close> for strings.\<close>

definition in_str :: "string \<Rightarrow> string \<Rightarrow> bool" where
  "in_str needle s \<longleftrightarrow> list_ex (\<lambda>i. startswith needle (drop i s)) [0..<length s + 1]"

definition rss_selftest :: "unit res" where
  "rss_selftest =
     (let t = map of_nat [0..<12];
          leak = map (\<lambda>i. of_nat (100 + 5 * i)) [0..<12];
          plat = map (\<lambda>i. of_nat (100 + 10 * i)) [0..<6] @ replicate 6 160;
          stable = [200, 200 + 2/10, 199 + 9/10, 200 + 1/10, 200, 199 + 8/10, 200 + 1/10, 200, 199 + 9/10, 200 + 2/10, 200, 199 + 9/10]
      in rbind (classify t leak) (\<lambda>rl.
         rbind (py_assert (in_str ''LEAK'' (verdict rl))) (\<lambda>_. rbind (py_assert (mb_per_min rl > 0)) (\<lambda>_.
         rbind (classify t plat) (\<lambda>rp. rbind (py_assert (in_str ''PLATEAU'' (verdict rp))) (\<lambda>_.
         rbind (classify t stable) (\<lambda>rs. py_assert (in_str ''STABLE'' (verdict rs)))))))))"

lemma in_verdicts:
  "in_str ''LEAK'' ''LEAK SUSPECTED (sustained growth)''" "in_str ''STABLE'' ''STABLE (flat)''"
  "in_str ''PLATEAU'' ''GROWTH then PLATEAU (likely legit working set)''"
  by code_simp+

lemma rss_selftest_passes: "rss_selftest = Inr ()"
proof -
  have nats: "[0..<12] = [0, 1, 2, 3, 4, 5, 6, 7, 8, 9, 10, 11::nat]" "[0..<6] = [0, 1, 2, 3, 4, 5::nat]"
    by (simp_all add: upt_conv_Cons)
  have rep: "replicate 6 (160::rat) = [160, 160, 160, 160, 160, 160]" by (simp add: eval_nat_numeral)
  show ?thesis
    unfolding rss_selftest_def nats rep
    by (simp add: classify_def linfit_def or_all_def Let_def numeral_eq_Suc [of num.One] in_verdicts py_assert_def power2_eq_square)
qed

definition text_line :: "string \<Rightarrow> string" where
  "text_line s = s @ [CHR 0x0A]"

definition SAMPLE_CPU_STAT :: string where
  "SAMPLE_CPU_STAT = concat (map text_line [''usage_usec 5123456'', ''user_usec 4000000'', ''system_usec 1123456'', ''nr_periods 12000'',
     ''nr_throttled 4200'', ''throttled_usec 870000000''])"

definition SAMPLE_MEM_EVENTS :: string where
  "SAMPLE_MEM_EVENTS = concat (map text_line [''low 0'', ''high 1500'', ''max 12'', ''oom 2'', ''oom_kill 2''])"

definition cgroup_selftest :: "unit res" where
  "cgroup_selftest =
     rbind (parse_kv SAMPLE_CPU_STAT) (\<lambda>cpu.
     rbind (dict_lookup cpu ''nr_periods'') (\<lambda>p. rbind (dict_lookup cpu ''nr_throttled'') (\<lambda>t.
     rbind (py_assert (p = 12000 \<and> t = 4200)) (\<lambda>_.
     let r = throttle_ratio cpu in
     rbind (py_assert (\<bar>r - 35/100\<bar> < 1 / 10 ^ 9)) (\<lambda>_. rbind (py_assert (r > 1/100)) (\<lambda>_.
     rbind (parse_kv SAMPLE_MEM_EVENTS) (\<lambda>mem.
     rbind (dict_lookup mem ''oom_kill'') (\<lambda>o_k. rbind (dict_lookup mem ''high'') (\<lambda>h.
     rbind (py_assert (o_k = 2 \<and> h = 1500)) (\<lambda>_.
     rbind (parse_kv (concat (map text_line [''nr_periods 1000'', ''nr_throttled 0'']))) (\<lambda>healthy.
     rbind (py_assert (throttle_ratio healthy = 0)) (\<lambda>_. py_assert (throttle_ratio healthy \<le> 1/100)))))))))))))"

text \<open>Reading back what the kernel writes.\<close>

definition kv_line :: "string \<times> int \<Rightarrow> string" where
  "kv_line kv = fst kv @ '' '' @ py_str (snd kv)"

lemma kv_loop_lines:
  assumes "\<forall>kv \<in> set kvs. is_word (fst kv)"
  shows "kv_loop (map kv_line kvs) out = Inr (fold (\<lambda>(k, v). AList.update k v) kvs out)"
  using assms
proof (induction kvs arbitrary: out)
  case (Cons kv kvs)
  obtain k v where kv: "kv = (k, v)" by force
  have "split_ws (kv_line kv) = [k, py_str v]"
    using split_ws_join [of "[k, py_str v]"] Cons.prems py_str_word by (auto simp: kv_line_def kv)
  moreover have "isdigit (lstrip_char CHR ''-'' (py_str v))" by (rule isdigit_py_str)
  ultimately show ?case using Cons by (simp add: kv)
qed simp

lemma parse_kv_text:
  assumes "kvs \<noteq> []" "\<forall>kv \<in> set kvs. is_word (fst kv)"
  shows "parse_kv (concat (map (text_line \<circ> kv_line) kvs)) = Inr (fold (\<lambda>(k, v). AList.update k v) kvs [])"
proof -
  let ?row = "\<lambda>kv. [fst kv, py_str (snd kv)]"
  have rows: "r \<noteq> [] \<and> (\<forall>w \<in> set r. is_word w)" if "r \<in> set (map ?row kvs)" for r using that assms(2) py_str_word by fastforce
  have "text_line (kv_line kv) = join_with '' '' (?row kv) @ [CHR 0x0A]" for kv by (simp add: text_line_def kv_line_def)
  then have "concat (map (text_line \<circ> kv_line) kvs) = concat (map (\<lambda>r. join_with '' '' r @ [CHR 0x0A]) (map ?row kvs))"
    by (simp add: comp_def)
  then have "splitlines (strip (concat (map (text_line \<circ> kv_line) kvs))) = map (join_with '' '') (map ?row kvs)"
    using parse_lines [of "map ?row kvs", OF _ rows] assms(1) by simp
  also have "\<dots> = map kv_line kvs" by (simp add: kv_line_def)
  finally show ?thesis by (simp add: parse_kv_def kv_loop_lines assms(2))
qed

lemma sample_lines:
  "kv_line (''usage_usec'', 5123456) = ''usage_usec 5123456''" "kv_line (''user_usec'', 4000000) = ''user_usec 4000000''" "kv_line (''system_usec'', 1123456) = ''system_usec 1123456''"
  "kv_line (''nr_periods'', 12000) = ''nr_periods 12000''" "kv_line (''nr_throttled'', 4200) = ''nr_throttled 4200''" "kv_line (''throttled_usec'', 870000000) = ''throttled_usec 870000000''"
  "kv_line (''low'', 0) = ''low 0''" "kv_line (''high'', 1500) = ''high 1500''" "kv_line (''max'', 12) = ''max 12''"
  "kv_line (''oom'', 2) = ''oom 2''" "kv_line (''oom_kill'', 2) = ''oom_kill 2''" "kv_line (''nr_periods'', 1000) = ''nr_periods 1000''"
  "kv_line (''nr_throttled'', 0) = ''nr_throttled 0''"
  by (simp_all add: kv_line_def py_str_def str_nat_eval digit_chars)

lemma sample_words:
  "list_all is_word [''usage_usec'', ''user_usec'', ''system_usec'', ''nr_periods'', ''nr_throttled'', ''throttled_usec'',
     ''low'', ''high'', ''max'', ''oom'', ''oom_kill'']"
  by code_simp

lemma parse_samples:
  "parse_kv SAMPLE_CPU_STAT = Inr [(''usage_usec'', 5123456), (''user_usec'', 4000000), (''system_usec'', 1123456), 
     (''nr_periods'', 12000), (''nr_throttled'', 4200), (''throttled_usec'', 870000000)]"
  "parse_kv SAMPLE_MEM_EVENTS = Inr [(''low'', 0), (''high'', 1500), (''max'', 12), (''oom'', 2), (''oom_kill'', 2)]"
  "parse_kv (concat (map text_line [''nr_periods 1000'', ''nr_throttled 0''])) = Inr [(''nr_periods'', 1000), (''nr_throttled'', 0)]"
  using parse_kv_text [of "[(''usage_usec'', 5123456), (''user_usec'', 4000000), (''system_usec'', 1123456),  (''nr_periods'', 12000), (''nr_throttled'', 4200), (''throttled_usec'', 870000000)]"]
    parse_kv_text [of "[(''low'', 0), (''high'', 1500), (''max'', 12), (''oom'', 2), (''oom_kill'', 2)]"] parse_kv_text [of "[(''nr_periods'', 1000), (''nr_throttled'', 0)]"]
  by (simp_all add: sample_lines SAMPLE_CPU_STAT_def SAMPLE_MEM_EVENTS_def sample_words [simplified])

lemma cgroup_selftest_passes: "cgroup_selftest = Inr ()"
  unfolding cgroup_selftest_def parse_samples
  by (simp add: dict_lookup_def dict_get_def throttle_ratio_def py_assert_def Let_def)

definition fork_selftest :: "unit res" where
  "fork_selftest =
     rbind (py_assert (touch_loop 0 (2 * 1024 * 1024) 0 = 2 * 1024 * 1024 div 4096 \<and> (2 * 1024 * 1024 div 4096 :: nat) = 512)) (\<lambda>_.
     py_assert (pte_bytes 512 = 512 * pte_bytes 1))"

lemma fork_selftest_passes: "fork_selftest = Inr ()"
  by (simp add: fork_selftest_def touch_loop_count pte_bytes_def py_assert_def)

end
