(* ===== verification/Psi.thy ===== *)
theory Psi
  imports Complex_Main Proc_Text
begin

text \<open>
  \<^verbatim>\<open>psi_watcher.py\<close>: pressure stall information from \<^verbatim>\<open>/proc/pressure\<close>. \<^verbatim>\<open>float\<close> is modelled on ASCII text with exact rationals
  for its finite values.
\<close>

section \<open>Floating-point literals\<close>

datatype number = Fin rat | Inf bool | NaN

text \<open>\<^verbatim>\<open>a >= b\<close> for a finite \<open>b\<close>; \<open>Inf True\<close> is the negative infinity.\<close>

fun num_ge :: "number \<Rightarrow> rat \<Rightarrow> bool" where
  "num_ge (Fin a) b \<longleftrightarrow> a \<ge> b"
| "num_ge (Inf neg) b \<longleftrightarrow> \<not> neg"
| "num_ge NaN b \<longleftrightarrow> False"

text \<open>A possibly empty run of digits, with underscores between digits.\<close>

definition digit_run :: "string \<Rightarrow> int option" where
  "digit_run s = (if s = [] then Some 0 else read_digits 10 0 True s)"

definition lower_ascii :: "string \<Rightarrow> string" where
  "lower_ascii s = map (\<lambda>c. if 65 \<le> (of_char c :: int) \<and> (of_char c :: int) \<le> 90 then char_of (of_char c + 32 :: int) else c) s"

text \<open>\<^verbatim>\<open>12.5\<close> or \<^verbatim>\<open>.5\<close> or \<^verbatim>\<open>12.\<close> or \<^verbatim>\<open>12\<close>.\<close>

definition mantissa :: "string \<Rightarrow> rat option" where
  "mantissa m =
     (let whole = takeWhile (\<lambda>c. c \<noteq> CHR ''.'') m; frac = drop 1 (dropWhile (\<lambda>c. c \<noteq> CHR ''.'') m) in
      if whole = [] \<and> frac = [] then None
      else case (digit_run whole, digit_run frac) of
          (Some w, Some f) \<Rightarrow> Some (of_int w + of_int f / 10 ^ length (filter (\<lambda>c. c \<noteq> CHR ''_'') frac))
        | _ \<Rightarrow> None)"

text \<open>The factor of the exponent, which follows the letter.\<close>

definition exponent :: "string \<Rightarrow> rat option" where
  "exponent e =
     (let (neg, ds) = (case e of [] \<Rightarrow> (False, []) | c # cs \<Rightarrow>
            if c = CHR ''-'' then (True, cs) else if c = CHR ''+'' then (False, cs) else (False, e)) in
      map_option (\<lambda>n. if neg then 1 / 10 ^ nat n else 10 ^ nat n) (read_digits 10 0 True ds))"

definition decimal :: "string \<Rightarrow> rat option" where
  "decimal s =
     (let is_e = (\<lambda>c. c = CHR ''e'' \<or> c = CHR ''E'');
          m = takeWhile (\<lambda>c. \<not> is_e c) s; e = dropWhile (\<lambda>c. \<not> is_e c) s in
      case (mantissa m, if e = [] then Some 1 else exponent (drop 1 e)) of
        (Some x, Some y) \<Rightarrow> Some (x * y)
      | _ \<Rightarrow> None)"

definition py_float :: "string \<Rightarrow> number res" where
  "py_float s =
     (let t = strip s;
          (neg, body) = (case t of [] \<Rightarrow> (False, []) | c # cs \<Rightarrow>
            if c = CHR ''-'' then (True, cs) else if c = CHR ''+'' then (False, cs) else (False, t)) in
      if lower_ascii body \<in> {''inf'', ''infinity''} then Inr (Inf neg)
      else if lower_ascii body = ''nan'' then Inr NaN
      else case decimal body of None \<Rightarrow> Inl ValueError | Some x \<Rightarrow> Inr (Fin (if neg then - x else x)))"

section \<open>Parsing\<close>

type_synonym psi = "(string, (string, number) dict) dict"

definition THRESHOLDS :: "(string, rat) dict" where
  "THRESHOLDS = [(''cpu'', 20), (''memory'', 10), (''io'', 20)]"

text \<open>\<^verbatim>\<open>kv.partition("=")\<close>, without the separator itself.\<close>

definition partition_eq :: "string \<Rightarrow> string \<times> string" where
  "partition_eq kv = (takeWhile (\<lambda>c. c \<noteq> CHR ''='') kv, drop 1 (dropWhile (\<lambda>c. c \<noteq> CHR ''='') kv))"

definition field_value :: "string \<Rightarrow> string \<Rightarrow> number res" where
  "field_value k v =
     (if CHR ''.'' \<in> set v \<or> startswith ''avg'' k then py_float v else rbind (py_int 10 v) (\<lambda>n. Inr (Fin (of_int n))))"

fun psi_fields :: "string list \<Rightarrow> (string, number) dict \<Rightarrow> (string, number) dict res" where
  "psi_fields [] fields = Inr fields"
| "psi_fields (kv # kvs) fields =
     (let (k, v) = partition_eq kv in rbind (field_value k v) (\<lambda>x. psi_fields kvs (AList.update k x fields)))"

fun psi_lines :: "string list \<Rightarrow> psi \<Rightarrow> psi res" where
  "psi_lines [] out = Inr out"
| "psi_lines (l # ls) out = (case split_ws l of [] \<Rightarrow> psi_lines ls out
     | kind # kvs \<Rightarrow> rbind (psi_fields kvs []) (\<lambda>fields. psi_lines ls (AList.update kind fields out)))"

definition parse_psi :: "string \<Rightarrow> psi res" where
  "parse_psi body = psi_lines (splitlines (strip body)) []"

definition read_psi :: "string option \<Rightarrow> psi option res" where
  "read_psi file = (case file of None \<Rightarrow> Inr None | Some s \<Rightarrow> rbind (parse_psi s) (\<lambda>p. Inr (Some p)))"

definition worst_avg10 :: "psi \<Rightarrow> number" where
  "worst_avg10 parsed = (case map_of parsed ''full'' of
     Some f \<Rightarrow> dict_get f ''avg10'' (Fin 0)
   | None \<Rightarrow> dict_get (dict_get parsed ''some'' []) ''avg10'' (Fin 0))"

text \<open>What \<^verbatim>\<open>format_line\<close> puts into its text: the two averages, the threshold and whether it flags pressure.\<close>

definition format_line :: "string \<Rightarrow> psi \<Rightarrow> (number \<times> number option \<times> rat \<times> bool) res" where
  "format_line resource parsed =
     (let metric = worst_avg10 parsed in
      rbind (dict_lookup THRESHOLDS resource) (\<lambda>threshold.
      Inr (dict_get (dict_get parsed ''some'' []) ''avg10'' (Fin 0), map_of (dict_get parsed ''full'' []) ''avg10'',
           threshold, num_ge metric threshold)))"

section \<open>What the kernel writes\<close>

text \<open>An average in hundredths, as \<^verbatim>\<open>%lu.%02lu\<close>.\<close>

definition psi_avg :: "nat \<Rightarrow> string" where
  "psi_avg h = str_nat (h div 100) @ CHR ''.'' # [digit_char (h mod 100 div 10), digit_char (h mod 10)]"

definition psi_dict :: "nat \<Rightarrow> nat \<Rightarrow> nat \<Rightarrow> nat \<Rightarrow> (string, number) dict" where
  "psi_dict a10 a60 a300 stall = [(''avg10'', Fin (of_nat a10 / 100)), (''avg60'', Fin (of_nat a60 / 100)),
     (''avg300'', Fin (of_nat a300 / 100)), (''total'', Fin (of_nat stall))]"


definition digits_of :: "string \<Rightarrow> bool" where
  "digits_of s \<longleftrightarrow> (\<forall>c \<in> set s. \<exists>d < 10. c = digit_char d)"

lemma digits_of_str_nat [simp]: "digits_of (str_nat n)"
  by (simp add: digits_of_def str_nat_digits)

lemma digit_not:
  assumes "d < 10"
  shows "digit_char d \<noteq> CHR ''e''" "digit_char d \<noteq> CHR ''E''" "digit_char d \<noteq> CHR ''=''" "digit_char d \<noteq> CHR ''i''" "digit_char d \<noteq> CHR ''n''"
proof -
  have n: "(of_char (digit_char d) :: nat) = 48 + d" using assms by (simp add: digit_char_def)
  show "digit_char d \<noteq> CHR ''e''" "digit_char d \<noteq> CHR ''E''" "digit_char d \<noteq> CHR ''=''" "digit_char d \<noteq> CHR ''i''" "digit_char d \<noteq> CHR ''n''"
    by (rule notI, use n assms in simp)+
qed

lemma psi_avg_chars: "c \<in> set (psi_avg h) \<Longrightarrow> c = CHR ''.'' \<or> (\<exists>d < 10. c = digit_char d)"
proof -
  assume "c \<in> set (psi_avg h)"
  moreover have "h mod 100 div 10 < 10" "h mod 10 < 10" by auto
  ultimately consider "c \<in> set (str_nat (h div 100))" | "c = CHR ''.''" | "\<exists>d < 10. c = digit_char d"
    unfolding psi_avg_def by (metis Un_iff insertE list.set(1,2) empty_iff set_append)
  then show ?thesis using str_nat_digits [of c "h div 100"] by cases auto
qed

lemma psi_avg_word: "is_word (psi_avg h)" "CHR ''='' \<notin> set (psi_avg h)"
proof -
  have "\<not> is_space c" "c \<noteq> CHR ''=''" if "c \<in> set (psi_avg h)" for c
  proof -
    have "\<not> is_space CHR ''.''" by (simp add: is_space_int)
    moreover have "\<not> is_space (digit_char d) \<and> digit_char d \<noteq> CHR ''=''" if "d < 10" for d
      using digit_char_facts(8) [OF that] digit_not(3) [OF that] by simp
    ultimately have "\<not> is_space c \<and> c \<noteq> CHR ''=''" using psi_avg_chars [OF that] by auto
    then show "\<not> is_space c" "c \<noteq> CHR ''=''" by simp_all
  qed
  then show "is_word (psi_avg h)" "CHR ''='' \<notin> set (psi_avg h)" by (auto simp: is_word_def psi_avg_def)
qed

lemma mantissa_avg: "mantissa (psi_avg h) = Some (of_nat h / 100)"
proof -
  let ?w = "str_nat (h div 100)" and ?f = "[digit_char (h mod 100 div 10), digit_char (h mod 10)]"
  have no: "\<forall>c \<in> set ?w. c \<noteq> CHR ''.''" using str_nat_chars(2) by blast
  have parts: "takeWhile (\<lambda>c. c \<noteq> CHR ''.'') (psi_avg h) = ?w" "dropWhile (\<lambda>c. c \<noteq> CHR ''.'') (psi_avg h) = CHR ''.'' # ?f"
    using no by (simp_all add: psi_avg_def takeWhile_append2 dropWhile_append2)
  have d: "h mod 100 div 10 < 10" "h mod 10 < 10" by auto
  have run: "digit_run ?w = Some (int (h div 100))" using read_digits_str_nat [of True "h div 100" "[]"] by (simp add: digit_run_def)
  have "h = h div 100 * 100 + (h mod 100 div 10 * 10 + h mod 10)" 
  proof -
    have "h mod 100 mod 10 = h mod 10" by (simp add: mod_mod_cancel)
    then have "h mod 100 = h mod 100 div 10 * 10 + h mod 10" using div_mult_mod_eq [of "h mod 100" 10] by simp
    then show ?thesis using div_mult_mod_eq [of h 100] by simp
  qed
  then have "rat_of_nat h = of_nat (h div 100 * 100 + (h mod 100 div 10 * 10 + h mod 10))" by (rule arg_cong)
  then have val: "rat_of_nat h = of_nat (h div 100) * 100 + (of_nat (h mod 100 div 10) * 10 + of_nat (h mod 10))"
    by (simp only: of_nat_add of_nat_mult of_nat_numeral)
  have frac: "digit_run ?f = Some (int (h mod 100 div 10) * 10 + int (h mod 10))"
    using d by (simp add: digit_run_def digit_char_facts del: of_nat_mod of_nat_div)
  have two: "length (filter (\<lambda>c. c \<noteq> CHR ''_'') ?f) = 2" using d by (simp add: digit_char_facts)
  have "of_int (int (h div 100)) + of_int (int (h mod 100 div 10) * 10 + int (h mod 10)) / 10 ^ 2 = rat_of_nat h / 100"
    unfolding val by (simp add: field_simps del: of_nat_mod of_nat_div)
  then show ?thesis by (simp add: mantissa_def parts run frac two del: of_nat_mod of_nat_div filter.simps)
qed

lemma py_float_avg: "py_float (psi_avg h) = Inr (Fin (of_nat h / 100))"
proof -
  let ?s = "psi_avg h"
  obtain c cs where c: "str_nat (h div 100) = c # cs" by (meson neq_Nil_conv str_nat_nonempty)
  then obtain cs' where s: "?s = c # cs'" by (simp add: psi_avg_def)
  obtain d where d: "d < 10" "c = digit_char d" using c str_nat_digits [of c "h div 100"] by auto
  have sp: "\<not> is_space x" if "x \<in> set ?s" for x using psi_avg_word(1) that by (simp add: is_word_def)
  have strip: "strip ?s = ?s" by (rule strip_by_id) (use sp [of "hd ?s"] sp [of "last ?s"] s in auto)
  have lc: "lower_ascii ?s = c # lower_ascii cs'"
    using of_char_digit [OF d(1)] d(1) unfolding s lower_ascii_def d(2) by simp
  then have "lower_ascii ?s \<notin> {''inf'', ''infinity'', ''nan''}" using digit_not [OF d(1)] d(2) by auto
  moreover have "c \<noteq> CHR ''-''" "c \<noteq> CHR ''+''" using digit_char_facts [OF d(1)] d(2) by auto
  moreover have "decimal ?s = Some (of_nat h / 100)"
  proof -
    have "\<forall>x \<in> set ?s. \<not> (x = CHR ''e'' \<or> x = CHR ''E'')" using psi_avg_chars [of _ h] digit_not by fastforce
    then have "takeWhile (\<lambda>c. \<not> (c = CHR ''e'' \<or> c = CHR ''E'')) ?s = ?s" "dropWhile (\<lambda>c. \<not> (c = CHR ''e'' \<or> c = CHR ''E'')) ?s = []"
      by (simp_all only: takeWhile_eq_all_conv dropWhile_eq_Nil_conv)
    then show ?thesis by (simp add: decimal_def mantissa_avg Let_def del: takeWhile_eq_all_conv dropWhile_eq_Nil_conv)
  qed
  ultimately show ?thesis using strip s by (simp add: py_float_def Let_def)
qed


section \<open>Reading it back\<close>

lemma str_nat_word: "is_word (str_nat n)" "CHR ''='' \<notin> set (str_nat n)"
proof -
  have "\<not> is_space c \<and> c \<noteq> CHR ''=''" if "c \<in> set (str_nat n)" for c
    using str_nat_digits [OF that] str_nat_chars(8) [OF that] digit_not(3) by auto
  then show "is_word (str_nat n)" "CHR ''='' \<notin> set (str_nat n)" by (auto simp: is_word_def)
qed

lemma partition_eq_append: "CHR ''='' \<notin> set k \<Longrightarrow> partition_eq (k @ CHR ''='' # v) = (k, v)"
proof -
  assume "CHR ''='' \<notin> set k"
  then have "\<forall>c \<in> set k. c \<noteq> CHR ''=''" by auto
  then show ?thesis by (simp add: partition_eq_def takeWhile_append2 dropWhile_append2)
qed

lemma psi_fields_line:
  "psi_fields [''avg10='' @ psi_avg a10, ''avg60='' @ psi_avg a60, ''avg300='' @ psi_avg a300, ''total='' @ str_nat stall] [] =
     Inr (psi_dict a10 a60 a300 stall)"
proof -
  have avg: "partition_eq (''avg10='' @ v) = (''avg10'', v)" "partition_eq (''avg60='' @ v) = (''avg60'', v)"
    "partition_eq (''avg300='' @ v) = (''avg300'', v)" "partition_eq (''total='' @ v) = (''total'', v)" for v
    by (simp_all add: partition_eq_def)
  have val: "field_value k (psi_avg h) = Inr (Fin (of_nat h / 100))" for k h
    by (simp add: field_value_def py_float_avg) (simp add: psi_avg_def)
  have "CHR ''.'' \<notin> set (str_nat stall)" using str_nat_chars(2) by blast
  then have "field_value ''total'' (str_nat stall) = Inr (Fin (of_nat stall))"
    using py_int_py_str [of "int stall"] by (simp add: field_value_def startswith_def py_str_def)
  then show ?thesis unfolding psi_fields.simps avg Let_def prod.case val rbind.simps psi_dict_def by simp
qed

text \<open>The words of a line.\<close>

definition psi_words :: "string \<times> nat \<times> nat \<times> nat \<times> nat \<Rightarrow> string list" where
  "psi_words row = (case row of (kind, a10, a60, a300, stall) \<Rightarrow>
     [kind, ''avg10='' @ psi_avg a10, ''avg60='' @ psi_avg a60, ''avg300='' @ psi_avg a300, ''total='' @ str_nat stall])"

definition psi_text :: "(string \<times> nat \<times> nat \<times> nat \<times> nat) list \<Rightarrow> string" where
  "psi_text rows = concat (map (\<lambda>row. join_with '' '' (psi_words row) @ [CHR 0x0A]) rows)"

lemma psi_words_ok: "is_word (fst row) \<Longrightarrow> psi_words row \<noteq> [] \<and> (\<forall>w \<in> set (psi_words row). is_word w)"
proof -
  assume kind: "is_word (fst row)"
  obtain k a10 a60 a300 stall where row: "row = (k, a10, a60, a300, stall)" by (metis surj_pair)
  have app: "is_word (p @ v)" if "list_all (\<lambda>c. \<not> is_space c) p" "is_word v" for p v
    using that by (auto simp: is_word_def list_all_iff)
  have "list_all (\<lambda>c. \<not> is_space c) ''avg10=''" "list_all (\<lambda>c. \<not> is_space c) ''avg60=''"
    "list_all (\<lambda>c. \<not> is_space c) ''avg300=''" "list_all (\<lambda>c. \<not> is_space c) ''total=''" by code_simp+
  note w = this [THEN app, OF psi_avg_word(1)] this [THEN app, OF str_nat_word(1)]
  have "list_all is_word (psi_words row)"
    unfolding row psi_words_def prod.case list.pred_inject(2) using kind w by (simp only: row fst_conv simp_thms list.pred_inject(1))
  then show ?thesis by (simp add: list_all_iff psi_words_def row)
qed

lemma psi_lines_rows:
  assumes "\<forall>row \<in> set rows. is_word (fst row)"
  shows "psi_lines (map (\<lambda>row. join_with '' '' (psi_words row)) rows) out =
    Inr (fold (\<lambda>(kind, a10, a60, a300, stall). AList.update kind (psi_dict a10 a60 a300 stall)) rows out)"
  using assms
proof (induction rows arbitrary: out)
  case (Cons row rows)
  obtain kind a10 a60 a300 stall where row: "row = (kind, a10, a60, a300, stall)" by (metis surj_pair)
  have "split_ws (join_with '' '' (psi_words row)) = psi_words row"
    using split_ws_join [of "psi_words row"] psi_words_ok [of row] Cons.prems by simp
  then have "split_ws (join_with '' '' (psi_words row)) =
      kind # [''avg10='' @ psi_avg a10, ''avg60='' @ psi_avg a60, ''avg300='' @ psi_avg a300, ''total='' @ str_nat stall]"
    by (simp add: row psi_words_def)
  then have "psi_lines (map (\<lambda>row. join_with '' '' (psi_words row)) (row # rows)) out =
      psi_lines (map (\<lambda>row. join_with '' '' (psi_words row)) rows) (AList.update kind (psi_dict a10 a60 a300 stall) out)"
    by (simp only: list.map psi_lines.simps list.case psi_fields_line rbind.simps)
  also have "\<dots> = Inr (fold (\<lambda>(kind, a10, a60, a300, stall). AList.update kind (psi_dict a10 a60 a300 stall)) (row # rows) out)"
    using Cons.IH Cons.prems by (simp add: row)
  finally show ?case .
qed simp

lemma parse_psi_text:
  assumes "rows \<noteq> []" "\<forall>row \<in> set rows. is_word (fst row)"
  shows "parse_psi (psi_text rows) =
    Inr (fold (\<lambda>(kind, a10, a60, a300, stall). AList.update kind (psi_dict a10 a60 a300 stall)) rows [])"
proof -
  have eq: "psi_text rows = concat (map (\<lambda>r. join_with '' '' r @ [CHR 0x0A]) (map psi_words rows))"
    by (simp add: psi_text_def comp_def)
  have "\<forall>r \<in> psi_words ` set rows. r \<noteq> [] \<and> (\<forall>w \<in> set r. is_word w)"
  proof
    fix r
    assume "r \<in> psi_words ` set rows"
    then obtain row where row: "r = psi_words row" "row \<in> set rows" by (rule imageE)
    show "r \<noteq> [] \<and> (\<forall>w \<in> set r. is_word w)" unfolding row(1) by (rule psi_words_ok) (rule bspec [OF assms(2) row(2)])
  qed
  then have "r \<noteq> [] \<and> (\<forall>w \<in> set r. is_word w)" if "r \<in> set (map psi_words rows)" for r
    using that unfolding list.set_map by (rule bspec)
  then have "splitlines (strip (psi_text rows)) = map (join_with '' '') (map psi_words rows)"
    unfolding eq using assms(1) by (intro parse_lines) simp_all
  then show ?thesis using psi_lines_rows [OF assms(2)] by (simp add: parse_psi_def comp_def)
qed

section \<open>Properties\<close>

text \<open>\<^verbatim>\<open>parse_psi\<close> reads back every pressure file the kernel writes, and \<^verbatim>\<open>format_line\<close> flags a resource exactly when the
  ten-second average, the one of the \<open>full\<close> line where there is one, reaches its threshold.\<close>

theorem psi_alert:
  assumes "map_of THRESHOLDS resource = Some t"
  shows "parse_psi (psi_text [(''some'', a, b, c, n)]) = Inr [(''some'', psi_dict a b c n)] \<and>
    parse_psi (psi_text [(''some'', a, b, c, n), (''full'', a', b', c', n')]) =
      Inr [(''some'', psi_dict a b c n), (''full'', psi_dict a' b' c' n')] \<and>
    format_line resource [(''some'', psi_dict a b c n)] = Inr (Fin (of_nat a / 100), None, t, t \<le> of_nat a / 100) \<and>
    format_line resource [(''some'', psi_dict a b c n), (''full'', psi_dict a' b' c' n')] =
      Inr (Fin (of_nat a / 100), Some (Fin (of_nat a' / 100)), t, t \<le> of_nat a' / 100)"
proof -
  have words: "is_word ''some''" "is_word ''full''" by (simp_all add: is_word_def is_space_int)
  have "parse_psi (psi_text [(''some'', a, b, c, n)]) = Inr [(''some'', psi_dict a b c n)]"
    using parse_psi_text [of "[(''some'', a, b, c, n)]"] words by simp
  moreover have "parse_psi (psi_text [(''some'', a, b, c, n), (''full'', a', b', c', n')]) =
      Inr [(''some'', psi_dict a b c n), (''full'', psi_dict a' b' c' n')]"
    using parse_psi_text [of "[(''some'', a, b, c, n), (''full'', a', b', c', n')]"] words by simp
  ultimately show ?thesis
    using assms by (simp add: format_line_def dict_lookup_def worst_avg10_def dict_get_def psi_dict_def)
qed

theorem psi_alert_witness:
  "format_line ''io'' [(''some'', psi_dict 4200 1800 500 555), (''full'', psi_dict 3000 1000 200 333)] =
     Inr (Fin 42, Some (Fin 30), 20, True)"
  using psi_alert [of "''io''" 20 4200 1800 500 555 3000 1000 200 333] by (simp add: THRESHOLDS_def)


section \<open>The self-test\<close>

definition psi_file :: "string list \<Rightarrow> string" where
  "psi_file ls = concat (map (\<lambda>l. l @ [CHR 0x0A]) ls)"

definition SAMPLE :: "(string, string) dict" where
  "SAMPLE = [
     (''cpu'', psi_file [''some avg10=35.20 avg60=12.10 avg300=4.30 total=987654321'']),
     (''memory'', psi_file [''some avg10=8.00 avg60=3.00 avg300=1.00 total=12345'', ''full avg10=6.50 avg60=2.00 avg300=0.50 total=9876'']),
     (''io'', psi_file [''some avg10=42.00 avg60=18.00 avg300=5.00 total=555'', ''full avg10=30.00 avg60=10.00 avg300=2.00 total=333''])]"

definition psi_sample :: "string \<Rightarrow> psi res" where
  "psi_sample res = rbind (dict_lookup SAMPLE res) parse_psi"

definition psi_selftest :: "unit res" where
  "psi_selftest =
     rbind (psi_sample ''cpu'') (\<lambda>cpu.
     rbind (rbind (dict_lookup cpu ''some'') (\<lambda>f. dict_lookup f ''avg10'')) (\<lambda>x. rbind (py_assert (x = Fin (3520/100))) (\<lambda>_.
     rbind (py_assert (map_of cpu ''full'' = None)) (\<lambda>_.
     rbind (py_assert (worst_avg10 cpu = Fin (3520/100))) (\<lambda>_.
     rbind (psi_sample ''memory'') (\<lambda>mem.
     rbind (rbind (dict_lookup mem ''full'') (\<lambda>f. dict_lookup f ''avg10'')) (\<lambda>x. rbind (py_assert (x = Fin (650/100))) (\<lambda>_.
     rbind (py_assert (worst_avg10 mem = Fin (650/100))) (\<lambda>_.
     rbind (psi_sample ''io'') (\<lambda>io.
     rbind (py_assert (worst_avg10 io = Fin 30)) (\<lambda>_.
     rbind (dict_lookup THRESHOLDS ''io'') (\<lambda>t. rbind (py_assert (num_ge (worst_avg10 io) t)) (\<lambda>_.
     rbind (dict_lookup THRESHOLDS ''memory'') (\<lambda>t. py_assert (case worst_avg10 mem of Fin a \<Rightarrow> a < t | Inf neg \<Rightarrow> neg | NaN \<Rightarrow> False)))))))))))))))"

lemma sample_texts:
  "psi_file [''some avg10=35.20 avg60=12.10 avg300=4.30 total=987654321''] = psi_text [(''some'', 3520, 1210, 430, 987654321)]"
  "psi_file [''some avg10=8.00 avg60=3.00 avg300=1.00 total=12345'', ''full avg10=6.50 avg60=2.00 avg300=0.50 total=9876''] =
     psi_text [(''some'', 800, 300, 100, 12345), (''full'', 650, 200, 50, 9876)]"
  "psi_file [''some avg10=42.00 avg60=18.00 avg300=5.00 total=555'', ''full avg10=30.00 avg60=10.00 avg300=2.00 total=333''] =
     psi_text [(''some'', 4200, 1800, 500, 555), (''full'', 3000, 1000, 200, 333)]"
  by (simp_all add: psi_file_def psi_text_def psi_words_def psi_avg_def str_nat_eval digit_chars)

lemma psi_samples_parsed:
  "psi_sample ''cpu'' = Inr [(''some'', psi_dict 3520 1210 430 987654321)]"
  "psi_sample ''memory'' = Inr [(''some'', psi_dict 800 300 100 12345), (''full'', psi_dict 650 200 50 9876)]"
  "psi_sample ''io'' = Inr [(''some'', psi_dict 4200 1800 500 555), (''full'', psi_dict 3000 1000 200 333)]"
  by (simp_all add: psi_sample_def SAMPLE_def dict_lookup_def sample_texts parse_psi_text is_word_def is_space_int)

lemma psi_selftest_passes: "psi_selftest = Inr ()"
  unfolding psi_selftest_def psi_samples_parsed
  by (simp add: dict_lookup_def THRESHOLDS_def worst_avg10_def dict_get_def psi_dict_def py_assert_def)

end
