(* ===== verification/Pem.thy ===== *)
theory Pem
  imports X509
begin

text \<open>
  The PEM files of \<^verbatim>\<open>tls_inspect.py\<close>: \<^verbatim>\<open>base64.encodebytes\<close>, \<^verbatim>\<open>_pem\<close> and \<^verbatim>\<open>write_temp_credentials\<close>, which puts key generation,
  the certificate and the key encoding together.
\<close>

section \<open>Base64\<close>

definition b64_alphabet :: string where
  "b64_alphabet = ''ABCDEFGHIJKLMNOPQRSTUVWXYZabcdefghijklmnopqrstuvwxyz0123456789+/''"

definition b64_char :: "nat \<Rightarrow> char" where
  "b64_char n = b64_alphabet ! n"

text \<open>Three bytes as four characters, from the highest bits; what is missing at the end is padded.\<close>

fun b64_encode :: "bytes \<Rightarrow> string" where
  "b64_encode [] = []"
| "b64_encode [a] = (let n = unat a * 16 in [b64_char (n div 64), b64_char (n mod 64), CHR ''='', CHR ''=''])"
| "b64_encode [a, b] = (let n = (unat a * 256 + unat b) * 4 in
     [b64_char (n div 4096), b64_char (n div 64 mod 64), b64_char (n mod 64), CHR ''=''])"
| "b64_encode (a # b # c # rest) = (let n = (unat a * 256 + unat b) * 256 + unat c in
     [b64_char (n div 262144), b64_char (n div 4096 mod 64), b64_char (n div 64 mod 64), b64_char (n mod 64)] @ b64_encode rest)"

text \<open>\<^verbatim>\<open>base64.encodebytes\<close>: one line for every 57 bytes.\<close>

function encode_lines :: "bytes \<Rightarrow> string list" where
  "encode_lines d = (if d = [] then [] else b64_encode (take 57 d) # encode_lines (drop 57 d))"
  by pat_completeness auto

termination
  by (relation "measure length") auto

declare encode_lines.simps [simp del]

definition encodebytes :: "bytes \<Rightarrow> string" where
  "encodebytes d = concat (map (\<lambda>l. l @ [CHR 0x0A]) (encode_lines d))"

definition pem :: "bytes \<Rightarrow> string \<Rightarrow> string" where
  "pem der_bytes label =
     (let b64 = strip (encodebytes der_bytes) in
      ''-----BEGIN '' @ label @ ''-----'' @ [CHR 0x0A] @ b64 @ [CHR 0x0A] @ ''-----END '' @ label @ ''-----'' @ [CHR 0x0A])"

text \<open>
  \<^verbatim>\<open>write_temp_credentials\<close>: the two texts it writes, \<open>cert.pem\<close> and \<open>key.pem\<close>. The numbers drawn for the key, the serial number and the
  validity are arguments; \<open>None\<close> when the search for primes never ends.
\<close>

definition credential_files :: "(bytes \<Rightarrow> bytes) \<Rightarrow> int \<Rightarrow> rat \<Rightarrow> rat \<Rightarrow> rsa_key \<Rightarrow> (string \<times> string) res" where
  "credential_files sha256 randbits time0 time1 key =
     rbind (make_self_signed_cert sha256 randbits time0 time1 key (ustr_of ''localhost'') (ustr_of ''Example Enterprise'') 3650) (\<lambda>cert_der.
     rbind (pkcs8_private_key key) (\<lambda>key_der.
     Inr (pem cert_der ''CERTIFICATE'', pem key_der ''PRIVATE KEY'')))"

definition write_temp_credentials ::
  "(bytes \<Rightarrow> bytes) \<Rightarrow> (nat \<Rightarrow> prime_source \<times> prime_source) \<Rightarrow> int \<Rightarrow> rat \<Rightarrow> rat \<Rightarrow> (string \<times> string) res option" where
  "write_temp_credentials sha256 src randbits time0 time1 =
     Option.bind (generate_rsa 2048 src) (\<lambda>r. Some (rbind r (credential_files sha256 randbits time0 time1)))"

section \<open>Reading PEM\<close>

text \<open>The specification: what a reader of PEM files (RFC 7468) does.\<close>

definition b64_val :: "char \<Rightarrow> nat option" where
  "b64_val c = (let n = length (takeWhile (\<lambda>x. x \<noteq> c) b64_alphabet) in if n < 64 then Some n else None)"

fun b64_decode :: "string \<Rightarrow> bytes option" where
  "b64_decode [] = Some []"
| "b64_decode (w # x # y # z # rest) =
     (case (b64_val w, b64_val x) of (Some w, Some x) \<Rightarrow>
        if y = CHR ''='' then (if z = CHR ''='' \<and> rest = [] then Some [of_nat ((w * 64 + x) div 16)] else None)
        else (case b64_val y of None \<Rightarrow> None | Some y \<Rightarrow>
          if z = CHR ''='' then
            (if rest = [] then let n = ((w * 64 + x) * 64 + y) div 4 in Some [of_nat (n div 256), of_nat (n mod 256)] else None)
          else (case (b64_val z, b64_decode rest) of (Some z, Some bs) \<Rightarrow>
              let n = ((w * 64 + x) * 64 + y) * 64 + z in
              Some ([of_nat (n div 65536), of_nat (n div 256 mod 256), of_nat (n mod 256)] @ bs)
            | _ \<Rightarrow> None))
      | _ \<Rightarrow> None)"
| "b64_decode _ = None"

definition pem_read :: "string \<Rightarrow> string \<Rightarrow> bytes option" where
  "pem_read label s = (case split_on CHR 0x0A s of
     l # ls \<Rightarrow> let body = butlast (butlast ls) in
       if l = ''-----BEGIN '' @ label @ ''-----'' \<and> ls = body @ [''-----END '' @ label @ ''-----'', []]
       then b64_decode (concat body) else None
   | [] \<Rightarrow> None)"

section \<open>The alphabet\<close>

lemma b64_val_char: "n < 64 \<Longrightarrow> b64_val (b64_char n) = Some n"
proof -
  have "list_all (\<lambda>n. b64_val (b64_char n) = Some n) [0..<64]" by code_simp
  then show "n < 64 \<Longrightarrow> b64_val (b64_char n) = Some n" by (simp add: list_all_iff)
qed

lemma b64_char_ok: "n < 64 \<Longrightarrow> b64_char n \<noteq> CHR ''='' \<and> \<not> is_space (b64_char n)"
proof -
  have "list_all (\<lambda>n. b64_char n \<noteq> CHR ''='' \<and> \<not> is_space (b64_char n)) [0..<64]" by code_simp
  then show "n < 64 \<Longrightarrow> b64_char n \<noteq> CHR ''='' \<and> \<not> is_space (b64_char n)" by (simp add: list_all_iff)
qed


section \<open>Decoding inverts encoding\<close>

lemma byte_lt: "unat (a :: byte) < 256"
proof -
  have "unat a < 2 ^ LENGTH(8)" by (rule unsigned_less)
  then show ?thesis by simp
qed

lemma sextets: "n div (k * 64) * 64 + n div k mod 64 = (n :: nat) div k"
  by (simp add: div_mult2_eq div_mult_mod_eq)

lemma b64_triple:
  fixes a b c :: byte
  defines "n \<equiv> (unat a * 256 + unat b) * 256 + unat c"
  shows "n div 262144 < 64" "((n div 262144 * 64 + n div 4096 mod 64) * 64 + n div 64 mod 64) * 64 + n mod 64 = n"
    "n div 65536 = unat a" "n div 256 mod 256 = unat b" "n mod 256 = unat c"
proof -
  have lt: "unat a < 256" "unat b < 256" "unat c < 256" by (rule byte_lt)+
  then have "unat a \<le> 255" "unat b \<le> 255" "unat c \<le> 255" by simp_all
  then have "n \<le> (255 * 256 + 255) * 256 + 255" unfolding n_def by (intro add_mono mult_mono) simp_all
  then have "n < 16777216" by simp
  then show "n div 262144 < 64" by (simp add: less_mult_imp_div_less)
  have s: "n div 262144 * 64 + n div 4096 mod 64 = n div 4096" "n div 4096 * 64 + n div 64 mod 64 = n div 64"
    using sextets [of n 4096] sextets [of n 64] by simp_all
  show "((n div 262144 * 64 + n div 4096 mod 64) * 64 + n div 64 mod 64) * 64 + n mod 64 = n"
    unfolding s by (rule div_mult_mod_eq)
  have split: "(m * 256 + c') div 256 = m \<and> (m * 256 + c') mod 256 = c'" if "c' < 256" for m c' :: nat using that by simp
  have "n div 256 = unat a * 256 + unat b" "n mod 256 = unat c" unfolding n_def using split [OF lt(3)] by blast+
  then show "n div 256 mod 256 = unat b" "n mod 256 = unat c" using lt(2) by simp_all
  have "n div 65536 = n div 256 div 256" by (simp add: div_mult2_eq [symmetric])
  also have "\<dots> = unat a" using \<open>n div 256 = unat a * 256 + unat b\<close> lt(2) by simp
  finally show "n div 65536 = unat a" .
qed

lemma b64_pair:
  fixes a b :: byte
  defines "n \<equiv> (unat a * 256 + unat b) * 4"
  shows "n div 4096 < 64" "((n div 4096 * 64 + n div 64 mod 64) * 64 + n mod 64) div 4 = unat a * 256 + unat b"
proof -
  have "unat a < 256" "unat b < 256" by (rule byte_lt)+
  then have "unat a \<le> 255" "unat b \<le> 255" by simp_all
  then have "n \<le> (255 * 256 + 255) * 4" unfolding n_def by (intro add_mono mult_mono) simp_all
  then have "n < 262144" by simp
  then show "n div 4096 < 64" by (simp add: less_mult_imp_div_less)
  have "n div 4096 * 64 + n div 64 mod 64 = n div 64" using sextets [of n 64] by simp
  then show "((n div 4096 * 64 + n div 64 mod 64) * 64 + n mod 64) div 4 = unat a * 256 + unat b"
    using div_mult_mod_eq [of n 64] by (simp add: n_def)
qed

lemma b64_decode_encode: "b64_decode (b64_encode d) = Some d"
proof (induction d rule: b64_encode.induct)
  case (2 a)
  have "unat a * 16 div 64 < 64" using byte_lt [of a] by (simp add: less_mult_imp_div_less)
  moreover have "(unat a * 16 div 64 * 64 + unat a * 16 mod 64) div 16 = unat a" using div_mult_mod_eq [of "unat a * 16" 64] by simp
  ultimately show ?case by (simp add: Let_def b64_val_char)
next
  case (3 a b)
  have "unat b < 256" by (rule byte_lt)
  then show ?case using b64_pair [of a b] b64_char_ok by (simp add: Let_def b64_val_char)
next
  case (4 a b c rest)
  then show ?case using b64_triple [of a b c] b64_char_ok by (simp add: Let_def b64_val_char)
qed simp

lemma b64_encode_append: "length d mod 3 = 0 \<Longrightarrow> b64_encode (d @ e) = b64_encode d @ b64_encode e"
proof (induction d rule: b64_encode.induct)
  case (4 a b c rest)
  then have "length rest mod 3 = 0" by (simp add: mod_Suc split: if_splits)
  with 4 show ?case by (simp add: Let_def)
qed simp_all

lemma encode_lines_concat: "concat (encode_lines d) = b64_encode d"
proof (induction d rule: encode_lines.induct)
  case (1 d)
  show ?case
  proof (cases "length d \<le> 57")
    case True
    then show ?thesis by (simp add: encode_lines.simps [of d] encode_lines.simps [of "[]"])
  next
    case False
    then have "length (take 57 d) mod 3 = 0" "d \<noteq> []" by auto
    with b64_encode_append [of "take 57 d" "drop 57 d"] 1 show ?thesis by (simp add: encode_lines.simps [of d])
  qed
qed

lemma pad_no_space: "\<not> is_space CHR ''=''"
  by (simp add: is_space_int)

lemma b64_encode_chars: "c \<in> set (b64_encode d) \<Longrightarrow> \<not> is_space c"
proof (induction d rule: b64_encode.induct)
  case (2 a)
  then show ?case using b64_char_ok [of "unat a * 16 div 64"] b64_char_ok [of "unat a * 16 mod 64"] byte_lt [of a]
    by (auto simp: Let_def less_mult_imp_div_less pad_no_space)
next
  case (3 a b)
  let ?n = "(unat a * 256 + unat b) * 4"
  show ?case using 3 b64_char_ok [of "?n div 4096"] b64_char_ok [of "?n div 64 mod 64"] b64_char_ok [of "?n mod 64"] b64_pair(1) [of a b]
    by (auto simp: Let_def pad_no_space)
next
  case (4 a b c rest)
  let ?n = "(unat a * 256 + unat b) * 256 + unat c"
  show ?case
    using 4 b64_char_ok [of "?n div 262144"] b64_char_ok [of "?n div 4096 mod 64"] b64_char_ok [of "?n div 64 mod 64"]
      b64_char_ok [of "?n mod 64"] b64_triple(1) [of a b c]
    by (auto simp: Let_def)
qed simp


section \<open>Whole files\<close>

lemma encode_lines_ok:
  "l \<in> set (encode_lines d) \<Longrightarrow> l \<noteq> [] \<and> (\<forall>c \<in> set l. \<not> is_space c)"
proof (induction d rule: encode_lines.induct)
  case (1 d)
  have ne: "b64_encode (take 57 d) \<noteq> []" if "d \<noteq> []"
  proof
    assume "b64_encode (take 57 d) = []"
    then have "Some (take 57 d) = Some []" using b64_decode_encode [of "take 57 d"] by simp
    with that show False by simp
  qed
  have "encode_lines [] = []" by (simp add: encode_lines.simps)
  then show ?case using 1 b64_encode_chars ne by (cases "d = []") (auto simp: encode_lines.simps [of d])
qed

lemma strip_lines:
  assumes "\<And>l. l \<in> set ls \<Longrightarrow> l \<noteq> [] \<and> (\<forall>c \<in> set l. \<not> is_space c)"
  shows "strip (concat (map (\<lambda>l. l @ [CHR 0x0A]) ls)) = join_with [CHR 0x0A] ls"
proof (cases "ls = []")
  case False
  have nl: "is_space CHR 0x0A" by (simp add: is_space_int)
  have join: "concat (map (\<lambda>l. l @ [CHR 0x0A]) ls) = join_with [CHR 0x0A] ls @ [CHR 0x0A]" if "ls \<noteq> []" for ls :: "string list"
    using that by (induction ls rule: induct_list012) simp_all
  have ends: "j \<noteq> [] \<and> \<not> is_space (hd j) \<and> \<not> is_space (last j)" if "j = join_with [CHR 0x0A] ls" for j
    unfolding that using False assms
  proof (induction ls rule: induct_list012)
    case (3 l l' ls)
    have "l \<noteq> []" "\<forall>c \<in> set l. \<not> is_space c" using 3(4) [of l] by simp_all
    with 3(2) [OF _ 3(4)] show ?case by simp
  qed simp_all
  obtain j where j: "j = join_with [CHR 0x0A] ls" by simp
  have "dropWhile is_space (j @ [CHR 0x0A]) = j @ [CHR 0x0A]" "dropWhile is_space (rev j) = rev j"
    using ends [OF j] by (simp_all add: dropWhile_hd hd_rev dropWhile_append3)
  then show ?thesis using nl by (simp add: join [OF False] strip_by_def j)
qed (simp add: strip_by_def)

lemma pem_lines:
  "pem d label = join_with [CHR 0x0A]
     ((''-----BEGIN '' @ label @ ''-----'') # (if d = [] then [[]] else encode_lines d) @ [''-----END '' @ label @ ''-----'', []])"
proof -
  have "strip (encodebytes d) = join_with [CHR 0x0A] (encode_lines d)"
    unfolding encodebytes_def by (rule strip_lines) (rule encode_lines_ok)
  moreover have "join_with [CHR 0x0A] (ls @ [a, b]) = join_with [CHR 0x0A] ls @ [CHR 0x0A] @ a @ [CHR 0x0A] @ b"
    if "ls \<noteq> []" for ls and a b :: string
    using that by (induction ls rule: induct_list012) simp_all
  moreover have "join_with [CHR 0x0A] (a # ls) = a @ [CHR 0x0A] @ join_with [CHR 0x0A] ls" if "ls \<noteq> []" for ls and a :: string
    using that by (cases ls) simp_all
  moreover have "encode_lines d \<noteq> []" if "d \<noteq> []" using that by (simp add: encode_lines.simps [of d])
  moreover have "encode_lines [] = []" by (simp add: encode_lines.simps)
  ultimately show ?thesis by (cases "d = []") (simp_all add: pem_def)
qed

text \<open>\<^verbatim>\<open>_pem\<close>: a reader of PEM gets every file back, for every label without a line break.\<close>

lemma pem_read_pem:
  assumes "CHR 0x0A \<notin> set label"
  shows "pem_read label (pem d label) = Some d"
proof -
  let ?b = "''-----BEGIN '' @ label @ ''-----''" and ?e = "''-----END '' @ label @ ''-----''"
  let ?body = "if d = [] then [[]] else encode_lines d"
  have nl: "is_space CHR 0x0A" by (simp add: is_space_int)
  have "CHR 0x0A \<notin> set l" if "l \<in> set (?b # ?body @ [?e, []])" for l
    using that assms encode_lines_ok [of l d] nl by (auto split: if_splits)
  then have "split_on CHR 0x0A (pem d label) = ?b # ?body @ [?e, []]" unfolding pem_lines by (intro split_on_join) blast+
  moreover have "butlast (butlast (?body @ [?e, []])) = ?body" by (simp add: butlast_append)
  moreover have "concat ?body = b64_encode d" by (simp add: encode_lines_concat)
  ultimately show ?thesis by (simp only: pem_read_def list.case Let_def simp_thms if_True b64_decode_encode)
qed


section \<open>Properties\<close>

lemma credentials_ok:
  assumes key: "rsa_key_ok k" "62 \<le> byte_length (k_n k)" "k_n k < 256 ^ 256" and hash: "\<forall>m. length (sha256 m) = 32"
    and clock: "0 \<le> time0" "time0 \<le> time1" "time1 + 3650 * 86400 < 2524608000" and rnd: "0 \<le> randbits" "randbits < 2 ^ 64"
  shows "\<exists>cert_pem key_pem cert c key_der. credential_files sha256 randbits time0 time1 k = Inr (cert_pem, key_pem) \<and>
    pem_read ''CERTIFICATE'' cert_pem = Some cert \<and> cert_verifies sha256 cert \<and> read_cert cert = Some c \<and>
    cert_shows randbits k (ustr_of ''localhost'') (ustr_of ''Example Enterprise'') (\<lfloor>time0\<rfloor> - 60, \<lfloor>time1\<rfloor> + 3650 * 86400) c \<and>
    pem_read ''PRIVATE KEY'' key_pem = Some key_der \<and> pkcs8_numbers key_der = Some (numbers_of k)"
proof -
  have small: "0 \<le> x \<and> byte_length x \<le> 256" if "x \<in> set (numbers_of k)" for x
    using key_numbers_small [OF key(1,3) _ that] by simp
  have "\<forall>x \<in> set (numbers_of k). 0 \<le> x \<and> byte_length x \<le> 2 ^ 60" using small by fastforce
  then obtain key_der where der: "pkcs8_private_key k = Inr key_der" "pkcs8_numbers key_der = Some (numbers_of k)"
    using pkcs8_round_trip by blast
  have "byte_length (k_n k) \<le> 256" using small by (simp add: numbers_of_def)
  then have top: "byte_length (k_n k) \<le> 2 ^ 64" by (rule order_trans) simp
  have "\<exists>cert c. make_self_signed_cert sha256 randbits time0 time1 k (ustr_of ''localhost'') (ustr_of ''Example Enterprise'') 3650 = Inr cert \<and>
      cert_verifies sha256 cert \<and> read_cert cert = Some c \<and>
      cert_shows randbits k (ustr_of ''localhost'') (ustr_of ''Example Enterprise'') (\<lfloor>time0\<rfloor> - 60, \<lfloor>time1\<rfloor> + 3650 * 86400) c"
    by (rule certificate_ok [OF key(1,2) top hash clock(1,2) _ _ latin_scalar latin_scalar _ _ _ _ rnd])
      (use clock(3) in \<open>simp_all add: ustr_of_def\<close>)
  then obtain cert c where cert: "make_self_signed_cert sha256 randbits time0 time1 k (ustr_of ''localhost'') (ustr_of ''Example Enterprise'') 3650 = Inr cert"
    "cert_verifies sha256 cert" "read_cert cert = Some c"
    "cert_shows randbits k (ustr_of ''localhost'') (ustr_of ''Example Enterprise'') (\<lfloor>time0\<rfloor> - 60, \<lfloor>time1\<rfloor> + 3650 * 86400) c" by blast
  have "credential_files sha256 randbits time0 time1 k = Inr (pem cert ''CERTIFICATE'', pem key_der ''PRIVATE KEY'')"
    using cert(1) der(1) by (simp add: credential_files_def)
  moreover have "pem_read ''CERTIFICATE'' (pem cert ''CERTIFICATE'') = Some cert" "pem_read ''PRIVATE KEY'' (pem key_der ''PRIVATE KEY'') = Some key_der"
    by (rule pem_read_pem, simp)+
  ultimately show ?thesis using cert(2-4) der(2) by blast
qed

lemma written_credentials:
  assumes range: "\<forall>k i. \<forall>s \<in> {fst (src k), snd (src k)}. 0 \<le> fst (s i) \<and> fst (s i) < 2 ^ 1024"
    and no_error: "\<forall>k i. \<forall>s \<in> {fst (src k), snd (src k)}. is_prime (snd (s i)) (candidate 1024 s i) \<longrightarrow>
      is_prime_number (nat (candidate 1024 s i))"
    and ends: "generate_rsa 2048 src = Some r" and hash: "\<forall>m. length (sha256 m) = 32"
    and clock: "0 \<le> time0" "time0 \<le> time1" "time1 + 3650 * 86400 < 2524608000" and rnd: "0 \<le> randbits" "randbits < 2 ^ 64"
  shows "\<exists>k cert_pem key_pem cert c key_der. r = Inr k \<and> rsa_key_ok k \<and>
    write_temp_credentials sha256 src randbits time0 time1 = Some (Inr (cert_pem, key_pem)) \<and>
    pem_read ''CERTIFICATE'' cert_pem = Some cert \<and> cert_verifies sha256 cert \<and> read_cert cert = Some c \<and>
    cert_shows randbits k (ustr_of ''localhost'') (ustr_of ''Example Enterprise'') (\<lfloor>time0\<rfloor> - 60, \<lfloor>time1\<rfloor> + 3650 * 86400) c \<and>
    pem_read ''PRIVATE KEY'' key_pem = Some key_der \<and> pkcs8_numbers key_der = Some (numbers_of k)"
proof -
  obtain k where k: "r = Inr k" "rsa_key_ok k" "62 \<le> byte_length (k_n k)" "k_n k < 256 ^ 256" using generated_key [OF range no_error ends] by blast
  have "write_temp_credentials sha256 src randbits time0 time1 = Some (Inr files)" if "credential_files sha256 randbits time0 time1 k = Inr files" for files
    by (simp add: write_temp_credentials_def ends k(1) that)
  then show ?thesis using credentials_ok [OF k(2-4) hash clock rnd] k(1,2) by metis
qed

section \<open>Properties\<close>

text \<open>C6. \<^verbatim>\<open>write_temp_credentials\<close> puts key generation, the X.509 encoder, the PKCS#8 encoder and PEM together: whenever
  \<^verbatim>\<open>generate_rsa(2048)\<close> returns, and unless the primality test erred on a candidate, it writes two files; a reader of PEM and DER finds in
  the first a certificate that a strict verifier accepts, with the generated key, the drawn serial number, the names \<^verbatim>\<open>localhost\<close> and
  \<^verbatim>\<open>127.0.0.1\<close> and the period from a minute before the call to ten years after it, and in the second the version and the eight numbers of
  that key. The clock runs from 1970 on, does not go back, and the ten years end before 2050; the serial number has 64 random bits.\<close>

theorem credentials_usable:
  assumes range: "\<forall>k i. \<forall>s \<in> {fst (src k), snd (src k)}. 0 \<le> fst (s i) \<and> fst (s i) < 2 ^ 1024"
    and no_error: "\<forall>k i. \<forall>s \<in> {fst (src k), snd (src k)}. is_prime (snd (s i)) (candidate 1024 s i) \<longrightarrow>
      is_prime_number (nat (candidate 1024 s i))"
    and ends: "generate_rsa 2048 src = Some r" and hash: "\<forall>m. length (sha256 m) = 32"
    and clock: "0 \<le> time0" "time0 \<le> time1" "time1 + 3650 * 86400 < 2524608000" and rnd: "0 \<le> randbits" "randbits < 2 ^ 64"
  shows "\<exists>k cert_pem key_pem cert c key_der. r = Inr k \<and> rsa_key_ok k \<and>
    write_temp_credentials sha256 src randbits time0 time1 = Some (Inr (cert_pem, key_pem)) \<and>
    pem_read ''CERTIFICATE'' cert_pem = Some cert \<and> cert_verifies sha256 cert \<and> read_cert cert = Some c \<and>
    cert_shows randbits k (ustr_of ''localhost'') (ustr_of ''Example Enterprise'') (\<lfloor>time0\<rfloor> - 60, \<lfloor>time1\<rfloor> + 3650 * 86400) c \<and>
    pem_read ''PRIVATE KEY'' key_pem = Some key_der \<and> pkcs8_numbers key_der = Some (numbers_of k)"
  by (rule written_credentials [OF assms])

text \<open>The random numbers of the witness are those of two 1024-bit primes, drawn at once.\<close>

theorem credentials_usable_witness:
  "\<exists>src k cert_pem key_pem cert key_der. generate_rsa 2048 src = Some (Inr k) \<and> rsa_key_ok k \<and>
     write_temp_credentials (\<lambda>m. replicate 32 0) src 5 1767225600 1767225601 = Some (Inr (cert_pem, key_pem)) \<and>
     pem_read ''CERTIFICATE'' cert_pem = Some cert \<and> cert_verifies (\<lambda>m. replicate 32 0) cert \<and>
     pem_read ''PRIVATE KEY'' key_pem = Some key_der \<and> pkcs8_numbers key_der = Some (numbers_of k)"
proof -
  obtain src k where src: "\<forall>j i. \<forall>s \<in> {fst (src j), snd (src j)}. 0 \<le> fst (s i) \<and> fst (s i) < 2 ^ 1024"
      "\<forall>j i. \<forall>s \<in> {fst (src j), snd (src j)}. is_prime (snd (s i)) (candidate 1024 s i) \<longrightarrow> is_prime_number (nat (candidate 1024 s i))"
      "generate_rsa 2048 src = Some (Inr k)"
    using generate_rsa_possible by blast
  have hash: "\<forall>m. length ((\<lambda>m. replicate 32 0 :: bytes) m) = 32" by simp
  have clock: "(0 :: rat) \<le> 1767225600" "(1767225600 :: rat) \<le> 1767225601" "(1767225601 :: rat) + 3650 * 86400 < 2524608000" by simp_all
  have rnd: "(0 :: int) \<le> 5" "(5 :: int) < 2 ^ 64" by simp_all
  from credentials_usable [OF src hash clock rnd] src(3) show ?thesis by (metis Inr_inject)
qed

end
