(* ===== verification/Tls_Demo.thy ===== *)
theory Tls_Demo
  imports Pem Proc_Text
begin

text \<open>
  What \<^verbatim>\<open>tls_inspect.py\<close> does around a TLS connection: the local demonstration, the checks on what was negotiated and the fallback
  of the main block. The handshake is the \<^verbatim>\<open>ssl\<close> module's; a connection is what it hands back.
\<close>

section \<open>A connection\<close>

text \<open>\<^verbatim>\<open>getpeercert()\<close>: a missing key is \<open>None\<close>; names are sequences of relative names, each a sequence of pairs.\<close>

record peer_cert =
  pc_subject :: "(string \<times> string) list list option"
  pc_issuer :: "(string \<times> string) list list option"
  pc_sans :: "(string \<times> string) list option"

record tls_conn =
  tc_reply :: string
  tc_version :: "string option"
  tc_cipher :: "(string \<times> string \<times> int) option"
  tc_cert :: "peer_cert option"

text \<open>\<^verbatim>\<open>dict(x[0] for x in names)\<close>; an empty relative name raises.\<close>

fun first_pairs :: "(string \<times> string) list list \<Rightarrow> (string, string) dict \<Rightarrow> (string, string) dict res" where
  "first_pairs [] d = Inr d"
| "first_pairs ([] # xs) d = Inl IndexError"
| "first_pairs (((k, v) # _) # xs) d = first_pairs xs (AList.update k v d)"

text \<open>\<^verbatim>\<open>_print_tls_details\<close>: what it prints about the certificate, or the exception.\<close>

definition print_tls_details :: "tls_conn \<Rightarrow> bool \<Rightarrow> (string option \<times> string option \<times> string list) option res" where
  "print_tls_details tls local =
     rbind (case tc_cipher tls of None \<Rightarrow> Inl TypeError | Some _ \<Rightarrow> Inr ()) (\<lambda>_.
     rbind (py_assert (case tc_version tls of None \<Rightarrow> False | Some v \<Rightarrow> v \<noteq> [] \<and> startswith ''TLSv'' v)) (\<lambda>_.
     case tc_cert tls of None \<Rightarrow> Inr None
     | Some cert \<Rightarrow>
         rbind (first_pairs (case pc_subject cert of None \<Rightarrow> [] | Some xs \<Rightarrow> xs) []) (\<lambda>subject.
         rbind (first_pairs (case pc_issuer cert of None \<Rightarrow> [] | Some xs \<Rightarrow> xs) []) (\<lambda>issuer.
         let sans = map snd (case pc_sans cert of None \<Rightarrow> [] | Some xs \<Rightarrow> xs) in
         rbind (py_assert (map_of subject ''commonName'' = Some ''localhost'' \<or> \<not> local)) (\<lambda>_.
         Inr (Some (map_of subject ''commonName'', map_of issuer ''commonName'', sans)))))))"

text \<open>The local demonstration, given the files and what the handshake with them yields.\<close>

definition run_local_tls_demo :: "(string \<times> string \<Rightarrow> tls_conn res) \<Rightarrow> string \<times> string \<Rightarrow> unit res" where
  "run_local_tls_demo handshake files =
     rbind (handshake files) (\<lambda>tls.
     rbind (py_assert (tc_reply tls = ''secure-pong'')) (\<lambda>_.
     rbind (print_tls_details tls True) (\<lambda>_. Inr ())))"

definition run_network_tls_inspect :: "tls_conn res \<Rightarrow> unit res" where
  "run_network_tls_inspect public = rbind public (\<lambda>tls. rbind (print_tls_details tls False) (\<lambda>_. Inr ()))"

datatype tls_outcome = Local_Verified | Public_Inspected | Skipped

text \<open>The main block. \<^verbatim>\<open>ssl.SSLError\<close> and timeouts are \<^verbatim>\<open>OSError\<close>s.\<close>

definition tls_main :: "(string \<times> string) res \<Rightarrow> (string \<times> string \<Rightarrow> tls_conn res) \<Rightarrow> tls_conn res \<Rightarrow> tls_outcome res" where
  "tls_main credentials handshake public =
     (case rbind credentials (run_local_tls_demo handshake) of
        Inr _ \<Rightarrow> Inr Local_Verified
      | Inl e \<Rightarrow>
          if e \<in> {OSError, AssertionError} then
            (case run_network_tls_inspect public of
               Inr _ \<Rightarrow> Inr Public_Inspected
             | Inl e' \<Rightarrow> if e' = OSError then Inr Skipped else Inl e')
          else Inl e)"

text \<open>The whole script: key generation may go on for ever, then comes the rest of the main block.\<close>

definition tls_inspect ::
  "(bytes \<Rightarrow> bytes) \<Rightarrow> (nat \<Rightarrow> prime_source \<times> prime_source) \<Rightarrow> int \<Rightarrow> rat \<Rightarrow> rat \<Rightarrow>
   (string \<times> string \<Rightarrow> tls_conn res) \<Rightarrow> tls_conn res \<Rightarrow> tls_outcome res option" where
  "tls_inspect sha256 src randbits time0 time1 handshake public =
     Option.bind (write_temp_credentials sha256 src randbits time0 time1) (\<lambda>credentials.
     Some (tls_main credentials handshake public))"

section \<open>What the checks let through\<close>

text \<open>The name \<^verbatim>\<open>make_self_signed_cert\<close> writes, as \<^verbatim>\<open>getpeercert\<close> reports it, passes the local check; another common name is
  an \<^verbatim>\<open>AssertionError\<close>, and the main block then goes on to the public endpoint.\<close>

lemma local_details:
  assumes "tc_cipher tls = Some c" "tc_version tls = Some (''TLSv'' @ v)"
    and "tc_cert tls = Some \<lparr>pc_subject = Some [[(''commonName'', cn)], [(''organizationName'', org)]],
      pc_issuer = Some [[(''commonName'', cn)], [(''organizationName'', org)]], pc_sans = Some sans\<rparr>"
  shows "print_tls_details tls True =
    (if cn = ''localhost'' then Inr (Some (Some cn, Some cn, map snd sans)) else Inl AssertionError)"
  using assms by (simp add: print_tls_details_def startswith_def py_assert_def)

lemma tls_main_local:
  assumes "credentials = Inr files" "handshake files = Inr tls" "tc_reply tls = ''secure-pong''" "print_tls_details tls True = Inr d"
  shows "tls_main credentials handshake public = Inr Local_Verified"
  using assms by (simp add: tls_main_def run_local_tls_demo_def py_assert_def)

text \<open>Without a network the script ends normally whatever goes wrong in the local handshake or its checks.\<close>

lemma tls_main_offline:
  assumes "credentials = Inr files" "run_local_tls_demo handshake files \<in> {Inr (), Inl OSError, Inl AssertionError}"
  shows "tls_main credentials handshake (Inl OSError) \<in> {Inr Local_Verified, Inr Skipped}"
  using assms by (auto simp: tls_main_def run_network_tls_inspect_def)

text \<open>
  The parts together: let the handshake with a pair of files succeed whenever the certificate in the first verifies, names the host and is
  valid from a minute before the script reads the clock for ten years, and the second holds the numbers of its key. Then the script ends with the local
  connection verified for every key that \<^verbatim>\<open>generate_rsa\<close> returns, unless the primality test errs.
\<close>

definition pinned_answer :: "tls_conn \<Rightarrow> bool" where
  "pinned_answer tls \<longleftrightarrow> tc_reply tls = ''secure-pong'' \<and> (\<exists>d. print_tls_details tls True = Inr d)"

lemma tls_inspect_verified:
  assumes range: "\<forall>k i. \<forall>s \<in> {fst (src k), snd (src k)}. 0 \<le> fst (s i) \<and> fst (s i) < 2 ^ 1024"
    and no_error: "\<forall>k i. \<forall>s \<in> {fst (src k), snd (src k)}. is_prime (snd (s i)) (candidate 1024 s i) \<longrightarrow>
      is_prime_number (nat (candidate 1024 s i))"
    and ends: "generate_rsa 2048 src = Some r"
    and hash: "\<forall>m. length (sha256 m) = 32" and rnd: "0 \<le> randbits" "randbits < 2 ^ 64"
    and clock: "0 \<le> time0" "time0 \<le> time1" "time1 + 3650 * 86400 < 2524608000"
    and ssl: "\<And>cert_pem key_pem cert c key_der k. pem_read ''CERTIFICATE'' cert_pem = Some cert \<Longrightarrow> cert_verifies sha256 cert \<Longrightarrow>
      read_cert cert = Some c \<Longrightarrow>
      cert_shows randbits k (ustr_of ''localhost'') (ustr_of ''Example Enterprise'') (\<lfloor>time0\<rfloor> - 60, \<lfloor>time1\<rfloor> + 3650 * 86400) c \<Longrightarrow>
      pem_read ''PRIVATE KEY'' key_pem = Some key_der \<Longrightarrow> pkcs8_numbers key_der = Some (numbers_of k) \<Longrightarrow>
      \<exists>tls. handshake (cert_pem, key_pem) = Inr tls \<and> pinned_answer tls"
  shows "tls_inspect sha256 src randbits time0 time1 handshake public = Some (Inr Local_Verified)"
proof -
  obtain k cert_pem key_pem cert c key_der where files:
    "write_temp_credentials sha256 src randbits time0 time1 = Some (Inr (cert_pem, key_pem))"
    "pem_read ''CERTIFICATE'' cert_pem = Some cert" "cert_verifies sha256 cert" "read_cert cert = Some c"
    "cert_shows randbits k (ustr_of ''localhost'') (ustr_of ''Example Enterprise'') (\<lfloor>time0\<rfloor> - 60, \<lfloor>time1\<rfloor> + 3650 * 86400) c"
    "pem_read ''PRIVATE KEY'' key_pem = Some key_der" "pkcs8_numbers key_der = Some (numbers_of k)"
    using written_credentials [OF range no_error ends hash clock rnd] by blast
  from ssl [OF files(2-7)] obtain tls where tls: "handshake (cert_pem, key_pem) = Inr tls" "pinned_answer tls" by blast
  then obtain d where "tc_reply tls = ''secure-pong''" "print_tls_details tls True = Inr d" by (auto simp: pinned_answer_def)
  then have "tls_main (Inr (cert_pem, key_pem)) handshake public = Inr Local_Verified" using tls_main_local [OF refl] tls(1) by blast
  then show ?thesis by (simp add: tls_inspect_def files(1))
qed

end
