(* ===== verification/Proxy_Scenario.thy ===== *)
theory Proxy_Scenario
  imports Reverse_Proxy
begin

text \<open>
  \<^verbatim>\<open>reverse_proxy.py\<close> as a whole: the demo backends, the health loop, the handler threads and the clients of \<^verbatim>\<open>_run_scenario\<close> under
  every scheduling. A handler moves between the accesses to shared state: the list of healthy members, the locked part of
  \<^verbatim>\<open>_select\<close>, and the reads and writes of the unlocked in-flight counters.
\<close>

section \<open>Backends and clients\<close>

record backend =
  b_name :: string
  b_healthy :: bool
  b_served :: nat

definition new_backend :: "string \<Rightarrow> bool \<Rightarrow> backend" where
  "new_backend name healthy = \<lparr>b_name = name, b_healthy = healthy, b_served = 0\<rparr>"

text \<open>\<^verbatim>\<open>do_GET\<close> of a backend: status and body of the reply.\<close>

definition backend_get :: "string \<Rightarrow> backend \<Rightarrow> (int \<times> string) \<times> backend" where
  "backend_get path b =
     (if path = ''/health'' then
        let code = (if b_healthy b then 200 else 503) in ((code, if code = 200 then ''ok'' else ''bad''), b)
      else ((200, b_name b), b\<lparr>b_served := b_served b + 1\<rparr>))"

text \<open>\<^verbatim>\<open>urlopen\<close> raises for an error status; \<^verbatim>\<open>_client_get\<close> returns the body.\<close>

definition urlopen :: "int \<times> string \<Rightarrow> (int \<times> string) res" where
  "urlopen reply = (if 200 \<le> fst reply \<and> fst reply < 300 then Inr reply else Inl OSError)"

definition client_get :: "int \<times> string \<Rightarrow> string res" where
  "client_get reply = rbind (urlopen reply) (\<lambda>r. Inr (snd r))"

text \<open>One probe of \<^verbatim>\<open>_health_loop\<close>.\<close>

definition probe_healthy :: "backend \<Rightarrow> bool" where
  "probe_healthy b = (case urlopen (fst (backend_get ''/health'' b)) of Inl _ \<Rightarrow> False | Inr r \<Rightarrow> fst r = 200)"

section \<open>Handlers\<close>

text \<open>The part of \<^verbatim>\<open>_select\<close> under the lock, on the members found healthy before.\<close>

definition select_locked :: "nat list \<Rightarrow> proxy \<Rightarrow> nat option \<times> proxy" where
  "select_locked healthy p =
     (if px_strategy p = ''least_connections''
      then (min_by (\<lambda>i. m_inflight (px_members p ! i)) healthy, p)
      else let i = (px_rr_index p + 1) mod length healthy in (Some (healthy ! i), p\<lparr>px_rr_index := i\<rparr>))"

lemma select_locked: "healthy_members p \<noteq> [] \<Longrightarrow> select p = select_locked (healthy_members p) p"
  by (simp add: select_def select_locked_def Let_def)

definition inflight :: "nat \<Rightarrow> proxy \<Rightarrow> int" where
  "inflight m p = m_inflight (px_members p ! m)"

definition set_inflight :: "nat \<Rightarrow> int \<Rightarrow> proxy \<Rightarrow> proxy" where
  "set_inflight m v p = p\<lparr>px_members := (px_members p)[m := (px_members p ! m)\<lparr>m_inflight := v\<rparr>]\<rparr>"

datatype hphase =
    Accepted
  | Snapshot "nat list"
  | Selected nat
  | Loaded nat int
  | Sent nat
  | Relayed nat "int \<times> string"
  | Unloaded nat int "int \<times> string"
  | Answered "int \<times> string"

record scenario =
  sc_proxy :: proxy
  sc_backends :: "backend list"
  sc_reqs :: "hphase list"

text \<open>\<^verbatim>\<open>_handle\<close> of request \<open>i\<close>, one access at a time.\<close>

definition handler_move :: "nat \<Rightarrow> scenario \<Rightarrow> scenario option" where
  "handler_move i s =
     (let p = sc_proxy s; to = (\<lambda>ph. (sc_reqs s)[i := ph]) in
      case sc_reqs s ! i of
        Accepted \<Rightarrow> Some (s\<lparr>sc_reqs := to (if healthy_members p = [] then Answered (503, []) else Snapshot (healthy_members p))\<rparr>)
      | Snapshot hs \<Rightarrow> (case select_locked hs p of
            (None, p) \<Rightarrow> Some (s\<lparr>sc_proxy := p, sc_reqs := to (Answered (503, []))\<rparr>)
          | (Some m, p) \<Rightarrow> Some (s\<lparr>sc_proxy := p, sc_reqs := to (Selected m)\<rparr>))
      | Selected m \<Rightarrow> Some (s\<lparr>sc_reqs := to (Loaded m (inflight m p))\<rparr>)
      | Loaded m v \<Rightarrow> Some (s\<lparr>sc_proxy := set_inflight m (v + 1) p, sc_reqs := to (Sent m)\<rparr>)
      | Sent m \<Rightarrow> (case backend_get ''/'' (sc_backends s ! m) of (reply, b) \<Rightarrow>
            Some (s\<lparr>sc_backends := (sc_backends s)[m := b], sc_reqs := to (Relayed m reply)\<rparr>))
      | Relayed m reply \<Rightarrow> Some (s\<lparr>sc_reqs := to (Unloaded m (inflight m p) reply)\<rparr>)
      | Unloaded m v reply \<Rightarrow> Some (s\<lparr>sc_proxy := set_inflight m (v - 1) p, sc_reqs := to (Answered reply)\<rparr>)
      | Answered reply \<Rightarrow> None)"

text \<open>One probe of the health loop, for member \<open>m\<close>.\<close>

definition health_probe :: "nat \<Rightarrow> scenario \<Rightarrow> scenario" where
  "health_probe m s = s\<lparr>sc_proxy := (sc_proxy s)\<lparr>px_members := (px_members (sc_proxy s))
     [m := (px_members (sc_proxy s) ! m)\<lparr>m_healthy := probe_healthy (sc_backends s ! m)\<rparr>]\<rparr>\<rparr>"

inductive proxy_step :: "scenario \<Rightarrow> scenario \<Rightarrow> bool" where
  move: "i < length (sc_reqs s) \<Longrightarrow> handler_move i s = Some s' \<Longrightarrow> proxy_step s s'"

inductive proxy_any :: "scenario \<Rightarrow> scenario \<Rightarrow> bool" where
  handler: "proxy_step s s' \<Longrightarrow> proxy_any s s'"
| probe: "m < length (sc_backends s) \<Longrightarrow> proxy_any s (health_probe m s)"

text \<open>\<^verbatim>\<open>_run_scenario\<close>: when traffic starts the first round of probes is over.\<close>

definition scenario_init :: "backend list \<Rightarrow> string \<Rightarrow> nat \<Rightarrow> scenario" where
  "scenario_init bs strategy n =
     fold health_probe [0..<length bs] \<lparr>sc_proxy = proxy_init (map b_name bs) strategy, sc_backends = bs, sc_reqs = replicate n Accepted\<rparr>"

text \<open>
  The reply is with the client before the handler counts the request down. \<^verbatim>\<open>dist\<close>: how often each name was returned to a client; a client
  whose request failed counts nowhere. The assertions run when all clients were joined.
\<close>

fun client_reply :: "hphase \<Rightarrow> (int \<times> string) option" where
  "client_reply (Unloaded _ _ reply) = Some reply"
| "client_reply (Answered reply) = Some reply"
| "client_reply _ = None"

definition clients_joined :: "scenario \<Rightarrow> bool" where
  "clients_joined s \<longleftrightarrow> list_all (\<lambda>ph. client_reply ph \<noteq> None) (sc_reqs s)"

definition who :: "hphase \<Rightarrow> string option" where
  "who ph = (case client_reply ph of None \<Rightarrow> None
     | Some reply \<Rightarrow> (case client_get reply of Inl _ \<Rightarrow> None | Inr name \<Rightarrow> Some name))"

definition traffic :: "scenario \<Rightarrow> string \<Rightarrow> nat" where
  "traffic s name = count_list (map who (sc_reqs s)) (Some name)"

definition demo_backends :: "backend list" where
  "demo_backends = [new_backend ''backend-1'' True, new_backend ''backend-2'' True, new_backend ''backend-3'' False]"

definition scenario_checks :: "string \<Rightarrow> nat \<Rightarrow> scenario \<Rightarrow> unit res" where
  "scenario_checks strategy n s =
     (let dist = traffic s; b1 = dist ''backend-1''; b2 = dist ''backend-2''; b3 = dist ''backend-3'' in
      rbind (py_assert (b3 = 0)) (\<lambda>_.
      rbind (py_assert (b1 > 0 \<and> b2 > 0)) (\<lambda>_.
      rbind (py_assert (length (filter (\<lambda>w. w \<noteq> None) (map who (sc_reqs s))) = n)) (\<lambda>_.
      if strategy = ''round_robin'' then py_assert (\<bar>int b1 - int b2\<bar> * 10 \<le> int n * 4) else Inr ()))))"


section \<open>Counting\<close>

lemma count_list_update:
  "i < length xs \<Longrightarrow> count_list (xs[i := y]) a + (if xs ! i = a then 1 else 0) = count_list xs a + (if y = a then 1 else 0)"
proof (induction xs arbitrary: i)
  case (Cons x xs)
  show ?case
  proof (cases i)
    case (Suc j)
    then show ?thesis using Cons.IH [of j] Cons.prems by (auto split: if_splits)
  qed auto
qed simp

lemma map_update_same: "f y = f (xs ! i) \<Longrightarrow> map f (xs[i := y]) = map f xs"
  by (induction xs arbitrary: i) (auto split: nat.splits)

lemma hits_Suc: "hits a k r (Suc n) = hits a k r n + (if (a + n) mod k = r then 1 else 0)"
proof -
  have "{j. j < Suc n \<and> (a + j) mod k = r} = {j. j < n \<and> (a + j) mod k = r} \<union> (if (a + n) mod k = r then {n} else {})"
    by (auto simp: less_Suc_eq)
  then show ?thesis by (simp add: hits_def)
qed

section \<open>The invariant of a round-robin run\<close>

text \<open>The members whose probes succeed, and the name a request is or was sent to.\<close>

definition up_members :: "backend list \<Rightarrow> nat list" where
  "up_members bs = filter (\<lambda>j. b_healthy (bs ! j)) [0..<length bs]"

fun target :: "backend list \<Rightarrow> hphase \<Rightarrow> string option" where
  "target bs (Selected m) = Some (b_name (bs ! m))"
| "target bs (Loaded m v) = Some (b_name (bs ! m))"
| "target bs (Sent m) = Some (b_name (bs ! m))"
| "target bs (Relayed m reply) = Some (b_name (bs ! m))"
| "target bs (Unloaded m v reply) = Some (b_name (bs ! m))"
| "target bs (Answered reply) = Some (snd reply)"
| "target bs _ = None"

fun phase_ok :: "backend list \<Rightarrow> hphase \<Rightarrow> bool" where
  "phase_ok bs Accepted \<longleftrightarrow> True"
| "phase_ok bs (Snapshot hs) \<longleftrightarrow> hs = up_members bs"
| "phase_ok bs (Selected m) \<longleftrightarrow> m \<in> set (up_members bs)"
| "phase_ok bs (Loaded m v) \<longleftrightarrow> m \<in> set (up_members bs)"
| "phase_ok bs (Sent m) \<longleftrightarrow> m \<in> set (up_members bs)"
| "phase_ok bs (Relayed m reply) \<longleftrightarrow> m \<in> set (up_members bs) \<and> reply = (200, b_name (bs ! m))"
| "phase_ok bs (Unloaded m v reply) \<longleftrightarrow> m \<in> set (up_members bs) \<and> reply = (200, b_name (bs ! m))"
| "phase_ok bs (Answered reply) \<longleftrightarrow> (\<exists>m \<in> set (up_members bs). reply = (200, b_name (bs ! m)))"

text \<open>The pool agrees with the backends: flags, names, the strategy.\<close>

definition pool_ok :: "backend list \<Rightarrow> scenario \<Rightarrow> bool" where
  "pool_ok bs s \<longleftrightarrow> length (px_members (sc_proxy s)) = length bs \<and> length (sc_backends s) = length bs \<and>
     (\<forall>j < length bs. m_healthy (px_members (sc_proxy s) ! j) = b_healthy (bs ! j) \<and>
        b_healthy (sc_backends s ! j) = b_healthy (bs ! j) \<and> b_name (sc_backends s ! j) = b_name (bs ! j))"

definition targets :: "backend list \<Rightarrow> scenario \<Rightarrow> string option list" where
  "targets bs s = map (target bs) (sc_reqs s)"

definition shares_ok :: "backend list \<Rightarrow> nat \<Rightarrow> scenario \<Rightarrow> bool" where
  "shares_ok bs n s \<longleftrightarrow> (let c = n - count_list (targets bs s) None; k = length (up_members bs) in
     px_rr_index (sc_proxy s) = c mod k \<and>
     (\<forall>r < k. count_list (targets bs s) (Some (b_name (bs ! (up_members bs ! r)))) = hits 1 k r c))"

definition rr_inv :: "backend list \<Rightarrow> nat \<Rightarrow> scenario \<Rightarrow> bool" where
  "rr_inv bs n s \<longleftrightarrow> distinct (map b_name bs) \<and> up_members bs \<noteq> [] \<and> px_strategy (sc_proxy s) \<noteq> ''least_connections'' \<and>
     length (sc_reqs s) = n \<and> pool_ok bs s \<and> list_all (phase_ok bs) (sc_reqs s) \<and> shares_ok bs n s"

lemma pool_ok_healthy: "pool_ok bs s \<Longrightarrow> healthy_members (sc_proxy s) = up_members bs"
  unfolding healthy_members_def up_members_def by (auto simp: pool_ok_def intro: filter_cong)

lemma up_members_iff: "m \<in> set (up_members bs) \<longleftrightarrow> m < length bs \<and> b_healthy (bs ! m)"
  by (auto simp: up_members_def)

lemma distinct_up [simp]: "distinct (up_members bs)"
  by (simp add: up_members_def)

lemma probe_healthy_iff [simp]: "probe_healthy b \<longleftrightarrow> b_healthy b"
  by (simp add: probe_healthy_def backend_get_def urlopen_def Let_def)

lemma pool_ok_inflight: "pool_ok bs s \<Longrightarrow> m < length bs \<Longrightarrow> pool_ok bs (s\<lparr>sc_proxy := set_inflight m v (sc_proxy s), sc_reqs := rs\<rparr>)"
  by (auto simp: pool_ok_def set_inflight_def nth_list_update)

lemma pool_ok_probe: "pool_ok bs s \<Longrightarrow> m < length bs \<Longrightarrow> pool_ok bs (health_probe m s)"
  by (auto simp: pool_ok_def health_probe_def nth_list_update)

text \<open>A move that keeps the request's target keeps the shares.\<close>

lemma shares_same:
  assumes "shares_ok bs n s" "targets bs s' = targets bs s" "px_rr_index (sc_proxy s') = px_rr_index (sc_proxy s)"
  shows "shares_ok bs n s'"
  using assms by (simp add: shares_ok_def)

lemma targets_update: "i < length (sc_reqs s) \<Longrightarrow> targets bs (s\<lparr>sc_reqs := (sc_reqs s)[i := ph]\<rparr>) = (targets bs s)[i := target bs ph]"
  by (simp add: targets_def map_update)

lemma names_inj:
  assumes "distinct (map b_name bs)" "r < length (up_members bs)" "q < length (up_members bs)"
  shows "b_name (bs ! (up_members bs ! r)) = b_name (bs ! (up_members bs ! q)) \<longleftrightarrow> r = q"
proof -
  have "up_members bs ! r < length bs" "up_members bs ! q < length bs"
    using nth_mem [OF assms(2)] nth_mem [OF assms(3)] by (simp_all add: up_members_iff)
  then have "b_name (bs ! (up_members bs ! r)) = b_name (bs ! (up_members bs ! q)) \<longleftrightarrow> up_members bs ! r = up_members bs ! q"
    using assms(1) nth_eq_iff_index_eq [of "map b_name bs"] by simp
  also have "\<dots> \<longleftrightarrow> r = q" using assms(2,3) by (simp add: nth_eq_iff_index_eq)
  finally show ?thesis .
qed

text \<open>The locked selection hands the next share to the next member.\<close>

lemma shares_select:
  assumes inv: "rr_inv bs n s" and i: "i < n" and ph: "target bs (sc_reqs s ! i) = None"
    and sel: "select_locked (up_members bs) (sc_proxy s) = (Some m, p)"
  shows "m \<in> set (up_members bs)" "shares_ok bs n (s\<lparr>sc_proxy := p, sc_reqs := (sc_reqs s)[i := Selected m]\<rparr>)"
proof -
  let ?H = "up_members bs" and ?ts = "targets bs s"
  let ?k = "length ?H" and ?c = "n - count_list ?ts None"
  have H: "?H \<noteq> []" "distinct (map b_name bs)" "length ?ts = n" "shares_ok bs n s" "px_strategy (sc_proxy s) \<noteq> ''least_connections''"
    using inv by (auto simp: rr_inv_def targets_def)
  have rr: "px_rr_index (sc_proxy s) = ?c mod ?k" using H(4) by (simp add: shares_ok_def Let_def)
  let ?r = "(?c + 1) mod ?k"
  have r: "?r < ?k" using H(1) by simp
  have m: "m = ?H ! ?r" "px_rr_index p = ?r"
    using sel rr H(5) by (auto simp: select_locked_def Let_def mod_Suc_eq)
  then show "m \<in> set ?H" using r by simp
  let ?s = "s\<lparr>sc_proxy := p, sc_reqs := (sc_reqs s)[i := Selected m]\<rparr>"
  have len: "i < length (sc_reqs s)" using inv i by (simp add: rr_inv_def)
  have ts: "targets bs ?s = ?ts[i := Some (b_name (bs ! m))]" using len by (simp add: targets_def map_update)
  have none: "?ts ! i = None" using len ph by (simp add: targets_def)
  have pos: "0 < count_list ?ts None" using none i H(3) by (metis count_list_0_iff gr0I nth_mem)
  have le: "count_list ?ts None \<le> n" using count_le_length [of ?ts None] H(3) by simp
  have dec: "count_list (targets bs ?s) None + 1 = count_list ?ts None"
    using count_list_update [of i ?ts "Some (b_name (bs ! m))" None] i H(3) none by (simp add: ts)
  then have c: "n - count_list (targets bs ?s) None = Suc ?c" using le pos by linarith
  have "count_list (targets bs ?s) (Some (b_name (bs ! (?H ! q)))) = hits 1 ?k q (Suc ?c)" if q: "q < ?k" for q
  proof -
    have "count_list (targets bs ?s) (Some (b_name (bs ! (?H ! q)))) =
        count_list ?ts (Some (b_name (bs ! (?H ! q)))) + (if ?r = q then 1 else 0)"
      unfolding ts using count_list_update [of i ?ts "Some (b_name (bs ! m))" "Some (b_name (bs ! (?H ! q)))"] i H(3) none
        names_inj [OF H(2) r q] m(1) by (auto split: if_splits)
    moreover have "count_list ?ts (Some (b_name (bs ! (?H ! q)))) = hits 1 ?k q ?c" using H(4) q by (simp add: shares_ok_def Let_def)
    ultimately show ?thesis by (simp add: hits_Suc)
  qed
  then show "shares_ok bs n ?s" using c m(2) by (simp add: shares_ok_def Let_def)
qed


lemma rr_inv_move:
  assumes inv: "rr_inv bs n s" and i: "i < n" and s': "sc_reqs s' = (sc_reqs s)[i := ph]" and ph: "phase_ok bs ph"
    and pool: "pool_ok bs s'" "px_strategy (sc_proxy s') = px_strategy (sc_proxy s)" and shares: "shares_ok bs n s'"
  shows "rr_inv bs n s'"
proof -
  have "list_all (phase_ok bs) ((sc_reqs s)[i := ph])"
    using inv ph set_update_subset_insert [of "sc_reqs s" i ph] by (auto simp: rr_inv_def list_all_iff)
  then show ?thesis using inv s' pool shares by (simp add: rr_inv_def)
qed

lemma rr_inv_same_target:
  assumes inv: "rr_inv bs n s" and i: "i < n" and s': "sc_reqs s' = (sc_reqs s)[i := ph]" and ph: "phase_ok bs ph" "target bs ph = target bs (sc_reqs s ! i)"
    and pool: "pool_ok bs s'" "px_strategy (sc_proxy s') = px_strategy (sc_proxy s)" "px_rr_index (sc_proxy s') = px_rr_index (sc_proxy s)"
  shows "rr_inv bs n s'"
proof (rule rr_inv_move [OF inv i s' ph(1) pool(1,2)])
  have "targets bs s' = targets bs s" unfolding targets_def s' by (rule map_update_same [OF ph(2)])
  then show "shares_ok bs n s'" 
    using inv pool(3) shares_same unfolding rr_inv_def by blast
qed

lemma handler_move_inv:
  assumes inv: "rr_inv bs n s" and i: "i < n" and move: "handler_move i s = Some s'"
  shows "rr_inv bs n s'"
proof -
  have pool: "pool_ok bs s" and H: "up_members bs \<noteq> []" and len: "i < length (sc_reqs s)" using inv i by (auto simp: rr_inv_def)
  note hm = pool_ok_healthy [OF pool]
  have ok: "phase_ok bs (sc_reqs s ! i)" using inv len by (simp add: rr_inv_def list_all_length)
  have keep: "pool_ok bs (s\<lparr>sc_reqs := rs\<rparr>)" for rs using pool by (simp add: pool_ok_def)
  show ?thesis
  proof (cases "sc_reqs s ! i")
    case Accepted
    then have "s' = s\<lparr>sc_reqs := (sc_reqs s)[i := Snapshot (up_members bs)]\<rparr>" using move hm H by (simp add: handler_move_def Let_def)
    then show ?thesis using Accepted keep by (intro rr_inv_same_target [OF inv i, of _ "Snapshot (up_members bs)"]) simp_all
  next
    case (Snapshot hs)
    with ok have hs: "hs = up_members bs" by simp
    obtain m p where sel: "select_locked (up_members bs) (sc_proxy s) = (Some m, p)"
      using inv by (auto simp: rr_inv_def select_locked_def Let_def)
    then have s': "s' = s\<lparr>sc_proxy := p, sc_reqs := (sc_reqs s)[i := Selected m]\<rparr>" using move Snapshot hs by (simp add: handler_move_def Let_def)
    note S = shares_select [OF inv i _ sel]
    have p: "px_members p = px_members (sc_proxy s)" "px_strategy p = px_strategy (sc_proxy s)"
      using sel by (auto simp: select_locked_def Let_def split: if_splits)
    have "pool_ok bs s'" using pool p by (simp add: s' pool_ok_def)
    then show ?thesis using S Snapshot p by (intro rr_inv_move [OF inv i, of _ "Selected m"]) (simp_all add: s')
  next
    case (Loaded m v)
    with ok have m: "m < length bs" by (simp add: up_members_iff)
    have s': "s' = s\<lparr>sc_proxy := set_inflight m (v + 1) (sc_proxy s), sc_reqs := (sc_reqs s)[i := Sent m]\<rparr>"
      using move Loaded by (simp add: handler_move_def Let_def)
    show ?thesis using Loaded ok pool_ok_inflight [OF pool m]
      by (intro rr_inv_same_target [OF inv i, of _ "Sent m"]) (simp_all add: s' set_inflight_def)
  next
    case (Unloaded m v reply)
    with ok have m: "m < length bs" by (simp add: up_members_iff)
    have s': "s' = s\<lparr>sc_proxy := set_inflight m (v - 1) (sc_proxy s), sc_reqs := (sc_reqs s)[i := Answered reply]\<rparr>"
      using move Unloaded by (simp add: handler_move_def Let_def)
    show ?thesis using Unloaded ok pool_ok_inflight [OF pool m]
      by (intro rr_inv_same_target [OF inv i, of _ "Answered reply"]) (auto simp: s' set_inflight_def)
  next
    case (Sent m)
    with ok have m: "m < length bs" by (simp add: up_members_iff)
    have b: "b_name (sc_backends s ! m) = b_name (bs ! m)" "b_healthy (sc_backends s ! m) = b_healthy (bs ! m)"
      using pool m by (simp_all add: pool_ok_def)
    have s': "s' = s\<lparr>sc_backends := (sc_backends s)[m := (sc_backends s ! m)\<lparr>b_served := b_served (sc_backends s ! m) + 1\<rparr>],
        sc_reqs := (sc_reqs s)[i := Relayed m (200, b_name (bs ! m))]\<rparr>"
      using move Sent b by (simp add: handler_move_def Let_def backend_get_def)
    have "pool_ok bs s'" using pool b m by (auto simp: s' pool_ok_def nth_list_update)
    then show ?thesis using Sent ok by (intro rr_inv_same_target [OF inv i, of _ "Relayed m (200, b_name (bs ! m))"]) (simp_all add: s')
  next
    case (Selected m)
    then have "s' = s\<lparr>sc_reqs := (sc_reqs s)[i := Loaded m (inflight m (sc_proxy s))]\<rparr>" using move by (simp add: handler_move_def Let_def)
    then show ?thesis using Selected ok keep
      by (intro rr_inv_same_target [OF inv i, of _ "Loaded m (inflight m (sc_proxy s))"]) simp_all
  next
    case (Relayed m reply)
    then have "s' = s\<lparr>sc_reqs := (sc_reqs s)[i := Unloaded m (inflight m (sc_proxy s)) reply]\<rparr>" using move by (simp add: handler_move_def Let_def)
    then show ?thesis using Relayed ok keep
      by (intro rr_inv_same_target [OF inv i, of _ "Unloaded m (inflight m (sc_proxy s)) reply"]) simp_all
  next
    case (Answered reply)
    then show ?thesis using move by (simp add: handler_move_def Let_def)
  qed
qed

lemma probe_inv:
  assumes "rr_inv bs n s" "m < length bs"
  shows "rr_inv bs n (health_probe m s)"
proof -
  have "pool_ok bs (health_probe m s)" using assms by (auto simp: rr_inv_def intro: pool_ok_probe)
  moreover have "sc_reqs (health_probe m s) = sc_reqs s" "px_strategy (sc_proxy (health_probe m s)) = px_strategy (sc_proxy s)"
    "px_rr_index (sc_proxy (health_probe m s)) = px_rr_index (sc_proxy s)"
    by (simp_all add: health_probe_def)
  ultimately show ?thesis using assms(1) by (simp add: rr_inv_def shares_ok_def targets_def)
qed

interpretation rr: step_invariant proxy_any "rr_inv bs n"
proof
  show "rr_inv bs n s'" if "proxy_any s s'" "rr_inv bs n s" for s s'
    using that
  proof cases
    case handler
    then obtain i where "i < length (sc_reqs s)" "handler_move i s = Some s'" by (auto elim: proxy_step.cases)
    then show ?thesis using handler_move_inv [of bs n s i s'] that(2) by (simp add: rr_inv_def)
  next
    case (probe m)
    then show ?thesis using probe_inv [of bs n s m] that(2) by (simp add: rr_inv_def pool_ok_def)
  qed
qed


section \<open>Start, progress and end\<close>

lemma first_probes:
  assumes "m \<le> length bs" "s = fold health_probe [0..<m] \<lparr>sc_proxy = proxy_init (map b_name bs) strategy, sc_backends = bs, sc_reqs = rs\<rparr>"
  shows "sc_backends s = bs \<and> sc_reqs s = rs \<and> px_strategy (sc_proxy s) = strategy \<and> px_rr_index (sc_proxy s) = 0 \<and>
    length (px_members (sc_proxy s)) = length bs \<and>
    (\<forall>j < m. m_healthy (px_members (sc_proxy s) ! j) = b_healthy (bs ! j)) \<and> (\<forall>j < length bs. m_inflight (px_members (sc_proxy s) ! j) = 0)"
  using assms
proof (induction m arbitrary: s)
  case (Suc m)
  show ?case using Suc.IH [OF _ refl] Suc.prems by (auto simp: health_probe_def nth_list_update less_Suc_eq)
qed (simp add: proxy_init_def pool_member_def)

lemma hits_0 [simp]: "hits a k r 0 = 0"
  by (simp add: hits_def)

lemma scenario_init_inv:
  assumes "distinct (map b_name bs)" "up_members bs \<noteq> []" "strategy \<noteq> ''least_connections''"
  shows "rr_inv bs n (scenario_init bs strategy n)"
proof -
  let ?s = "scenario_init bs strategy n"
  note F = first_probes [OF order_refl, of ?s bs strategy "replicate n Accepted", OF scenario_init_def]
  have ts: "targets bs ?s = replicate n None" using F by (simp add: targets_def)
  have "shares_ok bs n ?s" unfolding shares_ok_def ts using F by (simp add: count_list_replicate)
  moreover have "pool_ok bs ?s" using F by (simp add: pool_ok_def)
  ultimately show ?thesis using assms F by (simp add: rr_inv_def list_all_iff)
qed

fun phase_left :: "hphase \<Rightarrow> nat" where
  "phase_left Accepted = 7"
| "phase_left (Snapshot _) = 6"
| "phase_left (Selected _) = 5"
| "phase_left (Loaded _ _) = 4"
| "phase_left (Sent _) = 3"
| "phase_left (Relayed _ _) = 2"
| "phase_left (Unloaded _ _ _) = 1"
| "phase_left (Answered _) = 0"

lemma handler_move_less:
  assumes "i < length (sc_reqs s)" "handler_move i s = Some s'"
  shows "sum_list (map phase_left (sc_reqs s')) < sum_list (map phase_left (sc_reqs s))"
proof -
  have "\<exists>ph. sc_reqs s' = (sc_reqs s)[i := ph] \<and> phase_left ph < phase_left (sc_reqs s ! i)"
    using assms(2) by (cases "sc_reqs s ! i") (auto simp: handler_move_def Let_def split: if_splits prod.splits option.splits)
  then show ?thesis using sum_update_less [OF assms(1)] by auto
qed

lemma stuck_answered:
  assumes "\<nexists>s'. proxy_step s s'" "i < length (sc_reqs s)"
  shows "\<exists>reply. sc_reqs s ! i = Answered reply"
proof (rule ccontr)
  assume "\<nexists>reply. sc_reqs s ! i = Answered reply"
  then have "\<exists>s'. handler_move i s = Some s'"
    by (cases "sc_reqs s ! i") (auto simp: handler_move_def Let_def split: prod.splits option.splits)
  then show False using assms proxy_step.move by blast
qed

lemma stuck_joined:
  assumes "\<nexists>s'. proxy_step s s'"
  shows "clients_joined s"
  unfolding clients_joined_def list_all_length
proof (intro allI impI)
  fix i assume "i < length (sc_reqs s)"
  from stuck_answered [OF assms this] obtain reply where "sc_reqs s ! i = Answered reply" by blast
  then show "client_reply (sc_reqs s ! i) \<noteq> None" by simp
qed

lemma who_answered:
  assumes "phase_ok bs ph" "client_reply ph \<noteq> None"
  shows "who ph = target bs ph" "\<exists>m \<in> set (up_members bs). target bs ph = Some (b_name (bs ! m))"
  using assms by (cases ph; auto simp: who_def client_get_def urlopen_def)+

text \<open>When all clients have their replies every share is settled.\<close>

lemma rr_finished:
  assumes inv: "rr_inv bs n s" and joined: "clients_joined s"
  shows "map who (sc_reqs s) = targets bs s" "None \<notin> set (targets bs s)"
    and "r < length (up_members bs) \<Longrightarrow> traffic s (b_name (bs ! (up_members bs ! r))) = hits 1 (length (up_members bs)) r n"
    and "m < length bs \<Longrightarrow> \<not> b_healthy (bs ! m) \<Longrightarrow> traffic s (b_name (bs ! m)) = 0"
proof -
  have ok: "who ph = target bs ph \<and> (\<exists>m \<in> set (up_members bs). target bs ph = Some (b_name (bs ! m)))" if ph: "ph \<in> set (sc_reqs s)" for ph
    using inv ph joined who_answered [of bs ph] by (auto simp: rr_inv_def clients_joined_def list_all_iff)
  show who: "map who (sc_reqs s) = targets bs s"
    unfolding targets_def using ok by (intro map_cong) blast+
  show none: "None \<notin> set (targets bs s)" using ok by (force simp: targets_def)
  then have c: "count_list (targets bs s) None = 0" by (simp add: count_list_0_iff)
  show "traffic s (b_name (bs ! (up_members bs ! r))) = hits 1 (length (up_members bs)) r n" if "r < length (up_members bs)"
    using inv that c by (simp add: traffic_def who rr_inv_def shares_ok_def Let_def)
  show "traffic s (b_name (bs ! m)) = 0" if m: "m < length bs" "\<not> b_healthy (bs ! m)"
  proof -
    have "Some (b_name (bs ! m)) \<notin> set (targets bs s)"
    proof
      assume "Some (b_name (bs ! m)) \<in> set (targets bs s)"
      then obtain j where "j < length bs" "b_healthy (bs ! j)" "b_name (bs ! m) = b_name (bs ! j)"
        using ok by (fastforce simp: targets_def up_members_iff)
      moreover have "distinct (map b_name bs)" using inv by (simp add: rr_inv_def)
      ultimately show False using m nth_eq_iff_index_eq [of "map b_name bs" m j] by auto
    qed
    then show ?thesis by (simp add: traffic_def who count_list_0_iff)
  qed
qed

interpretation rr_run: step_progress proxy_step "rr_inv bs n" "\<lambda>s. sum_list (map phase_left (sc_reqs s))"
proof
  show "rr_inv bs n s'" if "proxy_step s s'" "rr_inv bs n s" for s s'
    using rr.preserved that proxy_any.handler by blast
  show "sum_list (map phase_left (sc_reqs s')) < sum_list (map phase_left (sc_reqs s))" if "proxy_step s s'" "rr_inv bs n s" for s s'
    using that(1) by cases (rule handler_move_less)
qed

lemma up_members_none: "up_members bs \<noteq> [] \<longleftrightarrow> (\<exists>b \<in> set bs. b_healthy b)"
  by (auto simp: up_members_def filter_empty_conv set_conv_nth)

lemma length_up_members: "length (up_members bs) = length (filter b_healthy bs)"
proof -
  have "filter b_healthy bs = map ((!) bs) (up_members bs)"
    unfolding up_members_def by (subst (1) map_nth [symmetric]) (simp only: filter_map o_def)
  then show ?thesis by simp
qed

text \<open>The share of a backend once the clients are joined.\<close>

definition fair_share :: "backend list \<Rightarrow> nat \<Rightarrow> scenario \<Rightarrow> backend \<Rightarrow> bool" where
  "fair_share bs n s b \<longleftrightarrow> (let d = traffic s (b_name b); q = n div length (filter b_healthy bs) in
     if b_healthy b then d = q \<or> d = q + 1 else d = 0)"

lemma rr_fair:
  assumes inv: "rr_inv bs n s" and joined: "clients_joined s" and b: "b \<in> set bs"
  shows "fair_share bs n s b"
proof -
  obtain m where m: "m < length bs" "b = bs ! m" using b by (auto simp: in_set_conv_nth)
  show ?thesis
  proof (cases "b_healthy b")
    case True
    then have "m \<in> set (up_members bs)" using m by (simp add: up_members_iff)
    then obtain r where r: "r < length (up_members bs)" "up_members bs ! r = m" by (auto simp: in_set_conv_nth)
    then show ?thesis using True m rr_finished(3) [OF inv joined r(1)] hits_bounds [OF r(1), of n 1]
      by (auto simp: fair_share_def Let_def length_up_members)
  next
    case False
    then show ?thesis using m rr_finished(4) [OF inv joined] by (simp add: fair_share_def Let_def)
  qed
qed

lemma rr_all_served:
  assumes "rr_inv bs n s" "clients_joined s"
  shows "length (filter (\<lambda>w. w \<noteq> None) (map who (sc_reqs s))) = n"
proof -
  have "filter (\<lambda>w. w \<noteq> None) (targets bs s) = targets bs s"
    using rr_finished(2) [OF assms] unfolding filter_id_conv by metis
  then show ?thesis using assms(1) by (simp only: rr_finished(1) [OF assms]) (simp add: rr_inv_def targets_def)
qed

lemma rr_checks_pass:
  assumes "rr_inv demo_backends n s" "clients_joined s" "3 \<le> n"
  shows "scenario_checks ''round_robin'' n s = Inr ()"
proof -
  note fair = rr_fair [OF assms(1,2)]
  have k: "length (filter b_healthy demo_backends) = 2" by (simp add: demo_backends_def new_backend_def)
  have d: "traffic s ''backend-1'' = n div 2 \<or> traffic s ''backend-1'' = n div 2 + 1"
    "traffic s ''backend-2'' = n div 2 \<or> traffic s ''backend-2'' = n div 2 + 1" "traffic s ''backend-3'' = 0"
    using fair [of "new_backend ''backend-1'' True"] fair [of "new_backend ''backend-2'' True"] fair [of "new_backend ''backend-3'' False"]
    by (simp_all add: fair_share_def k Let_def) (simp_all add: demo_backends_def new_backend_def)
  have "0 < n div 2" using assms(3) by simp
  moreover have "\<bar>int (traffic s ''backend-1'') - int (traffic s ''backend-2'')\<bar> * 10 \<le> int n * 4"
    using d assms(3) by auto
  ultimately show ?thesis
    using d rr_all_served [OF assms(1,2)] by (auto simp: scenario_checks_def Let_def py_assert_def)
qed


text \<open>
  C2. Whatever the scheduling of handlers, clients and health probes, a round-robin scenario always gets its requests answered:
  no run of the handlers is infinite, and some handler can move until all clients can be joined. Then each of the \<open>n\<close> clients got
  the name of a backend, an unhealthy backend served none of them, and each of the \<open>k\<close> healthy ones \<open>n div k\<close> or \<open>n div k + 1\<close>; the
  assertions of \<^verbatim>\<open>_run_scenario\<close> succeed.
\<close>
theorem proxy_balanced:
  assumes "distinct (map b_name bs)" "\<exists>b \<in> set bs. b_healthy b" "strategy \<noteq> ''least_connections''"
    and run: "proxy_any\<^sup>*\<^sup>* (scenario_init bs strategy n) s"
  shows "wfp (\<lambda>s2 s1. proxy_step\<^sup>*\<^sup>* s s1 \<and> proxy_step s1 s2) \<and>
    ((\<exists>s'. proxy_step s s') \<or> clients_joined s) \<and>
    (clients_joined s \<longrightarrow>
     (\<forall>b \<in> set bs. fair_share bs n s b) \<and> length (filter (\<lambda>w. w \<noteq> None) (map who (sc_reqs s))) = n \<and>
     (bs = demo_backends \<and> 3 \<le> n \<longrightarrow> scenario_checks ''round_robin'' n s = Inr ()))"
proof -
  have inv: "rr_inv bs n s" using rr.reach_inv [OF run] scenario_init_inv assms up_members_none by blast
  show ?thesis
    using rr_run.terminates [OF inv] rr_fair [OF inv] rr_all_served [OF inv] rr_checks_pass [of n s] inv stuck_joined [of s] by blast
qed

lemma rr_end_reachable:
  assumes "distinct (map b_name bs)" "\<exists>b \<in> set bs. b_healthy b" "strategy \<noteq> ''least_connections''"
  shows "\<exists>s. proxy_any\<^sup>*\<^sup>* (scenario_init bs strategy n) s \<and> (\<nexists>s'. proxy_step s s')"
proof -
  have "rr_inv bs n (scenario_init bs strategy n)" using scenario_init_inv assms up_members_none by blast
  from rr_run.reaches_end [OF this] obtain s where s: "proxy_step\<^sup>*\<^sup>* (scenario_init bs strategy n) s" "\<nexists>s'. proxy_step s s'" by blast
  have "proxy_any\<^sup>*\<^sup>* (scenario_init bs strategy n) s"
    using s(1) mono_rtranclp [of proxy_step proxy_any] proxy_any.handler by blast
  with s(2) show ?thesis by blast
qed

theorem proxy_balanced_witness:
  "\<exists>s. proxy_any\<^sup>*\<^sup>* (scenario_init demo_backends ''round_robin'' 60) s \<and> (\<forall>b \<in> set demo_backends. fair_share demo_backends 60 s b) \<and>
     scenario_checks ''round_robin'' 60 s = Inr ()"
proof -
  have hyps: "distinct (map b_name demo_backends)" "\<exists>b \<in> set demo_backends. b_healthy b" "''round_robin'' \<noteq> ''least_connections''"
    by (simp_all add: demo_backends_def new_backend_def)
  from rr_end_reachable [OF hyps, of 60] obtain s where
    s: "proxy_any\<^sup>*\<^sup>* (scenario_init demo_backends ''round_robin'' 60) s" "\<nexists>s'. proxy_step s s'" by blast
  then show ?thesis using proxy_balanced [OF hyps s(1)] by auto
qed

section \<open>Least connections\<close>

text \<open>The state after \<open>k\<close> requests were handled one after the other under \<^verbatim>\<open>least_connections\<close>.\<close>

definition serial_state :: "nat \<Rightarrow> nat \<Rightarrow> scenario" where
  "serial_state n k = \<lparr>sc_proxy = \<lparr>px_members = [\<lparr>m_backend = ''backend-1'', m_healthy = True, m_inflight = 0\<rparr>,
        \<lparr>m_backend = ''backend-2'', m_healthy = True, m_inflight = 0\<rparr>, \<lparr>m_backend = ''backend-3'', m_healthy = False, m_inflight = 0\<rparr>],
      px_strategy = ''least_connections'', px_rr_index = 0\<rparr>,
    sc_backends = [\<lparr>b_name = ''backend-1'', b_healthy = True, b_served = k\<rparr>, new_backend ''backend-2'' True, new_backend ''backend-3'' False],
    sc_reqs = replicate k (Answered (200, ''backend-1'')) @ replicate (n - k) Accepted\<rparr>"

lemma serial_start: "serial_state n 0 = scenario_init demo_backends ''least_connections'' n"
  by (simp add: serial_state_def scenario_init_def demo_backends_def new_backend_def proxy_init_def pool_member_def health_probe_def
      probe_healthy_iff upt_rec)

fun moves :: "nat \<Rightarrow> nat \<Rightarrow> scenario \<Rightarrow> scenario option" where
  "moves 0 i s = Some s"
| "moves (Suc k) i s = Option.bind (handler_move i s) (moves k i)"

lemma moves_reach:
  assumes "moves k i s = Some s'" "i < length (sc_reqs s)"
  shows "proxy_any\<^sup>*\<^sup>* s s'"
  using assms
proof (induction k arbitrary: s)
  case (Suc k)
  then obtain s1 where s1: "handler_move i s = Some s1" "moves k i s1 = Some s'" by (cases "handler_move i s") auto
  have "length (sc_reqs s1) = length (sc_reqs s)"
    using s1(1) by (auto simp: handler_move_def Let_def split: hphase.splits if_splits prod.splits option.splits)
  then have "proxy_any\<^sup>*\<^sup>* s1 s'" using Suc.IH [OF s1(2)] Suc.prems(2) by simp
  moreover have "proxy_any s s1" using s1(1) Suc.prems(2) by (blast intro: proxy_any.handler proxy_step.move)
  ultimately show ?case by (rule converse_rtranclp_into_rtranclp [rotated])
qed simp

text \<open>The same state with the request under way in some phase, the first counter and the served count given.\<close>

definition serial_mid :: "nat \<Rightarrow> nat \<Rightarrow> hphase \<Rightarrow> int \<Rightarrow> nat \<Rightarrow> scenario" where
  "serial_mid n k ph v served = (serial_state n k)\<lparr>
     sc_proxy := set_inflight 0 v (sc_proxy (serial_state n k)),
     sc_backends := (sc_backends (serial_state n k))[0 := \<lparr>b_name = ''backend-1'', b_healthy = True, b_served = served\<rparr>],
     sc_reqs := (sc_reqs (serial_state n k))[k := ph]\<rparr>"

lemma serial_mid_fields:
  "sc_reqs (serial_mid n k ph v served) = (sc_reqs (serial_state n k))[k := ph]"
  "px_strategy (sc_proxy (serial_mid n k ph v served)) = ''least_connections''"
  "healthy_members (sc_proxy (serial_mid n k ph v served)) = [0, 1]"
  "inflight 0 (sc_proxy (serial_mid n k ph v served)) = v" "inflight 1 (sc_proxy (serial_mid n k ph v served)) = 0"
  "sc_backends (serial_mid n k ph v served) ! 0 = \<lparr>b_name = ''backend-1'', b_healthy = True, b_served = served\<rparr>"
  by (simp_all add: serial_mid_def serial_state_def set_inflight_def inflight_def healthy_members_def upt_rec)

lemma serial_mid_upd:
  "(serial_mid n k ph v served)\<lparr>sc_reqs := (sc_reqs (serial_state n k))[k := ph']\<rparr> = serial_mid n k ph' v served"
  "(serial_mid n k ph v served)\<lparr>sc_proxy := set_inflight 0 w (sc_proxy (serial_mid n k ph v served)),
     sc_reqs := (sc_reqs (serial_state n k))[k := ph']\<rparr> = serial_mid n k ph' w served"
  "(serial_mid n k ph v served)\<lparr>sc_proxy := sc_proxy (serial_mid n k ph v served),
     sc_reqs := (sc_reqs (serial_state n k))[k := ph']\<rparr> = serial_mid n k ph' v served"
  "(serial_mid n k ph v served)\<lparr>sc_backends := (sc_backends (serial_mid n k ph v served))
       [0 := \<lparr>b_name = ''backend-1'', b_healthy = True, b_served = served'\<rparr>],
     sc_reqs := (sc_reqs (serial_state n k))[k := ph']\<rparr> = serial_mid n k ph' v served'"
  by (simp_all add: serial_mid_def set_inflight_def serial_state_def)

lemma serial_least: "select_locked [0, Suc 0] (sc_proxy (serial_mid n k ph 0 served)) = (Some 0, sc_proxy (serial_mid n k ph 0 served))"
  using serial_mid_fields(4,5) [of n k ph 0 served]
  by (simp add: select_locked_def serial_mid_fields(2) inflight_def)

lemma serial_request:
  assumes "k < n"
  shows "moves 7 k (serial_state n k) = Some (serial_state n (Suc k))"
proof -
  have k: "k < length (sc_reqs (serial_state n k))" using assms by (simp add: serial_state_def)
  have n: "replicate (n - k) Accepted = Accepted # replicate (n - Suc k) Accepted"
    using assms by (cases "n - k") auto
  let ?m = "serial_mid n k"
  have start: "serial_state n k = ?m Accepted 0 k"
    by (simp add: serial_mid_def serial_state_def n set_inflight_def list_update_append)
  have stop: "serial_state n (Suc k) = ?m (Answered (200, ''backend-1'')) 0 (Suc k)"
    by (simp add: serial_mid_def serial_state_def n set_inflight_def list_update_append replicate_app_Cons_same)
  have step: "handler_move k (?m Accepted 0 k) = Some (?m (Snapshot [0, 1]) 0 k)"
    "handler_move k (?m (Snapshot [0, 1]) 0 k) = Some (?m (Selected 0) 0 k)"
    "handler_move k (?m (Selected 0) 0 k) = Some (?m (Loaded 0 0) 0 k)"
    "handler_move k (?m (Loaded 0 0) 0 k) = Some (?m (Sent 0) 1 k)"
    "handler_move k (?m (Sent 0) 1 k) = Some (?m (Relayed 0 (200, ''backend-1'')) 1 (Suc k))"
    "handler_move k (?m (Relayed 0 (200, ''backend-1'')) 1 (Suc k)) = Some (?m (Unloaded 0 1 (200, ''backend-1'')) 1 (Suc k))"
    "handler_move k (?m (Unloaded 0 1 (200, ''backend-1'')) 1 (Suc k)) = Some (?m (Answered (200, ''backend-1'')) 0 (Suc k))"
    using k by (simp_all add: handler_move_def Let_def serial_mid_fields serial_mid_upd serial_least backend_get_def)
  then show ?thesis unfolding start stop by (simp add: numeral_eq_Suc)
qed

lemma serial_reach: "k \<le> n \<Longrightarrow> proxy_any\<^sup>*\<^sup>* (scenario_init demo_backends ''least_connections'' n) (serial_state n k)"
proof (induction k)
  case 0
  show ?case by (simp add: serial_start)
next
  case (Suc k)
  then have "proxy_any\<^sup>*\<^sup>* (serial_state n k) (serial_state n (Suc k))"
    by (intro moves_reach [OF serial_request]) (simp_all add: serial_state_def)
  with Suc show ?case by simp
qed

lemma serial_who: "map who (sc_reqs (serial_state n n)) = replicate n (Some ''backend-1'')"
  by (simp add: serial_state_def who_def client_get_def urlopen_def)

text \<open>
  Under \<^verbatim>\<open>least_connections\<close> the outcome depends on timing: if the handlers happen to run one after the other, the first
  backend serves all requests, nothing reaches the second, and the scenario ends in its own assertion that load was spread.
\<close>
theorem least_connections_may_fail:
  "\<exists>s. proxy_any\<^sup>*\<^sup>* (scenario_init demo_backends ''least_connections'' 60) s \<and> (\<nexists>s'. proxy_step s s') \<and>
     traffic s ''backend-1'' = 60 \<and> traffic s ''backend-2'' = 0 \<and>
     scenario_checks ''least_connections'' 60 s = Inl AssertionError"
proof (intro exI conjI)
  let ?s = "serial_state 60 60"
  show "proxy_any\<^sup>*\<^sup>* (scenario_init demo_backends ''least_connections'' 60) ?s" by (rule serial_reach) simp
  show "\<nexists>s'. proxy_step ?s s'"
    by (auto elim!: proxy_step.cases simp: handler_move_def serial_state_def Let_def)
  show d: "traffic ?s ''backend-1'' = 60" "traffic ?s ''backend-2'' = 0"
    by (simp_all add: traffic_def serial_who count_list_replicate)
  have "traffic ?s ''backend-3'' = 0" by (simp add: traffic_def serial_who count_list_replicate)
  with d show "scenario_checks ''least_connections'' 60 ?s = Inl AssertionError"
    by (simp add: scenario_checks_def Let_def py_assert_def)
qed


section \<open>The listener\<close>

text \<open>
  Each turn of \<^verbatim>\<open>_accept_loop\<close>: whether \<^verbatim>\<open>_running\<close> is still set, and what \<^verbatim>\<open>accept\<close> does. The clients for which a handler was
  started are returned, and whether the loop has ended; \<^verbatim>\<open>stop\<close> clears the flag and closes the listener, after which
  \<^verbatim>\<open>accept\<close> raises an \<^verbatim>\<open>OSError\<close>.
\<close>

datatype accept_answer = Client nat | Accept_Timeout | Accept_Error

fun accept_loop :: "(bool \<times> accept_answer) list \<Rightarrow> nat list \<times> bool" where
  "accept_loop [] = ([], False)"
| "accept_loop ((running, answer) # turns) =
     (if \<not> running then ([], True)
      else case answer of
        Client c \<Rightarrow> (let (cs, ended) = accept_loop turns in (c # cs, ended))
      | Accept_Timeout \<Rightarrow> accept_loop turns
      | Accept_Error \<Rightarrow> ([], True))"

definition stop_listener :: "(bool \<times> accept_answer) list \<Rightarrow> (bool \<times> accept_answer) list" where
  "stop_listener turns = map (\<lambda>_. (False, Accept_Error)) turns"

text \<open>Every client that connects before the stop gets a handler, none after it, and the loop ends with its next turn.\<close>

lemma accept_loop_stop:
  assumes "\<forall>t \<in> set before. fst t \<and> snd t \<noteq> Accept_Error" "after \<noteq> []"
  shows "accept_loop (before @ stop_listener after) = (List.map_filter (\<lambda>(_, a). case a of Client c \<Rightarrow> Some c | _ \<Rightarrow> None) before, True)"
  using assms(1)
proof (induction before)
  case Nil
  then show ?case using assms(2) by (cases after) (auto simp: stop_listener_def)
next
  case (Cons t ts)
  then show ?case by (cases t; cases "snd t") auto
qed

end
