(* ===== verification/Tcp_Observer.thy ===== *)
theory Tcp_Observer
  imports Py_Str
begin

text \<open>
  \<^verbatim>\<open>tcp_handshake_observer.py\<close>: the echo thread of \<^verbatim>\<open>start_echo_server\<close> and the main block that walks one connection from the
  socket options to the close, interleaved over the two byte streams of the connection. What \<^verbatim>\<open>getsockopt\<close> reads back is a parameter.
\<close>

section \<open>Socket options\<close>

datatype sockopt = TCP_NODELAY | SO_REUSEADDR | SO_KEEPALIVE | TCP_KEEPIDLE

text \<open>
  The options set and read back before \<^verbatim>\<open>connect\<close>: \<open>readback opt v\<close> is what \<^verbatim>\<open>getsockopt\<close> gives after \<open>v\<close> was set. The values printed
  are returned; the keep-alive time only exists where \<open>has_keepidle\<close> holds and is not asserted.
\<close>

definition client_options :: "(sockopt \<Rightarrow> int \<Rightarrow> int) \<Rightarrow> bool \<Rightarrow> (int \<times> int \<times> int \<times> int option) res" where
  "client_options readback has_keepidle =
     (let nodelay = readback TCP_NODELAY 1 in
      rbind (py_assert (nodelay = 1)) (\<lambda>_.
      let reuse = readback SO_REUSEADDR 1 in
      rbind (py_assert (reuse = 1)) (\<lambda>_.
      let keep = readback SO_KEEPALIVE 1 in
      rbind (py_assert (keep = 1)) (\<lambda>_.
      Inr (nodelay, reuse, keep, if has_keepidle then Some (readback TCP_KEEPIDLE 60) else None)))))"

text \<open>\<^verbatim>\<open>describe_state\<close>: \<open>tcp_info\<close> is the answer of \<^verbatim>\<open>getsockopt(TCP_INFO, 1)\<close> where the platform has it. The dash of the message is written \<open>--\<close>.\<close>

definition no_tcp_info :: string where
  "no_tcp_info = ''(TCP_INFO not available on this OS -- Windows uses a different API)''"

definition describe_state :: "nat list res option \<Rightarrow> string res" where
  "describe_state tcp_info = (case tcp_info of
       Some (Inr raw) \<Rightarrow> (if raw = [] then Inl IndexError else Inr (''tcpi_state='' @ str_nat (hd raw)))
     | Some (Inl e) \<Rightarrow> (if e = OSError then Inr no_tcp_info else Inl e)
     | None \<Rightarrow> Inr no_tcp_info)"

section \<open>The connection\<close>

text \<open>Positions of the echo thread and of the main block.\<close>

datatype echo_pos = Accepting | Receiving | Sending string | Ended

datatype main_pos = Fresh | Configured | Connected | Written | Verified | Half_Closed | Closed | Raised py_error

record lifecycle =
  l_echo :: echo_pos
  l_main :: main_pos
  to_server :: string
  to_client :: string
  fin :: bool

text \<open>How many of \<open>n\<close> bytes one call may move: all of them on an ideal network, any positive number on a real one.\<close>

definition moved :: "bool \<Rightarrow> nat \<Rightarrow> nat \<Rightarrow> bool" where
  "moved whole n k \<longleftrightarrow> 0 < k \<and> k \<le> n \<and> (whole \<longrightarrow> k = n)"

fun raised :: "main_pos \<Rightarrow> bool" where
  "raised (Raised _) = True"
| "raised _ = False"

definition verify_echo :: "string \<Rightarrow> string \<Rightarrow> main_pos" where
  "verify_echo payload echoed = (case py_assert (echoed = payload) of Inl e \<Rightarrow> Raised e | Inr _ \<Rightarrow> Verified)"

text \<open>The atomic actions; an exception of the main block ends the process and with it the daemon thread.\<close>

inductive life_step :: "(sockopt \<Rightarrow> int \<Rightarrow> int) \<Rightarrow> bool \<Rightarrow> bool \<Rightarrow> string \<Rightarrow> lifecycle \<Rightarrow> lifecycle \<Rightarrow> bool"
  for readback has_keepidle whole payload where
  configure: "l_main s = Fresh \<Longrightarrow>
    life_step readback has_keepidle whole payload s
      (s\<lparr>l_main := (case client_options readback has_keepidle of Inl e \<Rightarrow> Raised e | Inr _ \<Rightarrow> Configured)\<rparr>)"
| connect: "l_main s = Configured \<Longrightarrow> life_step readback has_keepidle whole payload s (s\<lparr>l_main := Connected\<rparr>)"
| accept: "l_echo s = Accepting \<Longrightarrow> l_main s \<noteq> Fresh \<Longrightarrow> l_main s \<noteq> Configured \<Longrightarrow> \<not> raised (l_main s) \<Longrightarrow>
    life_step readback has_keepidle whole payload s (s\<lparr>l_echo := Receiving\<rparr>)"
| send: "l_main s = Connected \<Longrightarrow>
    life_step readback has_keepidle whole payload s (s\<lparr>l_main := Written, to_server := to_server s @ payload\<rparr>)"
| echo_recv: "l_echo s = Receiving \<Longrightarrow> \<not> raised (l_main s) \<Longrightarrow> moved whole (length (to_server s)) k \<Longrightarrow> k \<le> 4096 \<Longrightarrow>
    life_step readback has_keepidle whole payload s (s\<lparr>l_echo := Sending (take k (to_server s)), to_server := drop k (to_server s)\<rparr>)"
| echo_send: "l_echo s = Sending d \<Longrightarrow> \<not> raised (l_main s) \<Longrightarrow> moved whole (length d) k \<Longrightarrow>
    life_step readback has_keepidle whole payload s (s\<lparr>l_echo := Sending (drop k d), to_client := to_client s @ take k d\<rparr>)"
| echo_sent: "l_echo s = Sending [] \<Longrightarrow> \<not> raised (l_main s) \<Longrightarrow> life_step readback has_keepidle whole payload s (s\<lparr>l_echo := Receiving\<rparr>)"
| echo_eof: "l_echo s = Receiving \<Longrightarrow> \<not> raised (l_main s) \<Longrightarrow> to_server s = [] \<Longrightarrow> fin s \<Longrightarrow>
    life_step readback has_keepidle whole payload s (s\<lparr>l_echo := Ended\<rparr>)"
| main_recv: "l_main s = Written \<Longrightarrow> moved whole (length (to_client s)) k \<Longrightarrow> k \<le> 4096 \<Longrightarrow>
    life_step readback has_keepidle whole payload s (s\<lparr>l_main := verify_echo payload (take k (to_client s)), to_client := drop k (to_client s)\<rparr>)"
| shutdown: "l_main s = Verified \<Longrightarrow> life_step readback has_keepidle whole payload s (s\<lparr>l_main := Half_Closed, fin := True\<rparr>)"
| close: "l_main s = Half_Closed \<Longrightarrow> life_step readback has_keepidle whole payload s (s\<lparr>l_main := Closed\<rparr>)"

definition life_init :: lifecycle where
  "life_init = \<lparr>l_echo = Accepting, l_main = Fresh, to_server = [], to_client = [], fin = False\<rparr>"

definition demo_payload :: string where
  "demo_payload = ''the quick brown fox''"

section \<open>Invariant\<close>

fun echo_held :: "echo_pos \<Rightarrow> string" where
  "echo_held (Sending d) = d"
| "echo_held _ = []"

text \<open>The bytes on their way to the client, in order.\<close>

definition under_way :: "lifecycle \<Rightarrow> string" where
  "under_way s = to_client s @ echo_held (l_echo s) @ to_server s"

definition life_inv :: "bool \<Rightarrow> string \<Rightarrow> lifecycle \<Rightarrow> bool" where
  "life_inv whole payload s \<longleftrightarrow>
     payload \<noteq> [] \<and> length payload \<le> 4096 \<and>
     (\<not> raised (l_main s) \<longrightarrow> under_way s = (if l_main s = Written then payload else [])) \<and>
     (l_main s = Fresh \<or> l_main s = Configured \<longrightarrow> l_echo s = Accepting) \<and>
     (l_echo s = Accepting \<longrightarrow> l_main s \<noteq> Verified) \<and>
     (l_echo s = Accepting \<and> l_main s = Written \<longrightarrow> to_client s = []) \<and>
     (fin s \<longleftrightarrow> l_main s = Half_Closed \<or> l_main s = Closed) \<and> (fin s \<longrightarrow> l_echo s \<noteq> Accepting) \<and> (l_echo s = Ended \<longrightarrow> fin s) \<and>
     (whole \<longrightarrow> l_main s = Written \<longrightarrow> to_client s = [] \<or> to_client s = payload) \<and>
     (whole \<longrightarrow> l_main s = Written \<longrightarrow> echo_held (l_echo s) = [] \<or> echo_held (l_echo s) = payload) \<and>
     (\<forall>e. l_main s = Raised e \<longrightarrow> \<not> whole \<and> e = AssertionError)"

fun echo_left :: "echo_pos \<Rightarrow> nat" where
  "echo_left Accepting = 3"
| "echo_left Receiving = 2"
| "echo_left (Sending d) = 3 * length d + 3"
| "echo_left Ended = 0"

fun main_left :: "main_pos \<Rightarrow> nat" where
  "main_left Fresh = 6"
| "main_left Configured = 5"
| "main_left Connected = 4"
| "main_left Written = 3"
| "main_left Verified = 2"
| "main_left Half_Closed = 1"
| "main_left Closed = 0"
| "main_left (Raised _) = 0"

definition life_work :: "string \<Rightarrow> lifecycle \<Rightarrow> nat" where
  "life_work payload s = (5 * length payload + 1) * main_left (l_main s) + echo_left (l_echo s) + 5 * length (to_server s)"

lemma client_options_ok:
  "client_options readback has_keepidle = (if readback TCP_NODELAY 1 = 1 \<and> readback SO_REUSEADDR 1 = 1 \<and> readback SO_KEEPALIVE 1 = 1
     then Inr (1, 1, 1, if has_keepidle then Some (readback TCP_KEEPIDLE 60) else None) else Inl AssertionError)"
  by (simp add: client_options_def py_assert_def Let_def)

lemma verify_echo_iff: "verify_echo payload d = (if d = payload then Verified else Raised AssertionError)"
  by (simp add: verify_echo_def py_assert_def)

lemma moved_take:
  assumes "moved whole (length d) k"
  shows "take k d \<noteq> []" "take k d @ drop k d = d" "whole \<Longrightarrow> take k d = d" "whole \<Longrightarrow> drop k d = []" "length (take k d) = k" "length (drop k d) < length d"
  using assms by (auto simp: moved_def)

lemma life_inv_init: "payload \<noteq> [] \<Longrightarrow> length payload \<le> 4096 \<Longrightarrow> life_inv whole payload life_init"
  by (simp add: life_inv_def life_init_def under_way_def)

text \<open>What is read before everything was sent is a proper part.\<close>

lemma main_recv_inv:
  assumes inv: "life_inv whole payload s" and at: "l_main s = Written" and k: "moved whole (length (to_client s)) k"
  shows "life_inv whole payload (s\<lparr>l_main := verify_echo payload (take k (to_client s)), to_client := drop k (to_client s)\<rparr>)"
proof (cases "take k (to_client s) = payload")
  case True
  have all: "to_client s @ echo_held (l_echo s) @ to_server s = payload" using inv at by (simp add: life_inv_def under_way_def)
  then have "length payload \<le> length (to_client s)" using True by (metis take_all_iff nat_le_linear length_take min.cobounded1)
  then have e: "to_client s = payload" "echo_held (l_echo s) = []" "to_server s = []" using all by (simp_all add: append_eq_conv_conj)
  then have "drop k payload = []" using True by (metis append_take_drop_id append_self_conv)
  then show ?thesis using inv at e True by (auto simp: life_inv_def under_way_def verify_echo_iff)
next
  case False
  have "\<not> whole"
  proof
    assume w: "whole"
    then have "to_client s = payload" using inv at k by (auto simp: life_inv_def moved_def)
    then show False using False moved_take(3) [OF k w] by simp
  qed
  then show ?thesis using inv at False by (auto simp: life_inv_def verify_echo_iff)
qed

lemma echo_recv_inv:
  assumes inv: "life_inv whole payload s" and at: "l_echo s = Receiving" "\<not> raised (l_main s)" and k: "moved whole (length (to_server s)) k"
  shows "life_inv whole payload (s\<lparr>l_echo := Sending (take k (to_server s)), to_server := drop k (to_server s)\<rparr>)"
proof -
  have ne: "to_server s \<noteq> []" using k by (auto simp: moved_def)
  then have at2: "l_main s = Written" "to_client s @ to_server s = payload" using inv at by (auto simp: life_inv_def under_way_def split: if_splits)
  have "to_client s = []" "to_server s = payload" if "whole"
    using inv at2 ne that by (auto simp: life_inv_def)
  then show ?thesis using inv at at2 moved_take [OF k] by (auto simp: life_inv_def under_way_def)
qed

lemma echo_send_inv:
  assumes inv: "life_inv whole payload s" and at: "l_echo s = Sending d" "\<not> raised (l_main s)" and k: "moved whole (length d) k"
  shows "life_inv whole payload (s\<lparr>l_echo := Sending (drop k d), to_client := to_client s @ take k d\<rparr>)"
proof -
  have ne: "d \<noteq> []" using k by (auto simp: moved_def)
  then have at2: "l_main s = Written" "to_client s @ d @ to_server s = payload" using inv at by (auto simp: life_inv_def under_way_def split: if_splits)
  have "to_client s = []" "d = payload" if "whole"
    using inv at at2 ne that by (auto simp: life_inv_def)
  then show ?thesis using inv at at2 moved_take [OF k] by (auto simp: life_inv_def under_way_def)
qed


definition options_ok :: "(sockopt \<Rightarrow> int \<Rightarrow> int) \<Rightarrow> bool" where
  "options_ok readback \<longleftrightarrow> readback TCP_NODELAY 1 = 1 \<and> readback SO_REUSEADDR 1 = 1 \<and> readback SO_KEEPALIVE 1 = 1"

lemma life_step_inv:
  assumes "life_step readback has_keepidle whole payload s s'" "options_ok readback" "life_inv whole payload s"
  shows "life_inv whole payload s'"
  using assms
proof cases
  case configure
  then show ?thesis using assms by (auto simp: life_inv_def under_way_def client_options_ok options_ok_def)
next
  case (echo_recv k)
  then show ?thesis using echo_recv_inv assms by blast
next
  case (echo_send d k)
  then show ?thesis using echo_send_inv assms by blast
next
  case (main_recv k)
  then show ?thesis using main_recv_inv assms by blast
qed (auto simp: life_inv_def under_way_def split: if_splits)

lemma life_step_work:
  assumes "life_step readback has_keepidle whole payload s s'" "life_inv whole payload s"
  shows "life_work payload s' < life_work payload s"
  using assms
proof cases
  case configure
  then show ?thesis by (auto simp: life_work_def split: sum.splits)
next
  case (main_recv k)
  then show ?thesis by (simp add: life_work_def verify_echo_iff)
next
  case (echo_recv k)
  then have "0 < k" "k \<le> length (to_server s)" by (simp_all add: moved_def)
  then show ?thesis using echo_recv by (simp add: life_work_def)
next
  case (echo_send d k)
  then have "0 < k" "k \<le> length d" by (simp_all add: moved_def)
  then show ?thesis using echo_send by (simp add: life_work_def)
qed (auto simp: life_work_def)

text \<open>Where an option does not read back as 1 the script ends before it connects.\<close>

definition life_unset :: "lifecycle \<Rightarrow> bool" where
  "life_unset s \<longleftrightarrow> s = life_init \<or> s = life_init\<lparr>l_main := Raised AssertionError\<rparr>"

lemma life_unset_step:
  assumes "life_step readback has_keepidle whole payload s s'" "\<not> options_ok readback" "life_unset s"
  shows "s = life_init \<and> s' = life_init\<lparr>l_main := Raised AssertionError\<rparr>"
proof -
  have "client_options readback has_keepidle = Inl AssertionError" using assms(2) by (auto simp: client_options_ok options_ok_def)
  with assms show ?thesis by (auto simp: life_unset_def life_init_def elim: life_step.cases)
qed

definition life_ok :: "(sockopt \<Rightarrow> int \<Rightarrow> int) \<Rightarrow> bool \<Rightarrow> string \<Rightarrow> lifecycle \<Rightarrow> bool" where
  "life_ok readback whole payload s \<longleftrightarrow> (if options_ok readback then life_inv whole payload s else life_unset s)"

lemma life_ok_step:
  assumes "life_step readback has_keepidle whole payload s s'" "life_ok readback whole payload s"
  shows "life_ok readback whole payload s'" "life_work payload s' < life_work payload s"
  using assms life_step_inv life_step_work life_unset_step [OF assms(1)]
  by (auto simp: life_ok_def life_unset_def life_work_def life_init_def split: if_splits)

interpretation life: step_progress "life_step readback has_keepidle whole payload" "life_ok readback whole payload" "life_work payload"
  by unfold_locales (auto intro: life_ok_step)

text \<open>A state without a move is the end.\<close>

lemma life_stuck:
  assumes inv: "life_inv whole payload s" and stuck: "\<nexists>s'. life_step readback has_keepidle whole payload s s'"
  shows "raised (l_main s) \<or> l_main s = Closed \<and> l_echo s = Ended"
proof (rule ccontr)
  assume not: "\<not> ?thesis"
  then have nr: "\<not> raised (l_main s)" by simp
  note no = stuck [unfolded not_ex, rule_format]
  have main: "l_main s \<in> {Written, Closed}"
  proof (cases "l_main s")
    case Fresh show ?thesis by (rule notE [OF no life_step.configure [OF Fresh]])
  next
    case Configured show ?thesis by (rule notE [OF no life_step.connect [OF Configured]])
  next
    case Connected show ?thesis by (rule notE [OF no life_step.send [OF Connected]])
  next
    case Verified show ?thesis by (rule notE [OF no life_step.shutdown [OF Verified]])
  next
    case Half_Closed show ?thesis by (rule notE [OF no life_step.close [OF Half_Closed]])
  qed (use nr in simp_all)
  have "moved whole n n" if "0 < n" for n using that by (simp add: moved_def)
  then have all: "moved whole (length d) (length d)" if "d \<noteq> []" for d :: string using that by simp
  have len: "length (under_way s) \<le> 4096" using inv nr main by (auto simp: life_inv_def)
  then have le: "length (to_server s) \<le> 4096" "length (to_client s) \<le> 4096" by (simp_all add: under_way_def)
  have echo: "l_echo s \<noteq> Accepting" 
  proof
    assume at: "l_echo s = Accepting"
    have "l_main s \<noteq> Fresh" "l_main s \<noteq> Configured" using main by auto
    then show False by (rule notE [OF no life_step.accept [OF at _ _ nr]])
  qed
  have snd: "l_echo s \<noteq> Sending d" for d
  proof
    assume at: "l_echo s = Sending d"
    show False
    proof (cases "d = []")
      case True show ?thesis by (rule notE [OF no life_step.echo_sent [OF at [unfolded True] nr]])
    next
      case False show ?thesis by (rule notE [OF no life_step.echo_send [OF at nr all [OF False]]])
    qed
  qed
  have srv: "to_server s = []" if "l_echo s = Receiving" 
    by (rule ccontr) (rule notE [OF no life_step.echo_recv [OF that nr all le(1)]])
  show False
  proof (cases "l_main s = Closed")
    case True
    have at: "l_echo s = Receiving" using echo snd not True by (cases "l_echo s") auto
    have "to_server s = []" "fin s" using inv True by (auto simp: life_inv_def under_way_def)
    then show False by (rule notE [OF no life_step.echo_eof [OF at nr]])
  next
    case False
    then have w: "l_main s = Written" using main by simp
    then have "l_echo s = Receiving" using inv echo snd by (cases "l_echo s") (auto simp: life_inv_def)
    then have "to_client s = payload" "payload \<noteq> []" using inv w srv by (auto simp: life_inv_def under_way_def)
    then have "to_client s \<noteq> []" by simp
    then show False by (rule notE [OF no life_step.main_recv [OF w all le(2)]])
  qed
qed


text \<open>
  C40. For a payload of at most 4096 bytes, not empty, in every interleaving of the echo thread with the main block the script ends: runs are
  finite, and a state without a move has the connection closed and the echo thread gone, or an \<^verbatim>\<open>AssertionError\<close>. That error comes only
  where an option that was set does not read back as 1, or where a call moves fewer bytes than there are.
\<close>

theorem lifecycle_walked:
  assumes "payload \<noteq> []" "length payload \<le> 4096"
    and run: "(life_step readback has_keepidle whole payload)\<^sup>*\<^sup>* life_init s"
  shows "wfp (\<lambda>s2 s1. (life_step readback has_keepidle whole payload)\<^sup>*\<^sup>* s s1 \<and> life_step readback has_keepidle whole payload s1 s2) \<and>
    (raised (l_main s) \<longrightarrow> (\<not> whole \<or> \<not> options_ok readback) \<and> l_main s = Raised AssertionError) \<and>
    ((\<exists>s'. life_step readback has_keepidle whole payload s s') \<or> l_main s = Closed \<and> l_echo s = Ended \<and> under_way s = [] \<or> raised (l_main s))"
proof -
  have "life_ok readback whole payload life_init" using life_inv_init [OF assms(1,2)] by (simp add: life_ok_def life_unset_def)
  then have inv: "life_ok readback whole payload s" using life.reach_inv [OF run] by blast
  have wf: "wfp (\<lambda>s2 s1. (life_step readback has_keepidle whole payload)\<^sup>*\<^sup>* s s1 \<and> life_step readback has_keepidle whole payload s1 s2)"
    using life.terminates inv by blast
  show ?thesis
  proof (cases "options_ok readback")
    case True
    then have inv: "life_inv whole payload s" using inv by (simp add: life_ok_def)
    have "raised (l_main s) \<longrightarrow> \<not> whole \<and> l_main s = Raised AssertionError" using inv by (cases "l_main s") (auto simp: life_inv_def)
    moreover have "under_way s = []" if "l_main s = Closed" using inv that by (auto simp: life_inv_def)
    ultimately show ?thesis using wf life_stuck [OF inv] by blast
  next
    case False
    then have "life_unset s" using inv by (simp add: life_ok_def)
    moreover have "\<exists>s'. life_step readback has_keepidle whole payload life_init s'"
      by (rule exI, rule life_step.configure) (simp add: life_init_def)
    ultimately show ?thesis using wf False by (auto simp: life_unset_def life_init_def)
  qed
qed

theorem lifecycle_walked_witness:
  "\<exists>s. (life_step (\<lambda>_ v. v) True True demo_payload)\<^sup>*\<^sup>* life_init s \<and> l_main s = Closed \<and> l_echo s = Ended"
proof -
  have hyps: "demo_payload \<noteq> []" "length demo_payload \<le> 4096" and ok: "options_ok (\<lambda>_ v. v)"
    by (simp_all add: demo_payload_def options_ok_def)
  have "life_ok (\<lambda>_ v. v) True demo_payload life_init" using hyps ok life_inv_init by (simp add: life_ok_def)
  from life.reaches_end [OF this, of True] obtain s where
    s: "(life_step (\<lambda>_ v. v) True True demo_payload)\<^sup>*\<^sup>* life_init s" "\<nexists>s'. life_step (\<lambda>_ v. v) True True demo_payload s s'" by blast
  then show ?thesis using lifecycle_walked [OF hyps s(1)] ok by blast
qed

section \<open>Failures\<close>

text \<open>An option that reads back as another true value than 1, as on BSD systems, ends the script before it connects.\<close>

lemma option_readback_fails:
  assumes "\<not> options_ok readback"
  shows "life_step readback has_keepidle whole payload life_init (life_init\<lparr>l_main := Raised AssertionError\<rparr>)"
proof -
  have "client_options readback has_keepidle = Inl AssertionError" using assms by (auto simp: client_options_ok options_ok_def)
  then show ?thesis using life_step.configure [of life_init readback has_keepidle whole payload] by (simp add: life_init_def)
qed

text \<open>
  An echo that arrives in two parts fails the assertion, which takes one \<^verbatim>\<open>recv\<close> for the whole, although no byte is lost.
\<close>
theorem split_echo_fails:
  "\<exists>s. (life_step (\<lambda>_ v. v) True False demo_payload)\<^sup>*\<^sup>* life_init s \<and> l_main s = Raised AssertionError \<and> to_client s = ''brown fox''"
proof -
  let ?step = "life_step (\<lambda>_ v. v) True False demo_payload"
  let ?st = "\<lambda>e m ts tc. \<lparr>l_echo = e, l_main = m, to_server = ts, to_client = tc, fin = False\<rparr>"
  have r1: "?step life_init (?st Accepting Configured [] [])"
    using life_step.configure [of life_init "\<lambda>_ v. v" True False demo_payload] by (simp add: life_init_def client_options_ok)
  have r2: "?step (?st Accepting Configured [] []) (?st Accepting Connected [] [])"
    using life_step.connect [of "?st Accepting Configured [] []"] by simp
  have r3: "?step (?st Accepting Connected [] []) (?st Accepting Written demo_payload [])"
    using life_step.send [of "?st Accepting Connected [] []"] by simp
  have r4: "?step (?st Accepting Written demo_payload []) (?st Receiving Written demo_payload [])"
    using life_step.accept [of "?st Accepting Written demo_payload []"] by simp
  have r5: "?step (?st Receiving Written demo_payload []) (?st (Sending demo_payload) Written [] [])"
    using life_step.echo_recv [of "?st Receiving Written demo_payload []" False 19] by (simp add: moved_def demo_payload_def)
  have r6: "?step (?st (Sending demo_payload) Written [] []) (?st (Sending []) Written [] demo_payload)"
    using life_step.echo_send [of "?st (Sending demo_payload) Written [] []" demo_payload False 19] by (simp add: moved_def demo_payload_def)
  have r7: "?step (?st (Sending []) Written [] demo_payload) (?st (Sending []) (Raised AssertionError) [] ''brown fox'')"
    using life_step.main_recv [of "?st (Sending []) Written [] demo_payload" False 10 "\<lambda>_ v. v" True demo_payload]
    by (simp add: moved_def demo_payload_def verify_echo_iff)
  have "?step\<^sup>*\<^sup>* life_init (?st (Sending []) (Raised AssertionError) [] ''brown fox'')"
    by (intro converse_rtranclp_into_rtranclp [where r = ?step, OF r1] converse_rtranclp_into_rtranclp [where r = ?step, OF r2]
        converse_rtranclp_into_rtranclp [where r = ?step, OF r3] converse_rtranclp_into_rtranclp [where r = ?step, OF r4]
        converse_rtranclp_into_rtranclp [where r = ?step, OF r5] converse_rtranclp_into_rtranclp [where r = ?step, OF r6]
        r_into_rtranclp [where r = ?step, OF r7])
  then show "\<exists>s. ?step\<^sup>*\<^sup>* life_init s \<and> l_main s = Raised AssertionError \<and> to_client s = ''brown fox''" by (intro exI) auto
qed

end
