(* ===== verification/Lru_Demo.thy ===== *)
theory Lru_Demo
  imports Lru_Cache
begin

text \<open>
  The programs of \<^verbatim>\<open>lru_cache.py\<close> that use the cache: \<^verbatim>\<open>demo_stats\<close>, and \<^verbatim>\<open>demo_thread_safety\<close> with its threads under every
  scheduling. Each \<^verbatim>\<open>get\<close> and \<^verbatim>\<open>put\<close> holds the lock throughout, so it is one step; between the \<^verbatim>\<open>get\<close> that misses and the
  \<^verbatim>\<open>put\<close> that follows other threads may run.
\<close>

section \<open>Size after a sequence of calls\<close>

definition put_keys :: "('k, 'v) cache_op list \<Rightarrow> 'k set" where
  "put_keys ops = (\<Union>op \<in> set ops. case op of OpPut k v \<Rightarrow> {k} | OpGet _ _ \<Rightarrow> {})"

lemma fst_delete: "fst ` set (AList.delete k d) = fst ` set d - {k}"
proof -
  have "set (dict_keys (AList.delete k d)) = set (dict_keys d) - {k}" unfolding keys_delete by auto
  then show ?thesis by simp
qed

lemma put_keys_Cons [simp]: "put_keys (OpPut k v # ops) = insert k (put_keys ops)" "put_keys (OpGet k v # ops) = put_keys ops" "put_keys [] = {}"
  by (simp_all add: put_keys_def)

lemma recency_keys: "fst ` set (recency n ops) = put_keys ops"
proof (induction n ops rule: recency.induct)
  case (3 n k d older)
  show ?case
  proof (cases "map_of (take n (recency n older)) k")
    case None
    then show ?thesis using 3 by simp
  next
    case (Some v)
    then have "k \<in> fst ` set (recency n older)"
      by (intro image_eqI [of _ fst "(k, v)"] in_set_takeD [OF map_of_SomeD]) simp_all
    then show ?thesis using 3 Some by (auto simp: fst_delete)
  qed
qed (auto simp: fst_delete)

text \<open>The size is the number of different keys ever put, cut off at the capacity.\<close>

lemma lru_run_size:
  fixes ops :: "('k, 'v option) cache_op list"
  assumes "0 < cap" "lru_run cap ops = Inr c"
  shows "lru_len c = min (nat cap) (card (put_keys ops))"
proof -
  obtain c0 :: "('k, 'v) lru" where c0: "lru_init cap = Inr c0" "lru_valid c0" "lru_entries c0 = []" "lru_cap c0 = nat cap"
    using lru_init_valid [OF assms(1)] by metis
  have c: "lru_valid c" "lru_entries c = take (nat cap) (recency (nat cap) (rev ops))"
    using lruc.run_entries [OF c0(2,3), of ops] c0 assms(2) by (auto simp: lru_run_def)
  have "length (recency (nat cap) (rev ops)) = card (fst ` set (recency (nat cap) (rev ops)))"
    using recency_wf [of "nat cap" "rev ops"] by (metis distinct_card length_map set_map)
  also have "\<dots> = card (put_keys ops)" unfolding recency_keys by (simp add: put_keys_def)
  finally have "length (lru_entries c) = min (nat cap) (card (put_keys ops))" using c(2) by simp
  moreover have "length (lru_entries c) = lru_len c" using lru_valid_bounded [OF c(1)] by (simp add: lru_len_def)
  ultimately show ?thesis by simp
qed

section \<open>The workload of the statistics demo\<close>

text \<open>\<^verbatim>\<open>demo_stats\<close>: 100 puts, then 200 gets with \<^verbatim>\<open>None\<close> as default, and its two assertions.\<close>

definition stats_ops :: "(nat, nat option) cache_op list" where
  "stats_ops = map (\<lambda>i. OpPut i (Some (i * 10))) [0..<100] @ map (\<lambda>i. OpGet (i mod 150) None) [0..<200]"

definition demo_stats :: "(nat, nat) lru res" where
  "demo_stats =
     rbind (lru_run 100 stats_ops) (\<lambda>c.
     rbind (py_assert (hits c + misses c = 200)) (\<lambda>_.
     rbind (py_assert (lru_len c = 100)) (\<lambda>_. Inr c)))"

lemma stats_ops_keys: "put_keys stats_ops = {..<100}"
  by (auto simp: put_keys_def stats_ops_def)

lemma stats_ops_gets: "count_gets stats_ops = 200"
  by (simp add: count_gets_def stats_ops_def o_def)

lemma demo_stats_passes: "\<exists>c. demo_stats = Inr c \<and> lru_run 100 stats_ops = Inr c"
proof -
  obtain c :: "(nat, nat) lru" where c: "lru_run 100 stats_ops = Inr c" using lru_run_total [of 100 stats_ops] by auto
  have "lru_len c = 100" using lru_run_size [OF _ c] by (simp add: stats_ops_keys)
  moreover have "hits c + misses c = 200" using lru_run_stats [OF _ c] by (simp add: stats_ops_gets)
  ultimately show ?thesis using c by (simp add: demo_stats_def py_assert_def)
qed

section \<open>Threads pounding one cache\<close>

text \<open>A worker about to \<^verbatim>\<open>get\<close> in turn \<open>i\<close>, about to \<^verbatim>\<open>put\<close> after a miss, at its end, or ended by an exception.\<close>

datatype lworker = Asking nat | Missed nat nat | Finished_worker | Died py_error

definition worker_key :: "nat \<Rightarrow> nat \<Rightarrow> nat" where
  "worker_key base i = (base + i) mod 200"

definition next_turn :: "nat \<Rightarrow> nat \<Rightarrow> lworker" where
  "next_turn turns i = (if i < turns then Asking i else Finished_worker)"

definition pound_move :: "nat \<Rightarrow> nat \<Rightarrow> lworker \<Rightarrow> (nat, nat) lru \<Rightarrow> (lworker \<times> (nat, nat) lru) option" where
  "pound_move turns base w c = (case w of
       Asking i \<Rightarrow> Some (case lru_get c (worker_key base i) None of
           Inl e \<Rightarrow> (Died e, c)
         | Inr (None, c) \<Rightarrow> (Missed i (worker_key base i), c)
         | Inr (Some _, c) \<Rightarrow> (next_turn turns (Suc i), c))
     | Missed i k \<Rightarrow> Some (case lru_put c k (Some k) of Inl e \<Rightarrow> (Died e, c) | Inr c \<Rightarrow> (next_turn turns (Suc i), c))
     | Finished_worker \<Rightarrow> None
     | Died e \<Rightarrow> None)"

record pounding =
  pd_cache :: "(nat, nat) lru"
  pd_workers :: "lworker list"

inductive pound_step :: "nat \<Rightarrow> (nat \<Rightarrow> nat) \<Rightarrow> pounding \<Rightarrow> pounding \<Rightarrow> bool" for turns base where
  pound: "j < length (pd_workers s) \<Longrightarrow> pound_move turns (base j) (pd_workers s ! j) (pd_cache s) = Some (w, c) \<Longrightarrow>
    pound_step turns base s (s\<lparr>pd_cache := c, pd_workers := (pd_workers s)[j := w]\<rparr>)"

definition pound_init :: "int \<Rightarrow> nat \<Rightarrow> nat \<Rightarrow> pounding res" where
  "pound_init cap turns n = rbind (lru_init cap) (\<lambda>c. Inr \<lparr>pd_cache = c, pd_workers = replicate n (next_turn turns 0)\<rparr>)"

text \<open>The final assertions; the walk over the list might not end, which is \<open>None\<close>.\<close>

definition thread_safety_checks :: "(nat, nat) lru \<Rightarrow> unit res option" where
  "thread_safety_checks c = (case py_assert (int (lru_len c) \<le> capacity c) of
       Inl e \<Rightarrow> Some (Inl e)
     | Inr _ \<Rightarrow> map_option (\<lambda>r. rbind r (\<lambda>as. py_assert (length as = lru_len c))) (lru_addrs c))"

text \<open>The threads of \<^verbatim>\<open>demo_thread_safety\<close>.\<close>

definition demo_base :: "nat \<Rightarrow> nat" where
  "demo_base b = b * 13"

definition demo_pound :: "pounding res" where
  "demo_pound = pound_init 50 2000 16"

fun worker_ok :: "lworker \<Rightarrow> bool" where
  "worker_ok (Died e) = False"
| "worker_ok _ = True"

definition pound_inv :: "int \<Rightarrow> nat \<Rightarrow> pounding \<Rightarrow> bool" where
  "pound_inv cap n s \<longleftrightarrow> lru_valid (pd_cache s) \<and> capacity (pd_cache s) = cap \<and> length (pd_workers s) = n \<and> list_all worker_ok (pd_workers s)"

fun worker_left :: "nat \<Rightarrow> lworker \<Rightarrow> nat" where
  "worker_left turns (Asking i) = 2 * (turns - i) + 2"
| "worker_left turns (Missed i k) = 2 * (turns - i) + 1"
| "worker_left turns _ = 0"


lemma lru_get_step:
  assumes "lru_valid c"
  shows "\<exists>r c'. lru_get c k d = Inr (r, c') \<and> lru_valid c' \<and> capacity c' = capacity c"
proof (cases "map_of (lru_entries c) k")
  case None
  then show ?thesis using lru_get_absent [OF assms None] assms by auto
next
  case (Some v)
  then show ?thesis using lru_get_present [OF assms Some, of d] by auto
qed

lemma lru_put_step:
  assumes "lru_valid c"
  shows "\<exists>c'. lru_put c k v = Inr c' \<and> lru_valid c' \<and> capacity c' = capacity c"
proof -
  obtain c' where c': "lru_put c k v = Inr c'" using lruc.put_entries [OF assms, of k v] by blast
  then show ?thesis using lru_step_stats [OF assms, of "OpPut k v" c'] by simp
qed

lemma pound_move_ok:
  assumes "pound_move turns base w c = Some (w', c')" "lru_valid c" "worker_ok w"
  shows "lru_valid c' \<and> capacity c' = capacity c \<and> worker_ok w' \<and> worker_left turns w' < worker_left turns w"
proof (cases w)
  case (Asking i)
  then show ?thesis using assms(1) lru_get_step [OF assms(2), of "worker_key base i" None]
    by (auto simp: pound_move_def next_turn_def diff_less_mono2 split: option.splits)
next
  case (Missed i k)
  then show ?thesis using assms(1) lru_put_step [OF assms(2), of k "Some k"]
    by (auto simp: pound_move_def next_turn_def) arith
qed (use assms in \<open>auto simp: pound_move_def\<close>)

interpretation pound: step_progress "pound_step turns base" "pound_inv cap n" "\<lambda>s. sum_list (map (worker_left turns) (pd_workers s))"
proof
  fix s s'
  assume step: "pound_step turns base s s'" and inv: "pound_inv cap n s"
  from step obtain j w c where j: "j < length (pd_workers s)" "pound_move turns (base j) (pd_workers s ! j) (pd_cache s) = Some (w, c)"
    and s': "s' = s\<lparr>pd_cache := c, pd_workers := (pd_workers s)[j := w]\<rparr>" by (auto elim: pound_step.cases)
  have "worker_ok (pd_workers s ! j)" using inv j(1) by (simp add: pound_inv_def list_all_length)
  from pound_move_ok [OF j(2) _ this] inv have ok: "lru_valid c \<and> capacity c = cap \<and> worker_ok w"
    "worker_left turns w < worker_left turns (pd_workers s ! j)" by (auto simp: pound_inv_def)
  show "pound_inv cap n s'"
    using inv ok set_update_subset_insert [of "pd_workers s" j w] by (auto simp: s' pound_inv_def list_all_iff)
  show "sum_list (map (worker_left turns) (pd_workers s')) < sum_list (map (worker_left turns) (pd_workers s))"
    using sum_update_less [OF j(1), of "worker_left turns"] ok(2) by (simp add: s')
qed

lemma pound_init_inv:
  assumes "0 < cap" "pound_init cap turns n = Inr s"
  shows "pound_inv cap n s"
proof -
  obtain c :: "(nat, nat) lru" where c: "lru_init cap = Inr c" "lru_valid c" "lru_cap c = nat cap" using lru_init_valid [OF assms(1)] by metis
  moreover have "capacity c = cap" using c(3) assms(1) by (simp add: lru_cap_def eq_nat_nat_iff)
  ultimately show ?thesis using assms(2) by (auto simp: pound_init_def pound_inv_def list_all_iff next_turn_def)
qed

lemma checks_pass:
  assumes "lru_valid c"
  shows "thread_safety_checks c = Some (Inr ())"
proof -
  obtain as where as: "lru_ok c as" using assms by (auto simp: lru_valid_def)
  have "lru_addrs c = Some (Inr as)" using lru_addrs_ok [OF as] .
  moreover have "length as = lru_len c" using lru_okD(8) [OF as] by (simp add: lru_len_def)
  moreover have "int (lru_len c) \<le> capacity c" using lru_valid_bounded [OF assms] by (auto simp: lru_len_def lru_cap_def)
  ultimately show ?thesis by (simp add: thread_safety_checks_def py_assert_def)
qed

lemma pound_stuck:
  assumes "pound_inv cap n s" "\<nexists>s'. pound_step turns base s s'" "w \<in> set (pd_workers s)"
  shows "w = Finished_worker"
proof (rule ccontr)
  assume w: "w \<noteq> Finished_worker"
  obtain j where j: "j < length (pd_workers s)" "pd_workers s ! j = w" using assms(3) by (auto simp: in_set_conv_nth)
  have "worker_ok w" using assms(1,3) by (simp add: pound_inv_def list_all_iff)
  with w have "\<exists>r. pound_move turns (base j) w (pd_cache s) = Some r" by (cases w) (auto simp: pound_move_def)
  then show False using assms(2) pound_step.pound [OF j(1), of turns base] j(2) by (metis surj_pair)
qed

text \<open>
  C7. Thread safety of the cache: whatever number of threads read and fill one cache, in whatever order their calls take the lock,
  no call ever raises, the map and the linked list agree and stay within the capacity at every moment, so that the assertions of
  \<^verbatim>\<open>demo_thread_safety\<close> would succeed at any time, no run is infinite, and a state without a move has all threads finished.
\<close>
theorem lru_threads_safe:
  assumes "0 < cap" "pound_init cap turns n = Inr s0" "(pound_step turns base)\<^sup>*\<^sup>* s0 s"
  shows "thread_safety_checks (pd_cache s) = Some (Inr ()) \<and> capacity (pd_cache s) = cap \<and> (\<forall>e. Died e \<notin> set (pd_workers s)) \<and>
    wfp (\<lambda>s2 s1. (pound_step turns base)\<^sup>*\<^sup>* s s1 \<and> pound_step turns base s1 s2) \<and>
    ((\<exists>s'. pound_step turns base s s') \<or> pd_workers s = replicate n Finished_worker)"
proof -
  have inv: "pound_inv cap n s" by (rule pound.reach_inv [OF assms(3) pound_init_inv [OF assms(1,2)]])
  have "pd_workers s = replicate n Finished_worker" if "\<nexists>s'. pound_step turns base s s'"
    using pound_stuck [OF inv that] inv by (auto simp: pound_inv_def intro: replicate_eqI)
  moreover have "Died e \<notin> set (pd_workers s)" for e using inv by (auto simp: pound_inv_def list_all_iff)
  ultimately show ?thesis using checks_pass pound.terminates [OF inv] inv by (auto simp: pound_inv_def)
qed

theorem lru_threads_safe_witness:
  "\<exists>s0 s. demo_pound = Inr s0 \<and> (pound_step 2000 demo_base)\<^sup>*\<^sup>* s0 s \<and> pd_workers s = replicate 16 Finished_worker \<and>
     thread_safety_checks (pd_cache s) = Some (Inr ())"
proof -
  obtain c :: "(nat, nat) lru" where "lru_init 50 = Inr c" using lru_init_ok [of 50] by auto
  then obtain s0 where s0: "demo_pound = Inr s0" by (simp add: demo_pound_def pound_init_def)
  then have s0': "pound_init 50 2000 16 = Inr s0" by (simp add: demo_pound_def)
  have pos: "0 < (50 :: int)" by simp
  from pound.reaches_end [OF pound_init_inv [OF pos s0'], of 2000 demo_base] obtain s where
    s: "(pound_step 2000 demo_base)\<^sup>*\<^sup>* s0 s" "\<nexists>s'. pound_step 2000 demo_base s s'" by blast
  then show ?thesis using s0 lru_threads_safe [OF pos s0' s(1)] by blast
qed

end
