(* ===== verification/Probe_Programs.thy ===== *)
theory Probe_Programs
  imports Net_Probes Host_Probes Psi Http_Client
begin

text \<open>
  The programs around the parsers of the probes: the generated sample and self-test of \<^verbatim>\<open>port_exhaustion_probe.py\<close>, and the
  monitors of \<^verbatim>\<open>tcp_retrans_monitor.py\<close>, \<^verbatim>\<open>cgroup_throttle_watch.py\<close>, \<^verbatim>\<open>psi_watcher.py\<close> and
  \<^verbatim>\<open>fork_cost_probe.py\<close>, with what they read and measure as arguments.
\<close>

section \<open>The sample of the port probe\<close>

text \<open>\<^verbatim>\<open>{lp:04X}\<close>, a line of the sample, and the sample.\<close>

definition hex4 :: "nat \<Rightarrow> string" where
  "hex4 n = replicate (4 - length (hex_upper n)) CHR ''0'' @ hex_upper n"

definition port_line :: "nat \<Rightarrow> string" where
  "port_line i = ''   '' @ str_nat i @ '': 0100007F:'' @ hex4 (40000 + i) @ '' 0A00020F:01BB 06 0 0''"

definition port_sample :: string where
  "port_sample = ''  sl local rem st'' @ [CHR 0x0A] @ concat (map (\<lambda>i. port_line i @ [CHR 0x0A]) [0..<2500]) @
     ''   x: 0100007F:1538 00000000:0000 0A 0 0'' @ [CHR 0x0A]"

definition ports_selftest :: "unit res" where
  "ports_selftest =
     (let lo = 32768; hi = 60999; (used, per_remote) = ephemeral_ports_in_use port_sample lo hi in
      rbind (py_assert (used = 2500)) (\<lambda>_.
      rbind (dict_lookup per_remote ''0A00020F:01BB'') (\<lambda>n.
      rbind (py_assert (n = 2500)) (\<lambda>_.
      rbind (py_assert (map_of per_remote ''00000000:0000'' = None)) (\<lambda>_.
      let pool_default = hi - lo + 1; pool_wide = 65535 - 1024 + 1 in
      py_assert ((of_nat used / of_int pool_wide :: rat) < of_nat used / of_int pool_default))))))"

lemma hex_length: "16 ^ k \<le> n \<Longrightarrow> k < length (hex_upper n)"
proof (induction k arbitrary: n)
  case (Suc k)
  then have "16 ^ k \<le> n div 16" by (simp add: less_eq_div_iff_mult_less_eq mult.commute)
  moreover have "1 \<le> (16 :: nat) ^ k" by simp
  then have "\<not> n < 16" using Suc.prems unfolding power_Suc by linarith
  ultimately show ?case using Suc.IH [of "n div 16"] by (simp add: hex_upper.simps [of n])
qed simp

lemma hex4_big: "4096 \<le> n \<Longrightarrow> hex4 n = hex_upper n"
  using hex_length [of 3 n] by (simp add: hex4_def)

text \<open>The words of a sample line.\<close>

definition port_words :: "nat \<Rightarrow> string list" where
  "port_words i = [str_nat i @ '':'', ''0100007F:'' @ hex_upper (40000 + i), ''0A00020F:01BB'', ''06'', ''0'', ''0'']"

lemma port_line_words: "port_line i = ''   '' @ join_with '' '' (port_words i)"
  by (simp add: port_line_def port_words_def hex4_big)

lemma hex_no_space:
  assumes "c \<in> set (hex_upper n)"
  shows "\<not> is_space c" "c \<noteq> CHR '':''"
proof -
  obtain d where d: "d < 16" "c = hex_char d" using hex_upper_digits [OF assms] by blast
  have i: "(of_char (hex_char d) :: int) = int (of_char (hex_char d))" by (simp only: of_nat_of_char)
  have n: "(of_char c :: int) = (if d < 10 then 48 + int d else 55 + int d)" unfolding d(2) i hex_char_code [OF d(1)] by simp
  show "\<not> is_space c" using n d(1) by (auto simp: is_space_int split: if_splits)
  show "c \<noteq> CHR '':''" using n d(1) by (auto split: if_splits)
qed

lemma port_words_ok: "\<forall>w \<in> set (port_words i). is_word w"
proof -
  have "is_word (str_nat i @ '':'')" using py_str_word [of "int i"] by (auto simp: is_word_def py_str_def is_space_int)
  moreover have "is_word (''0100007F:'' @ hex_upper (40000 + i))" using hex_no_space by (auto simp: is_word_def is_space_int)
  ultimately show ?thesis by (simp add: port_words_def) (simp add: is_word_def is_space_int)
qed

lemma port_line_split: "split_ws (port_line i) = port_words i"
proof -
  have sp: "is_space CHR '' ''" by (simp add: is_space_int)
  have "split_ws (join_with '' '' (port_words i)) = port_words i"
    by (rule split_ws_join) (simp add: port_words_def, rule bspec [OF port_words_ok])
  then show ?thesis using sp by (simp add: port_line_words)
qed

lemma py_int_hex: "py_int 16 (hex_upper n) = Inr (int n)"
proof -
  have "strip (hex_upper n) = hex_upper n"
    by (rule strip_by_id) (use hex_no_space(1) [of "hd (hex_upper n)" n] hex_no_space(1) [of "last (hex_upper n)" n] in auto)
  moreover obtain c cs where "hex_upper n = c # cs" "c \<noteq> CHR ''+''" "c \<noteq> CHR ''-''" by (rule hex_upper_head)
  ultimately show ?thesis using read_hex [of n] by (simp add: py_int_def)
qed

lemma port_words_used:
  assumes "i < 2500"
  shows "used_row 32768 60999 (port_words i) = Some (''0A00020F:01BB'', 40000 + int i)"
proof -
  have "CHR '':'' \<notin> set (hex_upper (40000 + i))" using hex_no_space(2) by blast
  then have "split_on CHR '':'' (''0100007F:'' @ hex_upper (40000 + i)) = [''0100007F'', hex_upper (40000 + i)]"
    by (simp add: split_on_no_sep)
  then have "local_port (''0100007F:'' @ hex_upper (40000 + i)) = Inr (40000 + int i)"
    by (simp only: local_port_def byte_at_def) (simp add: py_int_hex)
  moreover have "isdigit (rstrip_char CHR '':'' (str_nat i @ '':''))"
  proof -
    have "lstrip_char CHR ''-'' (str_nat i) = str_nat i"
      using str_nat_chars(4) by (simp add: lstrip_char_def dropWhile_hd)
    then have d: "isdigit (str_nat i)" using isdigit_py_str [of "int i"] by (simp add: py_str_def)
    then have "CHR '':'' \<notin> set (str_nat i)" by (auto simp: isdigit_def list_all_iff)
    then have "rstrip_char CHR '':'' (str_nat i @ '':'') = str_nat i"
      by (cases "str_nat i" rule: rev_cases) (auto simp: rstrip_char_def)
    then show ?thesis using d by simp
  qed
  ultimately show ?thesis using assms by (simp add: used_row_def port_row_def port_words_def upper_ascii_def)
qed


lemma strip_around:
  assumes "\<forall>c \<in> set a. is_space c" "\<forall>c \<in> set b. is_space c" "s \<noteq> []" "\<not> is_space (hd s)" "\<not> is_space (last s)"
  shows "strip (a @ s @ b) = s"
proof -
  have "dropWhile is_space (a @ s @ b) = s @ b" using assms(1,3,4) by (cases s) (auto simp: dropWhile_append2)
  moreover have "dropWhile is_space (rev b @ rev s) = dropWhile is_space (rev s)"
    by (rule dropWhile_append2) (use assms(2) in simp)
  moreover have "dropWhile is_space (rev s) = rev s" using assms(3,5) by (simp add: dropWhile_hd hd_rev)
  ultimately show ?thesis by (simp add: strip_by_def)
qed

lemma port_line_no_break: "\<forall>c \<in> set (port_line i). \<not> is_break c"
proof -
  have "\<not> is_break CHR '' ''" by (simp add: is_break_def)
  then show ?thesis using words_line [OF _ port_words_ok, of i] by (simp add: port_line_words port_words_def)
qed

lemma port_sample_lines:
  "splitlines (strip port_sample) = ''sl local rem st'' # map port_line [0..<2500] @ [''   x: 0100007F:1538 00000000:0000 0A 0 0'']"
proof -
  let ?ms = "''sl local rem st'' # map port_line [0..<2500]" and ?m = "''   x: 0100007F:1538 00000000:0000 0A 0 0''"
  let ?j = "concat (map (\<lambda>l. l @ [CHR 0x0A]) ?ms) @ ?m"
  have "port_sample = ''  '' @ ?j @ [CHR 0x0A]" by (simp add: port_sample_def comp_def)
  moreover have "strip (''  '' @ ?j @ [CHR 0x0A]) = ?j"
    by (rule strip_around) (simp_all add: is_space_int)
  moreover have "splitlines ?j = ?ms @ [?m]"
  proof (rule splitlines_last)
    have "\<forall>c \<in> set ''sl local rem st''. \<not> is_break c" "\<forall>c \<in> set ?m. \<not> is_break c" by (simp_all add: is_break_def)
    then show "\<forall>l \<in> set (?ms @ [?m]). \<forall>c \<in> set l. \<not> is_break c" using port_line_no_break by auto
  qed simp
  ultimately show ?thesis by simp
qed

lemma port_sample_rows: "used_rows port_sample 32768 60999 = map (\<lambda>i. (''0A00020F:01BB'', 40000 + int i)) [0..<2500]"
proof -
  let ?f = "\<lambda>l. used_row 32768 60999 (split_ws l)"
  have hdr: "?f ''sl local rem st'' = None" "?f ''   x: 0100007F:1538 00000000:0000 0A 0 0'' = None"
    by code_simp+
  have "List.map_filter ?f (map port_line [0..<2500]) = map (\<lambda>i. (''0A00020F:01BB'', 40000 + int i)) [0..<2500]"
    using port_words_used by (auto simp: List.map_filter_def port_line_split comp_def intro!: map_cong filter_True)
  then show ?thesis using hdr by (simp add: used_rows_def port_sample_lines List.map_filter_def)
qed


lemma ports_selftest_passes: "ports_selftest = Inr ()"
proof -
  let ?rows = "map (\<lambda>i. (''0A00020F:01BB'', 40000 + int i)) [0..<2500]"
  let ?peers = "replicate 2500 ''0A00020F:01BB''"
  have "map fst ?rows = ?peers" by (simp add: comp_def map_replicate_const)
  moreover have "card (snd ` set ?rows) = 2500"
  proof -
    have "snd ` set ?rows = (\<lambda>i. 40000 + int i) ` {..<2500}" by force
    then show ?thesis by (simp add: card_image inj_on_def)
  qed
  ultimately have use: "ephemeral_ports_in_use port_sample 32768 60999 = (2500, count_keys ?peers [])"
    using port_sample_rows by (simp add: ephemeral_ports_in_use_def ports_loop_rows used_rows_def Let_def)
  let ?d = "count_keys ?peers []"
  have keys: "fst ` set ?d = {''0A00020F:01BB''}" using count_keys_keys [of ?peers "[]"] by simp
  have "dict_get ?d ''0A00020F:01BB'' 0 = 2500"
    using count_keys_get [of ?peers "[]" "''0A00020F:01BB''"] by (simp add: dict_get_def count_list_replicate)
  moreover obtain v where v: "map_of ?d ''0A00020F:01BB'' = Some v"
    using keys by (metis insertI1 map_of_eq_None_iff not_None_eq)
  ultimately have "dict_lookup ?d ''0A00020F:01BB'' = Inr 2500" by (simp add: dict_get_def dict_lookup_def)
  moreover have "map_of ?d ''00000000:0000'' = None" unfolding map_of_eq_None_iff keys by simp
  ultimately show ?thesis unfolding ports_selftest_def Let_def use by (simp add: py_assert_def)
qed


section \<open>Monitors\<close>

text \<open>\<^verbatim>\<open>read_snmp\<close> on the text of the file, \<open>None\<close> where it cannot be read.\<close>

definition read_snmp :: "string option \<Rightarrow> (string, int) dict option" where
  "read_snmp file = map_option parse_snmp_tcp file"

text \<open>\<^verbatim>\<open>monitor\<close>: without counters at the start it runs the self-test, else one report per turn.\<close>

datatype monitor_run = Self_Tested "unit res" | Reported "(int \<times> int \<times> rat \<times> bool) list"

definition snmp_monitor :: "string option \<Rightarrow> string option list \<Rightarrow> monitor_run" where
  "snmp_monitor first files = (case read_snmp first of
       None \<Rightarrow> Self_Tested retrans_selftest
     | Some prev \<Rightarrow> if prev = [] then Self_Tested retrans_selftest else Reported (monitor_loop prev files))"

text \<open>
  \<^verbatim>\<open>watch\<close> of the cgroup probe until it is interrupted: the readings of the two files in every turn, the reports printed, and the
  exception that ended it, if any.
\<close>

fun cgroup_watch :: "(string, int) dict option \<Rightarrow> (string option \<times> string option) list \<Rightarrow>
    (cpu_report \<times> (int \<times> int \<times> string) option) list \<times> unit res" where
  "cgroup_watch prev [] = ([], Inr ())"
| "cgroup_watch prev ((cpu_raw, mem_raw) # readings) = (case report_once cpu_raw mem_raw prev of
       Inl e \<Rightarrow> ([], Inl e)
     | Inr (c, m, cpu) \<Rightarrow> (let (reports, ended) = cgroup_watch (Some cpu) readings in ((c, m) # reports, ended)))"

text \<open>\<^verbatim>\<open>watch\<close> of the PSI probe: \<open>readings\<close> has the files of the three resources in every turn; \<open>None\<close> is the line for an unavailable one.\<close>

definition PSI_RESOURCES :: "string list" where
  "PSI_RESOURCES = [''cpu'', ''memory'', ''io'']"

definition psi_line :: "string \<Rightarrow> string option \<Rightarrow> (number \<times> number option \<times> rat \<times> bool) option res" where
  "psi_line res file = rbind (read_psi file) (\<lambda>parsed. case parsed of None \<Rightarrow> Inr None | Some p \<Rightarrow> rbind (format_line res p) (\<lambda>l. Inr (Some l)))"

fun psi_turn :: "string list \<Rightarrow> (string \<Rightarrow> string option) \<Rightarrow> (number \<times> number option \<times> rat \<times> bool) option list \<times> unit res" where
  "psi_turn [] files = ([], Inr ())"
| "psi_turn (res # rest) files = (case psi_line res (files res) of
       Inl e \<Rightarrow> ([], Inl e)
     | Inr l \<Rightarrow> (let (ls, ended) = psi_turn rest files in (l # ls, ended)))"

fun psi_watch :: "(string \<Rightarrow> string option) list \<Rightarrow> (number \<times> number option \<times> rat \<times> bool) option list list \<times> unit res" where
  "psi_watch [] = ([], Inr ())"
| "psi_watch (files # readings) = (case psi_turn PSI_RESOURCES files of
       (ls, Inl e) \<Rightarrow> ([ls], Inl e)
     | (ls, Inr _) \<Rightarrow> (let (turns, ended) = psi_watch readings in (ls # turns, ended)))"

text \<open>
  \<^verbatim>\<open>run_probe\<close>: \<open>time_fork mb i\<close> is the time measured by run \<open>i\<close> of \<^verbatim>\<open>time_fork_with_rss(mb)\<close>; the medians and the growth it prints.
\<close>

definition probe_median :: "(nat \<Rightarrow> nat \<Rightarrow> rat) \<Rightarrow> nat \<Rightarrow> rat" where
  "probe_median time_fork mb = sort (map (time_fork mb) [0..<3]) ! 1"

definition run_probe :: "(nat \<Rightarrow> nat \<Rightarrow> rat) \<Rightarrow> (nat \<times> rat) list \<times> rat option" where
  "run_probe time_fork =
     (let results = map (\<lambda>mb. (mb, probe_median time_fork mb)) [1, 16, 64, 256, 512] in
      (results, if length results \<ge> 2 \<and> snd (results ! 0) > 0 then Some (snd (last results) / snd (results ! 0)) else None))"

section \<open>What the monitors do\<close>

lemma retrans_selftested: "snmp_monitor None files = Self_Tested (Inr ())"
  by (simp add: snmp_monitor_def read_snmp_def retrans_selftest_passes)

lemma mem_reported: "optional_file mem_raw = Inr mem \<Longrightarrow> report_once cpu_raw mem_raw prev =
    rbind (optional_file cpu_raw) (\<lambda>cpu. rbind (cpu_line cpu prev) (\<lambda>c. Inr (c, mem_line mem, cpu)))"
  by (cases "optional_file cpu_raw") (auto simp: report_once_def)

text \<open>Counters that \<^verbatim>\<open>report_once\<close> can take as the previous sample.\<close>

definition counters_ok :: "(string, int) dict \<Rightarrow> bool" where
  "counters_ok d \<longleftrightarrow> (dict_get d ''nr_periods'' 0 \<noteq> 0 \<longrightarrow> map_of d ''nr_throttled'' \<noteq> None)"

lemma cpu_line_ok:
  assumes "\<forall>prev. prev_cpu = Some prev \<longrightarrow> counters_ok prev"
  shows "\<exists>c. cpu_line cpu prev_cpu = Inr c"
proof (cases prev_cpu)
  case (Some prev)
  then show ?thesis
    using assms cpu_line_interval [of cpu prev] by (cases "cpu = [] \<or> dict_get prev ''nr_periods'' 0 = 0")
      (auto simp: counters_ok_def Let_def cpu_line_def split: option.splits)
qed (auto simp: cpu_line_def Let_def)

text \<open>
  As long as the files parse and no sample has periods without a count of throttled ones, the cgroup watch never ends by itself:
  every turn prints a report, which compares the counters with those of the turn before.
\<close>

lemma cgroup_watch_reports:
  assumes "list_all2 (\<lambda>(cpu_raw, mem_raw) (cpu, mem). optional_file cpu_raw = Inr cpu \<and> optional_file mem_raw = Inr mem) readings parsed"
    and "list_all (\<lambda>(cpu, mem). counters_ok cpu) (butlast parsed)" "\<forall>p. prev = Some p \<longrightarrow> counters_ok p"
  shows "snd (cgroup_watch prev readings) = Inr () \<and> length (fst (cgroup_watch prev readings)) = length readings \<and>
    (\<forall>i < length readings. \<exists>c. cpu_line (fst (parsed ! i)) (if i = 0 then prev else Some (fst (parsed ! (i - 1)))) = Inr c \<and>
       fst (cgroup_watch prev readings) ! i = (c, mem_line (snd (parsed ! i))))"
  using assms
proof (induction readings parsed arbitrary: prev rule: list_all2_induct)
  case (Cons r rs p ps)
  obtain cpu_raw mem_raw cpu mem where rp: "r = (cpu_raw, mem_raw)" "p = (cpu, mem)" by (cases r, cases p)
  have files: "optional_file cpu_raw = Inr cpu" "optional_file mem_raw = Inr mem" using Cons.hyps(1) rp by auto
  obtain c where c: "cpu_line cpu prev = Inr c" using cpu_line_ok [of prev cpu] Cons.prems by auto
  have step: "cgroup_watch prev (r # rs) = ((c, mem_line mem) # fst (cgroup_watch (Some cpu) rs), snd (cgroup_watch (Some cpu) rs))"
    using files c rp by (simp add: mem_reported split: prod.splits)
  have len: "length rs = length ps" using Cons.hyps(2) by (rule list_all2_lengthD)
  show ?case
  proof (cases "ps = []")
    case True
    then show ?thesis unfolding step using c rp len by simp
  next
    case False
    then have ok: "list_all (\<lambda>(cpu, mem). counters_ok cpu) (butlast ps)" "\<forall>q. Some cpu = Some q \<longrightarrow> counters_ok q"
      using Cons.prems rp by auto
    show ?thesis unfolding step using Cons.IH [OF ok] c rp by (auto simp: nth_Cons split: nat.splits)
  qed
qed simp

text \<open>The median of three: at least two samples are no larger, at least two no smaller.\<close>

lemma median_of_three:
  "2 \<le> length (filter (\<lambda>x. x \<le> probe_median f mb) (map (f mb) [0..<3])) \<and> 2 \<le> length (filter (\<lambda>x. probe_median f mb \<le> x) (map (f mb) [0..<3]))"
  by (simp add: probe_median_def numeral_3_eq_3)

lemma run_probe_growth:
  assumes "run_probe time_fork = (results, Some g)"
  shows "g = probe_median time_fork 512 / probe_median time_fork 1 \<and> 0 < probe_median time_fork 1"
  using assms by (auto simp: run_probe_def Let_def split: if_splits)

text \<open>The PSI watch prints three lines in every turn and ends only when a file does not parse.\<close>

lemma format_line_known: "res \<in> set PSI_RESOURCES \<Longrightarrow> \<exists>l. format_line res p = Inr l"
  by (auto simp: PSI_RESOURCES_def format_line_def THRESHOLDS_def dict_lookup_def)

lemma psi_line_known:
  "res \<in> set PSI_RESOURCES \<Longrightarrow> (\<exists>l. psi_line res file = Inr l) \<longleftrightarrow> (\<exists>p. read_psi file = Inr p)"
  using format_line_known [of res] by (cases "read_psi file") (auto simp: psi_line_def rbind_eq_Inr split: option.splits)

lemma psi_turn_lines:
  assumes "set resources \<subseteq> set PSI_RESOURCES"
  shows "snd (psi_turn resources files) = Inr () \<longleftrightarrow> (\<forall>res \<in> set resources. \<exists>p. read_psi (files res) = Inr p)"
  using assms
proof (induction resources)
  case (Cons res rest)
  then show ?case using psi_line_known [of res "files res"]
    by (cases "psi_line res (files res)") (auto split: prod.splits)
qed simp

lemma psi_turn_length: "snd (psi_turn resources files) = Inr () \<Longrightarrow> length (fst (psi_turn resources files)) = length resources"
proof (induction resources)
  case (Cons res rest)
  then show ?case by (cases "psi_line res (files res)") (auto split: prod.splits)
qed simp

lemma psi_watch_ends:
  "snd (psi_watch readings) = Inr () \<longleftrightarrow> (\<forall>files \<in> set readings. \<forall>res \<in> set PSI_RESOURCES. \<exists>p. read_psi (files res) = Inr p)"
proof (induction readings)
  case (Cons files readings)
  show ?case
    using Cons.IH psi_turn_lines [OF order_refl, of files] by (auto split: prod.splits sum.splits)
qed simp

end
