(* ===== verification/Probe_Mains.thy ===== *)
theory Probe_Mains
  imports Probe_Programs Calendar
begin

text \<open>
  The \<^verbatim>\<open>main\<close> functions of the probes: the arguments they understand, the fallback to the self-test where the host does not have what
  they read, and the run. What the operating system provides (files, platform, clock, \<^verbatim>\<open>fork\<close>) is an argument.
  Command-line arguments are ASCII text; finite floats are rationals.
\<close>

section \<open>Arguments\<close>

text \<open>
  \<^verbatim>\<open>x = dflt; if name in args: x = conv(args[args.index(name) + 1])\<close>. \<open>arg_after\<close> is the argument after the first \<open>name\<close>.
\<close>

fun arg_after :: "string \<Rightarrow> string list \<Rightarrow> string res" where
  "arg_after name [] = Inl ValueError"
| "arg_after name (a # as) = (if a = name then (case as of [] \<Rightarrow> Inl IndexError | v # _ \<Rightarrow> Inr v) else arg_after name as)"

definition option_value :: "string \<Rightarrow> (string \<Rightarrow> 'a res) \<Rightarrow> 'a \<Rightarrow> string list \<Rightarrow> 'a res" where
  "option_value name conv dflt args = (if name \<in> set args then rbind (arg_after name args) conv else Inr dflt)"

text \<open>\<^verbatim>\<open>time.sleep\<close> of a float.\<close>

fun py_sleep :: "number \<Rightarrow> unit res" where
  "py_sleep NaN = Inl ValueError"
| "py_sleep (Inf neg) = Inl OverflowError"
| "py_sleep (Fin x) = sleep_for x"

section \<open>The programs\<close>

datatype 'a probe_run = Selftest "unit res" | Ran 'a

text \<open>\<^verbatim>\<open>tcp_retrans_monitor.py\<close>: \<open>check\<close> and \<open>first\<close> are the texts of the first two readings, \<open>turns\<close> those of the turns of the loop.\<close>

definition retrans_run :: "number \<Rightarrow> string option \<Rightarrow> string option list \<Rightarrow> monitor_run res" where
  "retrans_run interval first files = (case snmp_monitor first files of
       Self_Tested r \<Rightarrow> Inr (Self_Tested r)
     | Reported rs \<Rightarrow> if files = [] then Inr (Reported []) else rbind (py_sleep interval) (\<lambda>_. Inr (Reported rs)))"

definition retrans_main :: "string list \<Rightarrow> string option \<Rightarrow> string option \<Rightarrow> (nat \<Rightarrow> string option) \<Rightarrow> monitor_run res" where
  "retrans_main args check first turns =
     (if ''--selftest'' \<in> set args then Inr (Self_Tested retrans_selftest)
      else rbind (option_value ''--interval'' py_float (Fin 5) args) (\<lambda>interval.
           rbind (option_value ''--count'' (py_int 10) 6 args) (\<lambda>count.
           if read_snmp check = None then Inr (Self_Tested retrans_selftest)
           else retrans_run interval first (map turns [0..<nat count]))))"

text \<open>
  \<^verbatim>\<open>rss_leak_detector.py\<close>: \<open>readings pid i\<close> is the time and the status file of sample \<open>i\<close>. The loop sleeps after each sample, so
  an interval that cannot be slept ends it after the first one.
\<close>

definition rss_run :: "number \<Rightarrow> (rat \<times> string option) list \<Rightarrow> trend option res" where
  "rss_run interval samples = (case samples of [] \<Rightarrow> rss_monitor []
     | (t, file) # _ \<Rightarrow> rbind (read_rss_kb file) (\<lambda>kb. case kb of None \<Rightarrow> Inr None
         | Some _ \<Rightarrow> rbind (py_sleep interval) (\<lambda>_. rss_monitor samples)))"

definition rss_main :: "string list \<Rightarrow> (int \<Rightarrow> nat \<Rightarrow> rat \<times> string option) \<Rightarrow> trend option probe_run res" where
  "rss_main args readings =
     (if ''--selftest'' \<in> set args \<or> args = [] then Inr (Selftest rss_selftest)
      else rbind (py_int 10 (args ! 0)) (\<lambda>pid.
           rbind (option_value ''--interval'' py_float (Fin 5) args) (\<lambda>interval.
           rbind (option_value ''--count'' (py_int 10) 12 args) (\<lambda>count.
           rbind (rss_run interval (map (readings pid) [0..<nat count])) (\<lambda>r. Inr (Ran r))))))"

text \<open>\<^verbatim>\<open>port_exhaustion_probe.py\<close> and \<^verbatim>\<open>socket_state_summary.py\<close>, which look for the flag in all of \<^verbatim>\<open>sys.argv\<close>.\<close>

definition ports_main :: "string list \<Rightarrow> string option \<Rightarrow> string option \<Rightarrow>
    (int \<times> nat \<times> rat \<times> bool \<times> (string \<times> int) list) probe_run res" where
  "ports_main argv tcp range_file =
     (if ''--selftest'' \<in> set argv then Inr (Selftest ports_selftest)
      else case tcp of None \<Rightarrow> Inr (Selftest ports_selftest)
        | Some body \<Rightarrow> rbind (read_port_range range_file) (\<lambda>(lo, hi). Inr (Ran (port_report body lo hi))))"

definition states_main :: "string list \<Rightarrow> string option \<Rightarrow> string option \<Rightarrow> string probe_run res" where
  "states_main argv tcp tcp6 =
     (if ''--selftest'' \<in> set argv then Inr (Selftest states_selftest)
      else rbind (read_proc_states tcp tcp6) (\<lambda>counts. case counts of
          None \<Rightarrow> Inr (Selftest states_selftest)
        | Some counts \<Rightarrow> Inr (Ran (format_summary counts))))"

text \<open>
  \<^verbatim>\<open>cgroup_throttle_watch.py\<close> and \<^verbatim>\<open>psi_watcher.py\<close>: \<open>exists\<close> says whether the file or directory that \<^verbatim>\<open>main\<close> looks for is there;
  the watches run until they are interrupted.
\<close>

definition cgroup_main :: "string list \<Rightarrow> string \<Rightarrow> bool \<Rightarrow> (string option \<times> string option) list \<Rightarrow>
    ((cpu_report \<times> (int \<times> int \<times> string) option) list \<times> unit res) probe_run" where
  "cgroup_main argv platform exists readings =
     (if ''--selftest'' \<in> set argv then Selftest cgroup_selftest
      else if \<not> startswith ''linux'' platform \<or> \<not> exists then Selftest cgroup_selftest
      else Ran (cgroup_watch None readings))"

definition psi_main :: "string list \<Rightarrow> string \<Rightarrow> bool \<Rightarrow> (string \<Rightarrow> string option) list \<Rightarrow>
    ((number \<times> number option \<times> rat \<times> bool) option list list \<times> unit res) probe_run" where
  "psi_main argv platform exists readings =
     (if ''--selftest'' \<in> set argv then Selftest psi_selftest
      else if \<not> startswith ''linux'' platform \<or> \<not> exists then Selftest psi_selftest
      else Ran (psi_watch readings))"

text \<open>
  \<^verbatim>\<open>fork_cost_probe.py\<close>: \<^verbatim>\<open>time_fork_with_rss\<close> touches every page and forks; \<open>pid\<close> is what \<^verbatim>\<open>os.fork()\<close> returned, 0 in the child, which
  exits at once. The result has the number of pages touched.
\<close>

datatype fork_side = Child_Exits int | Parent_Returns rat

definition time_fork_with_rss :: "nat \<Rightarrow> rat \<Rightarrow> int \<Rightarrow> rat \<Rightarrow> nat \<times> fork_side" where
  "time_fork_with_rss mb t0 pid t1 =
     (touch_loop 0 (mb * 1024 * 1024) 0, if pid = 0 then Child_Exits 0 else Parent_Returns ((t1 - t0) * 1000))"

definition fork_main :: "string list \<Rightarrow> bool \<Rightarrow> (nat \<Rightarrow> nat \<Rightarrow> rat) \<Rightarrow> ((nat \<times> rat) list \<times> rat option) probe_run" where
  "fork_main argv has_fork time_fork =
     (if ''--selftest'' \<in> set argv then Selftest fork_selftest
      else if \<not> has_fork then Selftest fork_selftest
      else Ran (run_probe time_fork))"

section \<open>What the arguments do\<close>

lemma arg_after_first:
  "name \<notin> set pre \<Longrightarrow> arg_after name (pre @ name # rest) = (case rest of [] \<Rightarrow> Inl IndexError | v # _ \<Rightarrow> Inr v)"
  by (induction pre) auto

text \<open>The value is the argument after the first occurrence of the name; a name at the end raises \<^verbatim>\<open>IndexError\<close>.\<close>

lemma option_value_given:
  "name \<notin> set pre \<Longrightarrow> option_value name conv dflt (pre @ name # v # post) = conv v"
  "name \<notin> set pre \<Longrightarrow> option_value name conv dflt (pre @ [name]) = Inl IndexError"
  "name \<notin> set args \<Longrightarrow> option_value name conv dflt args = Inr dflt"
  by (simp_all add: option_value_def arg_after_first)

lemma monitor_loop_length: "length (monitor_loop prev files) = length files"
  by (induction files arbitrary: prev) (auto simp: Let_def split: prod.splits)

text \<open>
  \<^verbatim>\<open>tcp_retrans_monitor.py --interval v --count n\<close> on a host with counters sleeps and reports \<open>n\<close> times; a negative interval ends it with
  \<^verbatim>\<open>ValueError\<close> at the first turn.
\<close>

lemma retrans_main_reports:
  assumes v: "py_float v = Inr (Fin x)" "\<bar>x\<bar> * 10 ^ 9 < 2 ^ 63" and files: "read_snmp check \<noteq> None" "read_snmp first = Some prev" "prev \<noteq> []"
  shows "retrans_main [''--interval'', v, ''--count'', str_nat n] check first turns =
    (if 0 < n \<and> x < 0 then Inl ValueError else Inr (Reported (monitor_loop prev (map turns [0..<n]))))"
    and "length (monitor_loop prev (map turns [0..<n])) = n"
proof -
  have "py_float ''--selftest'' = Inl ValueError" "py_float ''--interval'' = Inl ValueError" "py_float ''--count'' = Inl ValueError" by code_simp+
  with v(1) have ne: "v \<noteq> ''--selftest''" "v \<noteq> ''--count''" by auto
  have num: "str_nat n \<noteq> ''--selftest''" using str_nat_chars(4) [of "CHR ''-''" n] by force
  have cnt: "py_int 10 (str_nat n) = Inr (int n)" using py_int_py_str [of "int n"] by (simp add: py_str_def)
  have opt: "option_value ''--interval'' py_float (Fin 5) [''--interval'', v, ''--count'', str_nat n] = Inr (Fin x)"
    "option_value ''--count'' (py_int 10) 6 [''--interval'', v, ''--count'', str_nat n] = Inr (int n)"
    using option_value_given(1) [of "''--interval''" "[]" py_float "Fin 5" v] option_value_given(1) [of "''--count''" "[''--interval'', v]" "py_int 10" 6 "str_nat n" "[]"]
      v cnt ne by auto
  have slp: "py_sleep (Fin x) = (if x < 0 then Inl ValueError else Inr ())" using v(2) by (auto simp: abs_if sleep_for_def split: if_splits)
  show "retrans_main [''--interval'', v, ''--count'', str_nat n] check first turns =
    (if 0 < n \<and> x < 0 then Inl ValueError else Inr (Reported (monitor_loop prev (map turns [0..<n]))))"
    using files ne num unfolding retrans_main_def opt by (auto simp: retrans_run_def snmp_monitor_def slp simp del: py_sleep.simps)
  show "length (monitor_loop prev (map turns [0..<n])) = n" by (simp add: monitor_loop_length)
qed

text \<open>The process id has to come first: with an option in its place \<^verbatim>\<open>rss_leak_detector.py\<close> raises \<^verbatim>\<open>ValueError\<close>.\<close>

lemma rss_main_pid_first: "''--selftest'' \<notin> set args \<Longrightarrow> rss_main (''--interval'' # args) readings = Inl ValueError"
proof -
  have "py_int 10 ''--interval'' = Inl ValueError" by code_simp
  then show "''--selftest'' \<notin> set args \<Longrightarrow> rss_main (''--interval'' # args) readings = Inl ValueError"
    by (simp add: rss_main_def)
qed

lemma rss_main_interval:
  assumes "py_int 10 pid = Inr p" "py_float v = Inr (Fin x)" "x < 0" "\<bar>x\<bar> * 10 ^ 9 < 2 ^ 63"
    and "read_rss_kb (snd (readings p 0)) = Inr (Some kb)"
  shows "rss_main [pid, ''--interval'', v] readings = Inl ValueError"
proof -
  have "py_int 10 ''--selftest'' = Inl ValueError" "py_float ''--selftest'' = Inl ValueError" "py_int 10 ''--interval'' = Inl ValueError"
    "py_int 10 ''--count'' = Inl ValueError" "py_float ''--count'' = Inl ValueError" by code_simp+
  with assms(1,2) have ne: "pid \<noteq> ''--selftest''" "v \<noteq> ''--selftest''" "pid \<noteq> ''--interval''" "pid \<noteq> ''--count''" "v \<noteq> ''--count''" by auto
  have opt: "option_value ''--interval'' py_float (Fin 5) [pid, ''--interval'', v] = Inr (Fin x)"
    "option_value ''--count'' (py_int 10) 12 [pid, ''--interval'', v] = Inr 12"
    using option_value_given(1) [of "''--interval''" "[pid]" py_float "Fin 5" v "[]"] ne assms(2) by (auto simp: option_value_def)
  have "py_sleep (Fin x) = Inl ValueError" using assms(3,4) by (auto simp: abs_if sleep_for_def split: if_splits)
  moreover obtain t f rest where "map (readings p) [0..<nat 12] = (t, f) # rest" "f = snd (readings p 0)"
    by (cases "readings p 0") (simp add: upt_conv_Cons)
  ultimately have "rss_run (Fin x) (map (readings p) [0..<nat 12]) = Inl ValueError"
    using assms(5) by (simp add: rss_run_def)
  with ne assms(1) opt show ?thesis by (simp add: rss_main_def)
qed

text \<open>With \<^verbatim>\<open>--selftest\<close>, and on a host that lacks what a probe reads, every probe runs its self-test, which passes.\<close>

lemma probes_fall_back:
  "''--selftest'' \<in> set args \<Longrightarrow> retrans_main args check first turns = Inr (Self_Tested (Inr ())) \<and>
     rss_main args readings = Inr (Selftest (Inr ())) \<and> ports_main args tcp range_file = Inr (Selftest (Inr ())) \<and>
     states_main args tcp tcp6 = Inr (Selftest (Inr ())) \<and> cgroup_main args platform exists cg = Selftest (Inr ()) \<and>
     psi_main args platform exists psi = Selftest (Inr ()) \<and> fork_main args has_fork time_fork = Selftest (Inr ())"
  "retrans_main [] None first turns = Inr (Self_Tested (Inr ()))" "rss_main [] readings = Inr (Selftest (Inr ()))"
  "ports_main args None range_file = Inr (Selftest (Inr ()))" "states_main args None None = Inr (Selftest (Inr ()))"
  "cgroup_main args platform False cg = Selftest (Inr ())" "psi_main args platform False psi = Selftest (Inr ())"
  "fork_main args False time_fork = Selftest (Inr ())"
  by (simp_all add: retrans_main_def rss_main_def ports_main_def states_main_def cgroup_main_def psi_main_def fork_main_def
      retrans_selftest_passes rss_selftest_passes ports_selftest_passes states_selftest_passes cgroup_selftest_passes
      psi_selftest_passes fork_selftest_passes option_value_def read_snmp_def read_proc_states_def)

text \<open>Exactly one of the two processes after a \<^verbatim>\<open>fork\<close> goes on with the probe, after touching all the pages.\<close>

lemma fork_one_continues:
  "(\<exists>dt. snd (time_fork_with_rss mb t0 pid t1) = Parent_Returns dt) \<longleftrightarrow> pid \<noteq> 0"
  "fst (time_fork_with_rss mb t0 pid t1) * 8 = pte_bytes mb"
  using touched_pages [of mb] by (simp_all add: time_fork_with_rss_def)

end
