(* ===== verification/Worker_Pool.thy ===== *)
theory Worker_Pool
  imports Bounded_Queue
begin

text \<open>
  \<^verbatim>\<open>operating_system/examples/worker_pool.py\<close> as written: the pool object with its \<^verbatim>\<open>queue.Queue\<close> (the queued
  objects and the count of unfinished tasks behind \<^verbatim>\<open>task_done\<close> and \<^verbatim>\<open>join\<close>), the worker threads and the main
  thread with its place in \<^verbatim>\<open>start\<close>, the submit loop and \<^verbatim>\<open>shutdown\<close>. A step is one critical section of
  one thread. The system refines the abstract bounded-buffer system of \<open>Bounded_Queue\<close>, from
  which it inherits that no task is lost or done twice and that no thread sleeps forever.
\<close>

section \<open>The queue\<close>

text \<open>\<^verbatim>\<open>queue.Queue\<close>: \<^verbatim>\<open>put\<close> blocks only when \<^verbatim>\<open>maxsize\<close> is positive and reached; \<^verbatim>\<open>task_done\<close> raises when it is called
  more often than \<^verbatim>\<open>put\<close>.\<close>

definition queue_put :: "nat \<Rightarrow> item \<Rightarrow> item list \<times> int \<Rightarrow> (item list \<times> int) option" where
  "queue_put maxsize x q =
     (if 0 < maxsize \<and> length (fst q) \<ge> maxsize then None else Some (fst q @ [x], snd q + 1))"

definition task_done :: "int \<Rightarrow> int res" where
  "task_done unfinished = (if unfinished - 1 < 0 then Inl ValueError else Inr (unfinished - 1))"

section \<open>The pool\<close>

text \<open>
  Where a worker is in \<^verbatim>\<open>_worker_loop\<close>: about to call \<^verbatim>\<open>get\<close>, asleep in it, with a task not yet recorded, with the
  result recorded but \<^verbatim>\<open>task_done\<close> still to come, on its way out (\<^verbatim>\<open>task_done\<close> of the pill still to come), ended.
\<close>

datatype wthread = WGet | WWait | WTask int | WStored | WPill | WExit

record pool =
  tasks :: "item list"
  unfinished_tasks :: int
  max_queue :: nat
  num_workers :: nat
  workers :: "wthread list"
  completed :: int
  results :: "int list"

definition new_pool :: "nat \<Rightarrow> nat \<Rightarrow> pool" where
  "new_pool nworkers maxsize = \<lparr>tasks = [], unfinished_tasks = 0, max_queue = maxsize, num_workers = nworkers,
     workers = [], completed = 0, results = []\<rparr>"

text \<open>One turn of the loop in \<^verbatim>\<open>start\<close>: the thread runs and is remembered.\<close>

definition spawn_worker :: "pool \<Rightarrow> pool" where
  "spawn_worker p = p\<lparr>workers := workers p @ [WGet]\<rparr>"

text \<open>\<^verbatim>\<open>submit\<close> (and the puts of \<^verbatim>\<open>shutdown\<close>); \<open>None\<close>: the caller goes to sleep.\<close>

definition pool_put :: "item \<Rightarrow> pool \<Rightarrow> pool option" where
  "pool_put x p = map_option (\<lambda>(q, u). p\<lparr>tasks := q, unfinished_tasks := u\<rparr>)
     (queue_put (max_queue p) x (tasks p, unfinished_tasks p))"

text \<open>What a worker does with the object \<^verbatim>\<open>get\<close> returned, and the section that records a result.\<close>

definition take_task :: "item \<Rightarrow> wthread" where
  "take_task x = (case x of Item v \<Rightarrow> WTask v | Pill \<Rightarrow> WPill)"

definition record_result :: "int \<Rightarrow> pool \<Rightarrow> pool" where
  "record_result v p = p\<lparr>completed := completed p + 1, results := results p @ [do_work v]\<rparr>"

text \<open>After the \<^verbatim>\<open>finally\<close>: back to the loop, or out of it.\<close>

fun after_done :: "wthread \<Rightarrow> wthread option" where
  "after_done WStored = Some WGet"
| "after_done WPill = Some WExit"
| "after_done _ = None"

section \<open>The threads\<close>

text \<open>
  The main thread: in \<^verbatim>\<open>start\<close>, in the submit loop (with the tasks left, asleep on \<^verbatim>\<open>not_full\<close> or not), in
  \<^verbatim>\<open>tasks.join()\<close> (asleep on \<^verbatim>\<open>all_tasks_done\<close> or not), putting pills (how many are left), joining the workers
  (the next one), and at the checks.
\<close>

datatype mthread = MStart "int list" | MSubmit "int list" bool | MJoin bool | MPills nat bool | MJoinWorkers nat | MChecks

type_synonym pool_state = "pool \<times> mthread"

definition pool_main :: "nat \<Rightarrow> nat \<Rightarrow> nat \<Rightarrow> pool_state" where
  "pool_main ntasks nworkers maxsize = (new_pool nworkers maxsize, MStart (map int [0..<ntasks]))"

text \<open>\<^verbatim>\<open>not_empty.notify()\<close> in \<^verbatim>\<open>put\<close>, \<^verbatim>\<open>not_full.notify()\<close> in \<^verbatim>\<open>get\<close> and \<^verbatim>\<open>all_tasks_done.notify_all()\<close> in \<^verbatim>\<open>task_done\<close>.\<close>

inductive wake_worker :: "wthread list \<Rightarrow> wthread list \<Rightarrow> bool" where
  none: "WWait \<notin> set ws \<Longrightarrow> wake_worker ws ws"
| one: "j < length ws \<Longrightarrow> ws ! j = WWait \<Longrightarrow> wake_worker ws (ws[j := WGet])"

fun wake_putter :: "mthread \<Rightarrow> mthread" where
  "wake_putter (MSubmit ts _) = MSubmit ts False"
| "wake_putter (MPills k _) = MPills k False"
| "wake_putter m = m"

fun wake_joiner :: "int \<Rightarrow> mthread \<Rightarrow> mthread" where
  "wake_joiner u (MJoin asleep) = MJoin (asleep \<and> u \<noteq> 0)"
| "wake_joiner u m = m"

inductive pool_step :: "pool_state \<Rightarrow> pool_state \<Rightarrow> bool" where
  spawn: "length (workers p) < num_workers p \<Longrightarrow> pool_step (p, MStart ts) (spawn_worker p, MStart ts)"
| started: "length (workers p) = num_workers p \<Longrightarrow> pool_step (p, MStart ts) (p, MSubmit ts False)"
| submit: "pool_put (Item t) p = Some p' \<Longrightarrow> wake_worker (workers p) ws \<Longrightarrow>
     pool_step (p, MSubmit (t # ts) False) (p'\<lparr>workers := ws\<rparr>, MSubmit ts False)"
| submit_wait: "pool_put (Item t) p = None \<Longrightarrow> pool_step (p, MSubmit (t # ts) False) (p, MSubmit (t # ts) True)"
| submitted: "pool_step (p, MSubmit [] False) (p, MJoin False)"
| join_wait: "unfinished_tasks p \<noteq> 0 \<Longrightarrow> pool_step (p, MJoin False) (p, MJoin True)"
| joined: "unfinished_tasks p = 0 \<Longrightarrow> pool_step (p, MJoin False) (p, MPills (length (workers p)) False)"
| pill: "pool_put Pill p = Some p' \<Longrightarrow> wake_worker (workers p) ws \<Longrightarrow>
     pool_step (p, MPills (Suc k) False) (p'\<lparr>workers := ws\<rparr>, MPills k False)"
| pill_wait: "pool_put Pill p = None \<Longrightarrow> pool_step (p, MPills (Suc k) False) (p, MPills (Suc k) True)"
| pills_put: "pool_step (p, MPills 0 False) (p, MJoinWorkers 0)"
| join_worker: "k < length (workers p) \<Longrightarrow> workers p ! k = WExit \<Longrightarrow> pool_step (p, MJoinWorkers k) (p, MJoinWorkers (Suc k))"
| all_joined: "k = length (workers p) \<Longrightarrow> pool_step (p, MJoinWorkers k) (p, MChecks)"
| get: "j < length (workers p) \<Longrightarrow> workers p ! j = WGet \<Longrightarrow> buf_get (tasks p) = Some (x, q) \<Longrightarrow>
     pool_step (p, m) (p\<lparr>tasks := q, workers := (workers p)[j := take_task x]\<rparr>, wake_putter m)"
| get_wait: "j < length (workers p) \<Longrightarrow> workers p ! j = WGet \<Longrightarrow> buf_get (tasks p) = None \<Longrightarrow>
     pool_step (p, m) (p\<lparr>workers := (workers p)[j := WWait]\<rparr>, m)"
| work: "j < length (workers p) \<Longrightarrow> workers p ! j = WTask v \<Longrightarrow>
     pool_step (p, m) ((record_result v p)\<lparr>workers := (workers p)[j := WStored]\<rparr>, m)"
| done_task: "j < length (workers p) \<Longrightarrow> after_done (workers p ! j) = Some w \<Longrightarrow> task_done (unfinished_tasks p) = Inr u \<Longrightarrow>
     pool_step (p, m) (p\<lparr>unfinished_tasks := u, workers := (workers p)[j := w]\<rparr>, wake_joiner u m)"

text \<open>
  Spurious wakeups, which the wait loops of \<^verbatim>\<open>queue.Queue\<close> allow for, and \<^verbatim>\<open>t.join(timeout=5.0)\<close> giving up
  on a worker that still runs.
\<close>

inductive pool_spurious :: "pool_state \<Rightarrow> pool_state \<Rightarrow> bool" where
  worker: "j < length (workers p) \<Longrightarrow> workers p ! j = WWait \<Longrightarrow>
     pool_spurious (p, m) (p\<lparr>workers := (workers p)[j := WGet]\<rparr>, m)"
| submitter: "pool_spurious (p, MSubmit ts True) (p, MSubmit ts False)"
| joiner: "pool_spurious (p, MJoin True) (p, MJoin False)"
| putter: "pool_spurious (p, MPills k True) (p, MPills k False)"

inductive join_timeout :: "pool_state \<Rightarrow> pool_state \<Rightarrow> bool" where
  "k < length (workers p) \<Longrightarrow> join_timeout (p, MJoinWorkers k) (p, MJoinWorkers (Suc k))"

definition pool_any :: "bool \<Rightarrow> pool_state \<Rightarrow> pool_state \<Rightarrow> bool" where
  "pool_any timeouts s s' \<longleftrightarrow> pool_step s s' \<or> pool_spurious s s' \<or> timeouts \<and> join_timeout s s'"

text \<open>The checks at the end of \<^verbatim>\<open>main\<close>: the accounting, and then the state of the queue and the threads.\<close>

definition accounting_checks :: "nat \<Rightarrow> pool \<Rightarrow> unit res" where
  "accounting_checks ntasks p =
     rbind (py_assert (completed p = int ntasks)) (\<lambda>_.
     rbind (py_assert (length (results p) = ntasks)) (\<lambda>_.
     py_assert (sort (results p) = sort (map (\<lambda>i. int i * int i) [0..<ntasks]))))"

definition main_checks :: "nat \<Rightarrow> pool \<Rightarrow> unit res" where
  "main_checks ntasks p =
     rbind (accounting_checks ntasks p) (\<lambda>_.
     rbind (py_assert (tasks p = [])) (\<lambda>_.
     py_assert (list_all (\<lambda>w. w = WExit) (workers p))))"

section \<open>Refinement of the abstract queue system\<close>

text \<open>
  The abstraction forgets \<^verbatim>\<open>unfinished_tasks\<close>, \<^verbatim>\<open>completed\<close> and the places between recording a result and
  \<^verbatim>\<open>task_done\<close>; workers not started yet count as workers about to call \<^verbatim>\<open>get\<close>, and the main thread is the pair of
  the submitter and the thread that puts the pills.
\<close>

fun abs_w :: "wthread \<Rightarrow> consumer" where
  "abs_w WGet = CGet"
| "abs_w WWait = CWait"
| "abs_w (WTask v) = CHold v"
| "abs_w WStored = CGet"
| "abs_w WPill = CExit"
| "abs_w WExit = CExit"

fun abs_m :: "nat \<Rightarrow> mthread \<Rightarrow> producer list" where
  "abs_m n (MStart ts) = [(map Item ts, False), (replicate n Pill, False)]"
| "abs_m n (MSubmit ts asleep) = [(map Item ts, asleep), (replicate n Pill, False)]"
| "abs_m n (MJoin asleep) = [([], False), (replicate n Pill, False)]"
| "abs_m n (MPills k asleep) = [([], False), (replicate k Pill, asleep)]"
| "abs_m n m = [([], False), ([], False)]"

definition abs_ws :: "pool \<Rightarrow> consumer list" where
  "abs_ws p = map abs_w (workers p) @ replicate (num_workers p - length (workers p)) CGet"

fun abs_pool :: "pool_state \<Rightarrow> pc_state" where
  "abs_pool (p, m) = (tasks p, abs_m (num_workers p) m, abs_ws p, results p)"

text \<open>Tasks and pills that were taken from the queue and not yet reported by \<^verbatim>\<open>task_done\<close>.\<close>

fun in_hand :: "wthread \<Rightarrow> nat" where
  "in_hand (WTask v) = 1"
| "in_hand WStored = 1"
| "in_hand WPill = 1"
| "in_hand _ = 0"

definition drained :: "pool \<Rightarrow> bool" where
  "drained p \<longleftrightarrow> (\<forall>v. Item v \<notin> set (tasks p) \<and> WTask v \<notin> set (workers p))"

fun main_inv :: "pool \<Rightarrow> mthread \<Rightarrow> bool" where
  "main_inv p (MStart ts) \<longleftrightarrow> length (workers p) \<le> num_workers p"
| "main_inv p (MSubmit ts asleep) \<longleftrightarrow> length (workers p) = num_workers p \<and> (asleep \<longrightarrow> ts \<noteq> [])"
| "main_inv p (MJoin asleep) \<longleftrightarrow> length (workers p) = num_workers p \<and> (asleep \<longrightarrow> unfinished_tasks p \<noteq> 0)"
| "main_inv p (MPills k asleep) \<longleftrightarrow> length (workers p) = num_workers p \<and> drained p \<and> (asleep \<longrightarrow> 0 < k)"
| "main_inv p (MJoinWorkers k) \<longleftrightarrow> length (workers p) = num_workers p \<and> drained p \<and> k \<le> num_workers p"
| "main_inv p MChecks \<longleftrightarrow> length (workers p) = num_workers p \<and> drained p"

definition pool_inv :: "pool_state \<Rightarrow> bool" where
  "pool_inv s \<longleftrightarrow> (case s of (p, m) \<Rightarrow>
     unfinished_tasks p = int (length (tasks p) + sum_list (map in_hand (workers p))) \<and>
     completed p = int (length (results p)) \<and> main_inv p m)"

subsection \<open>The invariant\<close>

lemma wake_worker_facts:
  "wake_worker ws ws' \<Longrightarrow> length ws' = length ws \<and> sum_list (map in_hand ws') = sum_list (map in_hand ws) \<and>
     (\<forall>v. WTask v \<in> set ws' \<longrightarrow> WTask v \<in> set ws)"
proof (induction rule: wake_worker.induct)
  case (one j ws)
  then have "sum_list (map in_hand (ws[j := WGet])) = sum_list (map in_hand ws)"
    using sum_list_map_update [of j ws in_hand WGet] by simp
  moreover have "WTask v \<in> set (ws[j := WGet]) \<Longrightarrow> WTask v \<in> set ws" for v
    using set_update_subset_insert [of ws j WGet] by auto
  ultimately show ?case by simp
qed simp

lemma pool_put_eq:
  "pool_put x p = Some p' \<Longrightarrow>
     p' = p\<lparr>tasks := tasks p @ [x], unfinished_tasks := unfinished_tasks p + 1\<rparr> \<and> (0 < max_queue p \<longrightarrow> length (tasks p) < max_queue p)"
  by (auto simp: pool_put_def queue_put_def split: if_splits)

lemma pool_put_None: "pool_put x p = None \<Longrightarrow> 0 < max_queue p \<and> max_queue p \<le> length (tasks p)"
  by (auto simp: pool_put_def queue_put_def split: if_splits)

lemma buf_get_eq: "buf_get b = Some (x, q) \<longleftrightarrow> b = x # q" "buf_get b = None \<longleftrightarrow> b = []"
  by (auto simp: buf_get_def split: list.splits)

lemma drained_unfinished [simp]: "drained (p\<lparr>unfinished_tasks := u\<rparr>) = drained p"
  by (simp add: drained_def)

lemma drainedI:
  assumes "drained p" "\<And>v. Item v \<in> set (tasks p') \<Longrightarrow> Item v \<in> set (tasks p)"
    and "\<And>v. WTask v \<in> set (workers p') \<Longrightarrow> WTask v \<in> set (workers p) \<or> Item v \<in> set (tasks p)"
  shows "drained p'"
  using assms unfolding drained_def by blast

lemma mem_update_task: "WTask v \<in> set (ws[j := w]) \<Longrightarrow> WTask v \<in> set ws \<or> w = WTask v"
  using set_update_subset_insert [of ws j w] by auto

lemma in_hand_update:
  "j < length ws \<Longrightarrow> sum_list (map in_hand (ws[j := w])) + in_hand (ws ! j) = sum_list (map in_hand ws) + in_hand w"
  by (rule sum_list_map_update)

lemma in_hand_pos: "j < length ws \<Longrightarrow> in_hand (ws ! j) \<le> sum_list (map in_hand ws)"
  by (metis elem_le_sum_list length_map nth_map)

lemma main_inv_cong:
  assumes "main_inv p m" "length (workers p') = length (workers p)" "num_workers p' = num_workers p"
    and "drained p \<Longrightarrow> drained p'" "unfinished_tasks p' = 0 \<Longrightarrow> unfinished_tasks p = 0"
  shows "main_inv p' m"
  using assms by (cases m) auto

lemma main_inv_wake:
  "main_inv p m \<Longrightarrow> main_inv p (wake_putter m)"
  "main_inv (p\<lparr>unfinished_tasks := u0\<rparr>) m \<Longrightarrow> u0 \<noteq> 0 \<Longrightarrow> unfinished_tasks p = u \<Longrightarrow> main_inv p (wake_joiner u m)"
  by (cases m; auto simp: drained_def)+

lemma after_done_hand: "after_done w = Some w' \<Longrightarrow> in_hand w = 1 \<and> in_hand w' = 0 \<and> (\<forall>v. w' \<noteq> WTask v)"
  by (cases w) auto


lemma pool_step_inv: "pool_step s s' \<Longrightarrow> pool_inv s \<Longrightarrow> pool_inv s'"
proof (induction rule: pool_step.induct)
  case (submit t p p' ws ts)
  note P = pool_put_eq [OF submit(1)] and W = wake_worker_facts [OF submit(2)]
  from submit(3) P W show ?case by (auto simp: pool_inv_def)
next
  case (pill p p' ws k)
  note P = pool_put_eq [OF pill(1)] and W = wake_worker_facts [OF pill(2)]
  have "drained p \<Longrightarrow> drained (p'\<lparr>workers := ws\<rparr>)" by (rule drainedI) (use P W in auto)
  with pill(3) P W show ?case by (auto simp: pool_inv_def)
next
  case (joined p)
  then have "int (length (tasks p) + sum_list (map in_hand (workers p))) = int 0" by (simp add: pool_inv_def)
  then have "length (tasks p) + sum_list (map in_hand (workers p)) = 0" by (simp only: of_nat_eq_iff)
  then have z: "tasks p = []" "sum_list (map in_hand (workers p)) = 0" by (simp_all only: add_is_0 length_0_conv)
  from z(2) have "\<forall>w \<in> set (workers p). in_hand w = 0" by simp
  then have "WTask v \<notin> set (workers p)" for v by force
  with joined z show ?case by (simp add: pool_inv_def drained_def)
next
  case (get j p x q m)
  let ?p = "p\<lparr>tasks := q, workers := (workers p)[j := take_task x]\<rparr>"
  have t: "tasks p = x # q" using get(3) by (simp add: buf_get_eq)
  have "drained p \<Longrightarrow> drained ?p"
    by (rule drainedI) (auto simp: t take_task_def dest!: mem_update_task split: item.splits)
  then have "main_inv ?p m" using get(4) by - (rule main_inv_cong [of p m], auto simp: pool_inv_def)
  then have "main_inv ?p (wake_putter m)" by (rule main_inv_wake)
  moreover have "sum_list (map in_hand ((workers p)[j := take_task x])) = sum_list (map in_hand (workers p)) + 1"
    using in_hand_update [OF get(1), of "take_task x"] get(2) by (auto simp: take_task_def split: item.splits)
  ultimately show ?case using get(4) by (simp add: pool_inv_def t)
next
  case (get_wait j p m)
  have "drained p \<Longrightarrow> drained (p\<lparr>workers := (workers p)[j := WWait]\<rparr>)"
    by (rule drainedI) (auto dest!: mem_update_task)
  then have "main_inv (p\<lparr>workers := (workers p)[j := WWait]\<rparr>) m"
    using get_wait(4) by - (rule main_inv_cong [of p m], auto simp: pool_inv_def)
  with get_wait in_hand_update [OF get_wait(1), of WWait] show ?case by (simp add: pool_inv_def)
next
  case (work j p v m)
  let ?p = "(record_result v p)\<lparr>workers := (workers p)[j := WStored]\<rparr>"
  have "drained p \<Longrightarrow> drained ?p" by (rule drainedI) (auto simp: record_result_def dest!: mem_update_task)
  then have "main_inv ?p m"
    using work(3) by - (rule main_inv_cong [of p m], auto simp: pool_inv_def record_result_def)
  with work in_hand_update [OF work(1), of WStored] show ?case by (simp add: pool_inv_def record_result_def)
next
  case (done_task j p w u m)
  let ?p = "p\<lparr>unfinished_tasks := u, workers := (workers p)[j := w]\<rparr>"
  note A = after_done_hand [OF done_task(2)]
  have u: "u = unfinished_tasks p - 1" "unfinished_tasks p \<noteq> 0"
    using done_task(3) by (auto simp: task_done_def split: if_splits)
  have "drained p \<Longrightarrow> drained (?p\<lparr>unfinished_tasks := unfinished_tasks p\<rparr>)"
    by (rule drainedI) (use A in \<open>auto dest!: mem_update_task\<close>)
  then have "main_inv (?p\<lparr>unfinished_tasks := unfinished_tasks p\<rparr>) m"
    using done_task(4) by - (rule main_inv_cong [of p m], auto simp: pool_inv_def)
  then have "main_inv ?p (wake_joiner u m)" using u by (intro main_inv_wake(2)) auto
  moreover have "sum_list (map in_hand (workers p)) = sum_list (map in_hand ((workers p)[j := w])) + 1"
    using in_hand_update [OF done_task(1), of w] A by simp
  ultimately show ?case using done_task(4) u by (simp add: pool_inv_def)
qed (auto simp: pool_inv_def spawn_worker_def)

lemma pool_spurious_inv: "pool_spurious s s' \<Longrightarrow> pool_inv s \<Longrightarrow> pool_inv s'"
proof (induction rule: pool_spurious.induct)
  case (worker j p m)
  have "drained p \<Longrightarrow> drained (p\<lparr>workers := (workers p)[j := WGet]\<rparr>)"
    by (rule drainedI) (auto dest!: mem_update_task)
  then have "main_inv (p\<lparr>workers := (workers p)[j := WGet]\<rparr>) m"
    using worker(3) by - (rule main_inv_cong [of p m], auto simp: pool_inv_def)
  with worker in_hand_update [OF worker(1), of WGet] show ?case by (simp add: pool_inv_def)
qed (auto simp: pool_inv_def)

lemma join_timeout_inv: "join_timeout s s' \<Longrightarrow> pool_inv s \<Longrightarrow> pool_inv s'"
  by (induction rule: join_timeout.induct) (auto simp: pool_inv_def)

lemma pool_any_inv: "pool_any b s s' \<Longrightarrow> pool_inv s \<Longrightarrow> pool_inv s'"
  using pool_step_inv [of s s'] pool_spurious_inv [of s s'] join_timeout_inv [of s s'] unfolding pool_any_def by blast

interpretation pool: step_invariant "pool_any b" pool_inv
  by unfold_locales (rule pool_any_inv)

subsection \<open>The simulation\<close>

lemma abs_ws_update:
  "j < length (workers p) \<Longrightarrow> abs_ws (p\<lparr>workers := (workers p)[j := w]\<rparr>) = (abs_ws p)[j := abs_w w]"
  by (simp add: abs_ws_def map_update list_update_append)

lemma abs_ws_nth: "j < length (workers p) \<Longrightarrow> j < length (abs_ws p) \<and> abs_ws p ! j = abs_w (workers p ! j)"
  by (simp add: abs_ws_def nth_append)

lemma abs_ws_cong: "workers p' = workers p \<Longrightarrow> num_workers p' = num_workers p \<Longrightarrow> abs_ws p' = abs_ws p"
  by (simp add: abs_ws_def)

lemma abs_w_eq: "abs_w w = CWait \<longleftrightarrow> w = WWait" "abs_w w = CHold v \<longleftrightarrow> w = WTask v"
  by (cases w; simp)+

lemma abs_wake: "wake_worker (workers p) ws \<Longrightarrow> wake_c (abs_ws p) (abs_ws (p\<lparr>workers := ws\<rparr>))"
proof (induction "workers p" ws rule: wake_worker.induct)
  case none
  then have "CWait \<notin> set (abs_ws p)" by (auto simp: abs_ws_def dest!: sym [of CWait] simp: abs_w_eq)
  then show ?case using wake_c.none by simp
next
  case (one j)
  then show ?case using wake_c.one [of j "abs_ws p"] abs_ws_nth [of j p] abs_ws_update [of j p WGet] by simp
qed

lemma abs_wake_putter: "wake_p (abs_m n m) (abs_m n (wake_putter m))"
proof (cases m)
  case (MSubmit ts asleep)
  then show ?thesis
    using wake_p.one [of 0 "abs_m n m"] wake_p.none [of "abs_m n m"] by (cases asleep) auto
next
  case (MPills k asleep)
  then show ?thesis
    using wake_p.one [of 1 "abs_m n m"] wake_p.none [of "abs_m n m"] by (cases asleep) auto
qed (auto intro: wake_p.none)

lemma abs_gate:
  assumes "main_inv p (MPills k asleep)"
  shows "gate True (tasks p) (abs_m n (MPills k asleep)) (abs_ws p) 1"
  using assms by (auto simp: gate_def drained_def abs_ws_def less_Suc_eq abs_w_eq dest!: sym [of "CHold _"])


text \<open>Steps that the abstraction does not see come closer to the checks.\<close>

fun main_rank :: "nat \<Rightarrow> mthread \<Rightarrow> nat" where
  "main_rank n (MStart ts) = n + 6"
| "main_rank n (MSubmit ts asleep) = n + 5"
| "main_rank n (MJoin asleep) = n + (if asleep then 3 else 4)"
| "main_rank n (MPills k asleep) = n + 2"
| "main_rank n (MJoinWorkers k) = n - k + 1"
| "main_rank n MChecks = 0"

fun worker_rank :: "wthread \<Rightarrow> nat" where
  "worker_rank WStored = 2"
| "worker_rank WPill = 2"
| "worker_rank _ = 0"

definition local_rank :: "pool_state \<Rightarrow> nat" where
  "local_rank s = (case s of (p, m) \<Rightarrow> num_workers p - length (workers p) + main_rank (num_workers p) m +
     sum_list (map worker_rank (workers p)))"

definition unseen :: "pool_state \<Rightarrow> pool_state \<Rightarrow> bool" where
  "unseen s s' \<longleftrightarrow> abs_pool s' = abs_pool s \<and> local_rank s' < local_rank s"

lemma wake_joiner_unseen: "abs_m n (wake_joiner u m) = abs_m n m" "main_rank n (wake_joiner u m) \<le> main_rank n m + 1"
  by (cases m; simp)+

lemma pool_step_sim:
  assumes "pool_step s s'" "pool_inv s" "0 < max_queue (fst s)"
  shows "pc_step (max_queue (fst s)) True do_work (abs_pool s) (abs_pool s') \<or> unseen s s'"
  using assms
proof (induction rule: pool_step.induct)
  case (spawn p ts)
  then have "Suc (num_workers p - Suc (length (workers p))) = num_workers p - length (workers p)" by simp
  then have "replicate (num_workers p - length (workers p)) CGet = CGet # replicate (num_workers p - Suc (length (workers p))) CGet"
    by (metis replicate_Suc)
  with spawn(1) have "unseen (p, MStart ts) (spawn_worker p, MStart ts)"
    by (simp add: unseen_def spawn_worker_def abs_ws_def local_rank_def)
  then show ?case ..
next
  case (submit t p p' ws ts)
  note P = pool_put_eq [OF submit(1)]
  have "abs_ws (p'\<lparr>workers := ws\<rparr>) = abs_ws (p\<lparr>workers := ws\<rparr>)" using P by (intro abs_ws_cong) auto
  with pc_step.put [of 0 "abs_m (num_workers p) (MSubmit (t # ts) False)" "Item t" "map Item ts" True "tasks p" "abs_ws p" "max_queue p" "tasks p'"]
    abs_wake [OF submit(2)] P submit(4)
  show ?case by (simp add: gate_def buf_put_def)
next
  case (submit_wait t p ts)
  with pool_put_None [OF submit_wait(1)]
    pc_step.put_wait [of 0 "abs_m (num_workers p) (MSubmit (t # ts) False)" "Item t" "map Item ts" True "tasks p" "abs_ws p" "max_queue p"]
  show ?case by (simp add: gate_def buf_put_def)
next
  case (pill p p' ws k)
  note P = pool_put_eq [OF pill(1)]
  have "abs_ws (p'\<lparr>workers := ws\<rparr>) = abs_ws (p\<lparr>workers := ws\<rparr>)" using P by (intro abs_ws_cong) auto
  moreover have "main_inv p (MPills (Suc k) False)" using pill(3) by (simp add: pool_inv_def)
  ultimately show ?case
    using pc_step.put [of 1 "abs_m (num_workers p) (MPills (Suc k) False)" Pill "replicate k Pill" True "tasks p" "abs_ws p" "max_queue p" "tasks p'"]
      abs_wake [OF pill(2)] P pill(4) abs_gate [of p "Suc k" False "num_workers p"]
    by (simp add: buf_put_def)
next
  case (pill_wait p k)
  have "main_inv p (MPills (Suc k) False)" using pill_wait(2) by (simp add: pool_inv_def)
  with pool_put_None [OF pill_wait(1)] abs_gate [of p "Suc k" False "num_workers p"]
    pc_step.put_wait [of 1 "abs_m (num_workers p) (MPills (Suc k) False)" Pill "replicate k Pill" True "tasks p" "abs_ws p" "max_queue p"]
  show ?case by (simp add: buf_put_def)
next
  case (get j p x q m)
  let ?ws = "p\<lparr>workers := (workers p)[j := take_task x]\<rparr>"
  have "abs_ws (p\<lparr>tasks := q, workers := (workers p)[j := take_task x]\<rparr>) = (abs_ws p)[j := receive x]"
    using abs_ws_update [OF get(1), of "take_task x"] abs_ws_cong [of "p\<lparr>tasks := q, workers := (workers p)[j := take_task x]\<rparr>" ?ws]
    by (auto simp: take_task_def receive_def split: item.splits)
  with pc_step.get [OF _ _ get(3) abs_wake_putter [of "num_workers p" m], of j "abs_ws p" "max_queue p" True do_work "results p"]
    abs_ws_nth [OF get(1)] get(2)
  show ?case by simp
next
  case (get_wait j p m)
  with pc_step.get_wait [of j "abs_ws p" "tasks p" "max_queue p" True do_work "abs_m (num_workers p) m" "results p"]
    abs_ws_nth [OF get_wait(1)] abs_ws_update [OF get_wait(1), of WWait]
  show ?case by simp
next
  case (work j p v m)
  let ?p = "(record_result v p)\<lparr>workers := (workers p)[j := WStored]\<rparr>"
  have "abs_ws ?p = (abs_ws p)[j := CGet]"
    using abs_ws_update [OF work(1), of WStored] abs_ws_cong [of ?p "p\<lparr>workers := (workers p)[j := WStored]\<rparr>"]
    by (simp add: record_result_def)
  with pc_step.store [of j "abs_ws p" v "max_queue p" True do_work "tasks p" "abs_m (num_workers p) m" "results p"]
    abs_ws_nth [OF work(1)] work(2)
  show ?case by (simp add: record_result_def)
next
  case (done_task j p w u m)
  let ?p = "p\<lparr>unfinished_tasks := u, workers := (workers p)[j := w]\<rparr>"
  have w: "abs_w w = abs_w (workers p ! j)" "worker_rank (workers p ! j) = 2" "worker_rank w = 0"
    using done_task(2) by (cases "workers p ! j"; auto)+
  then have "abs_ws ?p = abs_ws p"
    using abs_ws_update [OF done_task(1), of w] abs_ws_nth [OF done_task(1)]
      abs_ws_cong [of ?p "p\<lparr>workers := (workers p)[j := w]\<rparr>"]
    by simp (metis list_update_id)
  moreover have "sum_list (map worker_rank ((workers p)[j := w])) + 2 = sum_list (map worker_rank (workers p))"
    using sum_list_map_update [OF done_task(1), of worker_rank w] w by simp
  ultimately have "unseen (p, m) (?p, wake_joiner u m)"
    using wake_joiner_unseen [of "num_workers p" u m] by (simp add: unseen_def local_rank_def)
  then show ?case ..
qed (auto simp: unseen_def local_rank_def pool_inv_def)


lemma pool_any_sim:
  assumes "pool_any b s s'" "pool_inv s" "0 < max_queue (fst s)"
  shows "pc_any (max_queue (fst s)) True do_work (abs_pool s) (abs_pool s') \<or> abs_pool s' = abs_pool s"
  using assms(1) unfolding pool_any_def
proof (elim disjE conjE)
  assume "pool_step s s'"
  from pool_step_sim [OF this assms(2,3)] show ?thesis by (auto simp: unseen_def)
next
  assume "pool_spurious s s'"
  then show ?thesis
  proof (induction rule: pool_spurious.induct)
    case (worker j p m)
    with pc_spurious.consumer [of j "abs_ws p" "tasks p" "abs_m (num_workers p) m" "results p"]
      abs_ws_nth [OF worker(1)] abs_ws_update [OF worker(1), of WGet]
    show ?case by simp
  next
    case (submitter p ts)
    show ?case using pc_spurious.producer [of 0 "abs_m (num_workers p) (MSubmit ts True)" "tasks p" "abs_ws p" "results p"] by simp
  next
    case (putter p k)
    show ?case using pc_spurious.producer [of 1 "abs_m (num_workers p) (MPills k True)" "tasks p" "abs_ws p" "results p"] by simp
  qed simp
next
  assume "join_timeout s s'"
  then show ?thesis by (induction rule: join_timeout.induct) simp
qed

lemma pool_any_sizes: "pool_any b s s' \<Longrightarrow> max_queue (fst s') = max_queue (fst s) \<and> num_workers (fst s') = num_workers (fst s)"
  by (auto simp: pool_any_def spawn_worker_def record_result_def elim!: pool_step.cases pool_spurious.cases join_timeout.cases
      dest: pool_put_eq)

lemma pool_start: "pool_inv (pool_main ntasks nworkers maxsize)"
  "abs_pool (pool_main ntasks nworkers maxsize) = pool_init nworkers (map int [0..<ntasks])"
  "max_queue (fst (pool_main ntasks nworkers maxsize)) = maxsize" "num_workers (fst (pool_main ntasks nworkers maxsize)) = nworkers"
  by (simp_all add: pool_main_def new_pool_def pool_inv_def pool_init_def abs_ws_def)

lemma pool_reach:
  assumes "(pool_any b)\<^sup>*\<^sup>* (pool_main ntasks nworkers maxsize) s" "0 < maxsize"
  shows "pool_inv s \<and> max_queue (fst s) = maxsize \<and> num_workers (fst s) = nworkers \<and>
    (pc_any maxsize True do_work)\<^sup>*\<^sup>* (pool_init nworkers (map int [0..<ntasks])) (abs_pool s)"
  using assms(1)
proof (induction rule: rtranclp_induct)
  case base
  show ?case using pool_start [of ntasks nworkers maxsize] by simp
next
  case (step s s')
  note A = pool_any_sim [OF step(2)] pool_any_sizes [OF step(2)] pool_any_inv [OF step(2)]
  with step(3) assms(2) show ?case by (auto intro: rtranclp.rtrancl_into_rtrancl)
qed

lemma pool_reach_good:
  assumes "(pool_any b)\<^sup>*\<^sup>* (pool_main ntasks nworkers maxsize) s" "0 < maxsize"
  shows "pc_good maxsize True do_work nworkers (mset (map Item (map int [0..<ntasks])) + replicate_mset nworkers Pill) (abs_pool s)"
  using pc.reach_inv [OF conjunct2 [OF conjunct2 [OF conjunct2 [OF pool_reach [OF assms]]]] loaded_good [OF pool_init_loaded]] .


section \<open>Runs of the pool\<close>

lemma count_Item: "count (mset (map Item xs)) (Item v) = count (mset xs) v"
  by (induction xs) auto

lemma count_Item_Pill: "count (mset (map Item xs)) Pill = 0"
  by (induction xs) auto

lemma count_held: "count (mset (concat (map held cs))) x = sum_list (map (\<lambda>c. count (mset (held c)) x) cs)"
  by (induction cs) auto

fun past_join :: "mthread \<Rightarrow> bool" where
  "past_join (MStart _) = False"
| "past_join (MSubmit _ _) = False"
| "past_join (MJoin _) = False"
| "past_join _ = True"

lemma no_items_left:
  assumes "main_inv p m" "past_join m"
  shows "count (all_items (abs_pool (p, m))) (Item v) = 0"
proof -
  have "drained p" using assms by (cases m) auto
  then have "Item v \<notin> set (tasks p)" "WTask v \<notin> set (workers p)" by (auto simp: drained_def)
  moreover have "Item v \<notin> set (concat (map fst (abs_m (num_workers p) m)))" using assms(2) by (cases m) auto
  moreover have "Item v \<notin> set (held (abs_w w))" if "w \<in> set (workers p)" for w
    using that calculation(2) by - (cases w, auto)
  ultimately show ?thesis
    by (auto simp: all_items_def abs_ws_def count_eq_zero_iff)
qed

lemma pool_accounting:
  assumes "(pool_any b)\<^sup>*\<^sup>* (pool_main ntasks nworkers maxsize) (p, m)" "0 < maxsize" "past_join m"
  shows "accounting_checks ntasks p = Inr ()"
proof -
  let ?vs = "map int [0..<ntasks]"
  have inv: "pool_inv (p, m)" using pool_reach [OF assms(1,2)] by blast
  obtain stored where st: "results p = map do_work stored"
    "all_items (abs_pool (p, m)) + mset (map Item stored) = mset (map Item ?vs) + replicate_mset nworkers Pill"
    using pool_reach_good [OF assms(1,2)] by (auto simp: pc_good_def)
  have "count (mset stored) v = count (mset ?vs) v" for v
  proof -
    have "count (all_items (abs_pool (p, m))) (Item v) = 0"
      using no_items_left [of p m v] inv assms(3) by (simp add: pool_inv_def)
    with arg_cong [OF st(2), of "\<lambda>M. count M (Item v)"] show ?thesis
      by (simp only: count_union count_Item count_replicate_mset) simp
  qed
  then have ms: "mset stored = mset ?vs" by (rule multiset_eqI)
  have "mset (results p) = mset (map do_work ?vs)" unfolding st(1) mset_map ms ..
  then have res: "mset (results p) = mset (map (\<lambda>i. int i * int i) [0..<ntasks])" by (simp add: do_work_def o_def)
  then have "sort (results p) = sort (map (\<lambda>i. int i * int i) [0..<ntasks])"
    by (metis mset_sort properties_for_sort sorted_sort)
  with mset_eq_length [OF res] inv show ?thesis by (simp add: accounting_checks_def py_assert_def pool_inv_def)
qed

subsection \<open>Workers that have ended\<close>

lemma exit_update: "i < length ws \<Longrightarrow> ws ! i = WExit \<Longrightarrow> ws ! j \<noteq> WExit \<Longrightarrow> ws[j := w] ! i = WExit"
  by (cases "i = j") auto

lemma wake_worker_exit: "wake_worker ws ws' \<Longrightarrow> i < length ws \<Longrightarrow> ws ! i = WExit \<Longrightarrow> ws' ! i = WExit"
  by (induction rule: wake_worker.induct) (auto simp: nth_list_update)

lemma exit_stays:
  assumes "pool_step s s' \<or> pool_spurious s s'" "i < length (workers (fst s))" "workers (fst s) ! i = WExit"
  shows "i < length (workers (fst s')) \<and> workers (fst s') ! i = WExit"
  using assms(1)
proof
  assume "pool_step s s'"
  then show ?thesis
    using assms(2,3)
  proof (induction rule: pool_step.induct)
    case (submit t p p' ws ts)
    then show ?case using wake_worker_facts [OF submit(2)] wake_worker_exit [OF submit(2)] by simp
  next
    case (pill p p' ws k)
    then show ?case using wake_worker_facts [OF pill(2)] wake_worker_exit [OF pill(2)] by simp
  next
    case (done_task j p w u m)
    then show ?case by (cases "i = j") auto
  qed (auto simp: spawn_worker_def nth_append nth_list_update record_result_def)
next
  assume "pool_spurious s s'"
  then show ?thesis
    using assms(2,3) by (induction rule: pool_spurious.induct) (auto simp: nth_list_update)
qed

fun joined_ended :: "pool_state \<Rightarrow> bool" where
  "joined_ended (p, MJoinWorkers k) \<longleftrightarrow> k \<le> length (workers p) \<and> (\<forall>i < k. workers p ! i = WExit)"
| "joined_ended (p, MChecks) \<longleftrightarrow> (\<forall>i < length (workers p). workers p ! i = WExit)"
| "joined_ended (p, _) \<longleftrightarrow> True"


lemma joined_endedI:
  assumes "joined_ended (p, m)" "length (workers p') = length (workers p)"
    and "\<And>i. i < length (workers p) \<Longrightarrow> workers p ! i = WExit \<Longrightarrow> workers p' ! i = WExit"
  shows "joined_ended (p', m)"
  using assms by (cases m) auto

lemma joined_ended_wake:
  "joined_ended (p, m) \<Longrightarrow> joined_ended (p, wake_putter m)" "joined_ended (p, m) \<Longrightarrow> joined_ended (p, wake_joiner u m)"
  by (cases m; simp)+

lemma joined_ended_step:
  assumes "pool_any False s s'" "pool_inv s" "joined_ended s"
  shows "joined_ended s'"
proof -
  have st: "pool_step s s' \<or> pool_spurious s s'" using assms(1) by (simp add: pool_any_def)
  have keep: "joined_ended (fst s', snd s)" if "length (workers (fst s')) = length (workers (fst s))"
    by (rule joined_endedI [of "fst s"]) (use assms(3) that exit_stays [OF st] in auto)
  from st show ?thesis
  proof
    assume "pool_step s s'"
    then show ?thesis
      using keep assms(3)
    proof (induction rule: pool_step.induct)
      case (join_worker k p)
      then show ?case by (auto simp: less_Suc_eq)
    next
      case (done_task j p w u m)
      then show ?case by (intro joined_ended_wake) simp
    next
      case (get j p x q m)
      then show ?case by (intro joined_ended_wake) simp
    qed (auto simp: record_result_def)
  next
    assume "pool_spurious s s'"
    then show ?thesis
      using keep by (induction rule: pool_spurious.induct) auto
  qed
qed

lemma pool_reach_ended:
  assumes "(pool_any False)\<^sup>*\<^sup>* (pool_main ntasks nworkers maxsize) s"
  shows "joined_ended s"
  using assms
proof (induction rule: rtranclp_induct)
  case base
  show ?case by (simp add: pool_main_def)
next
  case (step s s')
  from pool.reach_inv [OF step(1) pool_start(1)] step(2,3) show ?case using joined_ended_step by blast
qed

lemma pill_count:
  assumes "(pool_any b)\<^sup>*\<^sup>* (pool_main ntasks nworkers maxsize) s" "0 < maxsize"
  shows "count (all_items (abs_pool s)) Pill = nworkers"
proof -
  obtain stored where
    "all_items (abs_pool s) + mset (map Item stored) = mset (map Item (map int [0..<ntasks])) + replicate_mset nworkers Pill"
    using pool_reach_good [OF assms] by (auto simp: pc_good_def)
  from arg_cong [OF this, of "\<lambda>M. count M Pill"] show ?thesis
    by (simp only: count_union count_Item_Pill count_replicate_mset) simp
qed

lemma pool_ends_clean:
  assumes "(pool_any False)\<^sup>*\<^sup>* (pool_main ntasks nworkers maxsize) (p, MChecks)" "0 < maxsize"
  shows "tasks p = []" "list_all (\<lambda>w. w = WExit) (workers p)"
proof -
  show ended: "list_all (\<lambda>w. w = WExit) (workers p)"
    using pool_reach_ended [OF assms(1)] by (simp add: list_all_length)
  note R = pool_reach [OF assms]
  then have "drained p" "length (workers p) = nworkers" by (auto simp: pool_inv_def)
  moreover from this ended R have "mset (concat (map held (abs_ws p))) = replicate_mset nworkers Pill"
  proof -
    have "workers p = replicate nworkers WExit"
      using ended \<open>length (workers p) = nworkers\<close> by (intro replicate_eqI) (auto simp: list_all_iff)
    moreover have "concat (replicate n [Pill]) = replicate n Pill" for n by (induction n) auto
    ultimately show ?thesis using R by (simp add: abs_ws_def)
  qed
  ultimately have "x \<notin> set (tasks p)" for x
    using pill_count [OF assms]
    by (cases x) (auto simp: all_items_def drained_def)
  then show "tasks p = []" by (cases "tasks p") auto
qed


subsection \<open>No deadlock\<close>

text \<open>What holds of a state in which no thread can move.\<close>

lemma pool_stuckD:
  assumes no: "\<And>s'. \<not> pool_step (p, m) s'" and inv: "pool_inv (p, m)"
  shows "w \<in> set (workers p) \<Longrightarrow> w = WWait \<or> w = WExit"
    and "m \<noteq> MStart ts" "m \<noteq> MSubmit ts False" "m \<noteq> MJoin False" "m \<noteq> MPills k False"
    and "m = MJoinWorkers k \<Longrightarrow> k < length (workers p) \<and> workers p ! k \<noteq> WExit"
proof -
  show "w = WWait \<or> w = WExit" if w: "w \<in> set (workers p)"
  proof -
    obtain j where j: "j < length (workers p)" "workers p ! j = w" using w by (auto simp: in_set_conv_nth)
    have "\<not> (\<exists>w'. after_done w = Some w')"
    proof
      assume "\<exists>w'. after_done w = Some w'"
      then obtain w' where w': "after_done w = Some w'" ..
      have "in_hand w \<le> sum_list (map in_hand (workers p))" using in_hand_pos [OF j(1)] j(2) by simp
      then have "0 < unfinished_tasks p" using after_done_hand [OF w'] inv by (simp add: pool_inv_def)
      then have "task_done (unfinished_tasks p) = Inr (unfinished_tasks p - 1)" by (simp add: task_done_def)
      with no pool_step.done_task [OF j(1), of w'] w' j(2) show False by blast
    qed
    moreover have "w \<noteq> WTask v" for v using no pool_step.work [OF j(1), of v m] j(2) by blast
    moreover have "w \<noteq> WGet"
      using no pool_step.get [OF j(1)] pool_step.get_wait [OF j(1)] j(2) by (cases "buf_get (tasks p)") fastforce+
    ultimately show ?thesis by (cases w) auto
  qed
  have len: "length (workers p) \<le> num_workers p" using inv by (cases m) (auto simp: pool_inv_def)
  show "m \<noteq> MStart ts"
    using no pool_step.spawn [of p] pool_step.started [of p] len by (cases "length (workers p) = num_workers p") auto
  have wake: "\<exists>ws. wake_worker (workers p) ws" by (metis wake_worker.intros in_set_conv_nth)
  show "m \<noteq> MSubmit ts False"
  proof
    assume m: "m = MSubmit ts False"
    show False
    proof (cases ts)
      case Nil
      with no m pool_step.submitted show ?thesis by blast
    next
      case (Cons t us)
      with no m wake show ?thesis
        by (cases "pool_put (Item t) p") (blast intro: pool_step.submit pool_step.submit_wait)+
    qed
  qed
  show "m \<noteq> MJoin False" using no pool_step.join_wait [of p] pool_step.joined [of p] by auto
  show "m \<noteq> MPills k False"
    using no pool_step.pills_put [of p] pool_step.pill [of p] pool_step.pill_wait [of p] wake
    by (cases k; cases "pool_put Pill p") fastforce+
  show "m = MJoinWorkers k \<Longrightarrow> k < length (workers p) \<and> workers p ! k \<noteq> WExit"
    using no pool_step.join_worker [of k p] pool_step.all_joined [of k p] inv
    by (cases "k = length (workers p)") (auto simp: pool_inv_def)
qed


lemma abs_stuck:
  assumes run: "(pool_any b)\<^sup>*\<^sup>* (pool_main ntasks nworkers maxsize) (p, m)" "0 < maxsize"
    and no: "\<And>s'. \<not> pool_step (p, m) s'"
  shows "\<not> pc_step maxsize True do_work (abs_pool (p, m)) a"
proof
  have inv: "pool_inv (p, m)" "num_workers p = nworkers" using pool_reach [OF run] by auto
  note D = pool_stuckD [OF no inv(1)]
  have len: "length (workers p) = num_workers p" using inv(1) D(2) by (cases m) (auto simp: pool_inv_def)
  have ws: "c = CWait \<or> c = CExit" if "c \<in> set (abs_ws p)" for c
    using that D(1) len by (force simp: abs_ws_def)
  have pill: "count (all_items (abs_pool (p, m))) Pill = nworkers" by (rule pill_count [OF run])
  have put: False if i: "i < length (abs_m nworkers m)" "abs_m nworkers m ! i = (x # xs, False)"
    and g: "gate True (tasks p) (abs_m nworkers m) (abs_ws p) i" for i x xs
  proof (cases m)
    case (MJoin asleep)
    with D(4) have "asleep" by (cases asleep) auto
    with inv(1) MJoin have "unfinished_tasks p \<noteq> 0" by (simp add: pool_inv_def)
    moreover have "in_hand w = 0" if "w \<in> set (workers p)" for w using D(1) [OF that] by auto
    then have "sum_list (map in_hand (workers p)) = 0" by simp
    ultimately have "tasks p \<noteq> []" using inv(1) by (auto simp: pool_inv_def)
    then obtain y ys where t: "tasks p = y # ys" by (cases "tasks p") auto
    have "i = 1" using i MJoin by (auto simp: less_Suc_eq)
    with g t MJoin have "y = Pill" by (cases y) (auto simp: gate_def)
    with pill t MJoin inv(2) show False by (simp add: all_items_def)
  next
    case (MSubmit ts asleep)
    with D(3) inv(1) have "ts \<noteq> []" by (cases asleep) (auto simp: pool_inv_def)
    with i g MSubmit D(3) [of ts] show False by (auto simp: gate_def less_Suc_eq)
  qed (use i D in \<open>auto simp: less_Suc_eq\<close>)
  assume "pc_step maxsize True do_work (abs_pool (p, m)) a"
  then show False
  proof cases
    case (get j cs buf x buf' ps ps' out)
    then show False using ws [of CGet] nth_mem [of j cs] by auto
  next
    case (get_wait j cs buf ps out)
    then show False using ws [of CGet] nth_mem [of j cs] by auto
  next
    case (store j cs v buf ps out)
    then show False using ws [of "CHold v"] nth_mem [of j cs] by auto
  qed (use put inv(2) in auto)
qed

lemma pool_progress:
  assumes run: "(pool_any b)\<^sup>*\<^sup>* (pool_main ntasks nworkers maxsize) (p, m)" and pos: "0 < nworkers" "0 < maxsize"
    and "m \<noteq> MChecks"
  shows "\<exists>s'. pool_step (p, m) s'"
proof (rule ccontr)
  assume "\<nexists>s'. pool_step (p, m) s'"
  then have no: "\<not> pool_step (p, m) s'" for s' by blast
  have inv: "pool_inv (p, m)" "num_workers p = nworkers" using pool_reach [OF run pos(2)] by auto
  note D = pool_stuckD [OF no inv(1)]
  have "\<nexists>a. pc_step maxsize True do_work (tasks p, abs_m nworkers m, abs_ws p, results p) a"
    using abs_stuck [OF run pos(2) no] inv(2) by simp
  from finished_run [OF pool_init_loaded pos _ this] pool_reach [OF run pos(2)]
  have "\<forall>c \<in> set (abs_ws p). c = CExit" by (auto simp: inv(2))
  moreover have "\<forall>q \<in> set (abs_m nworkers m). fst q = []"
  proof -
    have "count (mset (map Item (map int [0..<ntasks])) + replicate_mset nworkers Pill) Pill = nworkers"
      by (simp only: count_union count_Item_Pill count_replicate_mset) simp
    from stuck_finished [OF _ this pos] pool_reach_good [OF run pos(2)] abs_stuck [OF run pos(2) no]
    show ?thesis using inv(2) by auto
  qed
  ultimately show False
    using assms(4) inv D(2-) pos(1)
  proof (cases m)
    case (MJoinWorkers k)
    with D(6) [of k] have k: "k < length (workers p)" "workers p ! k \<noteq> WExit" by auto
    with abs_ws_nth [OF k(1)] \<open>\<forall>c \<in> set (abs_ws p). c = CExit\<close> have "abs_w (workers p ! k) = CExit" by (metis nth_mem)
    with D(1) [of "workers p ! k"] k show False by (auto simp: nth_mem)
  qed (auto simp: pool_inv_def)
qed


subsection \<open>Every run ends\<close>

lemma pool_step_less:
  assumes "pool_step s s'" "(pool_any b)\<^sup>*\<^sup>* (pool_main ntasks nworkers maxsize) s" "0 < maxsize"
  shows "((weight (abs_pool s'), local_rank s'), (weight (abs_pool s), local_rank s)) \<in> less_than <*lex*> less_than"
proof -
  have "pc_step maxsize True do_work (abs_pool s) (abs_pool s') \<or> unseen s s'"
    using pool_step_sim [OF assms(1)] pool_reach [OF assms(2,3)] assms(3) by simp
  then show ?thesis by (auto simp: unseen_def simp del: abs_pool.simps dest: pc_step_weight)
qed

lemma pool_terminates:
  assumes "0 < maxsize"
  shows "wfp (\<lambda>s' s. (pool_any b)\<^sup>*\<^sup>* (pool_main ntasks nworkers maxsize) s \<and> pool_step s s')"
proof -
  let ?rank = "\<lambda>s. (weight (abs_pool s), local_rank s)"
  have "wf (inv_image (less_than <*lex*> less_than) ?rank)" by (rule wf_inv_image) (rule wf_lex_prod [OF wf_less_than wf_less_than])
  then show ?thesis
    unfolding wfp_def by (rule wf_subset) (use pool_step_less [OF _ _ assms] in \<open>auto simp: inv_image_def simp del: in_lex_prod abs_pool.simps\<close>)
qed

lemma pool_completes:
  assumes "0 < nworkers" "0 < maxsize"
  shows "\<exists>p. (pool_any False)\<^sup>*\<^sup>* (pool_main ntasks nworkers maxsize) (p, MChecks)"
proof -
  let ?R = "\<lambda>s. (pool_any False)\<^sup>*\<^sup>* (pool_main ntasks nworkers maxsize) s"
  have start: "pool_main ntasks nworkers maxsize \<in> {s. ?R s}" by simp
  from pool_terminates [OF assms(2), of False ntasks nworkers, unfolded wfp_eq_minimal, rule_format, OF start]
  obtain s where s: "?R s" and min: "\<And>s'. ?R s \<and> pool_step s s' \<Longrightarrow> \<not> ?R s'" by blast
  obtain p m where pm: "s = (p, m)" by (cases s)
  have "m = MChecks"
  proof (rule ccontr)
    assume "m \<noteq> MChecks"
    from pool_progress [OF s [unfolded pm] assms this] obtain s' where "pool_step s s'" by (auto simp: pm)
    moreover from this s have "?R s'" by (auto simp: pool_any_def intro: rtranclp.rtrancl_into_rtrancl)
    ultimately show False using min s by blast
  qed
  with s pm show ?thesis by blast
qed

section \<open>Properties\<close>

text \<open>
  C4. \<^verbatim>\<open>worker_pool.py\<close> as written: with at least one worker and a bounded queue, in every interleaving
  (spurious wakeups included) the queue stays within \<^verbatim>\<open>maxsize\<close>, some thread can move until \<^verbatim>\<open>main\<close> reaches its checks, and
  then all five succeed: every task was squared exactly once, the queue is empty and all workers have ended. No run is infinite.
\<close>

theorem worker_pool_main:
  assumes "0 < nworkers" "0 < maxsize"
    and "(pool_any False)\<^sup>*\<^sup>* (pool_main ntasks nworkers maxsize) (p, m)"
  shows "length (tasks p) \<le> maxsize \<and>
    (if m = MChecks then main_checks ntasks p = Inr () else \<exists>s'. pool_step (p, m) s') \<and>
    wfp (\<lambda>s' s. (pool_any False)\<^sup>*\<^sup>* (pool_main ntasks nworkers maxsize) s \<and> pool_step s s')"
proof (intro conjI)
  show "length (tasks p) \<le> maxsize"
    using pool_reach_good [OF assms(3,2)] pc_invD(3) by (auto simp: pc_good_def)
  show "if m = MChecks then main_checks ntasks p = Inr () else \<exists>s'. pool_step (p, m) s'"
  proof (cases "m = MChecks")
    case True
    with assms(3) pool_ends_clean [OF _ assms(2)] pool_accounting [OF _ assms(2), of False ntasks nworkers p MChecks]
    show ?thesis by (simp add: main_checks_def py_assert_def)
  next
    case False
    with pool_progress [OF assms(3,1,2)] show ?thesis by simp
  qed
qed (rule pool_terminates [OF assms(2)])

theorem worker_pool_main_witness:
  "\<exists>p. (pool_any False)\<^sup>*\<^sup>* (pool_main 2000 8 100) (p, MChecks) \<and> main_checks 2000 p = Inr ()"
proof -
  obtain p where p: "(pool_any False)\<^sup>*\<^sup>* (pool_main 2000 8 100) (p, MChecks)" using pool_completes [of 8 100 2000] by auto
  with worker_pool_main [of 8 100 2000 p MChecks] show ?thesis by auto
qed

text \<open>
  C29. The pool refines the abstract bounded-queue system, also when \<^verbatim>\<open>t.join(timeout=5.0)\<close> gives up on workers that still
  run: the abstraction of every reachable state is reachable there, \<^verbatim>\<open>unfinished_tasks\<close> counts what is queued or in hand
  (so \<^verbatim>\<open>task_done\<close> never raises \<^verbatim>\<open>ValueError\<close>), \<^verbatim>\<open>completed\<close> is the number of results, and once \<^verbatim>\<open>tasks.join()\<close>
  has returned the three checks of the results succeed.
\<close>

theorem worker_pool_refines:
  assumes "0 < maxsize" "(pool_any timeouts)\<^sup>*\<^sup>* (pool_main ntasks nworkers maxsize) (p, m)"
  shows "(pc_any maxsize True do_work)\<^sup>*\<^sup>* (pool_init nworkers (map int [0..<ntasks])) (abs_pool (p, m)) \<and>
    unfinished_tasks p = int (length (tasks p) + sum_list (map in_hand (workers p))) \<and>
    (\<forall>w \<in> set (workers p). after_done w \<noteq> None \<longrightarrow> (\<exists>u. task_done (unfinished_tasks p) = Inr u)) \<and>
    completed p = int (length (results p)) \<and> (past_join m \<longrightarrow> accounting_checks ntasks p = Inr ())"
proof (intro conjI ballI impI)
  note R = pool_reach [OF assms(2,1)]
  show "(pc_any maxsize True do_work)\<^sup>*\<^sup>* (pool_init nworkers (map int [0..<ntasks])) (abs_pool (p, m))" using R by blast
  show u: "unfinished_tasks p = int (length (tasks p) + sum_list (map in_hand (workers p)))" "completed p = int (length (results p))"
    using R by (simp_all add: pool_inv_def)
  show "accounting_checks ntasks p = Inr ()" if "past_join m" by (rule pool_accounting [OF assms(2,1) that])
  show "\<exists>u. task_done (unfinished_tasks p) = Inr u" if w: "w \<in> set (workers p)" "after_done w \<noteq> None" for w
  proof -
    obtain j where "j < length (workers p)" "workers p ! j = w" using w(1) by (auto simp: in_set_conv_nth)
    then have "in_hand w \<le> sum_list (map in_hand (workers p))" using in_hand_pos by blast
    moreover have "in_hand w = 1" using w(2) after_done_hand by auto
    ultimately show ?thesis using u(1) by (simp add: task_done_def)
  qed
qed

theorem worker_pool_refines_witness:
  "\<exists>p. (pool_any True)\<^sup>*\<^sup>* (pool_main 2000 8 100) (p, MChecks) \<and> accounting_checks 2000 p = Inr ()"
proof -
  obtain p where "(pool_any False)\<^sup>*\<^sup>* (pool_main 2000 8 100) (p, MChecks)" using pool_completes [of 8 100 2000] by auto
  then have p: "(pool_any True)\<^sup>*\<^sup>* (pool_main 2000 8 100) (p, MChecks)"
    by (rule rtranclp_mono [THEN predicate2D, rotated]) (auto simp: pool_any_def)
  with worker_pool_refines [of 100 True 2000 8 p MChecks] show ?thesis by auto
qed

end
