(* ===== verification/Cert_Expiry.thy ===== *)
theory Cert_Expiry
  imports Psi Calendar
begin

text \<open>
  \<^verbatim>\<open>comp_networking/examples/cert_expiry_check.py\<close>: the reading of a \<^verbatim>\<open>notAfter\<close> text by \<^verbatim>\<open>ssl.cert_time_to_seconds\<close>
  (with \<^verbatim>\<open>time.strptime\<close> and \<^verbatim>\<open>calendar.timegm\<close>, which it calls), the severity, the live check, the self-test and \<^verbatim>\<open>main\<close>.
  The server's certificate, as \<^verbatim>\<open>getpeercert\<close> returns it, whether it is trusted, and the clock are arguments. Floats are rationals.
\<close>

section \<open>The text of a date\<close>

text \<open>A field of at most two digits, in the range that \<^verbatim>\<open>strptime\<close> accepts for it.\<close>

definition small_field :: "int \<Rightarrow> int \<Rightarrow> string \<Rightarrow> int res" where
  "small_field lo hi s =
     (if isdigit s \<and> length s \<le> 2
      then rbind (py_int 10 s) (\<lambda>n. if lo \<le> n \<and> n \<le> hi then Inr n else Inl ValueError)
      else Inl ValueError)"

definition year_field :: "string \<Rightarrow> int res" where
  "year_field s =
     (if isdigit s \<and> length s = 4 then rbind (py_int 10 s) (\<lambda>n. if 1 \<le> n then Inr n else Inl ValueError) else Inl ValueError)"

text \<open>\<^verbatim>\<open>strptime(s, ' %d %H:%M:%S %Y GMT')\<close>: white space stands for any amount of it, and nothing may follow.\<close>

definition strptime_fields :: "string \<Rightarrow> (int \<times> int \<times> int \<times> int \<times> int) res" where
  "strptime_fields s =
     (if s = [] \<or> \<not> is_space (hd s) \<or> is_space (last s) then Inl ValueError
      else case split_ws s of
          [d, t, y, z] \<Rightarrow>
            (case split_on CHR '':'' t of
               [h, mi, sec] \<Rightarrow>
                 if lower_ascii z \<noteq> ''gmt'' then Inl ValueError
                 else rbind (small_field 1 31 d) (\<lambda>d. rbind (small_field 0 23 h) (\<lambda>h. rbind (small_field 0 59 mi) (\<lambda>mi.
                      rbind (small_field 0 61 sec) (\<lambda>sec. rbind (year_field y) (\<lambda>y. Inr (d, h, mi, sec, y))))))
             | _ \<Rightarrow> Inl ValueError)
        | _ \<Rightarrow> Inl ValueError)"

definition MONTHS :: "string list" where
  "MONTHS = [''jan'', ''feb'', ''mar'', ''apr'', ''may'', ''jun'', ''jul'', ''aug'', ''sep'', ''oct'', ''nov'', ''dec'']"

fun month_index :: "string \<Rightarrow> string list \<Rightarrow> nat option" where
  "month_index s [] = None"
| "month_index s (x # xs) = (if s = x then Some 0 else map_option Suc (month_index s xs))"

definition cert_seconds :: "string \<Rightarrow> int res" where
  "cert_seconds notafter =
     (case month_index (lower_ascii (take 3 notafter)) MONTHS of
        None \<Rightarrow> Inl ValueError
      | Some i \<Rightarrow> rbind (strptime_fields (drop 3 notafter)) (\<lambda>(d, h, mi, sec, y). Inr (timegm y (i + 1) d h mi sec)))"

section \<open>The check\<close>

definition days_until :: "string \<Rightarrow> rat \<Rightarrow> rat res" where
  "days_until notafter now = rbind (cert_seconds notafter) (\<lambda>s. Inr ((of_int s - now) / 86400))"

definition severity :: "rat \<Rightarrow> string" where
  "severity days = (if days < 0 then ''EXPIRED'' else if days < 7 then ''CRITICAL'' else if days < 30 then ''WARNING'' else ''OK'')"

text \<open>
  The handshake of \<^verbatim>\<open>ssl.create_default_context()\<close> verifies the certificate: besides the chain of trust, the host name and the start of
  validity (\<open>trusted\<close>) OpenSSL refuses one whose end of validity is not later than the time \<open>t\<close> of the handshake. \<open>served\<close> is the
  connection and the certificate of the server, in the form in which \<^verbatim>\<open>getpeercert()\<close> returns it.
\<close>

definition tls_verified :: "bool \<Rightarrow> (string, string) dict \<Rightarrow> rat \<Rightarrow> bool" where
  "tls_verified trusted cert t \<longleftrightarrow> trusted \<and>
     (case map_of cert ''notAfter'' of None \<Rightarrow> True
      | Some notafter \<Rightarrow> (case cert_seconds notafter of Inl _ \<Rightarrow> False | Inr s \<Rightarrow> t < of_int s))"

definition fetch_notafter ::
  "(string \<Rightarrow> int \<Rightarrow> (string, string) dict res) \<Rightarrow> (string \<Rightarrow> (string, string) dict \<Rightarrow> bool) \<Rightarrow> rat \<Rightarrow> string \<Rightarrow> int \<Rightarrow> string res" where
  "fetch_notafter served trusted t host port =
     rbind (served host port) (\<lambda>cert.
     if tls_verified (trusted host cert) cert t then dict_lookup cert ''notAfter'' else Inl OSError)"

text \<open>
  What \<^verbatim>\<open>check_live\<close> prints: nothing but an error message (\<open>None\<close>) when the certificate cannot be fetched, else the end of
  validity, the days left, the flag and whether the advice follows. A date that cannot be read is not caught.
\<close>

definition check_live :: "string res \<Rightarrow> rat \<Rightarrow> (string \<times> rat \<times> string \<times> bool) option res" where
  "check_live fetched now = (case fetched of
       Inl e \<Rightarrow> Inr None
     | Inr notafter \<Rightarrow> rbind (days_until notafter now) (\<lambda>d.
         let sev = severity d; flag = (if sev = ''OK'' then '''' else ''  <== '' @ sev)
         in Inr (Some (notafter, d, flag, sev \<noteq> ''OK''))))"

definition cert_selftest :: "unit res" where
  "cert_selftest =
     rbind (cert_seconds ''Jan  1 00:00:00 2026 GMT'') (\<lambda>now.
     let now = of_int now in
     rbind (days_until ''Jun  1 00:00:00 2026 GMT'' now) (\<lambda>d_far.
     rbind (days_until ''Jan 20 00:00:00 2026 GMT'' now) (\<lambda>d_soon.
     rbind (days_until ''Jan  5 00:00:00 2026 GMT'' now) (\<lambda>d_crit.
     rbind (days_until ''Dec 25 00:00:00 2025 GMT'' now) (\<lambda>d_past.
     rbind (py_assert (\<bar>d_far - 151\<bar> < 1)) (\<lambda>_. rbind (py_assert (\<bar>d_soon - 19\<bar> < 1)) (\<lambda>_.
     rbind (py_assert (severity d_far = ''OK'')) (\<lambda>_. rbind (py_assert (severity d_soon = ''WARNING'')) (\<lambda>_.
     rbind (py_assert (severity d_crit = ''CRITICAL'')) (\<lambda>_. py_assert (severity d_past = ''EXPIRED''))))))))))) "

text \<open>\<^verbatim>\<open>main\<close> on \<^verbatim>\<open>sys.argv[1:]\<close>.\<close>

datatype cert_run = Self_Test "unit res" | Live "(string \<times> rat \<times> string \<times> bool) option"

definition cert_main ::
  "(string \<Rightarrow> int \<Rightarrow> (string, string) dict res) \<Rightarrow> (string \<Rightarrow> (string, string) dict \<Rightarrow> bool) \<Rightarrow> string list \<Rightarrow> rat \<Rightarrow> rat \<Rightarrow> cert_run res" where
  "cert_main served trusted args t now =
     (if ''--selftest'' \<in> set args \<or> args = [] then Inr (Self_Test cert_selftest)
      else
        let host = args ! 0 in
        rbind (if length args > 1 \<and> isdigit (args ! 1) then py_int 10 (args ! 1) else Inr 443) (\<lambda>port.
        rbind (check_live (fetch_notafter served trusted t host port) now) (\<lambda>r. Inr (Live r))))"

section \<open>Reading back a printed date\<close>

text \<open>The date as OpenSSL prints it: \<^verbatim>\<open>Jun  1 12:00:00 2026 GMT\<close>.\<close>

definition pad4 :: "nat \<Rightarrow> string" where
  "pad4 n = [digit_char (n div 1000), digit_char (n div 100 mod 10), digit_char (n div 10 mod 10), digit_char (n mod 10)]"

definition month_names :: "string list" where
  "month_names = [''Jan'', ''Feb'', ''Mar'', ''Apr'', ''May'', ''Jun'', ''Jul'', ''Aug'', ''Sep'', ''Oct'', ''Nov'', ''Dec'']"

definition print_date :: "nat \<Rightarrow> nat \<Rightarrow> nat \<Rightarrow> nat \<Rightarrow> nat \<Rightarrow> nat \<Rightarrow> string" where
  "print_date y m d h mi s = month_names ! (m - 1) @ (if d < 10 then ''  '' else '' '') @
     join_with '' '' [str_nat d, pad2 h @ '':'' @ pad2 mi @ '':'' @ pad2 s, pad4 y, ''GMT'']"

lemma isdigit_digits: "ds \<noteq> [] \<Longrightarrow> \<forall>d \<in> set ds. d < 10 \<Longrightarrow> isdigit (map digit_char ds)"
  by (auto simp: isdigit_def list_all_iff of_char_digit)

lemma py_int_digits:
  assumes "ds \<noteq> []" "\<forall>d \<in> set ds. d < 10"
  shows "py_int 10 (map digit_char ds) = Inr (foldl (\<lambda>acc d. acc * 10 + int d) 0 ds)"
proof -
  have read: "read_digits 10 acc False (map digit_char ds) = Some (foldl (\<lambda>acc d. acc * 10 + int d) acc ds)"
    if "\<forall>d \<in> set ds. d < 10" for acc ds
    using that by (induction ds arbitrary: acc) (auto simp: digit_char_facts)
  obtain c cs where ds: "ds = c # cs" using assms(1) by (cases ds) auto
  have nosp: "\<not> is_space (digit_char d)" if "d \<in> set ds" for d using that assms(2) digit_char_facts(8) by blast
  have "strip (map digit_char ds) = map digit_char ds"
    by (rule strip_by_id) (use nosp assms(1) in \<open>auto simp: hd_map last_map\<close>)
  moreover have "read_digits 10 0 True (map digit_char ds) = Some (foldl (\<lambda>acc d. acc * 10 + int d) 0 ds)"
    using read [of cs "int c"] assms(2) by (simp add: ds digit_char_facts)
  ultimately show ?thesis
    using assms(2) by (simp add: py_int_def read_unsigned_def drop_base_prefix_def ds digit_char_facts)
qed

lemma small_field_pad2:
  assumes "n < 100" "lo \<le> int n" "int n \<le> hi"
  shows "small_field lo hi (pad2 n) = Inr (int n)"
proof -
  have d: "pad2 n = map digit_char [n div 10, n mod 10]" by (simp add: pad2_def)
  have lt: "\<forall>d \<in> set [n div 10, n mod 10]. d < 10" using assms(1) by auto
  have "int (n div 10) * 10 + int (n mod 10) = int n" by (metis div_mult_mod_eq of_nat_add of_nat_mult of_nat_numeral)
  then have "py_int 10 (pad2 n) = Inr (int n)"
    unfolding d using py_int_digits [OF _ lt] by simp
  moreover have "isdigit (pad2 n)" unfolding d by (rule isdigit_digits [OF _ lt]) simp
  ultimately show ?thesis using assms by (simp add: small_field_def pad2_def)
qed

lemma year_field_pad4:
  assumes "1 \<le> n" "n < 10000"
  shows "year_field (pad4 n) = Inr (int n)"
proof -
  let ?ds = "[n div 1000, n div 100 mod 10, n div 10 mod 10, n mod 10]"
  have d: "pad4 n = map digit_char ?ds" by (simp add: pad4_def)
  have lt: "\<forall>d \<in> set ?ds. d < 10" using assms(2) by auto
  have "n div 1000 = n div 100 div 10" "n div 100 = n div 10 div 10" by (simp_all flip: div_mult2_eq)
  then have "((n div 1000 * 10 + n div 100 mod 10) * 10 + n div 10 mod 10) * 10 + n mod 10 = n"
    by (simp only: div_mult_mod_eq)
  then have "((int (n div 1000) * 10 + int (n div 100 mod 10)) * 10 + int (n div 10 mod 10)) * 10 + int (n mod 10) = int n"
    by (metis of_nat_add of_nat_mult of_nat_numeral)
  then have "py_int 10 (pad4 n) = Inr (int n)"
    unfolding d using py_int_digits [OF _ lt] by simp
  moreover have "isdigit (pad4 n)" unfolding d by (rule isdigit_digits [OF _ lt]) simp
  ultimately show ?thesis using assms by (simp add: year_field_def pad4_def)
qed

lemma small_field_day: "1 \<le> d \<Longrightarrow> d \<le> 31 \<Longrightarrow> small_field 1 31 (str_nat d) = Inr (int d)"
  using small_field_pad2 [of d 1 31] isdigit_digits [of "[d]"] py_int_digits [of "[d]"]
  by (cases "d < 10") (simp_all add: str_nat_eval pad2_def small_field_def)


lemma month_read: "i < 12 \<Longrightarrow> length (month_names ! i) = 3 \<and> month_index (lower_ascii (month_names ! i)) MONTHS = Some i"
proof -
  have "list_all (\<lambda>i. length (month_names ! i) = 3 \<and> month_index (lower_ascii (month_names ! i)) MONTHS = Some i) [0..<12]"
    by code_simp
  then show "i < 12 \<Longrightarrow> length (month_names ! i) = 3 \<and> month_index (lower_ascii (month_names ! i)) MONTHS = Some i"
    by (auto simp: list_all_iff)
qed

lemma digit_not_colon: "d < 10 \<Longrightarrow> digit_char d \<noteq> CHR '':''"
  using of_char_digit [of d] by auto

lemma pad4_chars:
  assumes "n < 10000" "c \<in> set (pad4 n)"
  shows "\<exists>d < 10. c = digit_char d"
proof -
  let ?ds = "{n div 1000, n div 100 mod 10, n div 10 mod 10, n mod 10}"
  have "c \<in> digit_char ` ?ds" using assms(2) by (auto simp: pad4_def)
  moreover have "n div 1000 < 10" by (rule less_mult_imp_div_less) (use assms(1) in simp)
  then have "\<forall>d \<in> ?ds. d < 10" by simp
  ultimately show ?thesis by blast
qed

lemma digits_word: "w \<noteq> [] \<Longrightarrow> (\<And>c. c \<in> set w \<Longrightarrow> \<exists>d < 10. c = digit_char d) \<Longrightarrow> is_word w"
  using digit_char_facts(8) unfolding is_word_def by blast

lemma time_word:
  assumes "h < 100" "mi < 100" "s < 100"
  shows "is_word (pad2 h @ '':'' @ pad2 mi @ '':'' @ pad2 s)"
    and "split_on CHR '':'' (pad2 h @ '':'' @ pad2 mi @ '':'' @ pad2 s) = [pad2 h, pad2 mi, pad2 s]"
proof -
  have col: "\<not> is_space CHR '':''" by (simp add: is_space_int)
  have w: "is_word (pad2 n)" if "n < 100" for n using pad2_chars [OF that] by (intro digits_word) (auto simp: pad2_def)
  show "is_word (pad2 h @ '':'' @ pad2 mi @ '':'' @ pad2 s)" using w assms col by (auto simp: is_word_def)
  have no: "CHR '':'' \<notin> set (pad2 n)" if "n < 100" for n using pad2_chars [OF that, of "CHR '':''"] digit_not_colon by metis
  have "split_on CHR '':'' (join_with [CHR '':''] [pad2 h, pad2 mi, pad2 s]) = [pad2 h, pad2 mi, pad2 s]"
    by (rule split_on_join) (use no assms in auto)
  then show "split_on CHR '':'' (pad2 h @ '':'' @ pad2 mi @ '':'' @ pad2 s) = [pad2 h, pad2 mi, pad2 s]" by simp
qed

lemma strptime_print:
  assumes "1 \<le> y" "y < 10000" "1 \<le> d" "d \<le> 31" "h < 24" "mi < 60" "s < 60" "sp \<in> {'' '', ''  ''}"
  shows "strptime_fields (sp @ join_with '' '' [str_nat d, pad2 h @ '':'' @ pad2 mi @ '':'' @ pad2 s, pad4 y, ''GMT'']) =
    Inr (int d, int h, int mi, int s, int y)"
proof -
  let ?ws = "[str_nat d, pad2 h @ '':'' @ pad2 mi @ '':'' @ pad2 s, pad4 y, ''GMT'']"
  have sp: "is_space CHR '' ''" by (simp add: is_space_int)
  have gmt: "is_word ''GMT''" "\<not> is_space CHR ''T''" "lower_ascii ''GMT'' = ''gmt''" by code_simp+
  have "is_word (pad4 y)" using pad4_chars [OF assms(2)] by (intro digits_word) (auto simp: pad4_def)
  moreover have "is_word (str_nat d)" using str_nat_digits by (intro digits_word) auto
  ultimately have "split_ws (join_with '' '' ?ws) = ?ws"
    using time_word(1) [of h mi s] gmt(1) assms by (intro split_ws_join) auto
  then have "split_ws (sp @ join_with '' '' ?ws) = ?ws" using sp assms(8) by auto
  moreover have "sp @ join_with '' '' ?ws \<noteq> []" "is_space (hd (sp @ join_with '' '' ?ws))" "last (sp @ join_with '' '' ?ws) = CHR ''T''"
    using assms(8) sp by auto
  ultimately show ?thesis
    using time_word(2) [of h mi s] assms gmt small_field_day [of d] year_field_pad4 [of y]
      small_field_pad2 [of h 0 23] small_field_pad2 [of mi 0 59] small_field_pad2 [of s 0 61]
    by (simp only: strptime_fields_def) simp
qed

text \<open>
  A printed date is read back as the seconds since the epoch: 86400 for every day that the calendar counts from the first of January
  1970, and the time of day.
\<close>

lemma cert_seconds_print:
  assumes "1 \<le> y" "y < 10000" "1 \<le> m" "m \<le> 12" "1 \<le> d" "d \<le> 31" "h < 24" "mi < 60" "s < 60"
  shows "cert_seconds (print_date y m d h mi s) =
    Inr (86400 * (toordinal (int y) m (int d) - toordinal 1970 1 1) + 3600 * int h + 60 * int mi + int s)"
proof -
  have "length (month_names ! (m - 1)) = 3" "month_index (lower_ascii (month_names ! (m - 1))) MONTHS = Some (m - 1)"
    using month_read [of "m - 1"] assms by auto
  moreover from this have "take 3 (print_date y m d h mi s) = month_names ! (m - 1)"
    "drop 3 (print_date y m d h mi s) = (if d < 10 then ''  '' else '' '') @
       join_with '' '' [str_nat d, pad2 h @ '':'' @ pad2 mi @ '':'' @ pad2 s, pad4 y, ''GMT'']"
    unfolding print_date_def by (simp_all del: join_with.simps append.simps)
  moreover have "strptime_fields ((if d < 10 then ''  '' else '' '') @
       join_with '' '' [str_nat d, pad2 h @ '':'' @ pad2 mi @ '':'' @ pad2 s, pad4 y, ''GMT'']) = Inr (int d, int h, int mi, int s, int y)"
    by (rule strptime_print) (use assms in auto)
  moreover have "timegm (int y) m (int d) (int h) (int mi) (int s) =
      86400 * (toordinal (int y) m (int d) - toordinal 1970 1 1) + 3600 * int h + 60 * int mi + int s"
    unfolding timegm_def Let_def epoch_ordinal by (simp add: toordinal_def algebra_simps)
  ultimately show ?thesis using assms(3) by (simp add: cert_seconds_def)
qed


section \<open>Properties\<close>

lemma severity_thresholds:
  "severity d = ''EXPIRED'' \<longleftrightarrow> d < 0" "severity d = ''CRITICAL'' \<longleftrightarrow> 0 \<le> d \<and> d < 7"
  "severity d = ''WARNING'' \<longleftrightarrow> 7 \<le> d \<and> d < 30" "severity d = ''OK'' \<longleftrightarrow> 30 \<le> d"
  by (auto simp: severity_def)

lemma cert_dates:
  "cert_seconds ''Jan  1 00:00:00 2026 GMT'' = Inr 1767225600" "cert_seconds ''Jun  1 00:00:00 2026 GMT'' = Inr 1780272000"
  "cert_seconds ''Jan 20 00:00:00 2026 GMT'' = Inr 1768867200" "cert_seconds ''Jan  5 00:00:00 2026 GMT'' = Inr 1767571200"
  "cert_seconds ''Dec 25 00:00:00 2025 GMT'' = Inr 1766620800"
  by code_simp+

lemma cert_selftest_passes: "cert_selftest = Inr ()"
  by (simp add: cert_selftest_def cert_dates days_until_def severity_def py_assert_def Let_def)

text \<open>
  C39. For a server whose certificate has a printed \<^verbatim>\<open>notAfter\<close>, with \<open>t\<close> the time of the handshake and \<open>now\<close> the later reading of the clock:
  a certificate that is trusted and has not ended at \<open>t\<close> is reported with the exact number of days left, counted by the calendar, as
  critical below 7 days, as a warning below 30 and with the advice to rotate exactly below 30. One that has ended, or is not trusted, is refused in
  the handshake and reported as an error, like an unreachable host; so \<^verbatim>\<open>EXPIRED\<close> is shown only for one that ends between the two
  moments. The self-test passes.
\<close>

theorem cert_check_exact:
  fixes t now :: rat
  assumes "1 \<le> y" "y < 10000" "1 \<le> m" "m \<le> 12" "1 \<le> d" "d \<le> 31" "h < 24" "mi < 60" "s < 60" "host \<noteq> ''--selftest''" "t \<le> now"
  defines "ends \<equiv> 86400 * (toordinal (int y) m (int d) - toordinal 1970 1 1) + 3600 * int h + 60 * int mi + int s"
  defines "days \<equiv> (of_int ends - now) / 86400"
  shows "(case served host 443 of
      Inl e \<Rightarrow> cert_main served trusted [host] t now = Inr (Live None)
    | Inr cert \<Rightarrow>
        (map_of cert ''notAfter'' = None \<longrightarrow> cert_main served trusted [host] t now = Inr (Live None)) \<and>
        (map_of cert ''notAfter'' = Some (print_date y m d h mi s) \<longrightarrow>
          (if trusted host cert \<and> t < of_int ends
           then \<exists>flag advice. cert_main served trusted [host] t now = Inr (Live (Some (print_date y m d h mi s, days, flag, advice))) \<and>
             (flag = ''  <== CRITICAL'' \<longleftrightarrow> 0 \<le> days \<and> days < 7) \<and> (flag = ''  <== WARNING'' \<longleftrightarrow> 7 \<le> days \<and> days < 30) \<and>
             (flag = ''  <== EXPIRED'' \<longleftrightarrow> of_int ends < now) \<and> (advice \<longleftrightarrow> days < 30) \<and> (flag = '''' \<longleftrightarrow> \<not> advice)
           else cert_main served trusted [host] t now = Inr (Live None)))) \<and>
    cert_main served trusted [] t now = Inr (Self_Test (Inr ()))"
proof -
  have secs: "cert_seconds (print_date y m d h mi s) = Inr ends" unfolding ends_def by (rule cert_seconds_print [OF assms(1-9)])
  then have "days_until (print_date y m d h mi s) now = Inr days" by (simp add: days_until_def days_def)
  moreover have "days < 0 \<longleftrightarrow> of_int ends < now" by (simp add: days_def)
  ultimately show ?thesis using assms(10) secs
    by (cases "served host 443")
      (auto simp: cert_main_def check_live_def fetch_notafter_def tls_verified_def dict_lookup_def cert_selftest_passes severity_def Let_def)
qed

text \<open>Twenty days before its end a certificate is a warning; twenty days after it the same certificate is only an error.\<close>

theorem cert_check_exact_witness:
  "cert_main (\<lambda>host port. Inr [(''notAfter'', ''Jan 20 00:00:00 2026 GMT'')]) (\<lambda>_ _. True) [''example.org''] 1767139199 1767139200 =
     Inr (Live (Some (''Jan 20 00:00:00 2026 GMT'', 20, ''  <== WARNING'', True))) \<and>
   cert_main (\<lambda>host port. Inr [(''notAfter'', ''Jan 20 00:00:00 2026 GMT'')]) (\<lambda>_ _. True) [''example.org''] 1770595199 1770595200 = Inr (Live None)"
proof -
  have p: "print_date 2026 (Suc 0) 20 0 0 0 = ''Jan 20 00:00:00 2026 GMT''" by code_simp
  have o: "toordinal 2026 (Suc 0) 20 = 739636" "toordinal 1970 (Suc 0) 1 = 719163" by code_simp+
  note T = cert_check_exact [of 2026 1 20 0 0 0 "''example.org''" _ _ "\<lambda>host port. Inr [(''notAfter'', ''Jan 20 00:00:00 2026 GMT'')]" "\<lambda>_ _. True"]
  show ?thesis using T [of 1767139199 1767139200] T [of 1770595199 1770595200] by (auto simp: p o)
qed

text \<open>The day is not checked against the month: the 31st of February is read as the 3rd of March.\<close>

lemma february_31: "cert_seconds ''Feb 31 00:00:00 2026 GMT'' = cert_seconds ''Mar  3 00:00:00 2026 GMT''"
  by code_simp

text \<open>A date without the zone is refused, and \<^verbatim>\<open>check_live\<close> does not catch that.\<close>

lemma bad_date_uncaught: "check_live (Inr ''Jan 20 00:00:00 2026'') now = Inl ValueError"
proof -
  have "cert_seconds ''Jan 20 00:00:00 2026'' = Inl ValueError" by code_simp
  then show ?thesis by (simp add: check_live_def days_until_def)
qed

end
