(* ===== verification/Spec2Isabelle.thy ===== *)
theory Spec2Isabelle
  imports Lru_Cache Subnet Dns Consistent_Hash Rate_Limiter Request_Signing Circuit_Breaker Http_Client Reverse_Proxy Bounded_Queue Lock_Order Supervisor Graceful_Shutdown X509
    Echo_Server Net_Probes Host_Probes Psi Tls_Demo Proxy_Scenario Tcp_Observer Lru_Demo Probe_Mains Worker_Pool Cert_Expiry
begin

text \<open>
  The repository is a course on operating systems, networking and system design. Its program code is the
  25 Python scripts under \<^verbatim>\<open>src/os_net/operating_system/examples\<close> and \<^verbatim>\<open>src/os_net/comp_networking/examples\<close>; the rest is
  text. Each script is a small system of its own: a data structure or protocol, the threads, sockets or files around it, and a
  main block whose assertions say what it should do. This development models all 25 of them and proves what makes them correct.

  \<^bold>\<open>How the scripts are modelled.\<close> A Python function is a HOL function on explicit state; a class is a record; what may raise
  returns \<open>'a res\<close>, a sum of \<open>py_error\<close> and the value, so that every exception and early return is a branch. Assertions are
  \<open>py_assert\<close>. Dictionaries with insertion order are association lists, Python's integers are \<open>int\<close>, bytes are 8-bit words or
  characters. A loop that need not end is a partial function into \<open>option\<close> (the prime searches) or has fuel with a lemma that it is
  enough (the walk over the linked list: the number of nodes ever allocated). Threads are step relations: a step is what happens between two
  accesses to shared state or under one lock, any thread may take the next step, and theorems quantify over all reachable states.
  What is not under \<^verbatim>\<open>src/\<close> or is the environment's choice is an argument: hash functions, random numbers, clock readings, what
  sockets, files and child processes answer, the rounding of floats in the limiters and the breaker.

  \<^bold>\<open>Shared theories.\<close> \<open>Prelude\<close>: results, exceptions, dictionaries, and the locales \<open>step_invariant\<close> (an invariant of a step
  relation holds in all reachable states) and \<open>step_progress\<close> (with a measure, runs are finite and end where nothing moves),
  which the thread systems interpret. \<open>Py_Str\<close>, \<open>Py_Bytes\<close>, \<open>Proc_Text\<close>: the parts of \<^verbatim>\<open>str\<close>, \<^verbatim>\<open>int\<close>, \<^verbatim>\<open>bytes\<close> and \<^verbatim>\<open>struct\<close> the scripts
  use, with the round trips between printing and parsing. \<open>Primes_RSA\<close>: the number theory behind RSA; \<open>Prime_Range\<close>: there are two usable
  primes of 1024 bits (Erdos' proof of Bertrand's postulate), so that the search of \<^verbatim>\<open>generate_rsa(2048)\<close> can end.

  \<^bold>\<open>Data structures and algorithms.\<close>
  \<^item> \<open>Lru_Cache\<close>, \<open>Lru_Demo\<close> (\<^verbatim>\<open>lru_cache.py\<close>): nodes in a pointer store, every pointer assignment of \<^verbatim>\<open>get\<close> and \<^verbatim>\<open>put\<close>. The list refines
    the recency order (locale \<open>recency_cache\<close>); with any number of threads the structure stays well-formed and the demo ends.
  \<^item> \<open>Subnet\<close> (\<^verbatim>\<open>subnet_calculator.py\<close>): parsing and masks with bit operations, splitting as a partition, VLSM, longest-prefix match.
  \<^item> \<open>Consistent_Hash\<close> (\<^verbatim>\<open>consistent_hash.py\<close>): binary search, the ring, lookup as the clockwise successor, minimal remapping, the main block.
  \<^item> \<open>Rate_Limiter\<close> (\<^verbatim>\<open>rate_limiter.py\<close>, the bucket of \<^verbatim>\<open>token_bucket_ratelimiter.py\<close>): burst-plus-rate bound over every stretch of a run under any
    rounding, the window limit, agreement of the two buckets.
  \<^item> \<open>Circuit_Breaker\<close> (\<^verbatim>\<open>circuit_breaker.py\<close>): when it trips, refuses and recovers, with interleaved callers.

  \<^bold>\<open>Threads and processes.\<close>
  \<^item> \<open>Bounded_Queue\<close> (\<^verbatim>\<open>producer_consumer.py\<close>): critical sections with condition variables, any wake-up; no lost item,
    no deadlock, termination.
  \<^item> \<open>Worker_Pool\<close> (\<^verbatim>\<open>worker_pool.py\<close>): the pool with the unfinished-task counter of its queue, the workers and the main thread at each place of
    \<^verbatim>\<open>start\<close>, the submit loop and \<^verbatim>\<open>shutdown\<close>; a simulation into the system of \<open>Bounded_Queue\<close>, from which the checks of \<^verbatim>\<open>main\<close> follow.
  \<^item> \<open>Lock_Order\<close> (\<^verbatim>\<open>deadlock_demo.py\<close>): the three lock protocols; the deadlock is always detected, the global order never deadlocks.
  \<^item> \<open>Supervisor\<close> (\<^verbatim>\<open>supervisor.py\<close>) and \<open>Graceful_Shutdown\<close> (\<^verbatim>\<open>graceful_shutdown.py\<close>): restarts with backoff, of children that may also never
    exit, and backoffs that \<^verbatim>\<open>time.sleep\<close> may refuse; no work is lost wherever a signal hits,
    in the worker alone and in the whole program.

  \<^bold>\<open>Protocols.\<close>
  \<^item> \<open>Dns\<close> (\<^verbatim>\<open>dns_query.py\<close>): the wire format; the reader of compressed names implements the relation \<open>name_at\<close>, which is RFC 1035 with the
    reserved length bytes read as labels and pointers in both directions, as in the code; replies are cut at 4096 bytes.
  \<^item> \<open>Http_Client\<close> (\<^verbatim>\<open>http_client.py\<close>): the receive loops give the result of a reader of the whole reply, however it is cut.
  \<^item> \<open>Reverse_Proxy\<close>, \<open>Proxy_Scenario\<close> (\<^verbatim>\<open>reverse_proxy.py\<close>): selection and relaying; then backends, health probes, handlers and clients interleaved,
    where round robin shares the load evenly in every schedule and \<^verbatim>\<open>least_connections\<close> may not.
  \<^item> \<open>Echo_Server\<close> (\<^verbatim>\<open>epoll_echo_server.py\<close>) and \<open>Tcp_Observer\<close> (\<^verbatim>\<open>tcp_handshake_observer.py\<close>): event loop and blocking echo over byte streams that are
    cut arbitrarily.
  \<^item> \<open>Request_Signing\<close> (the signing half of \<^verbatim>\<open>token_bucket_ratelimiter.py\<close>): what the verifier accepts, and that nothing is accepted twice.
  \<^item> \<open>Rsa_Keygen\<close>, \<open>Der\<close>, \<open>X509\<close>, \<open>Pem\<close>, \<open>Tls_Demo\<close> (\<^verbatim>\<open>tls_inspect.py\<close>): Miller-Rabin, keys, DER, PKCS#1 signatures, the certificate, PEM files and the
    fallbacks of the main block. A strict reader of DER, certificates and PKCS#8 and a verifier of signatures are the specification; \<open>Pem\<close> and \<open>Tls_Demo\<close> compose all of it.

  \<^bold>\<open>Probes.\<close> \<open>Net_Probes\<close> (\<^verbatim>\<open>socket_state_summary.py\<close>, \<^verbatim>\<open>port_exhaustion_probe.py\<close>, \<^verbatim>\<open>tcp_retrans_monitor.py\<close>), \<open>Host_Probes\<close>
  (\<^verbatim>\<open>rss_leak_detector.py\<close>, \<^verbatim>\<open>cgroup_throttle_watch.py\<close>, \<^verbatim>\<open>fork_cost_probe.py\<close>), \<open>Psi\<close> (\<^verbatim>\<open>psi_watcher.py\<close>): the parsers against what the
  kernel writes, the statistics, the self-tests; \<open>Probe_Programs\<close>: their monitoring loops and the generated sample of the port probe; \<open>Probe_Mains\<close>: their
  \<^verbatim>\<open>main\<close> functions with arguments, sleeps and fallbacks. \<open>Calendar\<close>: \<^verbatim>\<open>timegm\<close>, \<^verbatim>\<open>gmtime\<close> and their being
  inverse, shared with \<open>X509\<close>. \<open>Cert_Expiry\<close> (\<^verbatim>\<open>cert_expiry_check.py\<close>): \<^verbatim>\<open>ssl.cert_time_to_seconds\<close>,
  the exact days left of a certificate, when the check warns, and what the verifying handshake keeps from it.

  \<^bold>\<open>Interfaces.\<close> What one part promises another is a locale that the model interprets: \<open>recency_cache\<close> (what a client of the cache relies on),
  \<open>longest_match\<close> (a routing table), \<open>placement\<close> (the ring), \<open>rate_contract\<close> (both buckets), \<open>lock_discipline\<close> (the lock protocols, a
  sublocale of \<open>step_invariant\<close>), \<open>step_invariant\<close> and \<open>step_progress\<close> (all thread systems).

  \<^bold>\<open>Where the model is idealised.\<close> Finite floats are exact rationals, with an arbitrary rounding function where results could depend on it
  (limiters, breaker), without underflow. Text is characters below 256, non-ASCII dashes and ticks in messages are not kept. Timeouts may fire at any
  time; joins with a timeout are taken to be long enough where a theorem does not say otherwise (the worker pool and the graceful shutdown have both). \<^verbatim>\<open>queue.Queue\<close> waits and notifies like the raw buffer. Its condition variables wake only when notified, as CPython's do; spurious
  wake-ups are a relation of their own in \<open>Bounded_Queue\<close>, under which safety is shown and termination is not. Read and write of an
  attribute are atomic, as in CPython. The handler of \<open>Reverse_Proxy\<close> runs alone; what concurrent handlers do to the counts is
  \<open>inflight_step\<close>, and whole scenarios are interleaved in \<open>Proxy_Scenario\<close>. The second \<^verbatim>\<open>TokenBucket\<close> has no lock and is shown for
  calls that do not overlap.

  \<^bold>\<open>Not modelled.\<close> Printing; the creation of listening sockets and of the servers' threads; the TLS handshake, UDP, \<^verbatim>\<open>fork\<close> and the kernel's
  files, which are parameters; that MD5 spreads keys evenly and that SHA-256 and HMAC are hard to invert, which are facts about those functions.
\<close>

end
